(* ===== verification/Prelude.thy ===== *)
theory Prelude imports Main "HOL-Library.Word" begin

text \<open>
  Shared vocabulary of the development: the machine integers of
  \<^verbatim>\<open>include/alcp/types.h\<close>, the error codes of \<^verbatim>\<open>include/alcp/error.h\<close>, arrays as
  lists with writes in place, the view of a machine word as its bytes in memory
  (little endian, the only byte order \<^verbatim>\<open>ALCP_CONFIG_LITTLE_ENDIAN\<close> builds for), and
  the generic lemmas on them that the component theories use.
\<close>

unbundle bit_operations_syntax

section \<open>Machine integers, error codes\<close>

type_synonym u8 = "8 word"
type_synonym u16 = "16 word"
type_synonym u32 = "32 word"
type_synonym u64 = "64 word"
type_synonym u128 = "128 word"

datatype alc_error =
    ALC_ERROR_NONE
  | ALC_ERROR_GENERIC
  | ALC_ERROR_NOT_SUPPORTED
  | ALC_ERROR_NOT_PERMITTED
  | ALC_ERROR_EXISTS
  | ALC_ERROR_NOT_EXISTS
  | ALC_ERROR_INVALID_ARG
  | ALC_ERROR_BAD_STATE
  | ALC_ERROR_NO_MEMORY
  | ALC_ERROR_INVALID_DATA
  | ALC_ERROR_INVALID_SIZE
  | ALC_ERROR_HARDWARE_FAILURE
  | ALC_ERROR_NO_ENTROPY
  | ALC_ERROR_DUPLICATE_KEY
  | ALC_ERROR_TAG_MISMATCH

definition alcp_is_error :: "alc_error \<Rightarrow> bool" where
  "alcp_is_error err \<longleftrightarrow> err \<noteq> ALC_ERROR_NONE"

lemma alcp_is_error_NONE [simp]: "\<not> alcp_is_error ALC_ERROR_NONE"
  by (simp add: alcp_is_error_def)

named_theorems byte_simps \<open>words as bytes in memory\<close>
named_theorems buffer_simps \<open>writes into arrays\<close>

section \<open>Arrays\<close>

text \<open>
  A C array is the list of its elements. \<open>write_at i xs arr\<close> stores \<open>xs\<close> from index \<open>i\<close>
  on (\<^verbatim>\<open>memcpy(arr + i, xs, n)\<close>); the callers keep \<open>i + length xs\<close> within the array,
  which the components prove as part of their invariants.
\<close>

definition write_at :: "nat \<Rightarrow> 'a list \<Rightarrow> 'a list \<Rightarrow> 'a list" where
  "write_at i xs arr = take i arr @ xs @ drop (i + length xs) arr"

lemma length_write_at [simp]:
  "i + length xs \<le> length arr \<Longrightarrow> length (write_at i xs arr) = length arr"
  by (simp add: write_at_def)

lemma write_at_nil [simp]: "i \<le> length arr \<Longrightarrow> write_at i [] arr = arr"
  by (simp add: write_at_def)

lemma take_write_at_end [buffer_simps]:
  "i \<le> length arr \<Longrightarrow> n = i + length xs \<Longrightarrow> take n (write_at i xs arr) = take i arr @ xs"
  by (simp add: write_at_def)

lemma take_write_at_before [buffer_simps]:
  "n \<le> i \<Longrightarrow> n \<le> length arr \<Longrightarrow> take n (write_at i xs arr) = take n arr"
  by (simp add: write_at_def min_def)

lemma take_write_at_inside [buffer_simps]:
  "i + length xs \<le> n \<Longrightarrow> n \<le> length arr \<Longrightarrow> take n (write_at i xs arr) = write_at i xs (take n arr)"
proof -
  assume n: "i + length xs \<le> n" "n \<le> length arr"
  then obtain k where k: "n = i + (length xs + k)" by (metis add.assoc le_Suc_ex)
  have "take n (write_at i xs arr) = take i arr @ xs @ take k (drop (i + length xs) arr)"
  proof -
    have "min (length arr) i = i" using n by simp
    then show ?thesis using k by (simp add: write_at_def)
  qed
  also have "\<dots> = write_at i xs (take n arr)"
    using k by (simp add: write_at_def drop_take min_def)
  finally show ?thesis .
qed

lemma write_at_0: "length xs \<le> length arr \<Longrightarrow> take (length xs) (write_at 0 xs arr) = xs"
  by (simp add: write_at_def)

lemma nth_write_at:
  "i + length xs \<le> length arr \<Longrightarrow> j < length arr \<Longrightarrow>
   write_at i xs arr ! j = (if i \<le> j \<and> j < i + length xs then xs ! (j - i) else arr ! j)"
  by (auto simp: write_at_def nth_append min_def)

lemma write_at_single: "i < length arr \<Longrightarrow> write_at i [x] arr = arr[i := x]"
  by (simp add: write_at_def upd_conv_take_nth_drop)

lemma take_list_update_Suc: "i < length xs \<Longrightarrow> take (Suc i) (xs[i := x]) = take i xs @ [x]"
  by (simp add: take_Suc_conv_app_nth)

section \<open>Words as bytes in memory\<close>

text \<open>
  \<open>le_bytes n w\<close> is the \<open>n\<close> bytes of \<open>w\<close> as they lie in memory, and \<open>le_word\<close> reads
  them back: the two directions of the \<^verbatim>\<open>reinterpret_cast\<close> and \<^verbatim>\<open>memcpy\<close> between byte
  and word arrays. \<open>be_bytes\<close> and \<open>be_word\<close> are the network order.
\<close>

definition le_bytes :: "nat \<Rightarrow> 'a::len word \<Rightarrow> u8 list" where
  "le_bytes n w = map (\<lambda>i. ucast (drop_bit (8 * i) w)) [0..<n]"

fun le_word :: "u8 list \<Rightarrow> 'a::len word" where
  "le_word [] = 0"
| "le_word (b # bs) = ucast b OR push_bit 8 (le_word bs)"

definition be_bytes :: "nat \<Rightarrow> 'a::len word \<Rightarrow> u8 list" where
  "be_bytes n w = rev (le_bytes n w)"

definition be_word :: "u8 list \<Rightarrow> 'a::len word" where
  "be_word bs = le_word (rev bs)"

lemma length_le_bytes [simp]: "length (le_bytes n w) = n"
  by (simp add: le_bytes_def)

lemma length_be_bytes [simp]: "length (be_bytes n w) = n"
  by (simp add: be_bytes_def)

lemma nth_le_bytes: "i < n \<Longrightarrow> le_bytes n w ! i = ucast (drop_bit (8 * i) w)"
  by (simp add: le_bytes_def)

lemma bit_le_word:
  "bit (le_word bs :: 'a::len word) k \<longleftrightarrow>
   k < LENGTH('a) \<and> k div 8 < length bs \<and> bit (bs ! (k div 8)) (k mod 8)"
proof (induction bs arbitrary: k)
  case Nil
  then show ?case by simp
next
  case (Cons b bs)
  show ?case
  proof (cases "k < 8")
    case True
    then show ?thesis
      by (auto simp: bit_or_iff bit_unsigned_iff bit_push_bit_iff dest: bit_imp_le_length)
  next
    case False
    then have "k div 8 = Suc ((k - 8) div 8)" "k mod 8 = (k - 8) mod 8"
      by (simp_all add: le_div_geq le_mod_geq)
    with False show ?thesis
      by (auto simp: bit_or_iff bit_unsigned_iff bit_push_bit_iff Cons.IH dest: bit_imp_le_length)
  qed
qed

lemma le_word_le_bytes:
  assumes "LENGTH('a::len) \<le> 8 * n"
  shows "le_word (le_bytes n (w :: 'a word)) = w"
proof (rule bit_word_eqI)
  fix k assume k: "k < LENGTH('a)"
  then have "k div 8 < n" using assms by auto
  with k show "bit (le_word (le_bytes n w) :: 'a word) k = bit w k"
    by (simp add: bit_le_word nth_le_bytes bit_unsigned_iff bit_drop_bit_eq)
qed

lemma le_bytes_le_word:
  assumes "length bs = n" "8 * n \<le> LENGTH('a::len)"
  shows "le_bytes n (le_word bs :: 'a word) = bs"
proof (rule nth_equalityI)
  show "length (le_bytes n (le_word bs :: 'a word)) = length bs" using assms by simp
next
  fix i assume "i < length (le_bytes n (le_word bs :: 'a word))"
  then have i: "i < n" by simp
  show "le_bytes n (le_word bs :: 'a word) ! i = bs ! i"
  proof (rule bit_word_eqI)
    fix k assume k: "k < LENGTH(8)"
    then have "8 * i + k < LENGTH('a)" using i assms by simp
    with i k assms show "bit (le_bytes n (le_word bs :: 'a word) ! i) k = bit (bs ! i) k"
      by (simp add: nth_le_bytes bit_unsigned_iff bit_drop_bit_eq bit_le_word)
  qed
qed

lemma be_word_be_bytes:
  "LENGTH('a::len) \<le> 8 * n \<Longrightarrow> be_word (be_bytes n (w :: 'a word)) = w"
  by (simp add: be_word_def be_bytes_def le_word_le_bytes)

lemma be_bytes_be_word:
  "length bs = n \<Longrightarrow> 8 * n \<le> LENGTH('a::len) \<Longrightarrow> be_bytes n (be_word bs :: 'a word) = bs"
  by (simp add: be_word_def be_bytes_def le_bytes_le_word)

text \<open>An array of words read from, and written as, consecutive bytes.\<close>

fun le_words :: "nat \<Rightarrow> nat \<Rightarrow> u8 list \<Rightarrow> 'a::len word list" where
  "le_words sz 0 bs = []"
| "le_words sz (Suc n) bs = le_word (take sz bs) # le_words sz n (drop sz bs)"

lemma length_le_words [simp]: "length (le_words sz n bs) = n"
  by (induction n arbitrary: bs) auto

lemma nth_le_words:
  "i < n \<Longrightarrow> le_words sz n bs ! i = le_word (take sz (drop (sz * i) bs))"
proof (induction n arbitrary: bs i)
  case 0
  then show ?case by simp
next
  case (Suc n)
  then show ?case by (cases i) (simp_all add: add.commute)
qed

end
