(* ===== verification/Bytes.thy ===== *)
theory Bytes imports Prelude begin

text \<open>
  The portable helpers every primitive is built on: rotations
  (\<^verbatim>\<open>lib/include/alcp/utils/bits.hh\<close>), byte swaps (\<^verbatim>\<open>utils/endian.hh\<close>), the copy and
  padding loops (\<^verbatim>\<open>utils/copy.hh\<close>) and the constant-time comparison
  (\<^verbatim>\<open>utils/compare.hh\<close>). The build is little endian, so \<^verbatim>\<open>ToBigEndian\<close> is
  \<^verbatim>\<open>ReverseBytes\<close>. Pointers that may be null are options; a write outside the object
  a helper was given is the result \<open>None\<close>.
\<close>

unbundle bit_operations_syntax

section \<open>Rotations\<close>

text \<open>
  The shift counts of the C code are below the width (a shift by the width itself is
  undefined there); the callers pass constants.
\<close>

definition RotateRight32 :: "u32 \<Rightarrow> nat \<Rightarrow> u32" where
  "RotateRight32 v count = drop_bit count v OR push_bit (32 - count) v"

definition RotateRight64 :: "u64 \<Rightarrow> nat \<Rightarrow> u64" where
  "RotateRight64 v count = drop_bit count v OR push_bit (64 - count) v"

definition RotateLeft32 :: "u32 \<Rightarrow> nat \<Rightarrow> u32" where
  "RotateLeft32 v count = push_bit count v OR drop_bit (32 - count) v"

definition RotateLeft64 :: "u64 \<Rightarrow> u64 \<Rightarrow> u64" where
  "RotateLeft64 v count =
     push_bit (unat (count AND 63)) v OR drop_bit (unat ((64 - count) AND 63)) v"

section \<open>Byte swaps\<close>

definition ReverseBytes64 :: "u64 \<Rightarrow> u64" where
  "ReverseBytes64 v0 =
     (let v1 = drop_bit 8 (v0 AND 0xFF00FF00FF00FF00) OR push_bit 8 (v0 AND 0x00FF00FF00FF00FF);
          v2 = drop_bit 16 (v1 AND 0xFFFF0000FFFF0000) OR push_bit 16 (v1 AND 0x0000FFFF0000FFFF)
      in drop_bit 32 v2 OR push_bit 32 v2)"

definition ReverseBytes32 :: "u32 \<Rightarrow> u32" where
  "ReverseBytes32 v0 =
     (let v1 = drop_bit 8 (v0 AND 0xFF00FF00) OR push_bit 8 (v0 AND 0x00FF00FF)
      in drop_bit 16 v1 OR push_bit 16 v1)"

definition ReverseBytes16 :: "u16 \<Rightarrow> u16" where
  "ReverseBytes16 v = drop_bit 8 (v AND 0xFF00) OR push_bit 8 (v AND 0x00FF)"

definition ReverseBytes128 :: "u128 \<Rightarrow> u128" where
  "ReverseBytes128 v =
     (let high = ReverseBytes64 (ucast (drop_bit 64 v)); low = ReverseBytes64 (ucast v)
      in push_bit 64 (ucast low) OR ucast high)"

abbreviation ToBigEndian32 :: "u32 \<Rightarrow> u32" where "ToBigEndian32 \<equiv> ReverseBytes32"
abbreviation ToBigEndian64 :: "u64 \<Rightarrow> u64" where "ToBigEndian64 \<equiv> ReverseBytes64"
abbreviation ToBigEndian128 :: "u128 \<Rightarrow> u128" where "ToBigEndian128 \<equiv> ReverseBytes128"

section \<open>Copies and padding\<close>

definition MakeWord :: "u8 \<Rightarrow> u8 \<Rightarrow> u8 \<Rightarrow> u8 \<Rightarrow> u32" where
  "MakeWord b0 b1 b2 b3 =
     push_bit 24 (ucast b3) OR push_bit 16 (ucast b2) OR push_bit 8 (ucast b1) OR ucast b0"

definition GetByte :: "u32 \<Rightarrow> nat \<Rightarrow> u8" where
  "GetByte u byte = ucast (drop_bit (byte * 8) u AND 0xFF)"

text \<open>
  \<^verbatim>\<open>CopyBlock(&dst[i], src, n)\<close>, a \<^verbatim>\<open>memcpy\<close> into the object \<open>dst\<close>; writing past its end is \<open>None\<close>.
\<close>

definition CopyBlock :: "'a list \<Rightarrow> nat \<Rightarrow> 'a list \<Rightarrow> 'a list option" where
  "CopyBlock dst i src = (if i + length src \<le> length dst then Some (write_at i src dst) else None)"

text \<open>
  \<^verbatim>\<open>CopyBlockWith\<close> maps \<open>func\<close> over the \<open>len / stride\<close> whole words of the source and copies
  the bytes that remain unchanged. The value is the bytes it writes at the destination.
\<close>

definition CopyBlockWith :: "nat \<Rightarrow> ('a::len word \<Rightarrow> 'a word) \<Rightarrow> u8 list \<Rightarrow> nat \<Rightarrow> u8 list" where
  "CopyBlockWith stride func src len =
     (let i = len div stride; offset = i * stride; remaining = len - offset
      in concat (map (\<lambda>w. le_bytes stride (func w)) (le_words stride i src))
         @ (if remaining \<noteq> 0 then take remaining (drop offset src) else []))"

text \<open>
  \<open>mem\<close> is the object from the destination pointer on; writing past its end is \<open>None\<close>.
\<close>

definition PadBytes :: "u8 list \<Rightarrow> nat \<Rightarrow> u32 \<Rightarrow> nat \<Rightarrow> u8 list option" where
  "PadBytes mem off val len =
     (if off + len \<le> length mem then Some (write_at off (replicate len (ucast (val AND 0xff))) mem)
      else None)"

text \<open>
  \<open>addr\<close> is the address of the destination; the lengths are computed in \<^verbatim>\<open>Uint64\<close>, so
  \<open>len - bytes_to_copy\<close> wraps when the gap is longer than the block. The last call pads
  \<open>bytes_to_copy\<close> bytes, as the source does, not the \<open>remaining\<close> ones.
\<close>

definition PadBlock :: "nat \<Rightarrow> nat \<Rightarrow> u8 list \<Rightarrow> 'a::len word \<Rightarrow> u64 \<Rightarrow> u8 list option" where
  "PadBlock stride addr mem val len =
     (let last_aligned = addr div stride * stride;
          next_aligned = (if last_aligned = addr then last_aligned else last_aligned + stride);
          bytes_to_copy = next_aligned - addr;
          n_blocks = unat ((len - of_nat bytes_to_copy) div of_nat stride);
          remaining = len - of_nat bytes_to_copy - of_nat n_blocks * of_nat stride
      in case (if bytes_to_copy \<noteq> 0 then PadBytes mem 0 (ucast val) bytes_to_copy else Some mem) of
           None \<Rightarrow> None
         | Some mem1 \<Rightarrow>
             if length mem1 < bytes_to_copy + n_blocks * stride then None
             else
               let mem2 = write_at bytes_to_copy (concat (replicate n_blocks (le_bytes stride val))) mem1
               in if remaining \<noteq> 0 then PadBytes mem2 (unat (len - remaining)) (ucast val) bytes_to_copy
                  else Some mem2)"

text \<open>
  \<^verbatim>\<open>SecureCopy\<close> without \<^verbatim>\<open>__STDC_LIB_EXT1__\<close> (which neither GCC nor Clang defines). The
  value is the error and the destination after the call.
\<close>

definition SecureCopy :: "u8 list option \<Rightarrow> nat \<Rightarrow> u8 list option \<Rightarrow> nat \<Rightarrow> alc_error \<times> u8 list option" where
  "SecureCopy dest destSize src srcSize =
     (case (dest, src) of
        (Some d, Some s) \<Rightarrow>
          if destSize < srcSize then (ALC_ERROR_INVALID_SIZE, dest)
          else (ALC_ERROR_NONE, Some (write_at 0 (take srcSize s) d))
      | _ \<Rightarrow> (ALC_ERROR_INVALID_ARG, dest))"

text \<open>The loop of \<^verbatim>\<open>CompareConstTime\<close>: the OR of all differences, without an early exit.\<close>

fun diff_acc :: "u8 \<Rightarrow> u8 list \<Rightarrow> u8 list \<Rightarrow> u8" where
  "diff_acc result (a # as) (b # bs) = diff_acc (result OR (a XOR b)) as bs"
| "diff_acc result _ _ = result"

definition CompareConstTime :: "u8 list \<Rightarrow> u8 list \<Rightarrow> nat \<Rightarrow> u8" where
  "CompareConstTime pA pB len = (if diff_acc 0 (take len pA) (take len pB) = 0 then 1 else 0)"

definition xor_a_b :: "u8 list \<Rightarrow> u8 list \<Rightarrow> u8 list" where
  "xor_a_b a b = map2 (\<lambda>x y. y XOR x) a b"

section \<open>Facts\<close>

text \<open>Shift-and-or is a rotation, at any width.\<close>

lemma shifts_word_rotr:
  assumes "0 < c" "c < LENGTH('a::len)"
  shows "drop_bit c v OR push_bit (LENGTH('a) - c) v = word_rotr c (v :: 'a word)"
proof (rule bit_word_eqI)
  fix n assume n: "n < LENGTH('a)"
  show "bit (drop_bit c v OR push_bit (LENGTH('a) - c) v) n = bit (word_rotr c v) n"
  proof (cases "n + c < LENGTH('a)")
    case True
    with n show ?thesis
      by (auto simp: bit_or_iff bit_drop_bit_eq bit_push_bit_iff bit_word_rotr_iff add.commute)
  next
    case False
    then have "(n + c) mod LENGTH('a) = n + c - LENGTH('a)"
      using n assms by (simp add: mod_if)
    moreover have "\<not> bit v (c + n)" using False by (auto dest: bit_imp_le_length)
    moreover have "LENGTH('a) - c \<le> n" using False by arith
    ultimately show ?thesis using n False assms
      by (simp add: bit_or_iff bit_drop_bit_eq bit_push_bit_iff bit_word_rotr_iff)
  qed
qed

lemma shifts_word_rotl:
  assumes "0 < c" "c < LENGTH('a::len)"
  shows "push_bit c v OR drop_bit (LENGTH('a) - c) v = word_rotl c (v :: 'a word)"
proof -
  have "word_rotl c v = word_rotr (LENGTH('a) - c) v"
    using assms by (simp add: word_rotl_eq_word_rotr)
  also have "\<dots> = drop_bit (LENGTH('a) - c) v OR push_bit (LENGTH('a) - (LENGTH('a) - c)) v"
    using assms by (intro shifts_word_rotr [symmetric]) auto
  finally show ?thesis using assms by (simp add: or.commute)
qed

lemma RotateRight32_rotr: "0 < c \<Longrightarrow> c < 32 \<Longrightarrow> RotateRight32 v c = word_rotr c v"
  using shifts_word_rotr [where 'a = 32] by (simp add: RotateRight32_def)

lemma RotateRight64_rotr: "0 < c \<Longrightarrow> c < 64 \<Longrightarrow> RotateRight64 v c = word_rotr c v"
  using shifts_word_rotr [where 'a = 64] by (simp add: RotateRight64_def)

lemma RotateLeft32_rotl: "0 < c \<Longrightarrow> c < 32 \<Longrightarrow> RotateLeft32 v c = word_rotl c v"
  using shifts_word_rotl [where 'a = 32] by (simp add: RotateLeft32_def)

lemma and_63_mod: "unat (c AND 63 :: u64) = unat c mod 64"
proof -
  have "c AND 63 = c AND mask 6" by (simp add: mask_eq_exp_minus_1)
  then show ?thesis by (simp add: take_bit_eq_mod unat_mod flip: take_bit_eq_mask)
qed

lemma RotateLeft64_rotl:
  assumes "0 < unat c" "unat c < 64"
  shows "RotateLeft64 v c = word_rotl (unat c) v"
proof -
  have "unat (64 - c) = 64 - unat c"
    using assms by (simp add: unat_sub word_le_nat_alt)
  then show ?thesis
    using assms shifts_word_rotl [where 'a = 64, of "unat c" v]
    by (simp add: RotateLeft64_def and_63_mod)
qed

lemma RotateLeft64_0 [simp]: "RotateLeft64 v 0 = v"
  by (simp add: RotateLeft64_def and_63_mod)

text \<open>The byte swaps reverse the bytes a word occupies in memory.\<close>

lemma less_8_cases:
  "(pos::nat) < 8 \<Longrightarrow> pos = 0 \<or> pos = 1 \<or> pos = 2 \<or> pos = 3 \<or> pos = 4 \<or> pos = 5 \<or> pos = 6 \<or> pos = 7"
  by auto

lemma byte_eqI:
  fixes a b :: u8
  assumes "bit a 0 = bit b 0" "bit a 1 = bit b 1" "bit a 2 = bit b 2" "bit a 3 = bit b 3"
    "bit a 4 = bit b 4" "bit a 5 = bit b 5" "bit a 6 = bit b 6" "bit a 7 = bit b 7"
  shows "a = b"
proof (rule bit_word_eqI)
  fix n assume "n < LENGTH(8)"
  then have "n < 8" by simp
  from less_8_cases [OF this] show "bit a n = bit b n" using assms by auto
qed

lemma le_bytes_2: "le_bytes 2 w = [ucast w, ucast (drop_bit 8 w)]"
  by (simp add: le_bytes_def upt_conv_Cons)

lemma le_bytes_4:
  "le_bytes 4 w = [ucast w, ucast (drop_bit 8 w), ucast (drop_bit 16 w), ucast (drop_bit 24 w)]"
  by (simp add: le_bytes_def upt_conv_Cons)

lemma le_bytes_8:
  "le_bytes 8 w = [ucast w, ucast (drop_bit 8 w), ucast (drop_bit 16 w), ucast (drop_bit 24 w),
     ucast (drop_bit 32 w), ucast (drop_bit 40 w), ucast (drop_bit 48 w), ucast (drop_bit 56 w)]"
  by (simp add: le_bytes_def upt_conv_Cons)

lemma ReverseBytes16_bytes: "le_bytes 2 (ReverseBytes16 v) = rev (le_bytes 2 v)"
  by (simp add: le_bytes_2 ReverseBytes16_def)
    (intro conjI byte_eqI; simp add: bit_simps)

lemma ReverseBytes32_bytes: "le_bytes 4 (ReverseBytes32 v) = rev (le_bytes 4 v)"
  by (simp add: le_bytes_4 ReverseBytes32_def Let_def)
    (intro conjI byte_eqI; simp add: bit_simps)

lemma ReverseBytes64_bytes: "le_bytes 8 (ReverseBytes64 v) = rev (le_bytes 8 v)"
  by (simp add: le_bytes_8 ReverseBytes64_def Let_def)
    (intro conjI byte_eqI; simp add: bit_simps)

lemma le_bytes_append:
  "le_bytes (m + n) w = le_bytes m w @ le_bytes n (drop_bit (8 * m) w)"
  by (rule nth_equalityI) (auto simp: nth_append nth_le_bytes drop_bit_drop_bit algebra_simps)

lemma le_bytes_ucast:
  "8 * n \<le> LENGTH('b::len) \<Longrightarrow> le_bytes n (ucast (w :: 'a::len word) :: 'b word) = le_bytes n w"
  by (rule nth_equalityI)
    (auto simp: nth_le_bytes intro!: bit_word_eqI simp: bit_simps)

lemma ReverseBytes128_bytes: "le_bytes 16 (ReverseBytes128 v) = rev (le_bytes 16 v)"
proof -
  let ?hi = "ucast (drop_bit 64 v) :: u64" and ?lo = "ucast v :: u64"
  have lo: "ucast (ReverseBytes128 v) = ReverseBytes64 ?hi"
    and hi: "ucast (drop_bit 64 (ReverseBytes128 v)) = ReverseBytes64 ?lo"
    by (rule bit_word_eqI; auto simp: ReverseBytes128_def Let_def bit_simps dest: bit_imp_le_length)+
  have split: "le_bytes 16 w = le_bytes 8 (ucast w :: u64) @ le_bytes 8 (ucast (drop_bit 64 w) :: u64)"
    for w :: u128
    using le_bytes_append [of 8 8 w] by (simp add: le_bytes_ucast)
  show ?thesis by (simp add: split lo hi ReverseBytes64_bytes)
qed

lemma be_bytes_bit_length:
  assumes "8 * n \<le> LENGTH('a::len)" "LENGTH('a) \<le> 128"
  shows "be_bytes n (of_nat len * 8 :: 'a word) = be_bytes n (of_nat (8 * len) :: u128)"
proof -
  have "of_nat len * 8 = (ucast (of_nat (8 * len) :: u128) :: 'a word)"
  proof -
    have "of_nat len * 8 = (of_nat (8 * len) :: 'a word)" by simp
    also have "\<dots> = ucast (of_nat (8 * len) :: u128)"
      using assms(2) by (simp only: unsigned_of_nat word_of_nat_eq_iff) (simp add: min_def)
    finally show ?thesis .
  qed
  then show ?thesis using assms(1) by (simp only: be_bytes_def le_bytes_ucast)
qed

lemma ReverseBytes32_be: "le_bytes 4 (ReverseBytes32 v) = be_bytes 4 v"
  by (simp add: be_bytes_def ReverseBytes32_bytes)

lemma ReverseBytes64_be: "le_bytes 8 (ReverseBytes64 v) = be_bytes 8 v"
  by (simp add: be_bytes_def ReverseBytes64_bytes)

lemma ReverseBytes32_le_word:
  assumes "length bs = 4"
  shows "ReverseBytes32 (le_word bs) = be_word bs"
proof -
  have "le_word (le_bytes 4 (ReverseBytes32 (le_word bs))) = (be_word bs :: u32)"
    using assms by (simp add: ReverseBytes32_bytes le_bytes_le_word be_word_def)
  then show ?thesis by (simp add: le_word_le_bytes)
qed

lemma ReverseBytes64_le_word:
  assumes "length bs = 8"
  shows "ReverseBytes64 (le_word bs) = be_word bs"
proof -
  have "le_word (le_bytes 8 (ReverseBytes64 (le_word bs))) = (be_word bs :: u64)"
    using assms by (simp add: ReverseBytes64_bytes le_bytes_le_word be_word_def)
  then show ?thesis by (simp add: le_word_le_bytes)
qed

subsection \<open>Copies\<close>

lemma CopyBlock_Some [simp]:
  "i + length src \<le> length dst \<Longrightarrow> CopyBlock dst i src = Some (write_at i src dst)"
  by (simp add: CopyBlock_def)

lemma le_words_concat:
  assumes "LENGTH('a::len) = 8 * sz"
  shows "le_words sz (length ws) (concat (map (le_bytes sz) ws)) = (ws :: 'a word list)"
  by (induction ws) (simp_all add: le_word_le_bytes assms)

lemma le_words_prefix:
  assumes "LENGTH('a::len) = 8 * sz" "k \<le> length ws"
  shows "le_words sz k (concat (map (le_bytes sz) ws)) = take k (ws :: 'a word list)"
  using assms(2)
proof (induction ws arbitrary: k)
  case Nil
  then show ?case by simp
next
  case (Cons w ws)
  then show ?case by (cases k) (simp_all add: le_word_le_bytes assms(1))
qed

lemma take_concat_map:
  assumes "\<And>x. length (f x) = sz"
  shows "take (sz * k) (concat (map f xs)) = concat (map f (take k xs))"
proof (induction k arbitrary: xs)
  case 0
  then show ?case by simp
next
  case (Suc k)
  then show ?case by (cases xs) (simp_all add: assms)
qed

lemma length_concat_le_bytes [simp]:
  "length (concat (map (\<lambda>w. le_bytes sz (f w)) ws)) = sz * length ws"
  by (induction ws) auto

lemma CopyBlockWith_whole:
  assumes "0 < stride" "len = stride * n"
  shows "CopyBlockWith stride func src len =
    concat (map (\<lambda>w. le_bytes stride (func w)) (le_words stride n src))"
  using assms by (simp add: CopyBlockWith_def)

lemma length_concat_be_bytes [simp]: "length (concat (map (be_bytes sz) ws)) = sz * length ws"
  by (induction ws) auto

lemma CopyBlockWith_words:
  assumes "LENGTH('a::len) = 8 * stride" "0 < stride" "n = stride * k" "k \<le> length ws"
    and "\<And>w :: 'a word. le_bytes stride (func w) = be_bytes stride w"
  shows "CopyBlockWith stride func (concat (map (le_bytes stride) (ws :: 'a word list))) n
         = take n (concat (map (be_bytes stride) ws))"
  using assms by (simp add: CopyBlockWith_whole le_words_prefix take_concat_map)

lemma CopyBlockWith_prefix:
  assumes "LENGTH('a::len) = 8 * stride" "0 < stride" "n \<le> stride * length ws"
    and "\<And>w :: 'a word. le_bytes stride (func w) = be_bytes stride w"
  shows "take (n div stride * stride)
           (CopyBlockWith stride func (concat (map (le_bytes stride) (ws :: 'a word list))) n)
         = concat (map (be_bytes stride) (take (n div stride) ws))"
proof -
  have k: "n div stride \<le> length ws"
    using assms(2,3) div_le_mono [OF assms(3), of stride] by simp
  have "length (concat (map (be_bytes stride) (take (n div stride) ws))) = n div stride * stride"
    using k by (simp add: min_absorb2 mult.commute)
  then show ?thesis
    using k assms(1,2,4) by (simp add: CopyBlockWith_def Let_def le_words_prefix)
qed

lemma length_CopyBlockWith:
  assumes "0 < stride" "len \<le> length src"
  shows "length (CopyBlockWith stride func src len) = len"
proof -
  have "len - len div stride * stride \<le> length src - len div stride * stride"
    using assms by simp
  moreover have "len div stride * stride \<le> len" by simp
  ultimately show ?thesis
    by (auto simp: CopyBlockWith_def Let_def mult.commute [of stride] intro: le_antisym)
qed

subsection \<open>Padding\<close>

lemma PadBytes_Some:
  "off + len \<le> length mem \<Longrightarrow>
   PadBytes mem off val len = Some (write_at off (replicate len (ucast (val AND 0xff))) mem)"
  by (simp add: PadBytes_def)

lemma le_bytes_0 [simp]: "le_bytes n (0 :: 'a::len word) = replicate n 0"
  by (simp add: le_bytes_def map_replicate_const)

lemma concat_replicate_replicate [simp]:
  "concat (replicate m (replicate n x)) = replicate (m * n) x"
  by (induction m) (simp_all add: replicate_add [symmetric])

text \<open>
  Rounding an address up to a multiple of the stride, and why a block that ends on a
  multiple has no tail.
\<close>

lemma round_up_gap:
  fixes addr stride :: nat
  assumes "0 < stride" and e: "stride dvd addr + len"
    and nx: "next_al = (if addr div stride * stride = addr then addr div stride * stride
                        else addr div stride * stride + stride)"
  shows "addr \<le> next_al" "next_al - addr \<le> len" "stride dvd len - (next_al - addr)"
proof -
  have d: "addr div stride * stride + addr mod stride = addr" by simp
  have r: "addr mod stride < stride" using \<open>0 < stride\<close> by simp
  show le: "addr \<le> next_al"
  proof (cases "addr div stride * stride = addr")
    case True
    then show ?thesis using nx by simp
  next
    case False
    then have "next_al = addr div stride * stride + stride" using nx by simp
    then show ?thesis using d r by linarith
  qed
  have "next_al = addr div stride * stride \<or> next_al = Suc (addr div stride) * stride"
    using nx by (auto split: if_splits)
  then have nd: "stride dvd next_al" by (elim disjE) (metis dvd_triv_right)+
  obtain k where k: "addr + len = stride * k" using e by (auto elim: dvdE)
  have "next_al \<le> addr + len"
  proof (cases "addr mod stride = 0")
    case True
    then show ?thesis using nx d by (auto split: if_splits)
  next
    case False
    then have "stride * (addr div stride) < addr"
      using d mult.commute [of stride "addr div stride"] by linarith
    then have "stride * (addr div stride) < stride * k" using k by linarith
    then have "addr div stride < k" by (rule mult_less_cancel1 [THEN iffD1, THEN conjunct2])
    then have "stride * Suc (addr div stride) \<le> stride * k" by (intro mult_le_mono2) simp
    then show ?thesis using nx k by (auto simp: mult.commute split: if_splits)
  qed
  then show "next_al - addr \<le> len" by simp
  have "len - (next_al - addr) = addr + len - next_al" using le \<open>next_al \<le> addr + len\<close> by simp
  then show "stride dvd len - (next_al - addr)" using e nd by (simp add: dvd_diff_nat)
qed

lemma write_at_zeros:
  "g + n \<le> length mem \<Longrightarrow>
   write_at g (replicate n x) (write_at 0 (replicate g x) mem) = write_at 0 (replicate (g + n) x) mem"
  by (simp add: write_at_def replicate_add add.commute)

text \<open>
  Padding with zeros is \<^verbatim>\<open>memset\<close> whenever the block ends on a multiple of the stride, which
  every call of the digests satisfies.
\<close>

lemma PadBlock_zero:
  assumes "0 < stride" "stride dvd addr + len" "len \<le> length mem" "len < 2 ^ 64" "stride < 2 ^ 64"
  shows "PadBlock stride addr mem (0 :: 'a::len word) (of_nat len)
         = Some (write_at 0 (replicate len 0) mem)"
proof -
  let ?last = "addr div stride * stride"
  let ?next = "if ?last = addr then ?last else ?last + stride"
  let ?gap = "?next - addr"
  note g = round_up_gap [OF assms(1,2) refl]
  obtain k where k: "len - ?gap = stride * k" using g(3) by (auto elim: dvdE)
  have small: "?gap < 2 ^ 64" using g(2) assms(4) by linarith
  have n: "unat ((of_nat len - of_nat ?gap) div of_nat stride :: u64) = k"
  proof -
    have "of_nat len - of_nat ?gap = (of_nat (len - ?gap) :: u64)" using g(2) by (simp only: of_nat_diff)
    moreover have "len - ?gap < 2 ^ 64" using assms(4) by linarith
    ultimately have "unat ((of_nat len - of_nat ?gap) div of_nat stride :: u64) = (len - ?gap) div stride"
      using assms(5) by (simp add: unat_div unat_of_nat)
    then show ?thesis using k assms(1) by simp
  qed
  have rem: "of_nat len - of_nat ?gap - of_nat k * of_nat stride = (0 :: u64)"
  proof -
    have "of_nat len - of_nat ?gap = (of_nat (len - ?gap) :: u64)" using g(2) by (simp only: of_nat_diff)
    also have "\<dots> = of_nat k * of_nat stride" by (simp only: k) (simp add: mult.commute)
    finally show ?thesis by simp
  qed
  have len: "?gap + k * stride = len" using k g(2) by (simp add: mult.commute)
  have cat: "write_at ?gap (replicate (k * stride) 0) (write_at 0 (replicate ?gap 0) mem)
             = write_at 0 (replicate len 0) (mem :: u8 list)"
    using assms(3) unfolding len [symmetric] by (rule write_at_zeros)
  show ?thesis
  proof (cases "?gap = 0")
    case True
    then show ?thesis
      using assms(3) n rem len unfolding PadBlock_def Let_def by simp
  next
    case False
    have "PadBytes mem 0 (ucast (0 :: 'a word)) ?gap = Some (write_at 0 (replicate ?gap 0) mem)"
      using g(2) assms(3) by (simp add: PadBytes_def)
    then show ?thesis
      using False assms(3) n rem len cat g(2) unfolding PadBlock_def Let_def by simp
  qed
qed

lemma PadBlock_bytes_zero:
  "len \<le> length mem \<Longrightarrow> len < 2 ^ 64 \<Longrightarrow>
   PadBlock 1 addr mem (0 :: u8) (of_nat len) = Some (write_at 0 (replicate len 0) mem)"
  by (rule PadBlock_zero) simp_all

end
