(* ===== verification/Block_Buffer.thy ===== *)
theory Block_Buffer imports Bytes begin

text \<open>
  What the streaming digests and MACs share: a message arrives in pieces of any size, whole
  blocks go through a compression step and the rest waits in a buffer. \<open>absorbs\<close> is the
  specification of that buffering (which hash state and which pending bytes belong to the
  message so far); the component theories prove that their update code maintains it.
  The record is the base class \<^verbatim>\<open>IDigest\<close> of \<^verbatim>\<open>lib/include/alcp/digest.hh\<close>.
\<close>

section \<open>The base class of the digests\<close>

record idigest =
  m_digest_len :: nat
  m_block_len :: nat
  m_finished :: bool
  m_msg_len :: u64
  m_idx :: nat

section \<open>Blocks of a message\<close>

function chunks :: "nat \<Rightarrow> 'a list \<Rightarrow> 'a list list" where
  "chunks B xs = (if B = 0 \<or> length xs < B then [] else take B xs # chunks B (drop B xs))"
  by pat_completeness auto
termination
  by (relation "measure (\<lambda>(B, xs). length xs)") auto

declare chunks.simps [simp del]

lemma chunks_short [simp]: "length xs < B \<Longrightarrow> chunks B xs = []"
  by (simp add: chunks.simps)

lemma chunks_block: "0 < B \<Longrightarrow> length xs = B \<Longrightarrow> chunks B (xs @ ys) = xs # chunks B ys"
  by (subst chunks.simps) simp

lemma chunks_single: "0 < B \<Longrightarrow> length xs = B \<Longrightarrow> chunks B xs = [xs]"
  using chunks_block [of B xs "[]"] by simp

lemma chunks_append:
  assumes "0 < B" "B dvd length xs"
  shows "chunks B (xs @ ys) = chunks B xs @ chunks B ys"
  using assms
proof (induction xs rule: length_induct)
  case (1 xs)
  show ?case
  proof (cases "xs = []")
    case True
    then show ?thesis using 1 by simp
  next
    case False
    then have le: "B \<le> length xs" using 1 by (simp add: dvd_imp_le)
    then have "B dvd length (drop B xs)" "length (drop B xs) < length xs"
      using 1 False by (simp_all add: dvd_diff_nat)
    then have "chunks B (drop B xs @ ys) = chunks B (drop B xs) @ chunks B ys"
      using 1 by blast
    then show ?thesis
      using le 1 by (simp add: chunks.simps [of B xs] chunks.simps [of B "xs @ ys"])
  qed
qed

lemma length_chunks_elem: "c \<in> set (chunks B xs) \<Longrightarrow> length c = B"
proof (induction B xs rule: chunks.induct)
  case (1 B xs)
  then show ?case by (subst (asm) (2) chunks.simps) (auto split: if_splits)
qed

text \<open>A loop that takes one block at a time until the input is used up.\<close>

lemma foldl_chunks_step:
  "0 < B \<Longrightarrow> B \<le> length xs \<Longrightarrow>
   foldl f h (chunks B xs) = foldl f (f h (take B xs)) (chunks B (drop B xs))"
  by (subst chunks.simps) simp

section \<open>What a streaming hash has absorbed\<close>

definition absorbs ::
  "nat \<Rightarrow> ('h \<Rightarrow> u8 list \<Rightarrow> 'h) \<Rightarrow> 'h \<Rightarrow> u8 list \<Rightarrow> 'h \<Rightarrow> u8 list \<Rightarrow> bool" where
  "absorbs B f h0 m h pend \<longleftrightarrow>
     length pend < B \<and> (\<exists>q. m = q @ pend \<and> B dvd length q \<and> h = foldl f h0 (chunks B q))"

lemma absorbs_init: "0 < B \<Longrightarrow> absorbs B f h0 [] h0 []"
  by (simp add: absorbs_def)

lemma absorbs_less: "absorbs B f h0 m h pend \<Longrightarrow> length pend < B"
  by (simp add: absorbs_def)

lemma absorbs_length: "absorbs B f h0 m h pend \<Longrightarrow> length pend = length m mod B"
  by (auto simp: absorbs_def mod_add_eq [symmetric] dvd_eq_mod_eq_0)

lemma absorbs_short:
  "absorbs B f h0 m h pend \<Longrightarrow> length pend + length x < B \<Longrightarrow> absorbs B f h0 (m @ x) h (pend @ x)"
  by (auto simp: absorbs_def)

lemma absorbs_block:
  assumes "absorbs B f h0 m h pend" "length (pend @ y) = B"
  shows "absorbs B f h0 (m @ y) (f h (pend @ y)) []"
proof -
  from assms obtain q where q: "m = q @ pend" "B dvd length q" "h = foldl f h0 (chunks B q)"
    and B: "0 < B" by (auto simp: absorbs_def)
  have "chunks B (q @ pend @ y) = chunks B q @ [pend @ y]"
    using q(2) B assms(2) by (simp add: chunks_append chunks_single)
  moreover have "B dvd length q + B" using q(2) by simp
  ultimately show ?thesis using q B assms(2)
    by (auto simp: absorbs_def intro!: exI [of _ "q @ pend @ y"])
qed

lemma absorbs_blocks:
  assumes "absorbs B f h0 m h []" "B dvd length y"
  shows "absorbs B f h0 (m @ y) (foldl f h (chunks B y)) []"
  using assms by (auto simp: absorbs_def chunks_append intro!: exI [of _ "m @ y"])

text \<open>The state once a padding completes the last block: the digest's closing step.\<close>

lemma absorbs_closed:
  assumes "absorbs B f h0 m h pend" "B dvd length (pend @ pad)"
  shows "foldl f h (chunks B (pend @ pad)) = foldl f h0 (chunks B (m @ pad))"
proof -
  from assms obtain q where q: "m = q @ pend" "B dvd length q" "h = foldl f h0 (chunks B q)"
    and B: "0 < B" by (auto simp: absorbs_def)
  then show ?thesis by (simp add: chunks_append)
qed

text \<open>
  The update of the digests fills the pending block, runs over the whole blocks of what is
  left and keeps the rest. This is the functional content of the three pieces of code that
  \<^verbatim>\<open>sha256.cc\<close>, \<^verbatim>\<open>sha512.cc\<close> and \<^verbatim>\<open>sha3.cc\<close> each write out.
\<close>

lemma absorbs_update:
  assumes a: "absorbs B f h0 m h pend" and long: "B \<le> length pend + length x"
    and y: "y = drop (B - length pend) x" and k: "k = length y div B * B"
  shows "absorbs B f h0 (m @ x)
           (foldl f (f h (pend @ take (B - length pend) x)) (chunks B (take k y))) (drop k y)"
proof -
  have B: "0 < B" and p: "length pend < B" using a by (auto simp: absorbs_def)
  have x: "x = take (B - length pend) x @ y" using y by simp
  have "absorbs B f h0 (m @ take (B - length pend) x) (f h (pend @ take (B - length pend) x)) []"
    using a long p by (intro absorbs_block) auto
  moreover have "k \<le> length y" using k by simp
  then have "B dvd length (take k y)" using k by (simp add: min_absorb2)
  ultimately have "absorbs B f h0 ((m @ take (B - length pend) x) @ take k y)
    (foldl f (f h (pend @ take (B - length pend) x)) (chunks B (take k y))) []"
    by (rule absorbs_blocks)
  moreover have "length (drop k y) < B"
    using B k by (simp add: minus_div_mult_eq_mod)
  ultimately have "absorbs B f h0 (((m @ take (B - length pend) x) @ take k y) @ drop k y)
    (foldl f (f h (pend @ take (B - length pend) x)) (chunks B (take k y))) ([] @ drop k y)"
    by (intro absorbs_short) auto
  then show ?thesis using x by simp
qed

lemma absorbs_update_empty:
  assumes a: "absorbs B f h0 m h []" and k: "k = length x div B * B"
  shows "absorbs B f h0 (m @ x) (foldl f h (chunks B (take k x))) (drop k x)"
proof -
  have B: "0 < B" using a by (auto simp: absorbs_def)
  have "k \<le> length x" using k by simp
  then have "B dvd length (take k x)" using k by (simp add: min_absorb2)
  with a have "absorbs B f h0 (m @ take k x) (foldl f h (chunks B (take k x))) []"
    by (rule absorbs_blocks)
  moreover have "length (drop k x) < B" using B k by (simp add: minus_div_mult_eq_mod)
  ultimately have "absorbs B f h0 ((m @ take k x) @ drop k x)
    (foldl f h (chunks B (take k x))) ([] @ drop k x)"
    by (intro absorbs_short) auto
  then show ?thesis by simp
qed

text \<open>
  The closing step in the buffer itself: one marker byte, zeros up to the length field, the
  length field at the end of the last block.
\<close>

lemma padded_block:
  assumes "bs = i + 1 + n + length lenb" "bs \<le> length buf"
  shows "take bs (write_at (bs - length lenb) lenb
           (take (i + 1) (write_at i [c] buf)
            @ write_at 0 (replicate n z) (drop (i + 1) (write_at i [c] buf))))
         = take i buf @ [c] @ replicate n z @ lenb"
proof -
  let ?b = "write_at i [c] buf"
  have b: "length ?b = length buf" "take (i + 1) ?b = take i buf @ [c]"
    using assms by (simp_all add: take_write_at_end)
  let ?p = "take (i + 1) ?b @ write_at 0 (replicate n z) (drop (i + 1) ?b)"
  have n: "n \<le> length (drop (i + 1) ?b)" using assms b by simp
  have "take (i + 1 + n) ?p = take i buf @ [c] @ replicate n z"
    using n assms b write_at_0 [of "replicate n z" "drop (i + 1) ?b"] by simp
  moreover have "take bs (write_at (bs - length lenb) lenb ?p) = take (bs - length lenb) ?p @ lenb"
    using assms n b by (intro take_write_at_end) simp_all
  ultimately show ?thesis using assms by simp
qed

text \<open>
  The facts the update code needs once a call completes a block: the pending bytes are
  filled up first (when there are any), then the whole blocks, then the rest is kept.
\<close>

lemma update_fill:
  assumes a: "absorbs B f h0 m h (take i buf)" and i: "i < B" "0 < i" "B \<le> length buf"
    and x: "B \<le> i + length x" and y: "y = drop (B - i) x" and k: "k = length y div B * B"
    and b1: "b1 = write_at i (take (B - i) x) buf" and b2: "b2 = write_at 0 (drop k y) b1"
    and h1: "h1 = f h (take i buf @ take (B - i) x)"
  shows "absorbs B f h0 (m @ x) (foldl f h1 (chunks B (take k y))) (drop k y)"
    and "min (length x) (B - i) = B - i" "min (length x + i) B = B" "i + (B - i) = B" "x \<noteq> []"
    and "CopyBlock buf i (take (B - i) x) = Some b1" "length b1 = length buf"
    and "take B b1 = take i buf @ take (B - i) x" "chunks B (take i buf @ take (B - i) x) = [take i buf @ take (B - i) x]"
    and "B dvd length (take i buf @ take (B - i) x)"
    and "B dvd length (take k y)" "length y div B = 0 \<Longrightarrow> take k y = []" "length y div B = 0 \<Longrightarrow> drop k y = y"
    and "CopyBlock b1 0 (drop k y) = Some b2" "drop k y = [] \<Longrightarrow> b2 = b1" "length b2 = length buf"
    and "take (length (drop k y)) b2 = drop k y"
proof -
  show ab: "absorbs B f h0 (m @ x) (foldl f h1 (chunks B (take k y))) (drop k y)"
    using absorbs_update [OF a, of x y k] i x y k h1 by simp
  show b1l: "length b1 = length buf" using i b1 by simp
  show "min (length x) (B - i) = B - i" "min (length x + i) B = B" "i + (B - i) = B" "x \<noteq> []"
    using i x by auto
  show "CopyBlock buf i (take (B - i) x) = Some b1" using i b1 by simp
  show "take B b1 = take i buf @ take (B - i) x"
    using i x b1 by (simp add: take_write_at_end)
  show "B dvd length (take i buf @ take (B - i) x)" using i x by simp
  show "chunks B (take i buf @ take (B - i) x) = [take i buf @ take (B - i) x]"
    using i x by (intro chunks_single) simp_all
  show "B dvd length (take k y)" using k by (simp add: min_absorb2)
  show "length y div B = 0 \<Longrightarrow> take k y = []" "length y div B = 0 \<Longrightarrow> drop k y = y" using k by simp_all
  have r: "length (drop k y) \<le> length b1" using absorbs_less [OF ab] i b1l by linarith
  then show "CopyBlock b1 0 (drop k y) = Some b2" using b2 by (simp del: length_drop)
  show "drop k y = [] \<Longrightarrow> b2 = b1" using b2 by (simp del: drop_eq_Nil)
  show "length b2 = length buf" using r b2 b1l by (simp del: length_drop)
  show "take (length (drop k y)) b2 = drop k y" using r b2 write_at_0 by blast
qed

lemma update_whole:
  assumes a: "absorbs B f h0 m h []" and B: "B \<le> length buf"
    and x: "B \<le> length x" and k: "k = length x div B * B" and b2: "b2 = write_at 0 (drop k x) buf"
  shows "absorbs B f h0 (m @ x) (foldl f h (chunks B (take k x))) (drop k x)"
    and "min (length x) B = B" "x \<noteq> []" "0 < B" "length x div B \<noteq> 0" "B dvd length (take k x)"
    and "CopyBlock buf 0 (drop k x) = Some b2" "drop k x = [] \<Longrightarrow> b2 = buf" "length b2 = length buf"
    and "take (length (drop k x)) b2 = drop k x"
proof -
  show "0 < B" using absorbs_less [OF a] by simp
  show ab: "absorbs B f h0 (m @ x) (foldl f h (chunks B (take k x))) (drop k x)"
    using absorbs_update_empty [OF a] k by simp
  show "min (length x) B = B" "x \<noteq> []" "length x div B \<noteq> 0" using x \<open>0 < B\<close> by (auto simp: div_eq_0_iff)
  show "B dvd length (take k x)" using k by (simp add: min_absorb2)
  have r: "length (drop k x) \<le> length buf" using absorbs_less [OF ab] B by linarith
  then show "CopyBlock buf 0 (drop k x) = Some b2" using b2 by (simp del: length_drop)
  show "drop k x = [] \<Longrightarrow> b2 = buf" using b2 by (simp del: drop_eq_Nil)
  show "length b2 = length buf" using r b2 by (simp del: length_drop)
  show "take (length (drop k x)) b2 = drop k x" using r b2 write_at_0 by blast
qed

end
