(* ===== verification/Poly1305_Ref.thy ===== *)
theory Poly1305_Ref imports Block_Buffer "HOL-Library.Monad_Syntax" begin

text \<open>
  Poly1305 as \<^verbatim>\<open>lib/arch/reference/mac/poly1305-ref.cc\<close> computes it: five 26-bit limbs in
  64-bit words, lazy carries, a final conditional subtraction. The specification is RFC 8439:
  the polynomial in \<open>r\<close> over the blocks, modulo \<open>2 ^ 130 - 5\<close>, plus \<open>s\<close>. The proofs carry the
  bounds that keep every 64-bit operation from wrapping. \<open>None\<close> is undefined behaviour
  (reading or writing outside an array).
\<close>

unbundle bit_operations_syntax

section \<open>The code\<close>

definition clamp_index :: "(nat \<times> u8) list" where
  "clamp_index = [(3, 15), (7, 15), (11, 15), (15, 15), (4, 252), (8, 252), (12, 252)]"

definition clamp :: "u8 list \<Rightarrow> u8 list" where
  "clamp inp = foldl (\<lambda>inp (i, m). inp[i := inp ! i AND m]) inp clamp_index"

record poly1305 =
  m_msg_buffer :: "u8 list"
  m_accumulator :: "u64 list"
  m_key :: "u8 list"
  m_r :: "u64 list"
  m_s :: "u64 list"
  m_msg_buffer_len :: nat
  poly_finalized :: bool

definition Poly1305Ref_ctor :: poly1305 where
  "Poly1305Ref_ctor =
     \<lparr>m_msg_buffer = replicate 16 0, m_accumulator = replicate 5 0, m_key = replicate 32 0,
      m_r = replicate 5 0, m_s = replicate 4 0, m_msg_buffer_len = 0, poly_finalized = False\<rparr>"

text \<open>
  The limbs of \<open>r\<close>: four bytes at offset \<open>3 * i\<close> go into the low half of \<^verbatim>\<open>m_r[i]\<close>, whose high
  half keeps what it had. The pending message length \<^verbatim>\<open>m_msg_buffer_len\<close> is not touched.
\<close>

definition Poly1305Ref_init :: "u8 list \<Rightarrow> poly1305 \<Rightarrow> alc_error \<times> poly1305" where
  "Poly1305Ref_init key s =
     (let s = s\<lparr>poly_finalized := False\<rparr> in
      if length key \<noteq> 32 then (ALC_ERROR_INVALID_ARG, s)
      else
        let k = clamp (take 16 key) @ drop 16 key;
            limb = (\<lambda>i. drop_bit (2 * i) (le_word (take 4 (drop (3 * i) k) @ drop 4 (le_bytes 8 (m_r s ! i))))
                        AND 0x3ffffff);
            r = map limb [0..<5]
        in (ALC_ERROR_NONE,
            s\<lparr>m_key := k, m_accumulator := replicate 5 0, m_r := r,
              m_s := map (\<lambda>i. r ! (i + 1) * 5) [0..<4]\<rparr>))"

text \<open>One block into 26-bit limbs; \<open>padding\<close> is \<open>2 ^ 24\<close> for a full block.\<close>

definition poly1305_msg_limbs :: "u64 \<Rightarrow> u8 list \<Rightarrow> u32 list" where
  "poly1305_msg_limbs padding p =
     map (\<lambda>i. let t = drop_bit (2 * i) (le_word (take 4 (drop (3 * i) p))) :: u32
              in if i \<noteq> 4 then t AND 0x3ffffff else ucast (ucast t OR padding)) [0..<5]"

definition poly1305_mult :: "u64 list \<Rightarrow> u64 list \<Rightarrow> u64 list \<Rightarrow> u64 list" where
  "poly1305_mult a r s =
     [a ! 0 * r ! 0 + a ! 1 * s ! 3 + a ! 2 * s ! 2 + a ! 3 * s ! 1 + a ! 4 * s ! 0,
      a ! 0 * r ! 1 + a ! 1 * r ! 0 + a ! 2 * s ! 3 + a ! 3 * s ! 2 + a ! 4 * s ! 1,
      a ! 0 * r ! 2 + a ! 1 * r ! 1 + a ! 2 * r ! 0 + a ! 3 * s ! 3 + a ! 4 * s ! 2,
      a ! 0 * r ! 3 + a ! 1 * r ! 2 + a ! 2 * r ! 1 + a ! 3 * r ! 0 + a ! 4 * s ! 3,
      a ! 0 * r ! 4 + a ! 1 * r ! 3 + a ! 2 * r ! 2 + a ! 3 * r ! 1 + a ! 4 * r ! 0]"

definition poly1305_carry :: "u64 list \<Rightarrow> u64 list" where
  "poly1305_carry d =
     (let carry = drop_bit 26 (d ! 0); a0 = d ! 0 AND 0x3ffffff; d1 = d ! 1 + carry;
          carry = drop_bit 26 d1; a1 = d1 AND 0x3ffffff; d2 = d ! 2 + carry;
          carry = drop_bit 26 d2; a2 = d2 AND 0x3ffffff; d3 = d ! 3 + carry;
          carry = drop_bit 26 d3; a3 = d3 AND 0x3ffffff; d4 = d ! 4 + carry;
          carry = drop_bit 26 d4; a4 = d4 AND 0x3ffffff; a0 = a0 + carry * 5;
          carry = drop_bit 26 a0; a0 = a0 AND 0x3ffffff; a1 = a1 + carry
      in [a0, a1, a2, a3, a4])"

function poly1305_block_loop ::
  "u64 \<Rightarrow> u8 list \<Rightarrow> nat \<Rightarrow> u64 list \<Rightarrow> u64 list \<Rightarrow> u64 list \<Rightarrow> u64 list option" where
  "poly1305_block_loop padding p msgLen acc r s =
     (if msgLen > 0 then
        if length p < 16 then None
        else
          let acc = map2 (+) acc (map ucast (poly1305_msg_limbs padding p));
              acc = poly1305_carry (poly1305_mult acc r s)
          in poly1305_block_loop padding (drop 16 p) (if msgLen \<ge> 16 then msgLen - 16 else 0) acc r s
      else Some acc)"
  by pat_completeness auto
termination
  by (relation "measure (\<lambda>(padding, p, msgLen, acc, r, s). msgLen)") auto

declare poly1305_block_loop.simps [simp del]

definition poly1305_block :: "u8 list \<Rightarrow> nat \<Rightarrow> u64 list \<Rightarrow> u64 list \<Rightarrow> u64 list \<Rightarrow> u64 list option" where
  "poly1305_block pMsg msgLen acc r s =
     poly1305_block_loop (push_bit 24 (if msgLen \<ge> 16 then 1 else 0)) pMsg msgLen acc r s"

definition Poly1305Ref_update :: "u8 list \<Rightarrow> poly1305 \<Rightarrow> (alc_error \<times> poly1305) option" where
  "Poly1305Ref_update pMsg s =
     (if poly_finalized s then Some (ALC_ERROR_INVALID_ARG, s)
      else
        let left = 16 - m_msg_buffer_len s in
        if m_msg_buffer_len s \<noteq> 0 \<and> length pMsg < left then do {
          buf \<leftarrow> CopyBlock (m_msg_buffer s) (m_msg_buffer_len s) pMsg;
          Some (ALC_ERROR_NONE, s\<lparr>m_msg_buffer := buf, m_msg_buffer_len := m_msg_buffer_len s + length pMsg\<rparr>)
        }
        else do {
          (s, pMsg) \<leftarrow>
            (if m_msg_buffer_len s \<noteq> 0 then do {
               buf \<leftarrow> CopyBlock (m_msg_buffer s) (m_msg_buffer_len s) (take left pMsg);
               acc \<leftarrow> poly1305_block buf 16 (m_accumulator s) (m_r s) (m_s s);
               Some (s\<lparr>m_msg_buffer := buf, m_msg_buffer_len := 0, m_accumulator := acc\<rparr>, drop left pMsg)
             }
             else Some (s, pMsg));
          let overflow = length pMsg mod 16 in do {
          acc \<leftarrow> poly1305_block pMsg (length pMsg - overflow) (m_accumulator s) (m_r s) (m_s s);
          let s = s\<lparr>m_accumulator := acc\<rparr> in
          if overflow \<noteq> 0 then do {
            buf \<leftarrow> CopyBlock (m_msg_buffer s) 0 (drop (length pMsg - overflow) pMsg);
            Some (ALC_ERROR_NONE, s\<lparr>m_msg_buffer := buf, m_msg_buffer_len := overflow\<rparr>)
          }
          else Some (ALC_ERROR_NONE, s)
        }})"

text \<open>The carries of \<^verbatim>\<open>finish\<close>, the subtraction of \<open>2 ^ 130 - 5\<close>, and the repacking into 32 bits.\<close>

definition poly1305_final_carry :: "u64 list \<Rightarrow> u64 list" where
  "poly1305_final_carry acc =
     (let carry = drop_bit 26 (acc ! 1); a1 = acc ! 1 AND 0x3ffffff; a2 = acc ! 2 + carry;
          carry = drop_bit 26 a2; a2 = a2 AND 0x3ffffff; a3 = acc ! 3 + carry;
          carry = drop_bit 26 a3; a3 = a3 AND 0x3ffffff; a4 = acc ! 4 + carry;
          carry = drop_bit 26 a4; a4 = a4 AND 0x3ffffff; a0 = acc ! 0 + carry * 5;
          carry = drop_bit 26 a0; a0 = a0 AND 0x3ffffff; a1 = a1 + carry
      in [a0, a1, a2, a3, a4])"

definition poly1305_subtract :: "u64 list \<Rightarrow> u64 list" where
  "poly1305_subtract acc =
     (let t0 = acc ! 0 + 5; carry = drop_bit 26 t0; t0 = t0 AND 0x3ffffff;
          t1 = acc ! 1 + carry; carry = drop_bit 26 t1; t1 = t1 AND 0x3ffffff;
          t2 = acc ! 2 + carry; carry = drop_bit 26 t2; t2 = t2 AND 0x3ffffff;
          t3 = acc ! 3 + carry; carry = drop_bit 26 t3; t3 = t3 AND 0x3ffffff;
          t4 = acc ! 4 + carry - push_bit 26 1
      in if drop_bit 63 t4 = 0 then [t0, t1, t2, t3, t4] else acc)"

definition poly1305_pack :: "u64 list \<Rightarrow> u64 list" where
  "poly1305_pack acc =
     [(acc ! 0 OR push_bit 26 (acc ! 1)) AND 0xffffffff,
      (drop_bit 6 (acc ! 1) OR push_bit 20 (acc ! 2)) AND 0xffffffff,
      (drop_bit 12 (acc ! 2) OR push_bit 14 (acc ! 3)) AND 0xffffffff,
      (drop_bit 18 (acc ! 3) OR push_bit 8 (acc ! 4)) AND 0xffffffff]"

definition poly1305_add_key :: "u64 list \<Rightarrow> u8 list \<Rightarrow> u64 list" where
  "poly1305_add_key a key =
     (let k = (\<lambda>i. ucast (le_word (take 4 (drop (4 * i) key)) :: u32));
          f0 = a ! 0 + k 4;
          f1 = a ! 1 + k 5 + drop_bit 32 f0;
          f2 = a ! 2 + k 6 + drop_bit 32 f1;
          f3 = a ! 3 + k 7 + drop_bit 32 f2
      in [f0, f1, f2, f3])"

definition Poly1305Ref_finish :: "u8 list \<Rightarrow> poly1305 \<Rightarrow> (alc_error \<times> poly1305 \<times> u8 list) option" where
  "Poly1305Ref_finish digest s =
     (if poly_finalized s then Some (ALC_ERROR_INVALID_ARG, s, digest)
      else if length digest \<noteq> 16 then Some (ALC_ERROR_INVALID_SIZE, s, digest)
      else do {
        s \<leftarrow>
          (if m_msg_buffer_len s \<noteq> 0 then do {
             buf \<leftarrow> CopyBlock (m_msg_buffer s) (m_msg_buffer_len s) [1];
             buf \<leftarrow> CopyBlock buf (m_msg_buffer_len s + 1) (replicate (16 - (m_msg_buffer_len s + 1)) 0);
             acc \<leftarrow> poly1305_block buf (m_msg_buffer_len s) (m_accumulator s) (m_r s) (m_s s);
             Some (s\<lparr>m_msg_buffer := buf, m_accumulator := acc\<rparr>)
           }
           else Some s);
        let acc = poly1305_subtract (poly1305_final_carry (m_accumulator s));
            f = poly1305_add_key (poly1305_pack acc) (m_key s);
            acc = f @ [acc ! 4];
            digest = concat (map (\<lambda>i. take 4 (le_bytes 8 (acc ! i))) [0..<4])
        in Some (ALC_ERROR_NONE, s\<lparr>m_accumulator := acc, poly_finalized := True\<rparr>, digest)
      })"

definition Poly1305Ref_reset :: "poly1305 \<Rightarrow> alc_error \<times> poly1305" where
  "Poly1305Ref_reset s =
     (ALC_ERROR_NONE, s\<lparr>m_msg_buffer := replicate 16 0, m_accumulator := replicate 5 0,
        m_msg_buffer_len := 0, poly_finalized := False\<rparr>)"

section \<open>RFC 8439\<close>

abbreviation poly_p :: nat where "poly_p \<equiv> 2 ^ 130 - 5"

fun le_nat :: "u8 list \<Rightarrow> nat" where
  "le_nat [] = 0"
| "le_nat (b # bs) = unat b + 256 * le_nat bs"

definition poly_r :: "u8 list \<Rightarrow> nat" where
  "poly_r key = le_nat (take 16 key) AND 0x0ffffffc0ffffffc0ffffffc0fffffff"

text \<open>The sixteen-byte blocks, the last one possibly shorter.\<close>

function rfc_blocks :: "u8 list \<Rightarrow> u8 list list" where
  "rfc_blocks m = (if m = [] then [] else take 16 m # rfc_blocks (drop 16 m))"
  by pat_completeness auto
termination by (relation "measure length") auto

declare rfc_blocks.simps [simp del]

definition poly_step :: "nat \<Rightarrow> nat \<Rightarrow> u8 list \<Rightarrow> nat" where
  "poly_step r a blk = (a + le_nat blk + 2 ^ (8 * length blk)) * r mod poly_p"

definition poly1305_spec :: "u8 list \<Rightarrow> u8 list \<Rightarrow> u8 list" where
  "poly1305_spec key m =
     (let a = foldl (poly_step (poly_r key)) 0 (rfc_blocks m)
      in le_bytes 16 (of_nat (a + le_nat (drop 16 key)) :: u128))"

section \<open>Words as numbers\<close>

lemma unat_drop_bit: "unat (drop_bit k (x :: 'a::len word)) = unat x div 2 ^ k"
  unfolding unat_drop_bit_eq by (rule drop_bit_eq_div)

lemma unat_and_mask:
  assumes "m = mask k"
  shows "unat (x AND m :: 'a::len word) = unat x mod 2 ^ k"
proof -
  have "x AND m = take_bit k x" using assms by (simp add: take_bit_eq_mask)
  then have "unat (x AND m) = take_bit k (unat x)" by (simp add: unsigned_take_bit_eq)
  then show ?thesis by (simp add: take_bit_eq_mod)
qed

lemma unat_and_26: "unat (x AND 0x3ffffff :: u64) = unat x mod 2 ^ 26"
  by (rule unat_and_mask) (simp add: mask_eq_exp_minus_1)

lemma unat_plus_le: "unat x + unat y < 2 ^ 64 \<Longrightarrow> unat (x + y :: u64) = unat x + unat y"
  by (simp add: unat_word_ariths)

lemma unat_times_le: "unat x * unat y < 2 ^ 64 \<Longrightarrow> unat (x * y :: u64) = unat x * unat y"
  by (simp add: unat_word_ariths)

lemma le_nat_less: "le_nat bs < 256 ^ length bs"
proof (induction bs)
  case Nil
  then show ?case by simp
next
  case (Cons b bs)
  have "unat b < 256" using unsigned_less [of b] by simp
  then show ?case using Cons by simp
qed

lemma le_nat_append: "le_nat (xs @ ys) = le_nat xs + 256 ^ length xs * le_nat ys"
  by (induction xs) (simp_all add: algebra_simps)

lemma le_nat_replicate_0 [simp]: "le_nat (replicate n 0) = 0"
  by (induction n) simp_all

lemma le_nat_take_drop:
  assumes "k \<le> length bs"
  shows "le_nat (take k bs) = le_nat bs mod 256 ^ k" "le_nat (drop k bs) = le_nat bs div 256 ^ k"
proof -
  have e: "le_nat bs = le_nat (take k bs) + 256 ^ k * le_nat (drop k bs)"
    using le_nat_append [of "take k bs" "drop k bs"] assms by (simp add: min_absorb2)
  have l: "le_nat (take k bs) < 256 ^ k"
    using le_nat_less [of "take k bs"] assms by (simp add: min_absorb2)
  show "le_nat (take k bs) = le_nat bs mod 256 ^ k" using l by (simp add: e)
  show "le_nat (drop k bs) = le_nat bs div 256 ^ k" using l by (simp add: e)
qed

lemma le_word_of_nat: "le_word bs = (of_nat (le_nat bs) :: 'a::len word)"
proof (induction bs)
  case Nil
  then show ?case by simp
next
  case (Cons b bs)
  have "ucast b OR push_bit 8 (le_word bs :: 'a word) = ucast b + push_bit 8 (le_word bs)"
    by (rule disjunctive_add [symmetric]) (auto simp: bit_simps dest: bit_imp_le_length)
  then show ?case by (simp add: Cons push_bit_eq_mult mult.commute)
qed

lemma unat_le_word:
  assumes "8 * length bs \<le> LENGTH('a::len)"
  shows "unat (le_word bs :: 'a word) = le_nat bs"
proof -
  have "le_nat bs < 2 ^ (8 * length bs)" using le_nat_less [of bs] by (simp add: power_mult)
  also have "\<dots> \<le> 2 ^ LENGTH('a)" using assms by (intro power_increasing) simp_all
  finally show ?thesis by (simp add: le_word_of_nat unat_of_nat)
qed

section \<open>Limbs\<close>

definition val5 :: "u64 list \<Rightarrow> nat" where
  "val5 a = unat (a ! 0) + 2 ^ 26 * unat (a ! 1) + 2 ^ 52 * unat (a ! 2) + 2 ^ 78 * unat (a ! 3)
            + 2 ^ 104 * unat (a ! 4)"

text \<open>Carried limbs; the second may exceed 26 bits by the last carry.\<close>

definition carried :: "u64 list \<Rightarrow> bool" where
  "carried a \<longleftrightarrow> length a = 5 \<and> unat (a ! 0) < 2 ^ 26 \<and> unat (a ! 1) < 2 ^ 26 + 2 ^ 16 \<and>
     unat (a ! 2) < 2 ^ 26 \<and> unat (a ! 3) < 2 ^ 26 \<and> unat (a ! 4) < 2 ^ 26"

lemma list5: "length a = 5 \<Longrightarrow> \<exists>a0 a1 a2 a3 a4. a = [a0, a1, a2, a3, a4]"
  by (auto simp: length_Suc_conv eval_nat_numeral)

lemma poly1305_carry_val:
  assumes "length d = 5" "\<And>i. i < 5 \<Longrightarrow> unat (d ! i) < 2 ^ 60"
  shows "carried (poly1305_carry d)"
    and "\<exists>q. val5 (poly1305_carry d) + q * poly_p = val5 d"
proof -
  obtain d0 d1 d2 d3 d4 where d: "d = [d0, d1, d2, d3, d4]" using list5 assms(1) by blast
  have b: "unat d0 < 2 ^ 60" "unat d1 < 2 ^ 60" "unat d2 < 2 ^ 60" "unat d3 < 2 ^ 60" "unat d4 < 2 ^ 60"
    using assms(2) [of 0] assms(2) [of 1] assms(2) [of 2] assms(2) [of 3] assms(2) [of 4]
    by (simp_all add: d)
  define e1 where "e1 = d1 + drop_bit 26 d0"
  define e2 where "e2 = d2 + drop_bit 26 e1"
  define e3 where "e3 = d3 + drop_bit 26 e2"
  define e4 where "e4 = d4 + drop_bit 26 e3"
  define f0 where "f0 = (d0 AND 0x3ffffff) + drop_bit 26 e4 * 5"
  define f1 where "f1 = (e1 AND 0x3ffffff) + drop_bit 26 f0"
  have u1: "unat e1 = unat d1 + unat d0 div 2 ^ 26"
    unfolding e1_def using b by (subst unat_plus_le) (simp_all add: unat_drop_bit)
  have l1: "unat e1 < 2 ^ 61" using u1 b by simp
  have u2: "unat e2 = unat d2 + unat e1 div 2 ^ 26"
    unfolding e2_def using b l1 by (subst unat_plus_le) (simp_all add: unat_drop_bit)
  have l2: "unat e2 < 2 ^ 61" using u2 b l1 by simp
  have u3: "unat e3 = unat d3 + unat e2 div 2 ^ 26"
    unfolding e3_def using b l2 by (subst unat_plus_le) (simp_all add: unat_drop_bit)
  have l3: "unat e3 < 2 ^ 61" using u3 b l2 by simp
  have u4: "unat e4 = unat d4 + unat e3 div 2 ^ 26"
    unfolding e4_def using b l3 by (subst unat_plus_le) (simp_all add: unat_drop_bit)
  have l4: "unat e4 < 2 ^ 61" using u4 b l3 by simp
  have m5: "unat (drop_bit 26 e4 * 5) = unat e4 div 2 ^ 26 * 5"
    using l4 by (subst unat_times_le) (simp_all add: unat_drop_bit)
  have v0: "unat f0 = unat d0 mod 2 ^ 26 + unat e4 div 2 ^ 26 * 5"
    unfolding f0_def using l4 by (subst unat_plus_le) (simp_all add: m5 unat_and_26)
  have lf: "unat f0 < 2 ^ 39" using v0 l4 by simp
  have v1: "unat f1 = unat e1 mod 2 ^ 26 + unat f0 div 2 ^ 26"
    unfolding f1_def using lf by (subst unat_plus_le) (simp_all add: unat_and_26 unat_drop_bit)
  have r: "poly1305_carry d = [f0 AND 0x3ffffff, f1, e2 AND 0x3ffffff, e3 AND 0x3ffffff, e4 AND 0x3ffffff]"
    by (simp add: poly1305_carry_def d Let_def e1_def e2_def e3_def e4_def f0_def f1_def)
  show "carried (poly1305_carry d)"
    using lf by (simp add: carried_def r unat_and_26 v1)
  have "val5 (poly1305_carry d) + unat e4 div 2 ^ 26 * poly_p = val5 d"
  proof -
    define q where "q x = unat x div 2 ^ 26" for x :: u64
    define t where "t x = unat x mod 2 ^ 26" for x :: u64
    have e: "unat x = 67108864 * q x + t x" for x
      by (simp add: q_def t_def)
    have "val5 (poly1305_carry d) = t f0 + 67108864 * (t e1 + q f0)
        + 4503599627370496 * t e2 + 302231454903657293676544 * t e3
        + 20282409603651670423947251286016 * t e4"
      by (simp add: r val5_def unat_and_26 v1 t_def q_def)
    moreover have "val5 d = unat d0 + 67108864 * unat d1 + 4503599627370496 * unat d2
        + 302231454903657293676544 * unat d3 + 20282409603651670423947251286016 * unat d4"
      by (simp add: d val5_def)
    moreover have "unat d0 = 67108864 * q d0 + t d0" "unat d1 + q d0 = 67108864 * q e1 + t e1"
      "unat d2 + q e1 = 67108864 * q e2 + t e2" "unat d3 + q e2 = 67108864 * q e3 + t e3"
      "unat d4 + q e3 = 67108864 * q e4 + t e4" "t d0 + 5 * q e4 = 67108864 * q f0 + t f0"
      using u1 u2 u3 u4 v0 e [of d0] e [of e1] e [of e2] e [of e3] e [of e4] e [of f0]
      unfolding q_def [symmetric] t_def [symmetric] by linarith+
    ultimately have "val5 (poly1305_carry d) + 1361129467683753853853498429727072845819 * q e4 = val5 d"
      by algebra
    then show ?thesis by (simp add: q_def mult.commute)
  qed
  then show "\<exists>q. val5 (poly1305_carry d) + q * poly_p = val5 d" by blast
qed


section \<open>The limbs of a block and of the key\<close>

lemma nat_and_byte:
  assumes "a < 256" "b < (256 :: nat)"
  shows "(a + 256 * x) AND (b + 256 * y) = (a AND b) + 256 * (x AND y)"
proof -
  have t: "take_bit 8 (c + 256 * z) = c" "drop_bit 8 (c + 256 * z) = z" if "c < 256" for c z :: nat
    using that by (simp_all add: take_bit_eq_mod drop_bit_eq_div)
  have "a AND b = take_bit 8 (a AND b)" using assms t [of a 0] t [of b 0] by simp
  then have l: "a AND b < 256" using take_bit_nat_less_exp [of 8 "a AND b"] by simp
  have "take_bit 8 ((a + 256 * x) AND (b + 256 * y)) = take_bit 8 ((a AND b) + 256 * (x AND y))"
    using assms l by (simp only: take_bit_and t)
  moreover have "drop_bit 8 ((a + 256 * x) AND (b + 256 * y)) = drop_bit 8 ((a AND b) + 256 * (x AND y))"
    using assms l by (simp only: drop_bit_and t)
  ultimately show ?thesis by (metis bits_ident)
qed

lemma le_nat_and: "length xs = length ys \<Longrightarrow> le_nat (map2 (AND) xs ys) = le_nat xs AND le_nat ys"
proof (induction xs ys rule: list_induct2)
  case Nil
  then show ?case by simp
next
  case (Cons x xs y ys)
  have "unat x < 256" "unat y < 256" using unsigned_less [of x] unsigned_less [of y] by simp_all
  then show ?case using Cons by (simp add: nat_and_byte unsigned_and_eq)
qed

lemma le_nat_le_bytes: "le_nat (le_bytes n w) = unat w mod 256 ^ n"
proof (induction n)
  case 0
  then show ?case by (simp add: le_bytes_def)
next
  case (Suc n)
  have "le_bytes (Suc n) w = le_bytes n w @ [ucast (drop_bit (8 * n) w)]"
    by (simp add: le_bytes_def)
  moreover have "unat (ucast (drop_bit (8 * n) w) :: u8) = unat w div 256 ^ n mod 256"
    by (simp add: unat_drop_bit unsigned_ucast_eq take_bit_eq_mod power_mult)
  ultimately show ?case
    using Suc by (simp add: le_nat_append mod_mult2_eq mult.commute [of 256] del: power_Suc)
      (simp add: mod_mult2_eq mult.commute [of 256])
qed

lemma limb_bits:
  assumes "i < 4"
  shows "N div 2 ^ (24 * i) mod 2 ^ 32 div 2 ^ (2 * i) mod 2 ^ 26 = (N :: nat) div 2 ^ (26 * i) mod 2 ^ 26"
proof -
  have "take_bit 26 (drop_bit (2 * i) (take_bit 32 (drop_bit (24 * i) N))) = take_bit 26 (drop_bit (26 * i) N)"
    using assms by (simp add: drop_bit_take_bit algebra_simps min_absorb1)
  then show ?thesis by (simp add: take_bit_eq_mod drop_bit_eq_div)
qed

lemma limbs_sum:
  assumes "N < 2 ^ 128"
  shows "N mod 2 ^ 26 + 2 ^ 26 * (N div 2 ^ 26 mod 2 ^ 26) + 2 ^ 52 * (N div 2 ^ 52 mod 2 ^ 26)
         + 2 ^ 78 * (N div 2 ^ 78 mod 2 ^ 26) + 2 ^ 104 * (N div 2 ^ 104) = (N :: nat)"
proof -
  define q where "q k = N div 2 ^ k" for k
  have e: "q k = 2 ^ 26 * q (k + 26) + q k mod 2 ^ 26" for k
    unfolding q_def power_add by (subst div_mult2_eq) simp
  have "N = q 0" by (simp add: q_def)
  then show ?thesis using e [of 0] e [of 26] e [of 52] e [of 78]
    unfolding q_def [symmetric] by simp
qed

text \<open>The four bytes of a limb as a number.\<close>

lemma four_bytes:
  assumes "16 \<le> length p" "i \<le> 4"
  shows "le_nat (take 4 (drop (3 * i) p)) = le_nat (take 16 p) div 2 ^ (24 * i) mod 2 ^ 32"
proof -
  have "take 4 (drop (3 * i) p) = take 4 (drop (3 * i) (take 16 p))"
    using assms by (simp add: drop_take min_absorb1)
  also have "le_nat \<dots> = le_nat (take 16 p) div 256 ^ (3 * i) mod 256 ^ 4"
    using assms by (simp add: le_nat_take_drop)
  also have "(256 :: nat) ^ (3 * i) = 2 ^ (24 * i)"
    using power_mult [of "2 :: nat" 8 "3 * i"] by (simp add: mult.assoc [symmetric])
  finally show ?thesis by simp
qed


definition good_limbs :: "u64 list \<Rightarrow> bool" where
  "good_limbs a \<longleftrightarrow> length a = 5 \<and> (\<forall>i<5. unat (a ! i) < 2 ^ 26)"

lemma all_less_5: "(\<forall>i<5::nat. P i) \<longleftrightarrow> P 0 \<and> P 1 \<and> P 2 \<and> P 3 \<and> P 4"
  by (auto simp: numeral_eq_Suc less_Suc_eq)

lemma unat_less_32: "unat (x :: u32) < 2 ^ 32"
  using unsigned_less [of x] by simp

lemma msg_limbs_val:
  assumes p: "16 \<le> length p" and pad: "padding = push_bit 24 (if full then 1 else 0)"
  shows "length (poly1305_msg_limbs padding p) = 5"
    and "i < 5 \<Longrightarrow> unat (poly1305_msg_limbs padding p ! i) < 2 ^ 26"
    and "val5 (map ucast (poly1305_msg_limbs padding p))
         = le_nat (take 16 p) + (if full then 2 ^ 128 else 0)"
proof -
  let ?N = "le_nat (take 16 p)"
  show l: "length (poly1305_msg_limbs padding p) = 5" by (simp add: poly1305_msg_limbs_def)
  have N: "?N < 2 ^ 128" using le_nat_less [of "take 16 p"] p by (simp add: min_absorb2)
  have w: "unat (drop_bit (2 * i) (le_word (take 4 (drop (3 * i) p))) :: u32)
           = ?N div 2 ^ (24 * i) mod 2 ^ 32 div 2 ^ (2 * i)" if "i \<le> 4" for i
    using four_bytes [OF p that] by (simp add: unat_drop_bit unat_le_word)
  have low: "unat (poly1305_msg_limbs padding p ! i) = ?N div 2 ^ (26 * i) mod 2 ^ 26" if "i < 4" for i
  proof -
    have "poly1305_msg_limbs padding p ! i = drop_bit (2 * i) (le_word (take 4 (drop (3 * i) p))) AND 0x3ffffff"
      using that by (simp add: poly1305_msg_limbs_def Let_def)
    then have "unat (poly1305_msg_limbs padding p ! i)
        = unat (drop_bit (2 * i) (le_word (take 4 (drop (3 * i) p))) :: u32) mod 2 ^ 26"
      by (simp only:) (rule unat_and_mask, simp add: mask_eq_exp_minus_1)
    then show ?thesis using w [of i] limb_bits [OF that, of ?N] that by (simp only:)
  qed
  let ?t = "drop_bit 8 (le_word (take 4 (drop 12 p))) :: u32"
  have t: "unat ?t = ?N div 2 ^ 104"
  proof -
    have "?N div 2 ^ 96 < 2 ^ 32" using N by (simp add: less_mult_imp_div_less)
    then show ?thesis using w [of 4] by (simp add: div_mult2_eq [symmetric])
  qed
  then have t24: "unat ?t < 2 ^ 24" using N by (simp add: less_mult_imp_div_less)
  have "ucast (ucast ?t OR padding :: u64) = ?t OR push_bit 24 (if full then 1 else 0)"
    unfolding pad by (rule bit_word_eqI) (auto simp: bit_simps)
  also have "\<dots> = ?t + push_bit 24 (if full then 1 else 0)"
  proof (rule disjunctive_add [symmetric])
    fix n
    have "take_bit 24 ?t = ?t"
      using t24 by (simp only: word_unat_eq_iff unsigned_take_bit_eq take_bit_nat_eq_self)
    then have "n < 24" if "bit ?t n" using that by (metis bit_take_bit_iff)
    then show "\<not> bit ?t n \<or> \<not> bit (push_bit 24 (if full then 1 else 0) :: u32) n"
      by (auto simp: bit_simps)
  qed
  finally have h: "poly1305_msg_limbs padding p ! 4 = ?t + push_bit 24 (if full then 1 else 0)"
    by (simp add: poly1305_msg_limbs_def Let_def)
  have h: "unat (poly1305_msg_limbs padding p ! 4) = ?N div 2 ^ 104 + (if full then 2 ^ 24 else 0)"
    unfolding h using t t24 by (simp add: unat_word_ariths)
  show "i < 5 \<Longrightarrow> unat (poly1305_msg_limbs padding p ! i) < 2 ^ 26"
    using h t24 t low by (cases "i = 4") simp_all
  have u: "unat (map ucast (poly1305_msg_limbs padding p) ! i :: u64) = unat (poly1305_msg_limbs padding p ! i)"
    if "i < 5" for i
    using that l unat_less_32 [of "poly1305_msg_limbs padding p ! i"] by (simp add: unsigned_ucast_eq take_bit_eq_mod)
  have "unat (poly1305_msg_limbs padding p ! 0) = ?N mod 2 ^ 26"
    "unat (poly1305_msg_limbs padding p ! 1) = ?N div 2 ^ 26 mod 2 ^ 26"
    "unat (poly1305_msg_limbs padding p ! 2) = ?N div 2 ^ 52 mod 2 ^ 26"
    "unat (poly1305_msg_limbs padding p ! 3) = ?N div 2 ^ 78 mod 2 ^ 26"
    using low [of 0] low [of 1] low [of 2] low [of 3] by simp_all
  note limbs = this h
  have us: "\<forall>i<5. unat (map ucast (poly1305_msg_limbs padding p) ! i :: u64) = unat (poly1305_msg_limbs padding p ! i)"
    using u by blast
  note us = us [unfolded all_less_5]
  have "val5 (map ucast (poly1305_msg_limbs padding p))
      = ?N mod 2 ^ 26 + 2 ^ 26 * (?N div 2 ^ 26 mod 2 ^ 26) + 2 ^ 52 * (?N div 2 ^ 52 mod 2 ^ 26)
         + 2 ^ 78 * (?N div 2 ^ 78 mod 2 ^ 26)
         + 2 ^ 104 * (?N div 2 ^ 104 + (if full then 2 ^ 24 else 0))"
    by (simp only: val5_def us limbs)
  also have "\<dots> = ?N mod 2 ^ 26 + 2 ^ 26 * (?N div 2 ^ 26 mod 2 ^ 26) + 2 ^ 52 * (?N div 2 ^ 52 mod 2 ^ 26)
         + 2 ^ 78 * (?N div 2 ^ 78 mod 2 ^ 26) + 2 ^ 104 * (?N div 2 ^ 104) + (if full then 2 ^ 128 else 0)"
    by (simp add: distrib_left)
  finally show "val5 (map ucast (poly1305_msg_limbs padding p)) = ?N + (if full then 2 ^ 128 else 0)"
    using limbs_sum [OF N] by simp
qed

text \<open>Clamping is the mask of the RFC.\<close>

definition clamp_mask :: "u8 list" where
  "clamp_mask = [255, 255, 255, 15, 252, 255, 255, 15, 252, 255, 255, 15, 252, 255, 255, 15]"

lemma clamp_and: "length k = 16 \<Longrightarrow> clamp k = map2 (AND) k clamp_mask"
proof -
  have "(255 :: u8) = - 1" by simp
  then have 255: "x AND 255 = x" for x :: u8 by (simp only: and.right_neutral)
  assume "length k = 16"
  then obtain x0 x1 x2 x3 x4 x5 x6 x7 x8 x9 xa xb xc xd xe xf where
    k: "k = [x0, x1, x2, x3, x4, x5, x6, x7, x8, x9, xa, xb, xc, xd, xe, xf]"
    by (auto simp: length_Suc_conv eval_nat_numeral)
  show ?thesis unfolding k by (simp add: clamp_def clamp_index_def clamp_mask_def 255)
qed

lemma clamp_val:
  assumes "length k = 16"
  shows "length (clamp k) = 16" "le_nat (clamp k) = poly_r k"
  using assms le_nat_and [of k clamp_mask] clamp_and [OF assms]
  by (simp_all add: poly_r_def clamp_mask_def)


lemma drop_4_le_bytes:
  "unat (w :: u64) < 2 ^ 32 \<Longrightarrow> le_nat (xs @ drop 4 (le_bytes 8 w)) = le_nat xs"
proof -
  assume w: "unat w < 2 ^ 32"
  have "le_nat (drop 4 (le_bytes 8 w)) = unat w mod 256 ^ 8 div 256 ^ 4"
    by (simp add: le_nat_take_drop le_nat_le_bytes)
  also have "\<dots> = 0" using w by simp
  finally show ?thesis by (simp add: le_nat_append)
qed

text \<open>The limbs \<open>init\<close> stores, given that the old limb is below \<open>2 ^ 32\<close>.\<close>

definition init_limb :: "u8 list \<Rightarrow> u64 list \<Rightarrow> nat \<Rightarrow> u64" where
  "init_limb k old i =
     drop_bit (2 * i) (le_word (take 4 (drop (3 * i) k) @ drop 4 (le_bytes 8 (old ! i)))) AND 0x3ffffff"

lemma init_limb_val:
  assumes k: "length k = 16" and i: "i \<le> 4" and old: "unat (old ! i) < 2 ^ 32"
  shows "unat (init_limb k old i)
         = (if i < 4 then le_nat k div 2 ^ (26 * i) mod 2 ^ 26 else le_nat k div 2 ^ 104)"
proof -
  have l: "length (take 4 (drop (3 * i) k)) = 4" using k i by simp
  have "unat (le_word (take 4 (drop (3 * i) k) @ drop 4 (le_bytes 8 (old ! i))) :: u64)
        = le_nat (take 4 (drop (3 * i) k))"
    using l by (subst unat_le_word) (simp_all add: drop_4_le_bytes [OF old])
  also have "\<dots> = le_nat k div 2 ^ (24 * i) mod 2 ^ 32" using four_bytes [of k i] k i by simp
  finally have v: "unat (init_limb k old i) = le_nat k div 2 ^ (24 * i) mod 2 ^ 32 div 2 ^ (2 * i) mod 2 ^ 26"
    unfolding init_limb_def unat_and_26 unat_drop_bit by (simp only:)
  show ?thesis
  proof (cases "i < 4")
    case True
    then show ?thesis using v limb_bits [OF True, of "le_nat k"] by (simp only:) simp
  next
    case False
    have "le_nat k < 2 ^ 128" using le_nat_less [of k] k by simp
    moreover have "i = 4" using False i by simp
    ultimately show ?thesis using v by (simp add: less_mult_imp_div_less div_mult2_eq [symmetric])
  qed
qed

lemma init_limbs_val:
  assumes "length k = 16" "\<forall>i<5. unat (old ! i) < 2 ^ 32"
  shows "good_limbs (map (init_limb k old) [0..<5])"
    and "val5 (map (init_limb k old) [0..<5]) = le_nat k"
proof -
  have N: "le_nat k < 2 ^ 128" using le_nat_less [of k] assms by simp
  have v: "unat (init_limb k old i)
         = (if i < 4 then le_nat k div 2 ^ (26 * i) mod 2 ^ 26 else le_nat k div 2 ^ 104)" if "i < 5" for i
    using init_limb_val assms that by simp
  show "good_limbs (map (init_limb k old) [0..<5])"
    using N by (simp add: good_limbs_def v less_mult_imp_div_less)
  show "val5 (map (init_limb k old) [0..<5]) = le_nat k"
    using limbs_sum [OF N] by (simp add: val5_def v)
qed

section \<open>Multiplication modulo the prime\<close>

lemma sum5:
  assumes "unat a < 2 ^ 57" "unat b < 2 ^ 57" "unat c < 2 ^ 57" "unat d < 2 ^ 57" "unat e < 2 ^ 57"
  shows "unat (a + b + c + d + e :: u64) = unat a + unat b + unat c + unat d + unat e"
  using assms by (simp add: unat_plus_le)

lemma prod_bound:
  assumes "unat a < 2 ^ 28" "unat b < 2 ^ 29"
  shows "unat (a * b :: u64) = unat a * unat b" "unat (a * b) < 2 ^ 57"
proof -
  have "unat a * unat b < 2 ^ 28 * 2 ^ 29" using assms by (intro mult_strict_mono) simp_all
  then have l: "unat a * unat b < 2 ^ 57" by simp
  then show "unat (a * b) = unat a * unat b" by (intro unat_times_le) simp
  with l show "unat (a * b) < 2 ^ 57" by simp
qed

lemma nth5: "[a, b, c, d, e] ! 1 = b" "[a, b, c, d, e] ! 2 = c" "[a, b, c, d, e] ! 3 = d"
  "[a, b, c, d, e] ! 4 = e"
  by simp_all

lemma poly1305_mult_val:
  assumes a: "length a = 5" "\<forall>i<5. unat (a ! i) < 2 ^ 28" and r: "good_limbs r"
    and s: "s = map (\<lambda>i. r ! (i + 1) * 5) [0..<4]"
  shows "length (poly1305_mult a r s) = 5"
    and "i < 5 \<Longrightarrow> unat (poly1305_mult a r s ! i) < 2 ^ 60"
    and "\<exists>q. val5 a * val5 r = val5 (poly1305_mult a r s) + q * poly_p"
proof -
  obtain a0 a1 a2 a3 a4 where ae: "a = [a0, a1, a2, a3, a4]" using list5 a(1) by blast
  obtain r0 r1 r2 r3 r4 where re: "r = [r0, r1, r2, r3, r4]" using list5 r unfolding good_limbs_def by blast
  have al: "unat a0 < 2 ^ 28" "unat a1 < 2 ^ 28" "unat a2 < 2 ^ 28" "unat a3 < 2 ^ 28" "unat a4 < 2 ^ 28"
    using a(2) by (simp_all add: ae all_less_5)
  have r26: "unat r0 < 2 ^ 26" "unat r1 < 2 ^ 26" "unat r2 < 2 ^ 26" "unat r3 < 2 ^ 26" "unat r4 < 2 ^ 26"
    using r by (simp_all add: re good_limbs_def all_less_5)
  have s5: "unat (x * 5) = unat x * 5" if "unat x < 2 ^ 26" for x :: u64
    using that by (subst unat_times_le) simp_all
  have sl: "unat (r1 * 5) < 2 ^ 29" "unat (r2 * 5) < 2 ^ 29" "unat (r3 * 5) < 2 ^ 29" "unat (r4 * 5) < 2 ^ 29"
    using r26 by (simp_all add: s5)
  have rl: "unat r0 < 2 ^ 29" "unat r1 < 2 ^ 29" "unat r2 < 2 ^ 29" "unat r3 < 2 ^ 29" "unat r4 < 2 ^ 29"
    using r26 by simp_all
  have se: "s = [r1 * 5, r2 * 5, r3 * 5, r4 * 5]"
    by (simp add: s re upt_conv_Cons)
  show "length (poly1305_mult a r s) = 5" by (simp add: poly1305_mult_def)
  have me: "poly1305_mult a r s =
    [a0 * r0 + a1 * (r4 * 5) + a2 * (r3 * 5) + a3 * (r2 * 5) + a4 * (r1 * 5),
     a0 * r1 + a1 * r0 + a2 * (r4 * 5) + a3 * (r3 * 5) + a4 * (r2 * 5),
     a0 * r2 + a1 * r1 + a2 * r0 + a3 * (r4 * 5) + a4 * (r3 * 5),
     a0 * r3 + a1 * r2 + a2 * r1 + a3 * r0 + a4 * (r4 * 5),
     a0 * r4 + a1 * r3 + a2 * r2 + a3 * r1 + a4 * r0]"
    by (simp add: poly1305_mult_def ae re se)
  note P = prod_bound(1) and B = prod_bound(2)
  have m0: "unat (a0 * r0 + a1 * (r4 * 5) + a2 * (r3 * 5) + a3 * (r2 * 5) + a4 * (r1 * 5))
      = unat a0 * unat r0 + unat a1 * (unat r4 * 5) + unat a2 * (unat r3 * 5) + unat a3 * (unat r2 * 5) + unat a4 * (unat r1 * 5)"
    by (rule trans [OF sum5], (rule B; simp only: al sl rl)+) (simp only: P al sl rl, (simp only: s5 r26)?)
  have m1: "unat (a0 * r1 + a1 * r0 + a2 * (r4 * 5) + a3 * (r3 * 5) + a4 * (r2 * 5))
      = unat a0 * unat r1 + unat a1 * unat r0 + unat a2 * (unat r4 * 5) + unat a3 * (unat r3 * 5) + unat a4 * (unat r2 * 5)"
    by (rule trans [OF sum5], (rule B; simp only: al sl rl)+) (simp only: P al sl rl, (simp only: s5 r26)?)
  have m2: "unat (a0 * r2 + a1 * r1 + a2 * r0 + a3 * (r4 * 5) + a4 * (r3 * 5))
      = unat a0 * unat r2 + unat a1 * unat r1 + unat a2 * unat r0 + unat a3 * (unat r4 * 5) + unat a4 * (unat r3 * 5)"
    by (rule trans [OF sum5], (rule B; simp only: al sl rl)+) (simp only: P al sl rl, (simp only: s5 r26)?)
  have m3: "unat (a0 * r3 + a1 * r2 + a2 * r1 + a3 * r0 + a4 * (r4 * 5))
      = unat a0 * unat r3 + unat a1 * unat r2 + unat a2 * unat r1 + unat a3 * unat r0 + unat a4 * (unat r4 * 5)"
    by (rule trans [OF sum5], (rule B; simp only: al sl rl)+) (simp only: P al sl rl, (simp only: s5 r26)?)
  have m4: "unat (a0 * r4 + a1 * r3 + a2 * r2 + a3 * r1 + a4 * r0)
      = unat a0 * unat r4 + unat a1 * unat r3 + unat a2 * unat r2 + unat a3 * unat r1 + unat a4 * unat r0"
    by (rule trans [OF sum5], (rule B; simp only: al sl rl)+) (simp only: P al sl rl, (simp only: s5 r26)?)
  have "val5 a * val5 r = val5 (poly1305_mult a r s) + (1 * (unat a1 * unat r4 + unat a2 * unat r3 + unat a3 * unat r2 + unat a4 * unat r1) + 67108864 * (unat a2 * unat r4 + unat a3 * unat r3 + unat a4 * unat r2) + 4503599627370496 * (unat a3 * unat r4 + unat a4 * unat r3) + 302231454903657293676544 * (unat a4 * unat r4)) * poly_p"
    unfolding me unfolding val5_def ae re
    by (simp only: nth_Cons_0 nth5 m0 m1 m2 m3 m4) (simp add: algebra_simps)
  then show "\<exists>q. val5 a * val5 r = val5 (poly1305_mult a r s) + q * poly_p"
    by (rule exI)
  have F: "unat (a + b + c + d + e) < 2 ^ 60"
    if "unat a < 2 ^ 57" "unat b < 2 ^ 57" "unat c < 2 ^ 57" "unat d < 2 ^ 57" "unat e < 2 ^ 57" for a b c d e :: u64
    using that by (simp add: sum5)
  have "\<forall>i<5. unat (poly1305_mult a r s ! i) < 2 ^ 60"
    unfolding all_less_5 me nth_Cons_0 nth5 by (intro conjI F B; simp only: al sl rl)
  then show "i < 5 \<Longrightarrow> unat (poly1305_mult a r s ! i) < 2 ^ 60" by blast
qed


section \<open>One block and the block loop\<close>

lemma poly1305_block_step:
  assumes acc: "carried acc" and r: "good_limbs r" and s: "s = map (\<lambda>i. r ! (i + 1) * 5) [0..<4]"
    and p: "16 \<le> length p" and pad: "padding = push_bit 24 (if full then 1 else 0)"
    and acc': "acc' = poly1305_carry (poly1305_mult (map2 (+) acc (map ucast (poly1305_msg_limbs padding p))) r s)"
  shows "carried acc'"
    and "val5 acc' mod poly_p
         = (val5 acc + le_nat (take 16 p) + (if full then 2 ^ 128 else 0)) * val5 r mod poly_p"
proof -
  define b :: "u64 list" where "b = map ucast (poly1305_msg_limbs padding p)"
  note L = msg_limbs_val [OF p pad]
  have b5: "length b = 5" using L(1) by (simp add: b_def)
  have bl: "unat (b ! i) < 2 ^ 26" if "i < 5" for i
    using L(2) [OF that] L(1) that
      unat_less_32 [of "poly1305_msg_limbs padding p ! i"] by (simp add: b_def unsigned_ucast_eq take_bit_eq_mod)
  obtain a0 a1 a2 a3 a4 where ae: "acc = [a0, a1, a2, a3, a4]" using list5 acc unfolding carried_def by blast
  obtain b0 b1 b2 b3 b4 where be: "b = [b0, b1, b2, b3, b4]" using list5 b5 by blast
  have al: "unat a0 < 2 ^ 27" "unat a1 < 2 ^ 27" "unat a2 < 2 ^ 27" "unat a3 < 2 ^ 27" "unat a4 < 2 ^ 27"
    using acc by (simp_all add: ae carried_def)
  have bll: "unat b0 < 2 ^ 27" "unat b1 < 2 ^ 27" "unat b2 < 2 ^ 27" "unat b3 < 2 ^ 27" "unat b4 < 2 ^ 27"
    using bl [of 0] bl [of 1] bl [of 2] bl [of 3] bl [of 4] by (simp_all add: be)
  have sum: "unat (x + y) = unat x + unat y" "unat (x + y) < 2 ^ 28" if "unat x < 2 ^ 27" "unat y < 2 ^ 27" for x y :: u64
    using that by (simp_all add: unat_plus_le)
  define c where "c = map2 (+) acc b"
  have c: "c = [a0 + b0, a1 + b1, a2 + b2, a3 + b3, a4 + b4]" by (simp add: c_def ae be)
  have cl: "length c = 5" "\<forall>i<5. unat (c ! i) < 2 ^ 28"
    unfolding all_less_5 c nth_Cons_0 nth5 by (simp, intro conjI sum(2) al bll)
  have cv: "val5 c = val5 acc + val5 b"
    unfolding c val5_def ae be nth_Cons_0 nth5 using al bll by (simp add: sum(1))
  note M = poly1305_mult_val [OF cl r s]
  have acc'': "acc' = poly1305_carry (poly1305_mult c r s)" by (simp only: acc' c_def b_def)
  note C = poly1305_carry_val [OF M(1) M(2), folded acc'']
  show "carried acc'" by (rule C(1))
  obtain q1 where q1: "val5 acc' + q1 * poly_p = val5 (poly1305_mult c r s)" using C(2) by blast
  obtain q2 where q2: "val5 c * val5 r = val5 (poly1305_mult c r s) + q2 * poly_p" using M(3) by blast
  have "val5 c * val5 r = val5 acc' + (q1 + q2) * poly_p" using q1 q2 by (simp add: algebra_simps)
  then have "val5 acc' mod poly_p = val5 c * val5 r mod poly_p" by (metis mod_mult_self1)
  then show "val5 acc' mod poly_p
         = (val5 acc + le_nat (take 16 p) + (if full then 2 ^ 128 else 0)) * val5 r mod poly_p"
    using L(3) by (simp only: cv b_def [symmetric] add.assoc)
qed

lemma poly_step_mod: "poly_step r (a mod poly_p) blk = poly_step r a blk"
  unfolding poly_step_def by (metis (no_types) add.assoc mod_add_left_eq mod_mult_left_eq)

lemma poly1305_block_loop_val:
  assumes "carried acc" "good_limbs r" "s = map (\<lambda>i. r ! (i + 1) * 5) [0..<4]"
    "16 dvd msgLen" "msgLen \<le> length p"
  shows "\<exists>acc'. poly1305_block_loop (push_bit 24 1) p msgLen acc r s = Some acc' \<and> carried acc' \<and>
           val5 acc' mod poly_p = foldl (poly_step (val5 r)) (val5 acc mod poly_p) (chunks 16 (take msgLen p))"
  using assms
proof (induction msgLen arbitrary: p acc rule: less_induct)
  case (less msgLen)
  show ?case
  proof (cases "msgLen = 0")
    case True
    then show ?thesis using less.prems by (simp add: poly1305_block_loop.simps)
  next
    case False
    with less.prems have n: "16 \<le> msgLen" "16 \<le> length p" by (auto dest: dvd_imp_le)
    define acc1 where "acc1 = poly1305_carry (poly1305_mult
      (map2 (+) acc (map ucast (poly1305_msg_limbs (push_bit 24 1) p))) r s)"
    have S: "carried acc1" "val5 acc1 mod poly_p = poly_step (val5 r) (val5 acc) (take 16 p)"
      using poly1305_block_step [OF less.prems(1-3) n(2), of "push_bit 24 1" True acc1] n acc1_def
      by (simp_all add: poly_step_def min_absorb2)
    have "16 dvd msgLen - 16" "msgLen - 16 \<le> length (drop 16 p)" "msgLen - 16 < msgLen"
      using less.prems n by (simp_all add: dvd_diff_nat)
    from less.IH [OF this(3) S(1) less.prems(2,3) this(1,2)]
    obtain acc' where A: "poly1305_block_loop (push_bit 24 1) (drop 16 p) (msgLen - 16) acc1 r s = Some acc'"
      "carried acc'" "val5 acc' mod poly_p
        = foldl (poly_step (val5 r)) (val5 acc1 mod poly_p) (chunks 16 (take (msgLen - 16) (drop 16 p)))" by blast
    have "poly1305_block_loop (push_bit 24 1) p msgLen acc r s = Some acc'"
      using n A(1) by (subst poly1305_block_loop.simps) (simp add: acc1_def Let_def)
    moreover have "foldl (poly_step (val5 r)) (val5 acc mod poly_p) (chunks 16 (take msgLen p))
        = foldl (poly_step (val5 r)) (poly_step (val5 r) (val5 acc mod poly_p) (take 16 p))
            (chunks 16 (take (msgLen - 16) (drop 16 p)))"
      using n by (subst foldl_chunks_step) (simp_all add: drop_take min_absorb1)
    ultimately show ?thesis using A S(2) by (simp only: poly_step_mod) blast
  qed
qed

lemma poly1305_block_val:
  assumes "carried acc" "good_limbs r" "s = map (\<lambda>i. r ! (i + 1) * 5) [0..<4]"
    "16 dvd msgLen" "msgLen \<le> length p"
  shows "\<exists>acc'. poly1305_block p msgLen acc r s = Some acc' \<and> carried acc' \<and>
           val5 acc' mod poly_p = foldl (poly_step (val5 r)) (val5 acc mod poly_p) (chunks 16 (take msgLen p))"
proof (cases "msgLen = 0")
  case True
  then show ?thesis using assms by (simp add: poly1305_block_def poly1305_block_loop.simps)
next
  case False
  then have "16 \<le> msgLen" using assms(4) by (auto dest: dvd_imp_le)
  then show ?thesis using poly1305_block_loop_val [OF assms] by (simp add: poly1305_block_def)
qed

end
