(* ===== verification/Poly1305_Correct.thy ===== *)
theory Poly1305_Correct imports Poly1305_Ref begin

text \<open>
  The reference Poly1305 object computes the MAC of RFC 8439: the closing arithmetic of
  \<^verbatim>\<open>finish\<close>, the invariant that \<^verbatim>\<open>init\<close> and every \<^verbatim>\<open>update\<close> keep, and what the object does
  when it is used again after \<^verbatim>\<open>finish\<close>.
\<close>

unbundle bit_operations_syntax

section \<open>The closing arithmetic\<close>

lemma final_carry_val:
  assumes "carried acc"
  shows "good_limbs (poly1305_final_carry acc)"
    and "\<exists>q. val5 (poly1305_final_carry acc) + q * poly_p = val5 acc"
proof -
  obtain a0 a1 a2 a3 a4 where a: "acc = [a0, a1, a2, a3, a4]"
    using list5 assms unfolding carried_def by blast
  have b: "unat a0 < 2 ^ 26" "unat a1 < 2 ^ 26 + 2 ^ 16" "unat a2 < 2 ^ 26" "unat a3 < 2 ^ 26" "unat a4 < 2 ^ 26"
    using assms by (simp_all add: a carried_def)
  define e2 where "e2 = a2 + drop_bit 26 a1"
  define e3 where "e3 = a3 + drop_bit 26 e2"
  define e4 where "e4 = a4 + drop_bit 26 e3"
  define f0 where "f0 = a0 + drop_bit 26 e4 * 5"
  define f1 where "f1 = (a1 AND 0x3ffffff) + drop_bit 26 f0"
  have u2: "unat e2 = unat a2 + unat a1 div 2 ^ 26"
    unfolding e2_def using b by (subst unat_plus_le) (simp_all add: unat_drop_bit)
  have u3: "unat e3 = unat a3 + unat e2 div 2 ^ 26"
    unfolding e3_def using b u2 by (subst unat_plus_le) (simp_all add: unat_drop_bit)
  have u4: "unat e4 = unat a4 + unat e3 div 2 ^ 26"
    unfolding e4_def using b u2 u3 by (subst unat_plus_le) (simp_all add: unat_drop_bit)
  have c1: "unat a1 div 2 ^ 26 \<le> 1" using b(2) by simp
  have c2: "unat e2 div 2 ^ 26 \<le> 1" using u2 c1 b by simp
  have c3: "unat e3 div 2 ^ 26 \<le> 1" using u3 c2 b by simp
  have c4: "unat e4 div 2 ^ 26 \<le> 1" using u4 c3 b by simp
  have m5: "unat (drop_bit 26 e4 * 5) = unat e4 div 2 ^ 26 * 5"
    using c4 by (subst unat_times_le) (simp_all add: unat_drop_bit)
  have v0: "unat f0 = unat a0 + unat e4 div 2 ^ 26 * 5"
    unfolding f0_def using b c4 by (subst unat_plus_le) (simp_all add: m5)
  have cf: "unat f0 div 2 ^ 26 \<le> 1" using v0 b c4 by simp
  have v1: "unat f1 = unat a1 mod 2 ^ 26 + unat f0 div 2 ^ 26"
    unfolding f1_def using cf by (subst unat_plus_le) (simp_all add: unat_and_26 unat_drop_bit)
  text \<open>A carry out of the top limb means that the second limb had overflowed.\<close>
  have small: "unat f1 < 2 ^ 26"
  proof (cases "unat a1 < 2 ^ 26")
    case True
    then have "unat e2 < 2 ^ 26" using u2 b by simp
    then have "unat e3 < 2 ^ 26" using u3 b by simp
    then have "unat e4 < 2 ^ 26" using u4 b by simp
    then have "unat f0 < 2 ^ 26" using v0 b by simp
    then show ?thesis using v1 by simp
  next
    case False
    then have "unat a1 mod 2 ^ 26 = unat a1 - 2 ^ 26" using b(2) by (simp add: le_mod_geq)
    then have "unat a1 mod 2 ^ 26 < 2 ^ 16" using b(2) False by linarith
    then show ?thesis using v1 cf by simp
  qed
  have r: "poly1305_final_carry acc = [f0 AND 0x3ffffff, f1, e2 AND 0x3ffffff, e3 AND 0x3ffffff, e4 AND 0x3ffffff]"
    by (simp add: poly1305_final_carry_def a Let_def e2_def e3_def e4_def f0_def f1_def)
  show "good_limbs (poly1305_final_carry acc)"
    using small by (simp add: good_limbs_def all_less_5 r unat_and_26)
  define q where "q x = unat x div 2 ^ 26" for x :: u64
  define t where "t x = unat x mod 2 ^ 26" for x :: u64
  have e: "unat x = 67108864 * q x + t x" for x by (simp add: q_def t_def)
  have "val5 (poly1305_final_carry acc) = t f0 + 67108864 * (t a1 + q f0) + 4503599627370496 * t e2
      + 302231454903657293676544 * t e3 + 20282409603651670423947251286016 * t e4"
    by (simp add: r val5_def unat_and_26 v1 t_def q_def)
  moreover have "val5 acc = unat a0 + 67108864 * unat a1 + 4503599627370496 * unat a2
      + 302231454903657293676544 * unat a3 + 20282409603651670423947251286016 * unat a4"
    by (simp add: a val5_def)
  moreover have "unat a1 = 67108864 * q a1 + t a1" "unat a2 + q a1 = 67108864 * q e2 + t e2"
    "unat a3 + q e2 = 67108864 * q e3 + t e3" "unat a4 + q e3 = 67108864 * q e4 + t e4"
    "unat a0 + 5 * q e4 = 67108864 * q f0 + t f0"
    using u2 u3 u4 v0 e [of a1] e [of e2] e [of e3] e [of e4] e [of f0]
    unfolding q_def [symmetric] t_def [symmetric] by linarith+
  ultimately have "val5 (poly1305_final_carry acc) + q e4 * 1361129467683753853853498429727072845819 = val5 acc"
    by algebra
  then show "\<exists>q. val5 (poly1305_final_carry acc) + q * poly_p = val5 acc"
    by (intro exI [of _ "q e4"]) simp
qed

lemma val5_less: "good_limbs a \<Longrightarrow> val5 a < 2 ^ 130"
proof -
  assume g: "good_limbs a"
  then have "unat (a ! 0) < 2 ^ 26" "unat (a ! 1) < 2 ^ 26" "unat (a ! 2) < 2 ^ 26" "unat (a ! 3) < 2 ^ 26"
    "unat (a ! 4) < 2 ^ 26" by (simp_all add: good_limbs_def)
  then have "unat (a ! 0) \<le> 67108863" "unat (a ! 1) \<le> 67108863" "unat (a ! 2) \<le> 67108863"
    "unat (a ! 3) \<le> 67108863" "unat (a ! 4) \<le> 67108863" by simp_all
  then show ?thesis unfolding val5_def by simp
qed

lemma poly1305_subtract_val:
  assumes g: "good_limbs a"
  shows "good_limbs (poly1305_subtract a)" and "val5 (poly1305_subtract a) = val5 a mod poly_p"
proof -
  obtain a0 a1 a2 a3 a4 where a: "a = [a0, a1, a2, a3, a4]"
    using list5 g unfolding good_limbs_def by blast
  have b: "unat a0 < 2 ^ 26" "unat a1 < 2 ^ 26" "unat a2 < 2 ^ 26" "unat a3 < 2 ^ 26" "unat a4 < 2 ^ 26"
    using g by (simp_all add: a good_limbs_def all_less_5)
  define e0 where "e0 = a0 + 5"
  define e1 where "e1 = a1 + drop_bit 26 e0"
  define e2 where "e2 = a2 + drop_bit 26 e1"
  define e3 where "e3 = a3 + drop_bit 26 e2"
  define e4 where "e4 = a4 + drop_bit 26 e3"
  have u0: "unat e0 = unat a0 + 5"
    unfolding e0_def using b by (subst unat_plus_le) simp_all
  have c0: "unat e0 div 2 ^ 26 \<le> 1" using u0 b by simp
  have u1: "unat e1 = unat a1 + unat e0 div 2 ^ 26"
    unfolding e1_def using b c0 by (subst unat_plus_le) (simp_all add: unat_drop_bit)
  have c1: "unat e1 div 2 ^ 26 \<le> 1" using u1 c0 b by simp
  have u2: "unat e2 = unat a2 + unat e1 div 2 ^ 26"
    unfolding e2_def using b c1 by (subst unat_plus_le) (simp_all add: unat_drop_bit)
  have c2: "unat e2 div 2 ^ 26 \<le> 1" using u2 c1 b by simp
  have u3: "unat e3 = unat a3 + unat e2 div 2 ^ 26"
    unfolding e3_def using b c2 by (subst unat_plus_le) (simp_all add: unat_drop_bit)
  have c3: "unat e3 div 2 ^ 26 \<le> 1" using u3 c2 b by simp
  have u4: "unat e4 = unat a4 + unat e3 div 2 ^ 26"
    unfolding e4_def using b c3 by (subst unat_plus_le) (simp_all add: unat_drop_bit)
  have l4: "unat e4 \<le> 2 ^ 26" using u4 c3 b by simp
  define t where "t = [e0 AND 0x3ffffff, e1 AND 0x3ffffff, e2 AND 0x3ffffff, e3 AND 0x3ffffff, e4 - push_bit 26 1]"
  have r: "poly1305_subtract a = (if drop_bit 63 (e4 - push_bit 26 1) = 0 then t else a)"
    by (simp add: poly1305_subtract_def a Let_def e0_def e1_def e2_def e3_def e4_def t_def)
  have sum: "val5 a + 5 = unat e0 mod 2 ^ 26 + 2 ^ 26 * (unat e1 mod 2 ^ 26) + 2 ^ 52 * (unat e2 mod 2 ^ 26)
      + 2 ^ 78 * (unat e3 mod 2 ^ 26) + 2 ^ 104 * unat e4"
  proof -
    define q where "q x = unat x div 2 ^ 26" for x :: u64
    define t where "t x = unat x mod 2 ^ 26" for x :: u64
    have e: "unat x = 67108864 * q x + t x" for x by (simp add: q_def t_def)
    have "val5 a = unat a0 + 67108864 * unat a1 + 4503599627370496 * unat a2
        + 302231454903657293676544 * unat a3 + 20282409603651670423947251286016 * unat a4"
      by (simp add: a val5_def)
    moreover have "unat a0 + 5 = 67108864 * q e0 + t e0" "unat a1 + q e0 = 67108864 * q e1 + t e1"
      "unat a2 + q e1 = 67108864 * q e2 + t e2" "unat a3 + q e2 = 67108864 * q e3 + t e3"
      "unat e4 = unat a4 + q e3"
      using u0 u1 u2 u3 u4 e [of e0] e [of e1] e [of e2] e [of e3]
      unfolding q_def [symmetric] t_def [symmetric] by linarith+
    ultimately have "val5 a + 5 = t e0 + 67108864 * t e1 + 4503599627370496 * t e2
        + 302231454903657293676544 * t e3 + 20282409603651670423947251286016 * unat e4" by algebra
    then show ?thesis by (simp add: t_def)
  qed
  have lo: "unat e0 mod 2 ^ 26 + 2 ^ 26 * (unat e1 mod 2 ^ 26) + 2 ^ 52 * (unat e2 mod 2 ^ 26)
      + 2 ^ 78 * (unat e3 mod 2 ^ 26) < 2 ^ 104"
  proof -
    have "unat x mod 2 ^ 26 \<le> 67108863" for x :: u64
      using mod_less_divisor [of "2 ^ 26" "unat x"] by simp
    from this [of e0] this [of e1] this [of e2] this [of e3] show ?thesis by simp
  qed
  have "good_limbs (poly1305_subtract a) \<and> val5 (poly1305_subtract a) = val5 a mod poly_p"
  proof (cases "unat e4 = 2 ^ 26")
    case True
    then have "e4 = push_bit 26 1"
      by (intro word_unat_eq_iff [THEN iffD2]) simp
    then have z: "e4 - push_bit 26 1 = 0" by simp
    then have s: "poly1305_subtract a = t" "unat (t ! 4) = 0" by (simp_all add: r t_def)
    have tv: "val5 t = unat e0 mod 2 ^ 26 + 2 ^ 26 * (unat e1 mod 2 ^ 26) + 2 ^ 52 * (unat e2 mod 2 ^ 26)
      + 2 ^ 78 * (unat e3 mod 2 ^ 26)" using z by (simp add: val5_def t_def unat_and_26)
    then have "val5 a + 5 = val5 t + 2 ^ 130" using sum True by simp
    then have "val5 a = val5 t + poly_p" by simp
    moreover have "val5 t < poly_p" using tv lo by simp
    moreover have "good_limbs t" using z by (simp add: good_limbs_def all_less_5 t_def unat_and_26)
    ultimately show ?thesis using s by simp
  next
    case False
    then have "unat e4 < 2 ^ 26" using l4 by simp
    then have "unat (e4 - push_bit 26 1) = 2 ^ 64 + unat e4 - 2 ^ 26"
      by (simp add: unat_sub_if_size word_size word_le_nat_alt)
    then have "unat (drop_bit 63 (e4 - push_bit 26 1)) = (2 ^ 64 + unat e4 - 2 ^ 26) div 2 ^ 63"
      by (simp only: unat_drop_bit)
    also have "\<dots> = 1" using \<open>unat e4 < 2 ^ 26\<close> by simp
    finally have "drop_bit 63 (e4 - push_bit 26 1) \<noteq> 0" by (metis unsigned_0 zero_neq_one)
    then have "poly1305_subtract a = a" by (simp add: r)
    moreover have "val5 a < poly_p"
    proof -
      have "unat e4 \<le> 67108863" using \<open>unat e4 < 2 ^ 26\<close> by simp
      then show ?thesis using sum lo by simp
    qed
    ultimately show ?thesis using g by simp
  qed
  then show "good_limbs (poly1305_subtract a)" "val5 (poly1305_subtract a) = val5 a mod poly_p" by auto
qed


text \<open>Packing 26-bit limbs into 32-bit words keeps the value modulo \<open>2 ^ 128\<close>.\<close>

lemma good_limbs_bits:
  assumes "good_limbs a" "i < 5"
  shows "bit (a ! i) n \<longleftrightarrow> n < 26 \<and> bit (val5 a) (26 * i + n)"
proof -
  let ?l = "\<lambda>i. unat (a ! i)"
  have b: "?l 0 < 2 ^ 26" "?l 1 < 2 ^ 26" "?l 2 < 2 ^ 26" "?l 3 < 2 ^ 26" "?l 4 < 2 ^ 26"
    using assms(1) by (simp_all add: good_limbs_def)
  define w4 where "w4 = ?l 4"
  define w3 where "w3 = ?l 3 + 2 ^ 26 * w4"
  define w2 where "w2 = ?l 2 + 2 ^ 26 * w3"
  define w1 where "w1 = ?l 1 + 2 ^ 26 * w2"
  have v: "val5 a = ?l 0 + 2 ^ 26 * w1" by (simp add: val5_def w1_def w2_def w3_def w4_def)
  have step: "take_bit 26 (x + 2 ^ 26 * y) = x" "drop_bit 26 (x + 2 ^ 26 * y) = y" if "x < 2 ^ 26" for x y :: nat
    using that by (simp_all add: take_bit_eq_mod drop_bit_eq_div)
  have d: "drop_bit 26 (val5 a) = w1" "drop_bit 26 w1 = w2" "drop_bit 26 w2 = w3" "drop_bit 26 w3 = w4"
    using step(2) [OF b(1), of w1] step(2) [OF b(2), of w2] step(2) [OF b(3), of w3] step(2) [OF b(4), of w4]
    by (simp_all only: v w1_def [symmetric] w2_def [symmetric] w3_def [symmetric])
  have t: "take_bit 26 (val5 a) = ?l 0" "take_bit 26 w1 = ?l 1" "take_bit 26 w2 = ?l 2"
    "take_bit 26 w3 = ?l 3" "take_bit 26 w4 = ?l 4"
    using step(1) [OF b(1), of w1] step(1) [OF b(2), of w2] step(1) [OF b(3), of w3] step(1) [OF b(4), of w4]
      take_bit_nat_eq_self [OF b(5)]
    by (simp_all only: v w1_def [symmetric] w2_def [symmetric] w3_def [symmetric] w4_def [symmetric])
  have d52: "drop_bit 52 (val5 a) = w2" using drop_bit_drop_bit [of 26 26 "val5 a"] by (simp add: d)
  have d78: "drop_bit 78 (val5 a) = w3" using drop_bit_drop_bit [of 26 52 "val5 a"] by (simp add: d52 d)
  have d104: "drop_bit 104 (val5 a) = w4" using drop_bit_drop_bit [of 26 78 "val5 a"] by (simp add: d78 d)
  note dd = d(1) d52 d78 d104
  have "\<forall>i<5. ?l i = take_bit 26 (drop_bit (26 * i) (val5 a))"
    unfolding all_less_5 using dd t by simp
  then have "?l i = take_bit 26 (drop_bit (26 * i) (val5 a))" using assms(2) by blast
  then have "bit (?l i) n \<longleftrightarrow> n < 26 \<and> bit (val5 a) (26 * i + n)"
    by (simp add: bit_take_bit_iff bit_drop_bit_eq)
  moreover have "bit (?l i) n \<longleftrightarrow> bit (a ! i) n"
    by (simp add: bit_unsigned_iff)
  ultimately show ?thesis by simp
qed

lemma poly1305_pack_val:
  assumes g: "good_limbs a" and j: "j < 4"
  shows "unat (poly1305_pack a ! j) = val5 a div 2 ^ (32 * j) mod 2 ^ 32"
proof -
  note B = good_limbs_bits [OF g]
  have m: "bit (0xffffffff :: int) n \<longleftrightarrow> n < 32" for n
  proof -
    have "(0xffffffff :: int) = mask 32" by (simp add: mask_eq_exp_minus_1)
    then show ?thesis by (simp only: bit_mask_iff) auto
  qed
  have c: "j = 0 \<or> j = 1 \<or> j = 2 \<or> j = 3" using j by linarith
  have "bit (poly1305_pack a ! j) n \<longleftrightarrow> n < 32 \<and> bit (val5 a) (32 * j + n)" for n
    using c
  proof (elim disjE)
    assume "j = 0"
    then show ?thesis
      by (cases "n < 26") (auto simp: poly1305_pack_def bit_and_iff bit_or_iff bit_push_bit_iff m B)
  next
    assume "j = 1"
    then show ?thesis
      by (cases "n < 20") (auto simp: poly1305_pack_def bit_and_iff bit_or_iff bit_push_bit_iff bit_drop_bit_eq m B add.commute)
  next
    assume "j = 2"
    then show ?thesis
      by (cases "n < 14") (auto simp: poly1305_pack_def bit_and_iff bit_or_iff bit_push_bit_iff bit_drop_bit_eq m B add.commute)
  next
    assume "j = 3"
    then show ?thesis
      by (cases "n < 8") (auto simp: poly1305_pack_def bit_and_iff bit_or_iff bit_push_bit_iff bit_drop_bit_eq m B add.commute)
  qed
  moreover have "bit (unat (poly1305_pack a ! j)) n \<longleftrightarrow> bit (poly1305_pack a ! j) n" for n
    by (simp add: bit_unsigned_iff)
  ultimately have "unat (poly1305_pack a ! j) = take_bit 32 (drop_bit (32 * j) (val5 a))"
    by (intro bit_eqI) (simp add: bit_take_bit_iff bit_drop_bit_eq)
  then show ?thesis by (simp only: take_bit_eq_mod drop_bit_eq_div)
qed

section \<open>Adding the second half of the key\<close>

lemma words4_sum:
  "(N mod 2 ^ 32) + 2 ^ 32 * (N div 2 ^ 32 mod 2 ^ 32) + 2 ^ 64 * (N div 2 ^ 64 mod 2 ^ 32)
   + 2 ^ 96 * (N div 2 ^ 96 mod 2 ^ 32) = (N :: nat) mod 2 ^ 128"
proof -
  have "N mod 2 ^ (m + 32) = N mod 2 ^ m + 2 ^ m * (N div 2 ^ m mod 2 ^ 32)" for m
    by (simp add: power_add mod_mult2_eq)
  from this [of 32] this [of 64] this [of 96] show ?thesis by simp
qed

lemma le_nat_4: "le_nat (take 4 (le_bytes 8 (w :: u64))) = unat w mod 2 ^ 32"
  by (simp add: le_nat_take_drop le_nat_le_bytes mod_mod_cancel)

lemma le_nat_inject: "length xs = length ys \<Longrightarrow> le_nat xs = le_nat ys \<Longrightarrow> xs = ys"
proof (induction xs ys rule: list_induct2)
  case Nil
  then show ?case by simp
next
  case (Cons x xs y ys)
  have b: "unat x < 256" "unat y < 256" using unsigned_less [of x] unsigned_less [of y] by simp_all
  have e: "unat x + 256 * le_nat xs = unat y + 256 * le_nat ys" using Cons.prems by simp
  have "(unat x + 256 * le_nat xs) mod 256 = (unat y + 256 * le_nat ys) mod 256"
    "(unat x + 256 * le_nat xs) div 256 = (unat y + 256 * le_nat ys) div 256" by (simp_all only: e)
  then show ?case using b Cons.IH by (simp add: word_unat_eq_iff)
qed

definition poly1305_out :: "u64 list \<Rightarrow> u8 list" where
  "poly1305_out f = concat (map (\<lambda>i. take 4 (le_bytes 8 (f ! i))) [0..<4])"

lemma poly1305_out_val:
  "length (poly1305_out f) = 16"
  "le_nat (poly1305_out f) = unat (f ! 0) mod 2 ^ 32 + 2 ^ 32 * (unat (f ! 1) mod 2 ^ 32)
     + 2 ^ 64 * (unat (f ! 2) mod 2 ^ 32) + 2 ^ 96 * (unat (f ! 3) mod 2 ^ 32)"
proof -
  have "poly1305_out f = take 4 (le_bytes 8 (f ! 0)) @ take 4 (le_bytes 8 (f ! 1))
      @ take 4 (le_bytes 8 (f ! 2)) @ take 4 (le_bytes 8 (f ! 3))"
    by (simp add: poly1305_out_def upt_conv_Cons numeral_2_eq_2 numeral_3_eq_3)
  then show "length (poly1305_out f) = 16"
    "le_nat (poly1305_out f) = unat (f ! 0) mod 2 ^ 32 + 2 ^ 32 * (unat (f ! 1) mod 2 ^ 32)
     + 2 ^ 64 * (unat (f ! 2) mod 2 ^ 32) + 2 ^ 96 * (unat (f ! 3) mod 2 ^ 32)"
    by (simp_all add: le_nat_append le_nat_4)
qed

lemma poly1305_add_key_val:
  assumes a: "\<And>j. j < 4 \<Longrightarrow> unat (a ! j) = N div 2 ^ (32 * j) mod 2 ^ 32" and k: "length key = 32"
  shows "le_nat (poly1305_out (poly1305_add_key a key)) = (N + le_nat (drop 16 key)) mod 2 ^ 128"
proof -
  define S where "S = le_nat (drop 16 key)"
  define k2 where "k2 = drop 16 key"
  have k2: "length k2 = 16" using k by (simp add: k2_def)
  define K where "K i = (ucast (le_word (take 4 (drop (4 * i) key)) :: u32) :: u64)" for i
  have Kv: "unat (K (4 + j)) = S div 2 ^ (32 * j) mod 2 ^ 32" if "j < 4" for j
  proof -
    have u: "unat (ucast x :: u64) = unat x" for x :: u32
      using unat_less_32 [of x] by (simp add: unsigned_ucast_eq take_bit_eq_mod)
    have "unat (K (4 + j)) = le_nat (take 4 (drop (4 * (4 + j)) key))"
      unfolding K_def u by (rule unat_le_word) simp
    also have "drop (4 * (4 + j)) key = drop (4 * j) k2" by (simp add: k2_def add.commute)
    also have "le_nat (take 4 (drop (4 * j) k2)) = S div 256 ^ (4 * j) mod 256 ^ 4"
      using k2 that by (simp add: le_nat_take_drop S_def k2_def [symmetric])
    also have "(256 :: nat) ^ (4 * j) = 2 ^ (32 * j)"
      using power_mult [of "2 :: nat" 8 "4 * j"] by (simp add: mult.assoc [symmetric])
    finally show ?thesis by simp
  qed
  define f0 where "f0 = a ! 0 + K 4"
  define f1 where "f1 = a ! 1 + K 5 + drop_bit 32 f0"
  define f2 where "f2 = a ! 2 + K 6 + drop_bit 32 f1"
  define f3 where "f3 = a ! 3 + K 7 + drop_bit 32 f2"
  have f: "poly1305_add_key a key = [f0, f1, f2, f3]"
    by (simp add: poly1305_add_key_def Let_def f0_def f1_def f2_def f3_def K_def)
  have al: "unat (a ! j) < 2 ^ 32" if "j < 4" for j using a [OF that] by simp
  have kl: "unat (K (4 + j)) < 2 ^ 32" if "j < 4" for j using Kv [OF that] by simp
  have add3: "unat (x + y + z) = unat x + unat y + unat z"
    if "unat x < 2 ^ 32" "unat y < 2 ^ 32" "unat z < 2 ^ 34" for x y z :: u64
    using that by (simp add: unat_plus_le)
  have u0: "unat f0 = unat (a ! 0) + unat (K 4)"
    using add3 [of "a ! 0" "K 4" 0] al [of 0] kl [of 0] by (simp add: f0_def)
  have l0: "unat f0 < 2 ^ 36" using u0 al [of 0] kl [of 0] by simp
  have u1: "unat f1 = unat (a ! 1) + unat (K 5) + unat f0 div 2 ^ 32"
    unfolding f1_def using add3 [of "a ! 1" "K 5" "drop_bit 32 f0"] al [of 1] kl [of 1] l0
    by (simp add: unat_drop_bit)
  have l1: "unat f1 < 2 ^ 36" using u1 l0 al [of 1] kl [of 1] by simp
  have u2: "unat f2 = unat (a ! 2) + unat (K 6) + unat f1 div 2 ^ 32"
    unfolding f2_def using add3 [of "a ! 2" "K 6" "drop_bit 32 f1"] al [of 2] kl [of 2] l1
    by (simp add: unat_drop_bit)
  have l2: "unat f2 < 2 ^ 36" using u2 l1 al [of 2] kl [of 2] by simp
  have u3: "unat f3 = unat (a ! 3) + unat (K 7) + unat f2 div 2 ^ 32"
    unfolding f3_def using add3 [of "a ! 3" "K 7" "drop_bit 32 f2"] al [of 3] kl [of 3] l2
    by (simp add: unat_drop_bit)
  define q where "q x = unat x div 2 ^ 32" for x :: u64
  define t where "t x = unat x mod 2 ^ 32" for x :: u64
  have e: "unat x = 4294967296 * q x + t x" for x by (simp add: q_def t_def)
  have "unat (a ! 0) + unat (K 4) = 4294967296 * q f0 + t f0"
    "unat (a ! 1) + unat (K 5) + q f0 = 4294967296 * q f1 + t f1"
    "unat (a ! 2) + unat (K 6) + q f1 = 4294967296 * q f2 + t f2"
    "unat (a ! 3) + unat (K 7) + q f2 = 4294967296 * q f3 + t f3"
    using u0 u1 u2 u3 e [of f0] e [of f1] e [of f2] e [of f3]
    unfolding q_def [symmetric] t_def [symmetric] by linarith+
  moreover have "N mod 2 ^ 128 = unat (a ! 0) + 4294967296 * unat (a ! 1)
      + 18446744073709551616 * unat (a ! 2) + 79228162514264337593543950336 * unat (a ! 3)"
    using words4_sum [of N] a [of 0] a [of 1] a [of 2] a [of 3] by simp
  moreover have "S mod 2 ^ 128 = unat (K 4) + 4294967296 * unat (K 5)
      + 18446744073709551616 * unat (K 6) + 79228162514264337593543950336 * unat (K 7)"
    using words4_sum [of S] Kv [of 0] Kv [of 1] Kv [of 2] Kv [of 3] by simp
  moreover have o: "le_nat (poly1305_out (poly1305_add_key a key)) = t f0 + 4294967296 * t f1
      + 18446744073709551616 * t f2 + 79228162514264337593543950336 * t f3"
    by (simp add: poly1305_out_val f t_def)
  ultimately have "N mod 2 ^ 128 + S mod 2 ^ 128
      = le_nat (poly1305_out (poly1305_add_key a key)) + 340282366920938463463374607431768211456 * q f3"
    by algebra
  moreover have "le_nat (poly1305_out (poly1305_add_key a key)) < 2 ^ 128"
    using le_nat_less [of "poly1305_out (poly1305_add_key a key)"] by (simp add: poly1305_out_val(1))
  ultimately have "(N mod 2 ^ 128 + S mod 2 ^ 128) mod 2 ^ 128 = le_nat (poly1305_out (poly1305_add_key a key))"
    by simp
  then show ?thesis by (simp add: S_def mod_add_eq)
qed


text \<open>The whole of \<^verbatim>\<open>finish\<close> after the last block.\<close>

lemma poly1305_close:
  assumes acc: "carried acc" and k: "length key = 32"
  shows "poly1305_out (poly1305_add_key (poly1305_pack (poly1305_subtract (poly1305_final_carry acc))) key)
         = le_bytes 16 (of_nat (val5 acc mod poly_p + le_nat (drop 16 key)) :: u128)"
proof (rule le_nat_inject)
  let ?a = "poly1305_subtract (poly1305_final_carry acc)"
  note F = final_carry_val [OF acc]
  note S = poly1305_subtract_val [OF F(1)]
  obtain q where q: "val5 (poly1305_final_carry acc) + q * poly_p = val5 acc" using F(2) by blast
  have v: "val5 ?a = val5 acc mod poly_p" unfolding S(2) q [symmetric] by (simp only: mod_mult_self1)
  show "length (poly1305_out (poly1305_add_key (poly1305_pack ?a) key))
      = length (le_bytes 16 (of_nat (val5 acc mod poly_p + le_nat (drop 16 key)) :: u128))"
    by (simp add: poly1305_out_val(1))
  have "le_nat (poly1305_out (poly1305_add_key (poly1305_pack ?a) key))
      = (val5 ?a + le_nat (drop 16 key)) mod 2 ^ 128"
    by (rule poly1305_add_key_val [OF poly1305_pack_val [OF S(1)] k])
  also have "\<dots> = le_nat (le_bytes 16 (of_nat (val5 acc mod poly_p + le_nat (drop 16 key)) :: u128))"
    by (simp only: v le_nat_le_bytes unat_of_nat) simp
  finally show "le_nat (poly1305_out (poly1305_add_key (poly1305_pack ?a) key))
      = le_nat (le_bytes 16 (of_nat (val5 acc mod poly_p + le_nat (drop 16 key)) :: u128))" .
qed

section \<open>The object\<close>

text \<open>The state after \<open>init key\<close> and updates with the bytes \<open>m\<close>.\<close>

definition poly_inv :: "u8 list \<Rightarrow> u8 list \<Rightarrow> poly1305 \<Rightarrow> bool" where
  "poly_inv key m s \<longleftrightarrow>
     length key = 32 \<and> length (m_msg_buffer s) = 16 \<and> m_msg_buffer_len s < 16 \<and>
     \<not> poly_finalized s \<and> m_key s = clamp (take 16 key) @ drop 16 key \<and>
     good_limbs (m_r s) \<and> val5 (m_r s) = poly_r key \<and>
     m_s s = map (\<lambda>i. m_r s ! (i + 1) * 5) [0..<4] \<and> carried (m_accumulator s) \<and>
     absorbs 16 (poly_step (poly_r key)) 0 m (val5 (m_accumulator s) mod poly_p)
       (take (m_msg_buffer_len s) (m_msg_buffer s))"

lemma rfc_blocks_chunks:
  "16 dvd length q \<Longrightarrow> length pend < 16 \<Longrightarrow>
   rfc_blocks (q @ pend) = chunks 16 q @ (if pend = [] then [] else [pend])"
proof (induction "length q" arbitrary: q rule: less_induct)
  case less
  show ?case
  proof (cases "q = []")
    case True
    then show ?thesis using less.prems by (subst rfc_blocks.simps) (simp add: rfc_blocks.simps [of "[]"])
  next
    case False
    then have l: "16 \<le> length q" using less.prems by (auto dest: dvd_imp_le)
    then have "rfc_blocks (q @ pend) = take 16 q # rfc_blocks (drop 16 q @ pend)"
      using False by (subst rfc_blocks.simps) simp
    also have "rfc_blocks (drop 16 q @ pend) = chunks 16 (drop 16 q) @ (if pend = [] then [] else [pend])"
      using less l by simp
    finally show ?thesis using l by (subst chunks.simps) simp
  qed
qed

text \<open>
  What may stand in the object before \<open>init\<close>: any limbs below \<open>2 ^ 32\<close> and a pending block.
  A fresh object, one that was reset and one that has finished are such. The pending bytes
  stay, so the message after \<open>init\<close> starts with them.
\<close>

definition poly_ready :: "poly1305 \<Rightarrow> bool" where
  "poly_ready s \<longleftrightarrow> length (m_msg_buffer s) = 16 \<and> m_msg_buffer_len s < 16 \<and>
     (\<forall>i<5. unat (m_r s ! i) < 2 ^ 32)"

definition poly_pending :: "poly1305 \<Rightarrow> u8 list" where
  "poly_pending s = take (m_msg_buffer_len s) (m_msg_buffer s)"

lemma init_inv:
  assumes r: "poly_ready s" and key: "length key = 32"
  shows "\<exists>s'. Poly1305Ref_init key s = (ALC_ERROR_NONE, s') \<and> poly_inv key (poly_pending s) s'"
proof -
  let ?k = "clamp (take 16 key)"
  note C = clamp_val [of "take 16 key"]
  have k: "length ?k = 16" "le_nat ?k = poly_r key" using C key by (simp_all add: poly_r_def)
  have e: "init_limb (?k @ drop 16 key) (m_r s) i = init_limb ?k (m_r s) i" if "i < 5" for i
    using that k by (simp add: init_limb_def)
  have m: "map (init_limb (?k @ drop 16 key) (m_r s)) [0..<5] = map (init_limb ?k (m_r s)) [0..<5]"
    using e by (intro map_cong) simp_all
  let ?r = "map (init_limb ?k (m_r s)) [0..<5]"
  let ?s = "s\<lparr>poly_finalized := False, m_key := ?k @ drop 16 key, m_accumulator := replicate 5 0, m_r := ?r,
              m_s := map (\<lambda>i. ?r ! (i + 1) * 5) [0..<4]\<rparr>"
  have "Poly1305Ref_init key s = (ALC_ERROR_NONE, ?s)"
    unfolding Poly1305Ref_init_def m [symmetric] using key
    by (simp add: Let_def init_limb_def [abs_def] del: upt_rec_numeral)
  moreover have "good_limbs ?r" "val5 ?r = poly_r key"
    using init_limbs_val [OF k(1), of "m_r s"] r k(2) by (auto simp: poly_ready_def)
  moreover have "carried (replicate 5 0)" "val5 (replicate 5 0) = 0"
    by (simp_all add: carried_def val5_def)
  moreover have "absorbs 16 (poly_step (poly_r key)) 0 (poly_pending s) 0 (poly_pending s)"
    using r absorbs_short [OF absorbs_init, of 16 "poly_pending s" "poly_step (poly_r key)" 0]
    by (simp add: poly_ready_def poly_pending_def)
  ultimately show ?thesis
    using r key by (auto simp: poly_inv_def poly_ready_def poly_pending_def)
qed

lemma poly1305_block_inv:
  assumes "poly_inv key m s" "carried acc" "16 dvd n" "n \<le> length p"
  shows "\<exists>acc'. poly1305_block p n acc (m_r s) (m_s s) = Some acc' \<and> carried acc' \<and>
           val5 acc' mod poly_p = foldl (poly_step (poly_r key)) (val5 acc mod poly_p) (chunks 16 (take n p))"
  using poly1305_block_val [OF assms(2) _ _ assms(3,4), of "m_r s" "m_s s"] assms(1)
  by (simp add: poly_inv_def)

lemma update_inv:
  assumes inv: "poly_inv key m s"
  shows "\<exists>s'. Poly1305Ref_update x s = Some (ALC_ERROR_NONE, s') \<and> poly_inv key (m @ x) s'"
proof -
  let ?i = "m_msg_buffer_len s" and ?buf = "m_msg_buffer s"
  let ?f = "poly_step (poly_r key)"
  have b: "length ?buf = 16" "?i < 16" and nf: "\<not> poly_finalized s" and acc: "carried (m_accumulator s)"
    and ab: "absorbs 16 ?f 0 m (val5 (m_accumulator s) mod poly_p) (take ?i ?buf)"
    using inv by (simp_all add: poly_inv_def)
  have k: "n - n mod 16 = n div 16 * 16" for n :: nat by (rule minus_mod_eq_div_mult)
  consider "?i \<noteq> 0" "length x < 16 - ?i" | "?i \<noteq> 0" "\<not> length x < 16 - ?i" | "?i = 0" by blast
  then show ?thesis
  proof cases
    case 1
    have "absorbs 16 ?f 0 (m @ x) (val5 (m_accumulator s) mod poly_p) (take ?i ?buf @ x)"
      using 1 b by (intro absorbs_short [OF ab]) simp
    moreover have "take (?i + length x) (write_at ?i x ?buf) = take ?i ?buf @ x"
      using 1 b by (simp add: take_write_at_end)
    ultimately show ?thesis using 1 b inv nf
      by (auto simp: Poly1305Ref_update_def poly_inv_def)
  next
    case 2
    define y where "y = drop (16 - ?i) x"
    define k' where "k' = length y div 16 * 16"
    define b1 where "b1 = write_at ?i (take (16 - ?i) x) ?buf"
    define b2 where "b2 = write_at 0 (drop k' y) b1"
    define h1 where "h1 = ?f (val5 (m_accumulator s) mod poly_p) (take ?i ?buf @ take (16 - ?i) x)"
    have i: "?i < 16" "0 < ?i" "16 \<le> length ?buf" "16 \<le> ?i + length x" using 2 b by simp_all
    note U = update_fill [OF ab i y_def k'_def b1_def b2_def h1_def]
    have b1l: "length b1 = 16" using U(7) b(1) by simp
    obtain acc1 where a1: "poly1305_block b1 16 (m_accumulator s) (m_r s) (m_s s) = Some acc1" "carried acc1"
      "val5 acc1 mod poly_p = foldl ?f (val5 (m_accumulator s) mod poly_p) (chunks 16 (take 16 b1))"
      using poly1305_block_inv [OF inv acc, of 16 b1] b1l by auto
    have h: "val5 acc1 mod poly_p = h1" unfolding a1(3) U(8) U(9) h1_def by simp
    have k'd: "16 dvd k'" "k' \<le> length y" by (simp_all add: k'_def)
    obtain acc2 where a2: "poly1305_block y k' acc1 (m_r s) (m_s s) = Some acc2" "carried acc2"
      "val5 acc2 mod poly_p = foldl ?f h1 (chunks 16 (take k' y))"
      using poly1305_block_inv [OF inv a1(2), of k' y, unfolded h] k'd by blast
    have ab2: "absorbs 16 ?f 0 (m @ x) (val5 acc2 mod poly_p) (drop k' y)" unfolding a2(3) by (rule U(1))
    have l: "length y - k' < 16" using absorbs_less [OF ab2] by simp
    let ?s = "s\<lparr>m_msg_buffer := b2, m_msg_buffer_len := length y - k', m_accumulator := acc2\<rparr>"
    have ky: "length y mod 16 = length y - k'" "length y - (length y - k') = k'"
      using k'd(2) by (simp_all add: k'_def minus_div_mult_eq_mod [symmetric])
    have "Poly1305Ref_update x s = Some (ALC_ERROR_NONE, ?s)"
      unfolding Poly1305Ref_update_def
      using 2 nf U(6) a1(1) a2(1) ky U(14) U(15) by (simp add: y_def [symmetric] Let_def)
    moreover have "poly_inv key (m @ x) ?s"
      using inv ab2 a2(2) l U(16,17) b b1l by (simp add: poly_inv_def)
    ultimately show ?thesis by blast
  next
    case 3
    define k' where "k' = length x div 16 * 16"
    define b2 where "b2 = write_at 0 (drop k' x) ?buf"
    have ab0: "absorbs 16 ?f 0 m (val5 (m_accumulator s) mod poly_p) []" using ab 3 by simp
    obtain acc2 where a2: "poly1305_block x k' (m_accumulator s) (m_r s) (m_s s) = Some acc2" "carried acc2"
      "val5 acc2 mod poly_p = foldl ?f (val5 (m_accumulator s) mod poly_p) (chunks 16 (take k' x))"
      using poly1305_block_inv [OF inv acc, of k' x] by (auto simp: k'_def)
    have ab2: "absorbs 16 ?f 0 (m @ x) (val5 acc2 mod poly_p) (drop k' x)"
      unfolding a2(3) by (rule absorbs_update_empty [OF ab0 k'_def])
    have l: "length x - k' < 16" using absorbs_less [OF ab2] by simp
    have b2: "CopyBlock ?buf 0 (drop k' x) = Some b2" "length b2 = 16" "take (length x - k') b2 = drop k' x"
      "length x - k' = 0 \<Longrightarrow> b2 = ?buf"
      using l b write_at_0 [of "drop k' x" ?buf] by (simp_all add: b2_def)
    let ?s = "s\<lparr>m_msg_buffer := b2, m_msg_buffer_len := length x - k', m_accumulator := acc2\<rparr>"
    have "k' \<le> length x" by (simp add: k'_def)
    then have ky: "length x mod 16 = length x - k'" "length x - (length x - k') = k'"
      by (simp_all add: k'_def minus_div_mult_eq_mod [symmetric])
    have "Poly1305Ref_update x s = Some (ALC_ERROR_NONE, ?s)"
      unfolding Poly1305Ref_update_def
      using 3 nf a2(1) ky b2 by (simp add: Let_def)
    moreover have "poly_inv key (m @ x) ?s"
      using inv ab2 a2(2) l b2 by (simp add: poly_inv_def)
    ultimately show ?thesis by blast
  qed
qed


lemma inv_blocks:
  assumes inv: "poly_inv key m s"
  shows "foldl (poly_step (poly_r key)) 0 (rfc_blocks m)
    = foldl (poly_step (poly_r key)) (val5 (m_accumulator s) mod poly_p)
        (if poly_pending s = [] then [] else [poly_pending s])"
proof -
  obtain q where q: "m = q @ poly_pending s" "16 dvd length q"
    "val5 (m_accumulator s) mod poly_p = foldl (poly_step (poly_r key)) 0 (chunks 16 q)"
    "length (poly_pending s) < 16"
    using inv by (auto simp: poly_inv_def absorbs_def poly_pending_def)
  show ?thesis unfolding q(3) by (subst q(1)) (simp add: rfc_blocks_chunks q(2,4))
qed

text \<open>The last, partial block: a one byte, zeros, and no padding bit.\<close>

lemma last_block_inv:
  assumes inv: "poly_inv key m s" and n: "m_msg_buffer_len s \<noteq> 0"
    and buf: "buf = write_at (m_msg_buffer_len s + 1) (replicate (16 - (m_msg_buffer_len s + 1)) 0)
                  (write_at (m_msg_buffer_len s) [1] (m_msg_buffer s))"
  shows "\<exists>acc. poly1305_block buf (m_msg_buffer_len s) (m_accumulator s) (m_r s) (m_s s) = Some acc \<and>
     carried acc \<and>
     val5 acc mod poly_p = poly_step (poly_r key) (val5 (m_accumulator s) mod poly_p) (poly_pending s)"
proof -
  let ?i = "m_msg_buffer_len s"
  have b: "length (m_msg_buffer s) = 16" "?i < 16" using inv by (simp_all add: poly_inv_def)
  have w: "buf = poly_pending s @ [1] @ replicate (15 - ?i) 0"
    using b unfolding buf poly_pending_def write_at_def by simp
  have l: "length buf = 16" "length (poly_pending s) = ?i" using b by (simp_all add: w poly_pending_def)
  have v: "le_nat (take 16 buf) = le_nat (poly_pending s) + 2 ^ (8 * ?i)"
    using l by (simp add: w le_nat_append power_mult)
  have A: "carried (m_accumulator s)" "good_limbs (m_r s)" "m_s s = map (\<lambda>i. m_r s ! (i + 1) * 5) [0..<4]"
    "val5 (m_r s) = poly_r key" using inv by (simp_all add: poly_inv_def)
  define acc where "acc = poly1305_carry (poly1305_mult
      (map2 (+) (m_accumulator s) (map ucast (poly1305_msg_limbs 0 buf))) (m_r s) (m_s s))"
  have p0: "(0 :: u64) = push_bit 24 (if False then 1 else 0)" by simp
  note S = poly1305_block_step [OF A(1-3) _ p0 acc_def]
  have "poly1305_block buf ?i (m_accumulator s) (m_r s) (m_s s) = Some acc"
    using n b l by (simp add: poly1305_block_def poly1305_block_loop.simps [of 0 buf]
      poly1305_block_loop.simps [of 0 "[]"] acc_def [symmetric] Let_def)
  moreover have "val5 acc mod poly_p = poly_step (poly_r key) (val5 (m_accumulator s)) (poly_pending s)"
    using S(2) l v A(4) by (simp add: poly_step_def add.assoc)
  ultimately show ?thesis using S(1) l by (simp only: poly_step_mod) auto
qed

lemma finish_inv:
  assumes inv: "poly_inv key m s" and d: "length dg = 16"
  shows "\<exists>s'. Poly1305Ref_finish dg s = Some (ALC_ERROR_NONE, s', poly1305_spec key m) \<and>
     poly_ready s' \<and> poly_pending s' = poly_pending s \<and> poly_finalized s'"
proof -
  let ?i = "m_msg_buffer_len s"
  have b: "length (m_msg_buffer s) = 16" "?i < 16" "\<not> poly_finalized s" "carried (m_accumulator s)"
    "length key = 32" "m_key s = clamp (take 16 key) @ drop 16 key" "good_limbs (m_r s)"
    using inv by (simp_all add: poly_inv_def)
  have kl: "length (m_key s) = 32" "drop 16 (m_key s) = drop 16 key"
    using b clamp_val(1) [of "take 16 key"] by simp_all
  have r: "\<forall>i<5. unat (m_r s ! i) < 2 ^ 32" using b(7) by (auto simp: good_limbs_def)
  have close: "concat (map (\<lambda>i. take 4 (le_bytes 8 ((poly1305_add_key (poly1305_pack
        (poly1305_subtract (poly1305_final_carry acc))) (m_key s) @ [z]) ! i))) [0..<4]) = poly1305_spec key m"
    if a: "carried acc" and v: "val5 acc mod poly_p = foldl (poly_step (poly_r key)) 0 (rfc_blocks m)" for acc z
  proof -
    let ?f = "poly1305_add_key (poly1305_pack (poly1305_subtract (poly1305_final_carry acc))) (m_key s)"
    have "length ?f = 4" by (simp add: poly1305_add_key_def Let_def)
    then have "concat (map (\<lambda>i. take 4 (le_bytes 8 ((?f @ [z]) ! i))) [0..<4]) = poly1305_out ?f"
      unfolding poly1305_out_def by (intro arg_cong [where f = concat] map_cong) (simp_all add: nth_append)
    then show ?thesis
      using poly1305_close [OF a kl(1)] by (simp only: v kl(2) poly1305_spec_def Let_def)
  qed
  show ?thesis
  proof (cases "?i = 0")
    case True
    then have v: "val5 (m_accumulator s) mod poly_p = foldl (poly_step (poly_r key)) 0 (rfc_blocks m)"
      using inv_blocks [OF inv] by (simp add: poly_pending_def)
    show ?thesis using True b d r close [OF b(4) v]
      by (simp add: Poly1305Ref_finish_def Let_def poly_ready_def poly_pending_def)
  next
    case False
    define buf where "buf = write_at (?i + 1) (replicate (16 - (?i + 1)) 0) (write_at ?i [1] (m_msg_buffer s))"
    obtain acc where acc: "poly1305_block buf ?i (m_accumulator s) (m_r s) (m_s s) = Some acc" "carried acc"
      "val5 acc mod poly_p = poly_step (poly_r key) (val5 (m_accumulator s) mod poly_p) (poly_pending s)"
      using last_block_inv [OF inv False buf_def] by blast
    have ne: "poly_pending s \<noteq> []" using False b by (auto simp: poly_pending_def)
    have v: "val5 acc mod poly_p = foldl (poly_step (poly_r key)) 0 (rfc_blocks m)"
      using inv_blocks [OF inv] ne acc(3) by simp
    have "CopyBlock (m_msg_buffer s) ?i [1] = Some (write_at ?i [1] (m_msg_buffer s))"
      "CopyBlock (write_at ?i [1] (m_msg_buffer s)) (?i + 1) (replicate (16 - (?i + 1)) 0) = Some buf"
      using b by (simp_all add: buf_def)
    moreover have "length buf = 16" "take ?i buf = take ?i (m_msg_buffer s)"
      using b by (simp_all add: buf_def write_at_def)
    ultimately show ?thesis using False b d r acc(1) close [OF acc(2) v]
      by (simp add: Poly1305Ref_finish_def Let_def poly_ready_def poly_pending_def)
  qed
qed


text \<open>A sequence of updates; an error ends it.\<close>

fun Poly1305Ref_updates :: "u8 list list \<Rightarrow> poly1305 \<Rightarrow> (alc_error \<times> poly1305) option" where
  "Poly1305Ref_updates [] s = Some (ALC_ERROR_NONE, s)"
| "Poly1305Ref_updates (x # xs) s = do {
     (err, s) \<leftarrow> Poly1305Ref_update x s;
     if err = ALC_ERROR_NONE then Poly1305Ref_updates xs s else Some (err, s)
   }"

lemma updates_inv:
  "poly_inv key m s \<Longrightarrow>
   \<exists>s'. Poly1305Ref_updates xs s = Some (ALC_ERROR_NONE, s') \<and> poly_inv key (m @ concat xs) s'"
proof (induction xs arbitrary: m s)
  case Nil
  then show ?case by simp
next
  case (Cons x xs)
  obtain s1 where s1: "Poly1305Ref_update x s = Some (ALC_ERROR_NONE, s1)" "poly_inv key (m @ x) s1"
    using update_inv [OF Cons.prems] by blast
  then show ?case using Cons.IH [OF s1(2)] by simp
qed

lemma ready_ctor: "poly_ready Poly1305Ref_ctor" "poly_pending Poly1305Ref_ctor = []"
  by (simp_all add: poly_ready_def poly_pending_def Poly1305Ref_ctor_def all_less_5)

lemma ready_reset:
  "poly_ready s \<Longrightarrow> poly_ready (snd (Poly1305Ref_reset s)) \<and> poly_pending (snd (Poly1305Ref_reset s)) = []"
  by (simp add: poly_ready_def poly_pending_def Poly1305Ref_reset_def)

lemma mac_run:
  assumes "poly_ready s" "length key = 32" "length dg = 16"
  shows "\<exists>s1 s2 s3. Poly1305Ref_init key s = (ALC_ERROR_NONE, s1) \<and>
     Poly1305Ref_updates xs s1 = Some (ALC_ERROR_NONE, s2) \<and>
     Poly1305Ref_finish dg s2 = Some (ALC_ERROR_NONE, s3, poly1305_spec key (poly_pending s @ concat xs)) \<and>
     poly_ready s3 \<and> poly_finalized s3 \<and> poly_pending s3 = poly_pending s2 \<and>
     poly_inv key (poly_pending s @ concat xs) s2"
proof -
  obtain s1 where 1: "Poly1305Ref_init key s = (ALC_ERROR_NONE, s1)" "poly_inv key (poly_pending s) s1"
    using init_inv assms by blast
  obtain s2 where 2: "Poly1305Ref_updates xs s1 = Some (ALC_ERROR_NONE, s2)"
    "poly_inv key (poly_pending s @ concat xs) s2" using updates_inv [OF 1(2)] by blast
  show ?thesis using 1(1) 2 finish_inv [OF 2(2) assms(3)] by blast
qed

section \<open>Properties\<close>

text \<open>The example of RFC 8439, section 2.5.2.\<close>

lemma poly1305_spec_rfc_example:
  "poly1305_spec
     [0x85, 0xd6, 0xbe, 0x78, 0x57, 0x55, 0x6d, 0x33, 0x7f, 0x44, 0x52, 0xfe, 0x42, 0xd5, 0x06, 0xa8,
      0x01, 0x03, 0x80, 0x8a, 0xfb, 0x0d, 0xb2, 0xfd, 0x4a, 0xbf, 0xf6, 0xaf, 0x41, 0x49, 0xf5, 0x1b]
     [0x43, 0x72, 0x79, 0x70, 0x74, 0x6f, 0x67, 0x72, 0x61, 0x70, 0x68, 0x69, 0x63, 0x20, 0x46, 0x6f,
      0x72, 0x75, 0x6d, 0x20, 0x52, 0x65, 0x73, 0x65, 0x61, 0x72, 0x63, 0x68, 0x20, 0x47, 0x72, 0x6f,
      0x75, 0x70]
   = [0xa8, 0x06, 0x1d, 0xc1, 0x30, 0x51, 0x36, 0xc6, 0xc2, 0x2b, 0x8b, 0xaf, 0x0c, 0x01, 0x27, 0xa9]"
  by (simp add: poly1305_spec_def poly_r_def rfc_blocks.simps poly_step_def le_bytes_def upt_rec_numeral upt_conv_Cons)

text \<open>C9:
  For every key and every message in any pieces, \<open>init\<close>, the updates and \<open>finish\<close> compute the
  MAC of RFC 8439, return no error and stay inside their arrays. The object may be fresh, or
  used before, as long as no partial block is pending.
\<close>

theorem Poly1305_computes_mac:
  assumes "poly_ready s" "poly_pending s = []" "length key = 32" "length dg = 16"
  shows "\<exists>s1 s2 s3. Poly1305Ref_init key s = (ALC_ERROR_NONE, s1) \<and>
     Poly1305Ref_updates xs s1 = Some (ALC_ERROR_NONE, s2) \<and>
     Poly1305Ref_finish dg s2 = Some (ALC_ERROR_NONE, s3, poly1305_spec key (concat xs))"
  using mac_run [OF assms(1,3,4), of xs] assms(2) by auto

theorem Poly1305_computes_mac_witness:
  "\<exists>s1 s2 s3. Poly1305Ref_init (map of_nat [0..<32]) Poly1305Ref_ctor = (ALC_ERROR_NONE, s1) \<and>
     Poly1305Ref_updates [[1, 2, 3], replicate 20 7] s1 = Some (ALC_ERROR_NONE, s2) \<and>
     Poly1305Ref_finish (replicate 16 0) s2
       = Some (ALC_ERROR_NONE, s3, poly1305_spec (map of_nat [0..<32]) ([1, 2, 3] @ replicate 20 7))"
  using Poly1305_computes_mac [of Poly1305Ref_ctor "map of_nat [0..<32]" "replicate 16 0"
    "[[1, 2, 3], replicate 20 7]"] by (simp only: ready_ctor) simp

text \<open>
  \<open>init\<close> does not forget the bytes of an unfinished block: a message that did not end on a
  block boundary leaves its last bytes in the object, and the MAC of the next message under
  the next key is computed over those bytes followed by the message. \<open>reset\<close> removes them.
\<close>

theorem Poly1305_reinit_prepends_pending:
  assumes "length key = 32" "length key' = 32" "length dg = 16" "length dg' = 16"
    "Poly1305Ref_init key Poly1305Ref_ctor = (e0, s0)" "Poly1305Ref_update m s0 = Some (e1, s1)"
    "Poly1305Ref_finish dg s1 = Some (e2, s2, t2)"
  shows "(\<exists>s3 s4 s5. Poly1305Ref_init key' s2 = (ALC_ERROR_NONE, s3) \<and>
       Poly1305Ref_update m' s3 = Some (ALC_ERROR_NONE, s4) \<and>
       Poly1305Ref_finish dg' s4
         = Some (ALC_ERROR_NONE, s5, poly1305_spec key' (drop (length m div 16 * 16) m @ m'))) \<and>
     (\<exists>s3 s4 s5. Poly1305Ref_init key' (snd (Poly1305Ref_reset s2)) = (ALC_ERROR_NONE, s3) \<and>
       Poly1305Ref_update m' s3 = Some (ALC_ERROR_NONE, s4) \<and>
       Poly1305Ref_finish dg' s4 = Some (ALC_ERROR_NONE, s5, poly1305_spec key' m'))"
proof -
  have one: "Poly1305Ref_update y s = Some (ALC_ERROR_NONE, s')"
    if "Poly1305Ref_updates [y] s = Some (ALC_ERROR_NONE, s')" for y s s'
    using that by (auto split: Option.bind_splits prod.splits if_splits)
  have single: "concat [y] = y" for y :: "u8 list" by simp
  obtain t1 t3 where t: "Poly1305Ref_init key Poly1305Ref_ctor = (ALC_ERROR_NONE, s0)"
    "Poly1305Ref_updates [m] s0 = Some (ALC_ERROR_NONE, t1)"
    "Poly1305Ref_finish dg t1 = Some (ALC_ERROR_NONE, t3, poly1305_spec key m)"
    "poly_ready t3" "poly_pending t3 = poly_pending t1" "poly_inv key m t1"
    using mac_run [OF ready_ctor(1) assms(1,3), of "[m]"] assms(5) by (auto simp: ready_ctor(2))
  have s: "t1 = s1" "t3 = s2" using one [OF t(2)] t(3) assms(6,7) by auto
  obtain q where q: "m = q @ poly_pending s1" "16 dvd length q" "length (poly_pending s1) < 16"
    using t(6) s(1) by (auto simp: poly_inv_def absorbs_def poly_pending_def)
  then have "length m div 16 * 16 = length q" by (subst q(1)) auto
  then have p: "poly_pending s2 = drop (length m div 16 * 16) m"
    using t(5) s q(1) by (metis append_eq_conv_conj)
  have A: "\<exists>s3 s4 s5. Poly1305Ref_init key' s2 = (ALC_ERROR_NONE, s3) \<and>
       Poly1305Ref_update m' s3 = Some (ALC_ERROR_NONE, s4) \<and>
       Poly1305Ref_finish dg' s4
         = Some (ALC_ERROR_NONE, s5, poly1305_spec key' (drop (length m div 16 * 16) m @ m'))"
    using mac_run [OF t(4) assms(2,4), of "[m']", unfolded single] one s(2) p by metis
  have r: "poly_ready (snd (Poly1305Ref_reset s2))" "poly_pending (snd (Poly1305Ref_reset s2)) = []"
    using ready_reset t(4) s(2) by auto
  have "\<exists>s3 s4 s5. Poly1305Ref_init key' (snd (Poly1305Ref_reset s2)) = (ALC_ERROR_NONE, s3) \<and>
       Poly1305Ref_update m' s3 = Some (ALC_ERROR_NONE, s4) \<and>
       Poly1305Ref_finish dg' s4 = Some (ALC_ERROR_NONE, s5, poly1305_spec key' m')"
    using mac_run [OF r(1) assms(2,4), of "[m']", unfolded single r(2) append_Nil] one by metis
  with A show ?thesis by blast
qed

theorem Poly1305_reinit_prepends_pending_witness:
  "\<exists>s0 s1 s2 s3 s4 s5 t. Poly1305Ref_init (replicate 32 1) Poly1305Ref_ctor = (ALC_ERROR_NONE, s0) \<and>
     Poly1305Ref_update [1, 2, 3] s0 = Some (ALC_ERROR_NONE, s1) \<and>
     Poly1305Ref_finish (replicate 16 0) s1 = Some (ALC_ERROR_NONE, s2, t) \<and>
     Poly1305Ref_init (replicate 32 2) s2 = (ALC_ERROR_NONE, s3) \<and>
     Poly1305Ref_update [4] s3 = Some (ALC_ERROR_NONE, s4) \<and>
     Poly1305Ref_finish (replicate 16 0) s4
       = Some (ALC_ERROR_NONE, s5, poly1305_spec (replicate 32 2) [1, 2, 3, 4])"
proof -
  obtain s0 where 0: "Poly1305Ref_init (replicate 32 1) Poly1305Ref_ctor = (ALC_ERROR_NONE, s0)"
    "poly_inv (replicate 32 1) [] s0"
    using init_inv [OF ready_ctor(1), of "replicate 32 1"] by (auto simp: ready_ctor(2))
  obtain s1 where 1: "Poly1305Ref_update [1, 2, 3] s0 = Some (ALC_ERROR_NONE, s1)"
    "poly_inv (replicate 32 1) ([] @ [1, 2, 3]) s1" using update_inv [OF 0(2)] by blast
  obtain s2 where 2: "Poly1305Ref_finish (replicate 16 0) s1
      = Some (ALC_ERROR_NONE, s2, poly1305_spec (replicate 32 1) ([] @ [1, 2, 3]))"
    using finish_inv [OF 1(2), of "replicate 16 0"] by auto
  show ?thesis
    using Poly1305_reinit_prepends_pending [OF _ _ _ _ 0(1) 1(1) 2,
      of "replicate 32 2" "replicate 16 0" "[4]"] 0(1) 1(1) 2 by simp
qed

text \<open>What the object refuses, and what a refusal leaves behind: \<open>update\<close> and \<open>finish\<close> after
  \<open>finish\<close> and a digest length other than 16 change nothing; a key length other than 32 is
  refused, but the call has already reopened a finished object.
\<close>

theorem Poly1305_rejects:
  "(poly_finalized s \<longrightarrow> Poly1305Ref_update x s = Some (ALC_ERROR_INVALID_ARG, s) \<and>
      Poly1305Ref_finish dg s = Some (ALC_ERROR_INVALID_ARG, s, dg)) \<and>
   (\<not> poly_finalized s \<longrightarrow> length dg \<noteq> 16 \<longrightarrow> Poly1305Ref_finish dg s = Some (ALC_ERROR_INVALID_SIZE, s, dg)) \<and>
   (length key \<noteq> 32 \<longrightarrow> Poly1305Ref_init key s = (ALC_ERROR_INVALID_ARG, s\<lparr>poly_finalized := False\<rparr>))"
  by (simp add: Poly1305Ref_update_def Poly1305Ref_finish_def Poly1305Ref_init_def)

theorem Poly1305_rejects_witness:
  "Poly1305Ref_update [1] (Poly1305Ref_ctor\<lparr>poly_finalized := True\<rparr>)
     = Some (ALC_ERROR_INVALID_ARG, Poly1305Ref_ctor\<lparr>poly_finalized := True\<rparr>) \<and>
   Poly1305Ref_finish [] Poly1305Ref_ctor = Some (ALC_ERROR_INVALID_SIZE, Poly1305Ref_ctor, []) \<and>
   Poly1305Ref_init [] (Poly1305Ref_ctor\<lparr>poly_finalized := True\<rparr>)
     = (ALC_ERROR_INVALID_ARG, Poly1305Ref_ctor\<lparr>poly_finalized := False\<rparr>)"
  using Poly1305_rejects [of "Poly1305Ref_ctor\<lparr>poly_finalized := True\<rparr>" "[1]" "[]" "[]"]
    Poly1305_rejects [of Poly1305Ref_ctor "[1]" "[]" "[]"]
  by (simp add: Poly1305Ref_ctor_def)

end
