(* ===== verification/Poly1305_Mac.thy ===== *)
theory Poly1305_Mac imports Poly1305_Correct begin

text \<open>
  The MAC object \<^verbatim>\<open>Poly1305<archLevel>\<close> of \<^verbatim>\<open>lib/mac/poly1305.cc\<close>: it forwards to the reference
  implementation or to the radix-44 kernel of Zen 4, by the template argument or, for
  \<^verbatim>\<open>eDynamic\<close>, by the cached level of the machine. The radix-44 kernel (AVX-512 code) is a
  parameter of the model. Below, the interface the AEAD relies on, and the proof that the
  object with the reference implementation provides it.
\<close>

datatype arch_level = eReference | eZen | eZen3 | eZen4 | eZen5 | eDynamic

fun arch_rank :: "arch_level \<Rightarrow> nat" where
  "arch_rank eReference = 0"
| "arch_rank eZen = 1"
| "arch_rank eZen3 = 2"
| "arch_rank eZen4 = 3"
| "arch_rank eZen5 = 4"
| "arch_rank eDynamic = 5"

text \<open>The functions of the radix-44 kernel on its state \<open>'z\<close>.\<close>

record 'z radix44_ops =
  z_init :: "u8 list \<Rightarrow> 'z \<Rightarrow> 'z"
  z_update :: "u8 list \<Rightarrow> 'z \<Rightarrow> bool \<times> 'z"
  z_finalize :: "u8 list \<Rightarrow> 'z \<Rightarrow> bool \<times> 'z \<times> u8 list"
  z_reset :: "'z \<Rightarrow> 'z"
  z_reopen :: "'z \<Rightarrow> 'z"
  z_new :: 'z

record 'z poly1305_mac =
  poly1305_impl :: "poly1305 option"
  poly1305_state44 :: 'z

text \<open>Which way an object goes: the template argument, and the cached level for \<^verbatim>\<open>eDynamic\<close>.\<close>

datatype poly_path = Ref_Path | Radix44_Path | No_Path

definition poly_path :: "arch_level \<Rightarrow> arch_level \<Rightarrow> poly_path" where
  "poly_path archLevel arch =
     (if archLevel \<in> {eReference, eZen, eZen3} then Ref_Path
      else if archLevel = eZen4 then Radix44_Path
      else if archLevel = eDynamic then (if arch_rank arch \<ge> arch_rank eZen4 then Radix44_Path else Ref_Path)
      else No_Path)"

definition Poly1305_ctor :: "'z radix44_ops \<Rightarrow> arch_level \<Rightarrow> arch_level \<Rightarrow> 'z poly1305_mac" where
  "Poly1305_ctor Z archLevel arch =
     \<lparr>poly1305_impl = (if poly_path archLevel arch = Ref_Path then Some Poly1305Ref_ctor else None),
      poly1305_state44 = z_new Z\<rparr>"

text \<open>The copy constructor has an empty body: members are default-constructed, the pointer null.\<close>

definition Poly1305_copy :: "'z radix44_ops \<Rightarrow> 'z poly1305_mac \<Rightarrow> 'z poly1305_mac" where
  "Poly1305_copy Z src = \<lparr>poly1305_impl = None, poly1305_state44 = z_new Z\<rparr>"

text \<open>A call through the null pointer is \<open>None\<close>.\<close>

definition Poly1305_init ::
  "'z radix44_ops \<Rightarrow> arch_level \<Rightarrow> arch_level \<Rightarrow> u8 list \<Rightarrow> 'z poly1305_mac \<Rightarrow> (alc_error \<times> 'z poly1305_mac) option" where
  "Poly1305_init Z archLevel arch key s =
     (if length key \<noteq> 32 then Some (ALC_ERROR_NOT_SUPPORTED, s)
      else
        let s = s\<lparr>poly1305_state44 := z_reopen Z (poly1305_state44 s)\<rparr> in
        case poly_path archLevel arch of
          Ref_Path \<Rightarrow>
            (case poly1305_impl s of
               None \<Rightarrow> None
             | Some p \<Rightarrow> let (err, p) = Poly1305Ref_init key p in Some (err, s\<lparr>poly1305_impl := Some p\<rparr>))
        | Radix44_Path \<Rightarrow> Some (ALC_ERROR_NONE, s\<lparr>poly1305_state44 := z_init Z key (poly1305_state44 s)\<rparr>)
        | No_Path \<Rightarrow> Some (ALC_ERROR_BAD_STATE, s))"

definition Poly1305_update ::
  "'z radix44_ops \<Rightarrow> arch_level \<Rightarrow> arch_level \<Rightarrow> u8 list \<Rightarrow> 'z poly1305_mac \<Rightarrow> (alc_error \<times> 'z poly1305_mac) option" where
  "Poly1305_update Z archLevel arch pMsg s =
     (case poly_path archLevel arch of
        Ref_Path \<Rightarrow>
          (case poly1305_impl s of
             None \<Rightarrow> None
           | Some p \<Rightarrow> do {
               (err, p) \<leftarrow> Poly1305Ref_update pMsg p;
               Some (err, s\<lparr>poly1305_impl := Some p\<rparr>)
             })
      | Radix44_Path \<Rightarrow>
          let (good, z) = z_update Z pMsg (poly1305_state44 s)
          in Some (if good then ALC_ERROR_NONE else ALC_ERROR_BAD_STATE, s\<lparr>poly1305_state44 := z\<rparr>)
      | No_Path \<Rightarrow> Some (ALC_ERROR_BAD_STATE, s))"

definition Poly1305_reset ::
  "'z radix44_ops \<Rightarrow> arch_level \<Rightarrow> arch_level \<Rightarrow> 'z poly1305_mac \<Rightarrow> (alc_error \<times> 'z poly1305_mac) option" where
  "Poly1305_reset Z archLevel arch s =
     (case poly_path archLevel arch of
        Ref_Path \<Rightarrow>
          (case poly1305_impl s of
             None \<Rightarrow> None
           | Some p \<Rightarrow> let (err, p) = Poly1305Ref_reset p in Some (err, s\<lparr>poly1305_impl := Some p\<rparr>))
      | Radix44_Path \<Rightarrow> Some (ALC_ERROR_NONE, s\<lparr>poly1305_state44 := z_reset Z (poly1305_state44 s)\<rparr>)
      | No_Path \<Rightarrow> Some (ALC_ERROR_BAD_STATE, s))"

definition Poly1305_finalize ::
  "'z radix44_ops \<Rightarrow> arch_level \<Rightarrow> arch_level \<Rightarrow> u8 list \<Rightarrow> 'z poly1305_mac \<Rightarrow>
   (alc_error \<times> 'z poly1305_mac \<times> u8 list) option" where
  "Poly1305_finalize Z archLevel arch digest s =
     (case poly_path archLevel arch of
        Ref_Path \<Rightarrow>
          (case poly1305_impl s of
             None \<Rightarrow> None
           | Some p \<Rightarrow> do {
               (err, p, dg) \<leftarrow> Poly1305Ref_finish digest p;
               Some (err, s\<lparr>poly1305_impl := Some p\<rparr>, dg)
             })
      | Radix44_Path \<Rightarrow>
          let (good, z, dg) = z_finalize Z digest (poly1305_state44 s)
          in Some (if good then ALC_ERROR_NONE else ALC_ERROR_BAD_STATE, s\<lparr>poly1305_state44 := z\<rparr>, dg)
      | No_Path \<Rightarrow> Some (ALC_ERROR_BAD_STATE, s, digest))"

section \<open>The interface the AEAD uses\<close>

record 'p mac_ops =
  mac_init :: "u8 list \<Rightarrow> 'p \<Rightarrow> (alc_error \<times> 'p) option"
  mac_update :: "u8 list \<Rightarrow> 'p \<Rightarrow> (alc_error \<times> 'p) option"
  mac_finalize :: "u8 list \<Rightarrow> 'p \<Rightarrow> (alc_error \<times> 'p \<times> u8 list) option"

text \<open>
  \<open>ok\<close>: the object may be keyed; \<open>holds key m\<close>: it has been keyed and given \<open>m\<close>. It may be
  keyed again after a message of whole blocks, which is all the AEAD needs.
\<close>

locale one_time_mac =
  fixes V :: "'p mac_ops"
    and ok :: "'p \<Rightarrow> bool"
    and holds :: "u8 list \<Rightarrow> u8 list \<Rightarrow> 'p \<Rightarrow> bool"
  assumes mac_init_holds:
      "ok p \<Longrightarrow> length key = 32 \<Longrightarrow> \<exists>p'. mac_init V key p = Some (ALC_ERROR_NONE, p') \<and> holds key [] p'"
    and mac_update_holds:
      "holds key m p \<Longrightarrow> \<exists>p'. mac_update V x p = Some (ALC_ERROR_NONE, p') \<and> holds key (m @ x) p'"
    and mac_finalize_spec:
      "holds key m p \<Longrightarrow> length dg = 16 \<Longrightarrow>
       \<exists>p'. mac_finalize V dg p = Some (ALC_ERROR_NONE, p', poly1305_spec key m) \<and> (16 dvd length m \<longrightarrow> ok p')"

definition Poly1305_ops :: "'z radix44_ops \<Rightarrow> arch_level \<Rightarrow> arch_level \<Rightarrow> 'z poly1305_mac mac_ops" where
  "Poly1305_ops Z archLevel arch =
     \<lparr>mac_init = Poly1305_init Z archLevel arch, mac_update = Poly1305_update Z archLevel arch,
      mac_finalize = Poly1305_finalize Z archLevel arch\<rparr>"

definition ref_mac_ok :: "'z poly1305_mac \<Rightarrow> bool" where
  "ref_mac_ok s \<longleftrightarrow> (case poly1305_impl s of None \<Rightarrow> False | Some p \<Rightarrow> poly_ready p \<and> poly_pending p = [])"

definition ref_mac_holds :: "u8 list \<Rightarrow> u8 list \<Rightarrow> 'z poly1305_mac \<Rightarrow> bool" where
  "ref_mac_holds key m s \<longleftrightarrow> (case poly1305_impl s of None \<Rightarrow> False | Some p \<Rightarrow> poly_inv key m p)"

lemma ref_mac_iff:
  "ref_mac_ok s \<longleftrightarrow> (\<exists>p. poly1305_impl s = Some p \<and> poly_ready p \<and> poly_pending p = [])"
  "ref_mac_holds key m s \<longleftrightarrow> (\<exists>p. poly1305_impl s = Some p \<and> poly_inv key m p)"
  by (auto simp: ref_mac_ok_def ref_mac_holds_def split: option.splits)

text \<open>The dynamic object on a machine below Zen 4; and the object of the reference template.\<close>

lemma ref_path: "arch_rank arch < arch_rank eZen4 \<Longrightarrow> poly_path eDynamic arch = Ref_Path"
  "poly_path eReference arch = Ref_Path"
  by (simp_all add: poly_path_def)

lemma poly_pending_whole: "poly_inv key m p \<Longrightarrow> 16 dvd length m \<Longrightarrow> poly_pending p = []"
  using absorbs_length [of 16 "poly_step (poly_r key)" 0 m] by (fastforce simp: poly_inv_def poly_pending_def)

lemma mac_laws:
  fixes Z :: "'z radix44_ops"
  assumes path: "poly_path archLevel arch = Ref_Path"
  shows "one_time_mac (Poly1305_ops Z archLevel arch) ref_mac_ok ref_mac_holds"
proof (rule one_time_mac.intro)
  fix p :: "'z poly1305_mac" and key :: "u8 list"
  assume "ref_mac_ok p" "length key = 32"
  then show "\<exists>p'. mac_init (Poly1305_ops Z archLevel arch) key p = Some (ALC_ERROR_NONE, p') \<and> ref_mac_holds key [] p'"
    using init_inv [of "the (poly1305_impl p)" key] path
    by (fastforce simp: ref_mac_iff Poly1305_ops_def Poly1305_init_def)
next
  fix key m x :: "u8 list" and p :: "'z poly1305_mac"
  assume "ref_mac_holds key m p"
  then show "\<exists>p'. mac_update (Poly1305_ops Z archLevel arch) x p = Some (ALC_ERROR_NONE, p') \<and> ref_mac_holds key (m @ x) p'"
    using update_inv [of key m "the (poly1305_impl p)" x] path
    by (fastforce simp: ref_mac_iff Poly1305_ops_def Poly1305_update_def)
next
  fix key m dg :: "u8 list" and p :: "'z poly1305_mac"
  assume h: "ref_mac_holds key m p" and l: "length dg = 16"
  then obtain q where q: "poly1305_impl p = Some q" "poly_inv key m q"
    by (auto simp: ref_mac_iff)
  then show "\<exists>p'. mac_finalize (Poly1305_ops Z archLevel arch) dg p = Some (ALC_ERROR_NONE, p', poly1305_spec key m) \<and>
      (16 dvd length m \<longrightarrow> ref_mac_ok p')"
    using finish_inv [OF q(2) l] poly_pending_whole [OF q(2)] path
    by (fastforce simp: ref_mac_iff Poly1305_ops_def Poly1305_finalize_def)
qed

interpretation ref_mac: one_time_mac "Poly1305_ops Z eReference arch" ref_mac_ok ref_mac_holds
  for Z :: "'z radix44_ops" and arch
  by (rule mac_laws) (rule ref_path)

lemma ref_mac_ok_ctor: "poly_path archLevel arch = Ref_Path \<Longrightarrow> ref_mac_ok (Poly1305_ctor Z archLevel arch)"
  by (simp add: ref_mac_ok_def Poly1305_ctor_def ready_ctor)

section \<open>Properties\<close>

text \<open>The MAC object of the reference, Zen and Zen 3 templates, and the dynamic one on machines
  below Zen 4, freshly constructed, computes the MAC of RFC 8439; a copy of it has no
  implementation behind it, and its first use dereferences a null pointer.
\<close>

theorem Poly1305_dispatch:
  assumes "archLevel \<in> {eReference, eZen, eZen3} \<or> archLevel = eDynamic \<and> arch_rank arch < arch_rank eZen4"
    "length key = 32" "length dg = 16"
  shows "(\<exists>s1 s2 s3. Poly1305_init Z archLevel arch key (Poly1305_ctor Z archLevel arch) = Some (ALC_ERROR_NONE, s1) \<and>
      Poly1305_update Z archLevel arch m s1 = Some (ALC_ERROR_NONE, s2) \<and>
      Poly1305_finalize Z archLevel arch dg s2 = Some (ALC_ERROR_NONE, s3, poly1305_spec key m)) \<and>
    Poly1305_init Z archLevel arch key (Poly1305_copy Z s) = None \<and>
    Poly1305_update Z archLevel arch m (Poly1305_copy Z s) = None"
proof -
  have p: "poly_path archLevel arch = Ref_Path" using assms(1) by (auto simp: poly_path_def)
  note L = mac_laws [OF p, of Z]
  obtain s1 where 1: "Poly1305_init Z archLevel arch key (Poly1305_ctor Z archLevel arch) = Some (ALC_ERROR_NONE, s1)"
    "ref_mac_holds key [] s1"
    using one_time_mac.mac_init_holds [OF L ref_mac_ok_ctor [OF p] assms(2)] by (auto simp: Poly1305_ops_def)
  obtain s2 where 2: "Poly1305_update Z archLevel arch m s1 = Some (ALC_ERROR_NONE, s2)" "ref_mac_holds key ([] @ m) s2"
    using one_time_mac.mac_update_holds [OF L 1(2)] by (auto simp: Poly1305_ops_def)
  show ?thesis
    using 1(1) 2(1) one_time_mac.mac_finalize_spec [OF L 2(2) assms(3)] p assms(2)
    by (auto simp: Poly1305_ops_def Poly1305_copy_def Poly1305_init_def Poly1305_update_def)
qed

definition no_radix44 :: "unit radix44_ops" where
  "no_radix44 = \<lparr>z_init = (\<lambda>_ z. z), z_update = (\<lambda>_ z. (False, z)), z_finalize = (\<lambda>d z. (False, z, d)),
     z_reset = id, z_reopen = id, z_new = ()\<rparr>"

theorem Poly1305_dispatch_witness:
  "\<exists>s1 s2 s3. Poly1305_init no_radix44 eDynamic eZen3 (replicate 32 1) (Poly1305_ctor no_radix44 eDynamic eZen3)
       = Some (ALC_ERROR_NONE, s1) \<and>
     Poly1305_update no_radix44 eDynamic eZen3 [1, 2] s1 = Some (ALC_ERROR_NONE, s2) \<and>
     Poly1305_finalize no_radix44 eDynamic eZen3 (replicate 16 0) s2
       = Some (ALC_ERROR_NONE, s3, poly1305_spec (replicate 32 1) [1, 2])"
  using Poly1305_dispatch [of eDynamic eZen3 "replicate 32 1" "replicate 16 0" no_radix44 "[1, 2]"] by simp

end
