(* ===== verification/Rijndael.thy ===== *)
theory Rijndael imports Bytes begin

text \<open>
  The reference AES of \<^verbatim>\<open>lib/cipher/rijndael.cc\<close>: key expansion, \<^verbatim>\<open>encryptBlock\<close> and
  \<^verbatim>\<open>AesDecrypt\<close> in the equivalent inverse form. The state is the sixteen bytes of
  \<^verbatim>\<open>Uint32 state[4]\<close>; between two exchanges the code works on the columns rotated, the rows
  side by side. This is the path below \<^verbatim>\<open>CpuArchLevel::eZen\<close>; the other one calls the AES
  instructions. A key length the parameter table does not have makes \<^verbatim>\<open>std::map::at\<close> throw,
  which is the result \<open>None\<close>.
\<close>

unbundle bit_operations_syntax

section \<open>Tables\<close>

definition sBox :: "u8 list" where
  "sBox =
    [0x63, 0x7c, 0x77, 0x7b, 0xf2, 0x6b, 0x6f, 0xc5, 0x30, 0x01, 0x67, 0x2b, 0xfe, 0xd7, 0xab, 0x76,
     0xca, 0x82, 0xc9, 0x7d, 0xfa, 0x59, 0x47, 0xf0, 0xad, 0xd4, 0xa2, 0xaf, 0x9c, 0xa4, 0x72, 0xc0,
     0xb7, 0xfd, 0x93, 0x26, 0x36, 0x3f, 0xf7, 0xcc, 0x34, 0xa5, 0xe5, 0xf1, 0x71, 0xd8, 0x31, 0x15,
     0x04, 0xc7, 0x23, 0xc3, 0x18, 0x96, 0x05, 0x9a, 0x07, 0x12, 0x80, 0xe2, 0xeb, 0x27, 0xb2, 0x75,
     0x09, 0x83, 0x2c, 0x1a, 0x1b, 0x6e, 0x5a, 0xa0, 0x52, 0x3b, 0xd6, 0xb3, 0x29, 0xe3, 0x2f, 0x84,
     0x53, 0xd1, 0x00, 0xed, 0x20, 0xfc, 0xb1, 0x5b, 0x6a, 0xcb, 0xbe, 0x39, 0x4a, 0x4c, 0x58, 0xcf,
     0xd0, 0xef, 0xaa, 0xfb, 0x43, 0x4d, 0x33, 0x85, 0x45, 0xf9, 0x02, 0x7f, 0x50, 0x3c, 0x9f, 0xa8,
     0x51, 0xa3, 0x40, 0x8f, 0x92, 0x9d, 0x38, 0xf5, 0xbc, 0xb6, 0xda, 0x21, 0x10, 0xff, 0xf3, 0xd2,
     0xcd, 0x0c, 0x13, 0xec, 0x5f, 0x97, 0x44, 0x17, 0xc4, 0xa7, 0x7e, 0x3d, 0x64, 0x5d, 0x19, 0x73,
     0x60, 0x81, 0x4f, 0xdc, 0x22, 0x2a, 0x90, 0x88, 0x46, 0xee, 0xb8, 0x14, 0xde, 0x5e, 0x0b, 0xdb,
     0xe0, 0x32, 0x3a, 0x0a, 0x49, 0x06, 0x24, 0x5c, 0xc2, 0xd3, 0xac, 0x62, 0x91, 0x95, 0xe4, 0x79,
     0xe7, 0xc8, 0x37, 0x6d, 0x8d, 0xd5, 0x4e, 0xa9, 0x6c, 0x56, 0xf4, 0xea, 0x65, 0x7a, 0xae, 0x08,
     0xba, 0x78, 0x25, 0x2e, 0x1c, 0xa6, 0xb4, 0xc6, 0xe8, 0xdd, 0x74, 0x1f, 0x4b, 0xbd, 0x8b, 0x8a,
     0x70, 0x3e, 0xb5, 0x66, 0x48, 0x03, 0xf6, 0x0e, 0x61, 0x35, 0x57, 0xb9, 0x86, 0xc1, 0x1d, 0x9e,
     0xe1, 0xf8, 0x98, 0x11, 0x69, 0xd9, 0x8e, 0x94, 0x9b, 0x1e, 0x87, 0xe9, 0xce, 0x55, 0x28, 0xdf,
     0x8c, 0xa1, 0x89, 0x0d, 0xbf, 0xe6, 0x42, 0x68, 0x41, 0x99, 0x2d, 0x0f, 0xb0, 0x54, 0xbb, 0x16]"

text \<open>The array has 257 elements, the last one zero.\<close>

definition invsBox :: "u8 list" where
  "invsBox =
    [0x52, 0x09, 0x6a, 0xd5, 0x30, 0x36, 0xa5, 0x38, 0xbf, 0x40, 0xa3, 0x9e, 0x81, 0xf3, 0xd7, 0xfb,
     0x7c, 0xe3, 0x39, 0x82, 0x9b, 0x2f, 0xff, 0x87, 0x34, 0x8e, 0x43, 0x44, 0xc4, 0xde, 0xe9, 0xcb,
     0x54, 0x7b, 0x94, 0x32, 0xa6, 0xc2, 0x23, 0x3d, 0xee, 0x4c, 0x95, 0x0b, 0x42, 0xfa, 0xc3, 0x4e,
     0x08, 0x2e, 0xa1, 0x66, 0x28, 0xd9, 0x24, 0xb2, 0x76, 0x5b, 0xa2, 0x49, 0x6d, 0x8b, 0xd1, 0x25,
     0x72, 0xf8, 0xf6, 0x64, 0x86, 0x68, 0x98, 0x16, 0xd4, 0xa4, 0x5c, 0xcc, 0x5d, 0x65, 0xb6, 0x92,
     0x6c, 0x70, 0x48, 0x50, 0xfd, 0xed, 0xb9, 0xda, 0x5e, 0x15, 0x46, 0x57, 0xa7, 0x8d, 0x9d, 0x84,
     0x90, 0xd8, 0xab, 0x00, 0x8c, 0xbc, 0xd3, 0x0a, 0xf7, 0xe4, 0x58, 0x05, 0xb8, 0xb3, 0x45, 0x06,
     0xd0, 0x2c, 0x1e, 0x8f, 0xca, 0x3f, 0x0f, 0x02, 0xc1, 0xaf, 0xbd, 0x03, 0x01, 0x13, 0x8a, 0x6b,
     0x3a, 0x91, 0x11, 0x41, 0x4f, 0x67, 0xdc, 0xea, 0x97, 0xf2, 0xcf, 0xce, 0xf0, 0xb4, 0xe6, 0x73,
     0x96, 0xac, 0x74, 0x22, 0xe7, 0xad, 0x35, 0x85, 0xe2, 0xf9, 0x37, 0xe8, 0x1c, 0x75, 0xdf, 0x6e,
     0x47, 0xf1, 0x1a, 0x71, 0x1d, 0x29, 0xc5, 0x89, 0x6f, 0xb7, 0x62, 0x0e, 0xaa, 0x18, 0xbe, 0x1b,
     0xfc, 0x56, 0x3e, 0x4b, 0xc6, 0xd2, 0x79, 0x20, 0x9a, 0xdb, 0xc0, 0xfe, 0x78, 0xcd, 0x5a, 0xf4,
     0x1f, 0xdd, 0xa8, 0x33, 0x88, 0x07, 0xc7, 0x31, 0xb1, 0x12, 0x10, 0x59, 0x27, 0x80, 0xec, 0x5f,
     0x60, 0x51, 0x7f, 0xa9, 0x19, 0xb5, 0x4a, 0x0d, 0x2d, 0xe5, 0x7a, 0x9f, 0x93, 0xc9, 0x9c, 0xef,
     0xa0, 0xe0, 0x3b, 0x4d, 0xae, 0x2a, 0xf5, 0xb0, 0xc8, 0xeb, 0xbb, 0x3c, 0x83, 0x53, 0x99, 0x61,
     0x17, 0x2b, 0x04, 0x7e, 0xba, 0x77, 0xd6, 0x26, 0xe1, 0x69, 0x14, 0x63, 0x55, 0x21, 0x0c, 0x7d,
     0]"

definition GetSbox :: "u8 \<Rightarrow> bool \<Rightarrow> u8" where
  "GetSbox offset use_invsbox = (if use_invsbox then invsBox ! unat offset else sBox ! unat offset)"

definition BytesToWord :: "u8 \<Rightarrow> u8 \<Rightarrow> u8 \<Rightarrow> u8 \<Rightarrow> u32" where
  "BytesToWord byte0 byte1 byte2 byte3 =
     push_bit 24 (ucast byte3) OR push_bit 16 (ucast byte2) OR push_bit 8 (ucast byte1) OR ucast byte0"

definition s_round_constants :: "u32 list" where
  "s_round_constants = map (\<lambda>x. BytesToWord x 0 0 0)
     [0x01, 0x02, 0x04, 0x08, 0x10, 0x20, 0x40, 0x80, 0x1B, 0x36, 0x6C, 0xD8, 0xAB, 0x4D, 0x9A,
      0x2F, 0x5E, 0xBC, 0x63, 0xC6, 0x97, 0x35, 0x6A, 0xD4, 0xB3, 0x7D, 0xFA, 0xEF, 0xC5]"

datatype block_size = eBits0 | eBits128 | eBits192 | eBits256

record params =
  Nk :: nat
  Nb :: nat
  Nr :: nat

definition ParamsMap :: "block_size \<Rightarrow> params option" where
  "ParamsMap bs = (case bs of
     eBits128 \<Rightarrow> Some \<lparr>Nk = 4, Nb = 4, Nr = 10\<rparr>
   | eBits192 \<Rightarrow> Some \<lparr>Nk = 6, Nb = 4, Nr = 12\<rparr>
   | eBits256 \<Rightarrow> Some \<lparr>Nk = 8, Nb = 4, Nr = 14\<rparr>
   | eBits0 \<Rightarrow> None)"

definition BitsToBlockSize :: "nat \<Rightarrow> block_size" where
  "BitsToBlockSize iVal =
     (if iVal = 128 then eBits128 else if iVal = 192 then eBits192
      else if iVal = 256 then eBits256 else eBits0)"

section \<open>Exchanges\<close>

definition mix_column_exchange :: "u8 list \<Rightarrow> u8 list" where
  "mix_column_exchange inp = map ((!) inp) [0, 4, 8, 12, 7, 11, 15, 3, 10, 14, 2, 6, 13, 1, 5, 9]"

definition mix_column_last_exchange :: "u8 list \<Rightarrow> u8 list" where
  "mix_column_last_exchange inp = map ((!) inp) [0, 5, 10, 15, 4, 9, 14, 3, 8, 13, 2, 7, 12, 1, 6, 11]"

definition inv_mix_column_exchange :: "u8 list \<Rightarrow> u8 list" where
  "inv_mix_column_exchange inp = map ((!) inp) [0, 4, 8, 12, 1, 5, 9, 13, 2, 6, 10, 14, 3, 7, 11, 15]"

definition inv_mix_column_last_exchange :: "u8 list \<Rightarrow> u8 list" where
  "inv_mix_column_last_exchange inp =
     map ((!) inp) [0, 13, 10, 7, 4, 1, 14, 11, 8, 5, 2, 15, 12, 9, 6, 3]"

section \<open>Multiplication by x\<close>

text \<open>The byte version computes in \<^verbatim>\<open>int\<close>; no intermediate value is negative or overflows.\<close>

definition gmulx2 :: "u8 \<Rightarrow> u8" where
  "gmulx2 val =
     (let v = ucast val :: u32
      in ucast (((v + v) AND 0xfe) XOR ((push_bit 1 (v AND 0x80) - drop_bit 7 (v AND 0x80)) AND 0x11b)))"

definition gmulx2_32 :: "u32 \<Rightarrow> u32" where
  "gmulx2_32 val =
     ((val + val) AND 0xfefefefe)
     XOR ((push_bit 1 (val AND 0x80808080) - drop_bit 7 (val AND 0x80808080)) AND 0x1b1b1b1b)"

definition InvMixColumns :: "u32 \<Rightarrow> u32" where
  "InvMixColumns val =
     (let val_2 = gmulx2_32 val; val_4 = gmulx2_32 val_2; val_8 = gmulx2_32 val_4;
          val_9 = val_8 XOR val; val_b = val_8 XOR val_2 XOR val;
          val_d = val_8 XOR val_4 XOR val; val_e = val_8 XOR val_4 XOR val_2
      in val_e XOR (drop_bit 8 val_b OR push_bit 24 val_b) XOR (drop_bit 16 val_d OR push_bit 16 val_d)
         XOR (drop_bit 24 val_9 OR push_bit 8 val_9))"

section \<open>Steps on the state\<close>

text \<open>The four bytes at \<open>i\<close>, \<open>i + 4\<close>, \<open>i + 8\<close> and \<open>i + 12\<close> after one turn of the loop.\<close>

definition InvMixColumnsx8_column :: "u8 \<Rightarrow> u8 \<Rightarrow> u8 \<Rightarrow> u8 \<Rightarrow> u8 list" where
  "InvMixColumnsx8_column s0 s4 s8 s12 =
     (let t0 = s4 XOR s8 XOR s12; t1 = s0 XOR s8 XOR s12; t2 = s0 XOR s4 XOR s12; t3 = s0 XOR s4 XOR s8;
          s0 = gmulx2 s0; s4 = gmulx2 s4; s8 = gmulx2 s8; s12 = gmulx2 s12;
          t0 = t0 XOR (s0 XOR s4); t1 = t1 XOR (s4 XOR s8); t2 = t2 XOR (s8 XOR s12); t3 = t3 XOR (s12 XOR s0);
          tm1 = gmulx2 (s0 XOR s8); tm2 = gmulx2 (s4 XOR s12); tm3 = gmulx2 (tm1 XOR tm2)
      in [t0 XOR tm1 XOR tm3, t1 XOR tm2 XOR tm3, t2 XOR tm1 XOR tm3, t3 XOR tm2 XOR tm3])"

definition MixColumnsx8_column :: "u8 \<Rightarrow> u8 \<Rightarrow> u8 \<Rightarrow> u8 \<Rightarrow> u8 list" where
  "MixColumnsx8_column s0 s4 s8 s12 =
     (let t0 = s4 XOR s8 XOR s12; t1 = s8 XOR s12 XOR s0; t2 = s12 XOR s0 XOR s4; t3 = s0 XOR s4 XOR s8;
          s0 = gmulx2 s0; s4 = gmulx2 s4; s8 = gmulx2 s8; s12 = gmulx2 s12
      in [t0 XOR (s0 XOR s4), t1 XOR (s4 XOR s8), t2 XOR (s8 XOR s12), t3 XOR (s12 XOR s0)])"

definition columns_loop :: "(u8 \<Rightarrow> u8 \<Rightarrow> u8 \<Rightarrow> u8 \<Rightarrow> u8 list) \<Rightarrow> u8 list \<Rightarrow> u8 list" where
  "columns_loop f states =
     foldl (\<lambda>st i. let c = f (st ! i) (st ! (i + 4)) (st ! (i + 8)) (st ! (i + 12))
                   in st[i := c ! 0, i + 4 := c ! 1, i + 8 := c ! 2, i + 12 := c ! 3]) states [0..<4]"

definition InvMixColumnsx8 :: "u8 list \<Rightarrow> u8 list" where
  "InvMixColumnsx8 inp = inv_mix_column_exchange (columns_loop InvMixColumnsx8_column inp)"

definition MixColumnsx8 :: "u8 list \<Rightarrow> u8 list" where
  "MixColumnsx8 inp = mix_column_exchange (columns_loop MixColumnsx8_column inp)"

definition SubBytes :: "u8 list \<Rightarrow> u8 list" where
  "SubBytes inp = map (\<lambda>b. GetSbox b False) inp"

definition InvSubBytes :: "u8 list \<Rightarrow> u8 list" where
  "InvSubBytes inp = map (\<lambda>b. GetSbox b True) inp"

definition AddRoundKey :: "u32 \<Rightarrow> u32 \<Rightarrow> u32" where
  "AddRoundKey input key = input XOR key"

definition ROR :: "u32 \<Rightarrow> nat \<Rightarrow> u32" where
  "ROR inp n = drop_bit n inp OR push_bit (32 - n) inp"

text \<open>\<^verbatim>\<open>state[i]\<close> as a word, and an assignment to it.\<close>

definition state_word :: "u8 list \<Rightarrow> nat \<Rightarrow> u32" where
  "state_word st i = le_word (take 4 (drop (4 * i) st))"

definition set_state_word :: "nat \<Rightarrow> u32 \<Rightarrow> u8 list \<Rightarrow> u8 list" where
  "set_state_word i w st = write_at (4 * i) (le_bytes 4 w) st"

definition ror_rows :: "nat \<Rightarrow> nat \<Rightarrow> nat \<Rightarrow> u8 list \<Rightarrow> u8 list" where
  "ror_rows n1 n2 n3 st =
     (let st = set_state_word 1 (ROR (state_word st 1) n1) st;
          st = set_state_word 2 (ROR (state_word st 2) n2) st
      in set_state_word 3 (ROR (state_word st 3) n3) st)"

text \<open>The four assignments \<^verbatim>\<open>state[i] = state[i] ^ p_key32[i]\<close>.\<close>

definition xor_key :: "u8 list \<Rightarrow> u8 list \<Rightarrow> u8 list" where
  "xor_key p_key st =
     foldl (\<lambda>st i. set_state_word i (AddRoundKey (state_word st i) (state_word p_key i)) st) st [0..<4]"

section \<open>Blocks\<close>

definition encrypt_round :: "u8 list \<Rightarrow> u8 list \<Rightarrow> u8 list" where
  "encrypt_round p_key st = xor_key p_key (MixColumnsx8 (ror_rows 8 16 24 (SubBytes st)))"

text \<open>The key pointer advances by four words each round.\<close>

fun encrypt_rounds :: "nat \<Rightarrow> u8 list \<Rightarrow> u8 list \<Rightarrow> u8 list \<times> u8 list" where
  "encrypt_rounds 0 p_key st = (p_key, st)"
| "encrypt_rounds (Suc n) p_key st = encrypt_rounds n (drop 16 p_key) (encrypt_round p_key st)"

definition encryptBlockKernel :: "u8 list \<Rightarrow> u8 list \<Rightarrow> nat \<Rightarrow> u8 list" where
  "encryptBlockKernel blk0 pkey nr =
     (let st = xor_key pkey blk0;
          (p_key, st) = encrypt_rounds (nr - 1) (drop 16 pkey) st
      in xor_key p_key (mix_column_last_exchange (SubBytes st)))"

definition decrypt_round :: "u8 list \<Rightarrow> u8 list \<Rightarrow> u8 list" where
  "decrypt_round p_key st =
     xor_key p_key (InvMixColumnsx8 (InvSubBytes (ror_rows 24 16 8 (inv_mix_column_exchange st))))"

fun decrypt_rounds :: "nat \<Rightarrow> u8 list \<Rightarrow> u8 list \<Rightarrow> u8 list \<times> u8 list" where
  "decrypt_rounds 0 p_key st = (p_key, st)"
| "decrypt_rounds (Suc n) p_key st = decrypt_rounds n (drop 16 p_key) (decrypt_round p_key st)"

definition AesDecrypt :: "u8 list \<Rightarrow> u8 list \<Rightarrow> nat \<Rightarrow> u8 list" where
  "AesDecrypt blk0 pkey nr =
     (let st = xor_key pkey blk0;
          (p_key, st) = decrypt_rounds (nr - 1) (drop 16 pkey) st
      in xor_key p_key (inv_mix_column_last_exchange (InvSubBytes st)))"

section \<open>The object\<close>

record rijndael =
  m_round_key_enc :: "u8 list"
  m_round_key_dec :: "u8 list"
  m_nrounds :: nat
  m_key_size :: nat
  m_block_size :: block_size

definition Rijndael_ctor :: rijndael where
  "Rijndael_ctor = \<lparr>m_round_key_enc = replicate 512 0, m_round_key_dec = replicate 512 0,
     m_nrounds = 0, m_key_size = 0, m_block_size = eBits0\<rparr>"

text \<open>One turn of the expansion loop, with the words written so far and the constants left.\<close>

definition expand_word :: "nat \<Rightarrow> nat \<Rightarrow> u32 list \<times> u32 list \<Rightarrow> u32 list \<times> u32 list" where
  "expand_word nk i = (\<lambda>(w, rtbl).
     let temp = w ! (i - 1);
         (temp, rtbl) =
           (if i mod nk = 0 then
              (MakeWord (GetSbox (GetByte temp 1) False) (GetSbox (GetByte temp 2) False)
                 (GetSbox (GetByte temp 3) False) (GetSbox (GetByte temp 0) False) XOR hd rtbl, tl rtbl)
            else if nk > 6 \<and> i mod nk = 4 then
              (MakeWord (GetSbox (GetByte temp 0) False) (GetSbox (GetByte temp 1) False)
                 (GetSbox (GetByte temp 2) False) (GetSbox (GetByte temp 3) False), rtbl)
            else (temp, rtbl))
     in (w[i := w ! (i - nk) XOR temp], rtbl))"

definition expand_enc :: "nat \<Rightarrow> nat \<Rightarrow> u8 list \<Rightarrow> u32 list \<Rightarrow> u32 list" where
  "expand_enc nk nr key enc =
     (let enc = foldl (\<lambda>w i. w[i := MakeWord (key ! (4 * i)) (key ! (4 * i + 1)) (key ! (4 * i + 2))
                                      (key ! (4 * i + 3))]) enc [0..<nk]
      in fst (foldl (\<lambda>s i. expand_word nk i s) (enc, s_round_constants) [nk..<4 * (nr + 1)]))"

text \<open>The loop that swaps the round keys from both ends.\<close>

function swap_round_keys :: "nat \<Rightarrow> nat \<Rightarrow> u8 list \<Rightarrow> u8 list" where
  "swap_round_keys i j dec =
     (if i < j then
        let temp = take 16 (drop (16 * i) dec);
            dec = write_at (16 * i) (take 16 (drop (16 * j) dec)) dec;
            dec = write_at (16 * j) temp dec
        in swap_round_keys (i + 1) (j - 1) dec
      else dec)"
  by pat_completeness auto
termination by (relation "measure (\<lambda>(i, j, dec). j - i)") auto

declare swap_round_keys.simps [simp del]

definition expandKeys :: "u8 list option \<Rightarrow> rijndael \<Rightarrow> rijndael" where
  "expandKeys pUserKey s =
     (let key = (case pUserKey of Some k \<Rightarrow> k | None \<Rightarrow> replicate 32 0);
          nr = m_nrounds s; nk = m_key_size s div 4;
          enc32 = expand_enc nk nr key (le_words 4 128 (m_round_key_enc s));
          enc = concat (map (le_bytes 4) enc32);
          dec = write_at 0 (take (m_key_size s * 8) enc) (m_round_key_dec s);
          dec = foldl (\<lambda>d i. write_at (4 * i) (le_bytes 4 (InvMixColumns (enc32 ! i))) d) dec [4..<4 * (nr + 1)];
          dec = swap_round_keys 0 nr dec;
          dec = write_at 0 (take 16 (drop (16 * nr) enc)) dec
      in s\<lparr>m_round_key_enc := enc, m_round_key_dec := dec\<rparr>)"

definition Rijndael_setKey :: "u8 list option \<Rightarrow> nat \<Rightarrow> rijndael \<Rightarrow> rijndael option" where
  "Rijndael_setKey key len s =
     (let s = s\<lparr>m_block_size := BitsToBlockSize len\<rparr>
      in case ParamsMap (m_block_size s) of
           None \<Rightarrow> None
         | Some prm \<Rightarrow> Some (expandKeys key (s\<lparr>m_nrounds := Nr prm, m_key_size := len div 8\<rparr>)))"

definition Rijndael_encryptBlock :: "u8 list \<Rightarrow> u8 list \<Rightarrow> nat \<Rightarrow> u8 list" where
  "Rijndael_encryptBlock blk0 pkey nr = encryptBlockKernel blk0 pkey nr"

text \<open>
  \<^verbatim>\<open>encrypt\<close> takes the length in words, four at a time; \<^verbatim>\<open>cBlockSizeWord\<close> is 4, so a length of
  \<open>n\<close> bytes is \<open>n / 4\<close> words.
\<close>

fun encrypt_blocks :: "nat \<Rightarrow> u8 list \<Rightarrow> rijndael \<Rightarrow> u8 list" where
  "encrypt_blocks n pPlaintxt s =
     (if n \<ge> 4 then
        encryptBlockKernel (take 16 pPlaintxt) (m_round_key_enc s) (m_nrounds s)
        @ encrypt_blocks (n - 4) (drop 16 pPlaintxt) s
      else [])"

declare encrypt_blocks.simps [simp del]

definition Rijndael_encrypt :: "u8 list \<Rightarrow> rijndael \<Rightarrow> alc_error \<times> u8 list" where
  "Rijndael_encrypt pPlaintxt s = (ALC_ERROR_NONE, encrypt_blocks (length pPlaintxt div 4) pPlaintxt s)"

text \<open>
  The destructor. The two arrays of 512 bytes, aligned to 64, lie one after the other, so the
  object's memory is their concatenation; \<open>fill_zero first stop\<close> is \<^verbatim>\<open>std::fill\<close>.
\<close>

definition fill_zero :: "nat \<Rightarrow> nat \<Rightarrow> u8 list \<Rightarrow> u8 list" where
  "fill_zero first stop mem = write_at first (replicate (stop - first) 0) mem"

definition Rijndael_dtor :: "rijndael \<Rightarrow> rijndael" where
  "Rijndael_dtor s =
     (let enc = 0; dec = 512; mem = m_round_key_enc s @ m_round_key_dec s;
          mem = fill_zero enc (enc + 512) mem;
          mem = fill_zero dec (enc + 512) mem
      in s\<lparr>m_round_key_enc := take 512 mem, m_round_key_dec := drop 512 mem\<rparr>)"

definition getNk :: "rijndael \<Rightarrow> nat" where
  "getNk s = m_key_size s div 4"

definition getNr :: "rijndael \<Rightarrow> nat" where
  "getNr s = m_nrounds s"

end
