(* ===== verification/Fips197.thy ===== *)
theory Fips197 imports Prelude begin

text \<open>
  The Advanced Encryption Standard as FIPS 197 states it, over bytes: multiplication in the
  field, the S-box as an affine map of the inverse, the four transformations, the key
  expansion over words of four bytes, the cipher and its inverse.
\<close>

unbundle bit_operations_syntax

section \<open>The field\<close>

definition xtime :: "u8 \<Rightarrow> u8" where
  "xtime b = push_bit 1 b XOR (if bit b 7 then 0x1b else 0)"

text \<open>Multiplication, from the leading bit of \<open>a\<close> down.\<close>

definition gf_mul :: "u8 \<Rightarrow> u8 \<Rightarrow> u8" where
  "gf_mul a b = foldl (\<lambda>acc i. xtime acc XOR (if bit a i then b else 0)) 0 [7, 6, 5, 4, 3, 2, 1, 0 :: nat]"

definition rotl8 :: "nat \<Rightarrow> u8 \<Rightarrow> u8" where
  "rotl8 n b = push_bit n b OR drop_bit (8 - n) b"

definition sbox_affine :: "u8 \<Rightarrow> u8" where
  "sbox_affine b = b XOR rotl8 1 b XOR rotl8 2 b XOR rotl8 3 b XOR rotl8 4 b XOR 0x63"

text \<open>The affine map of the inverse, zero being sent to zero.\<close>

definition is_sbox :: "(u8 \<Rightarrow> u8) \<Rightarrow> bool" where
  "is_sbox S \<longleftrightarrow> (\<forall>x. \<exists>y. (if x = 0 then y = 0 else gf_mul x y = 1) \<and> S x = sbox_affine y)"

section \<open>The transformations, for a given S-box\<close>

definition sub_bytes :: "(u8 \<Rightarrow> u8) \<Rightarrow> u8 list \<Rightarrow> u8 list" where
  "sub_bytes S st = map S st"

definition shift_rows :: "u8 list \<Rightarrow> u8 list" where
  "shift_rows st = map (\<lambda>i. st ! (4 * ((i div 4 + i mod 4) mod 4) + i mod 4)) [0..<16]"

definition inv_shift_rows :: "u8 list \<Rightarrow> u8 list" where
  "inv_shift_rows st = map (\<lambda>i. st ! (4 * ((i div 4 + 4 - i mod 4) mod 4) + i mod 4)) [0..<16]"

text \<open>A column times the circulant matrix with first row \<open>m\<close>.\<close>

definition mix_with :: "u8 list \<Rightarrow> u8 list \<Rightarrow> u8 list" where
  "mix_with m st =
     map (\<lambda>i. gf_mul (m ! 0) (st ! (4 * (i div 4) + i mod 4))
            XOR gf_mul (m ! 1) (st ! (4 * (i div 4) + (i mod 4 + 1) mod 4))
            XOR gf_mul (m ! 2) (st ! (4 * (i div 4) + (i mod 4 + 2) mod 4))
            XOR gf_mul (m ! 3) (st ! (4 * (i div 4) + (i mod 4 + 3) mod 4))) [0..<16]"

definition mix_columns :: "u8 list \<Rightarrow> u8 list" where
  "mix_columns st = mix_with [0x02, 0x03, 0x01, 0x01] st"

definition inv_mix_columns :: "u8 list \<Rightarrow> u8 list" where
  "inv_mix_columns st = mix_with [0x0e, 0x0b, 0x0d, 0x09] st"

definition xor_bytes :: "u8 list \<Rightarrow> u8 list \<Rightarrow> u8 list" where
  "xor_bytes xs ys = map2 (XOR) xs ys"

section \<open>Key expansion and cipher\<close>

definition rcon :: "nat \<Rightarrow> u8 list" where
  "rcon n = [(xtime ^^ (n - 1)) 1, 0, 0, 0]"

definition key_word :: "(u8 \<Rightarrow> u8) \<Rightarrow> nat \<Rightarrow> u8 list list \<Rightarrow> nat \<Rightarrow> u8 list" where
  "key_word S nk w i =
     xor_bytes (w ! (i - nk))
       (if i mod nk = 0 then xor_bytes (map S (rotate1 (w ! (i - 1)))) (rcon (i div nk))
        else if nk > 6 \<and> i mod nk = 4 then map S (w ! (i - 1))
        else w ! (i - 1))"

definition key_expansion :: "(u8 \<Rightarrow> u8) \<Rightarrow> nat \<Rightarrow> nat \<Rightarrow> u8 list \<Rightarrow> u8 list list" where
  "key_expansion S nk nr key =
     foldl (\<lambda>w i. w @ [key_word S nk w i]) (map (\<lambda>i. take 4 (drop (4 * i) key)) [0..<nk]) [nk..<4 * (nr + 1)]"

definition round_key :: "u8 list list \<Rightarrow> nat \<Rightarrow> u8 list" where
  "round_key w r = concat (take 4 (drop (4 * r) w))"

definition aes_cipher :: "(u8 \<Rightarrow> u8) \<Rightarrow> nat \<Rightarrow> u8 list list \<Rightarrow> u8 list \<Rightarrow> u8 list" where
  "aes_cipher S nr w blk =
     (let st = xor_bytes blk (round_key w 0);
          st = foldl (\<lambda>st r. xor_bytes (mix_columns (shift_rows (sub_bytes S st))) (round_key w r)) st [1..<nr]
      in xor_bytes (shift_rows (sub_bytes S st)) (round_key w nr))"

text \<open>The inverse cipher; \<open>S'\<close> is the inverse S-box.\<close>

definition aes_inv_cipher :: "(u8 \<Rightarrow> u8) \<Rightarrow> nat \<Rightarrow> u8 list list \<Rightarrow> u8 list \<Rightarrow> u8 list" where
  "aes_inv_cipher S' nr w blk =
     (let st = xor_bytes blk (round_key w nr);
          st = foldl (\<lambda>st r. inv_mix_columns (xor_bytes (map S' (inv_shift_rows st)) (round_key w r)))
                 st (rev [1..<nr])
      in xor_bytes (map S' (inv_shift_rows st)) (round_key w 0))"

section \<open>Lengths\<close>

lemma length_xor_bytes [simp]: "length (xor_bytes xs ys) = min (length xs) (length ys)"
  by (simp add: xor_bytes_def)

lemma length_aes_steps [simp]:
  "length (sub_bytes S st) = length st" "length (shift_rows st) = 16" "length (inv_shift_rows st) = 16"
  "length (mix_columns st) = 16" "length (inv_mix_columns st) = 16"
  by (simp_all add: sub_bytes_def shift_rows_def inv_shift_rows_def mix_columns_def inv_mix_columns_def
    mix_with_def)

section \<open>Field arithmetic\<close>

lemma xtime_xor: "xtime (a XOR b) = xtime a XOR xtime b"
  by (simp add: xtime_def bit_xor_iff push_bit_xor ac_simps)

lemma xtime_0 [simp]: "xtime 0 = 0"
  by (simp add: xtime_def)

lemma gf_mul_values:
  "gf_mul 0x01 b = b" "gf_mul 0x02 b = xtime b" "gf_mul 0x03 b = xtime b XOR b"
  "gf_mul 0x09 b = xtime (xtime (xtime b)) XOR b"
  "gf_mul 0x0b b = xtime (xtime (xtime b)) XOR xtime b XOR b"
  "gf_mul 0x0d b = xtime (xtime (xtime b)) XOR xtime (xtime b) XOR b"
  "gf_mul 0x0e b = xtime (xtime (xtime b)) XOR xtime (xtime b) XOR xtime b"
  by (simp_all add: gf_mul_def xtime_xor ac_simps)

lemma xor_bytes_assoc: "xor_bytes (xor_bytes a b) c = xor_bytes a (xor_bytes b c)"
  by (rule nth_equalityI) (simp_all add: xor_bytes_def ac_simps)

lemma xor_bytes_self: "length a \<le> length b \<Longrightarrow> xor_bytes (xor_bytes a b) b = a"
  by (rule nth_equalityI) (simp_all add: xor_bytes_def ac_simps)

lemma sixteen:
  "length st = 16 \<Longrightarrow> \<exists>s0 s1 s2 s3 s4 s5 s6 s7 s8 s9 sa sb sc sd se sf.
     st = [s0, s1, s2, s3, s4, s5, s6, s7, s8, s9, sa, sb, sc, sd, se, sf]"
  by (auto simp: length_Suc_conv eval_nat_numeral)

lemma upt_16: "[0..<16] = [0, 1, 2, 3, 4, 5, 6, 7, 8, 9, 10, 11, 12, 13, 14, 15 :: nat]"
  by (simp add: upt_rec_numeral upt_conv_Cons)

lemma inv_shift_rows_shift_rows: "length st = 16 \<Longrightarrow> inv_shift_rows (shift_rows st) = st"
  by (drule sixteen) (auto simp: inv_shift_rows_def shift_rows_def upt_16)

lemma mix_columns_eq:
  "mix_columns [s0, s1, s2, s3, s4, s5, s6, s7, s8, s9, sa, sb, sc, sd, se, sf]
   = (let f = (\<lambda>a b c d. xtime a XOR (xtime b XOR b) XOR c XOR d)
      in [f s0 s1 s2 s3, f s1 s2 s3 s0, f s2 s3 s0 s1, f s3 s0 s1 s2,
          f s4 s5 s6 s7, f s5 s6 s7 s4, f s6 s7 s4 s5, f s7 s4 s5 s6,
          f s8 s9 sa sb, f s9 sa sb s8, f sa sb s8 s9, f sb s8 s9 sa,
          f sc sd se sf, f sd se sf sc, f se sf sc sd, f sf sc sd se])"
  by (simp add: mix_columns_def mix_with_def upt_16 gf_mul_values Let_def del: upt_rec_numeral)

lemma inv_mix_columns_eq:
  "inv_mix_columns [s0, s1, s2, s3, s4, s5, s6, s7, s8, s9, sa, sb, sc, sd, se, sf]
   = (let f = (\<lambda>a b c d. gf_mul 0x0e a XOR gf_mul 0x0b b XOR gf_mul 0x0d c XOR gf_mul 0x09 d)
      in [f s0 s1 s2 s3, f s1 s2 s3 s0, f s2 s3 s0 s1, f s3 s0 s1 s2,
          f s4 s5 s6 s7, f s5 s6 s7 s4, f s6 s7 s4 s5, f s7 s4 s5 s6,
          f s8 s9 sa sb, f s9 sa sb s8, f sa sb s8 s9, f sb s8 s9 sa,
          f sc sd se sf, f sd se sf sc, f se sf sc sd, f sf sc sd se])"
  by (simp add: inv_mix_columns_def mix_with_def upt_16 Let_def del: upt_rec_numeral)

text \<open>The two circulant matrices are inverse; the products need no reduction.\<close>

lemma inv_mix_column:
  "(let f = (\<lambda>a b c d. xtime a XOR (xtime b XOR b) XOR c XOR d)
    in gf_mul 0x0e (f a b c d) XOR gf_mul 0x0b (f b c d a) XOR gf_mul 0x0d (f c d a b) XOR gf_mul 0x09 (f d a b c)) = a"
  by (simp add: Let_def gf_mul_values xtime_xor ac_simps)

lemma inv_mix_columns_mix_columns: "length st = 16 \<Longrightarrow> inv_mix_columns (mix_columns st) = st"
  using inv_mix_column by (drule_tac sixteen) (auto simp: mix_columns_eq inv_mix_columns_eq Let_def)

lemma inv_mix_columns_xor:
  "length a = 16 \<Longrightarrow> length b = 16 \<Longrightarrow>
   inv_mix_columns (xor_bytes a b) = xor_bytes (inv_mix_columns a) (inv_mix_columns b)"
  by (drule sixteen, drule sixteen)
    (auto simp: inv_mix_columns_eq xor_bytes_def Let_def gf_mul_values xtime_xor ac_simps)

end
