(* ===== verification/Aes_Rounds.thy ===== *)
theory Aes_Rounds imports Rijndael Fips197 begin

text \<open>
  The reference AES is FIPS 197: the S-box is the affine map of the inverse, one round of
  \<^verbatim>\<open>encryptBlockKernel\<close> on its rotated state is one round of the standard, the key expansion
  produces the standard's words and, for decryption, the equivalent inverse schedule.
\<close>

unbundle bit_operations_syntax

abbreviation S_enc :: "u8 \<Rightarrow> u8" where "S_enc x \<equiv> GetSbox x False"
abbreviation S_dec :: "u8 \<Rightarrow> u8" where "S_dec x \<equiv> GetSbox x True"

section \<open>Checking all bytes\<close>

definition all_bytes :: "u8 list" where
  "all_bytes =
    [0, 1, 2, 3, 4, 5, 6, 7, 8, 9, 10, 11, 12, 13, 14, 15,
     16, 17, 18, 19, 20, 21, 22, 23, 24, 25, 26, 27, 28, 29, 30, 31,
     32, 33, 34, 35, 36, 37, 38, 39, 40, 41, 42, 43, 44, 45, 46, 47,
     48, 49, 50, 51, 52, 53, 54, 55, 56, 57, 58, 59, 60, 61, 62, 63,
     64, 65, 66, 67, 68, 69, 70, 71, 72, 73, 74, 75, 76, 77, 78, 79,
     80, 81, 82, 83, 84, 85, 86, 87, 88, 89, 90, 91, 92, 93, 94, 95,
     96, 97, 98, 99, 100, 101, 102, 103, 104, 105, 106, 107, 108, 109, 110, 111,
     112, 113, 114, 115, 116, 117, 118, 119, 120, 121, 122, 123, 124, 125, 126, 127,
     128, 129, 130, 131, 132, 133, 134, 135, 136, 137, 138, 139, 140, 141, 142, 143,
     144, 145, 146, 147, 148, 149, 150, 151, 152, 153, 154, 155, 156, 157, 158, 159,
     160, 161, 162, 163, 164, 165, 166, 167, 168, 169, 170, 171, 172, 173, 174, 175,
     176, 177, 178, 179, 180, 181, 182, 183, 184, 185, 186, 187, 188, 189, 190, 191,
     192, 193, 194, 195, 196, 197, 198, 199, 200, 201, 202, 203, 204, 205, 206, 207,
     208, 209, 210, 211, 212, 213, 214, 215, 216, 217, 218, 219, 220, 221, 222, 223,
     224, 225, 226, 227, 228, 229, 230, 231, 232, 233, 234, 235, 236, 237, 238, 239,
     240, 241, 242, 243, 244, 245, 246, 247, 248, 249, 250, 251, 252, 253, 254, 255]"

lemma unat_less_256: "unat (x :: u8) < 256"
  using unsigned_less [of x] by simp

lemma all_bytes_nth: "all_bytes ! unat (x :: u8) = x" "length all_bytes = 256"
proof -
  have e: "all_bytes = map of_nat [0..<256]" by (simp add: all_bytes_def upt_conv_Cons)
  show "all_bytes ! unat x = x" "length all_bytes = 256"
    using unat_less_256 [of x] by (simp_all add: e del: upt_rec_numeral)
qed

lemma all_u8:
  fixes x :: u8
  assumes "list_all P all_bytes"
  shows "P x"
proof -
  have "P (all_bytes ! unat x)" using assms unat_less_256 [of x] by (simp add: list_all_length all_bytes_nth(2))
  then show ?thesis by (simp only: all_bytes_nth(1))
qed

section \<open>The S-box\<close>

definition sbox_inv_affine :: "u8 \<Rightarrow> u8" where
  "sbox_inv_affine s = rotl8 1 s XOR rotl8 3 s XOR rotl8 6 s XOR 0x05"

lemma sbox_affine_inv: "sbox_affine (sbox_inv_affine s) = s"
  by (rule all_u8) (simp add: all_bytes_def sbox_inv_affine_def sbox_affine_def rotl8_def)

lemma gmulx2_xtime: "gmulx2 s = xtime s"
  by (rule all_u8) (simp add: all_bytes_def gmulx2_def xtime_def)

text \<open>A row of the table against the field: the preimage under the affine map is the inverse.\<close>

definition inverse_entry :: "u8 \<Rightarrow> u8 \<Rightarrow> bool" where
  "inverse_entry x s \<longleftrightarrow> gf_mul x (sbox_inv_affine s) = (if x = 0 then 0 else 1)"

lemma sBox_inverses: "list_all2 inverse_entry all_bytes sBox"
  by (simp add: all_bytes_def sBox_def inverse_entry_def gf_mul_def xtime_def sbox_inv_affine_def rotl8_def)

lemma invsBox_sBox: "map (\<lambda>s. invsBox ! unat s) sBox = all_bytes"
  by (simp add: all_bytes_def sBox_def invsBox_def)

lemma S_dec_S_enc [simp]: "S_dec (S_enc x) = x"
proof -
  have "map (\<lambda>s. invsBox ! unat s) sBox ! unat x = x" by (simp only: invsBox_sBox all_bytes_nth)
  moreover have "length sBox = 256" by (simp add: sBox_def)
  ultimately show ?thesis using unat_less_256 [of x] by (simp add: GetSbox_def)
qed

lemma GetSbox_is_sbox: "is_sbox S_enc"
  unfolding is_sbox_def
proof
  fix x :: u8
  have "inverse_entry (all_bytes ! unat x) (sBox ! unat x)"
    using sBox_inverses unat_less_256 [of x] by (simp add: list_all2_conv_all_nth all_bytes_nth(2))
  then have i: "gf_mul x (sbox_inv_affine (S_enc x)) = (if x = 0 then 0 else 1)"
    by (simp add: inverse_entry_def all_bytes_nth GetSbox_def)
  show "\<exists>y. (if x = 0 then y = 0 else gf_mul x y = 1) \<and> S_enc x = sbox_affine y"
  proof (intro exI conjI)
    show "S_enc x = sbox_affine (sbox_inv_affine (S_enc x))" by (simp add: sbox_affine_inv)
    show "if x = 0 then sbox_inv_affine (S_enc x) = 0 else gf_mul x (sbox_inv_affine (S_enc x)) = 1"
      using i by (auto simp: GetSbox_def sBox_def sbox_inv_affine_def rotl8_def)
  qed
qed

section \<open>One round\<close>

lemma le_bytes_4_le_word: "le_bytes 4 (le_word [a, b, c, d] :: u32) = [a, b, c, d]"
  by (rule le_bytes_le_word) simp_all

lemma ROR_bytes:
  "le_bytes 4 (ROR (le_word [a, b, c, d]) 8) = [b, c, d, a]"
  "le_bytes 4 (ROR (le_word [a, b, c, d]) 16) = [c, d, a, b]"
  "le_bytes 4 (ROR (le_word [a, b, c, d]) 24) = [d, a, b, c]"
  by (simp_all add: le_bytes_4 ROR_def)
    (intro conjI byte_eqI; auto simp: bit_simps dest: bit_imp_le_length)+

lemma ror_rows_eq:
  "ror_rows 8 16 24 [s0, s1, s2, s3, s4, s5, s6, s7, s8, s9, sa, sb, sc, sd, se, sf]
   = [s0, s1, s2, s3, s5, s6, s7, s4, sa, sb, s8, s9, sf, sc, sd, se]"
  "ror_rows 24 16 8 [s0, s1, s2, s3, s4, s5, s6, s7, s8, s9, sa, sb, sc, sd, se, sf]
   = [s0, s1, s2, s3, s7, s4, s5, s6, sa, sb, s8, s9, sd, se, sf, sc]"
  by (simp_all add: ror_rows_def Let_def set_state_word_def state_word_def write_at_def ROR_bytes
      del: le_word.simps)

lemma xor_words_bytes:
  "length xs = 4 \<Longrightarrow> length ys = 4 \<Longrightarrow>
   le_bytes 4 (le_word xs XOR le_word ys :: u32) = xor_bytes xs ys"
  by (rule nth_equalityI)
    (auto simp: xor_bytes_def nth_le_bytes bit_simps bit_le_word intro!: bit_word_eqI)

lemma xor_key_eq:
  assumes "length st = 16" "16 \<le> length p"
  shows "xor_key p st = xor_bytes st (take 16 p)"
proof -
  have "length (take 16 p) = 16" using assms by simp
  then obtain k0 k1 k2 k3 k4 k5 k6 k7 k8 k9 ka kb kc kd ke kf where
    k: "take 16 p = [k0, k1, k2, k3, k4, k5, k6, k7, k8, k9, ka, kb, kc, kd, ke, kf]"
    using sixteen [of "take 16 p"] by metis
  have w: "take 4 (drop (4 * i) p) = take 4 (drop (4 * i) (take 16 p))" if "i < 4" for i
    using that by (simp add: drop_take min_def)
  have p: "take 4 p = [k0, k1, k2, k3]" "take 4 (drop 4 p) = [k4, k5, k6, k7]"
    "take 4 (drop 8 p) = [k8, k9, ka, kb]" "take 4 (drop 12 p) = [kc, kd, ke, kf]"
    using w [of 0] w [of 1] w [of 2] w [of 3] by (simp_all add: k)
  obtain s0 s1 s2 s3 s4 s5 s6 s7 s8 s9 sa sb sc sd se sf where
    st: "st = [s0, s1, s2, s3, s4, s5, s6, s7, s8, s9, sa, sb, sc, sd, se, sf]"
    using sixteen [OF assms(1)] by blast
  have u: "[0..<4] = [0, 1, 2, 3 :: nat]" by (simp add: upt_rec_numeral upt_conv_Cons)
  show ?thesis unfolding k st
    by (simp add: xor_key_def u AddRoundKey_def set_state_word_def state_word_def write_at_def p
        xor_words_bytes xor_bytes_def del: le_word.simps upt_rec_numeral)
qed

lemma columns_loop_eq:
  "columns_loop f [s0, s1, s2, s3, s4, s5, s6, s7, s8, s9, sa, sb, sc, sd, se, sf]
   = [f s0 s4 s8 sc ! 0, f s1 s5 s9 sd ! 0, f s2 s6 sa se ! 0, f s3 s7 sb sf ! 0,
      f s0 s4 s8 sc ! 1, f s1 s5 s9 sd ! 1, f s2 s6 sa se ! 1, f s3 s7 sb sf ! 1,
      f s0 s4 s8 sc ! 2, f s1 s5 s9 sd ! 2, f s2 s6 sa se ! 2, f s3 s7 sb sf ! 2,
      f s0 s4 s8 sc ! 3, f s1 s5 s9 sd ! 3, f s2 s6 sa se ! 3, f s3 s7 sb sf ! 3]"
proof -
  have u: "[0..<4] = [0, 1, 2, 3 :: nat]" by (simp add: upt_rec_numeral upt_conv_Cons)
  show ?thesis by (simp add: columns_loop_def u Let_def del: upt_rec_numeral)
qed

lemma encrypt_round_eq:
  assumes "length st = 16" "16 \<le> length p"
  shows "encrypt_round p st = xor_bytes (mix_columns (shift_rows (sub_bytes S_enc st))) (take 16 p)"
proof -
  have "MixColumnsx8 (ror_rows 8 16 24 (SubBytes st)) = mix_columns (shift_rows (sub_bytes S_enc st))"
    using sixteen [OF assms(1)]
    by (auto simp: SubBytes_def sub_bytes_def ror_rows_eq MixColumnsx8_def columns_loop_eq
      mix_column_exchange_def shift_rows_def upt_16 mix_columns_eq MixColumnsx8_column_def gmulx2_xtime
      Let_def ac_simps simp del: upt_rec_numeral)
  then show ?thesis using assms by (simp add: encrypt_round_def xor_key_eq)
qed

lemma decrypt_round_eq:
  assumes "length st = 16" "16 \<le> length p"
  shows "decrypt_round p st = xor_bytes (inv_mix_columns (map S_dec (inv_shift_rows st))) (take 16 p)"
proof -
  have "InvMixColumnsx8 (InvSubBytes (ror_rows 24 16 8 (inv_mix_column_exchange st)))
      = inv_mix_columns (map S_dec (inv_shift_rows st))"
    using sixteen [OF assms(1)]
    by (auto simp: InvSubBytes_def ror_rows_eq InvMixColumnsx8_def columns_loop_eq inv_mix_column_exchange_def
      inv_shift_rows_def upt_16 inv_mix_columns_eq InvMixColumnsx8_column_def gmulx2_xtime gf_mul_values
      xtime_xor Let_def ac_simps simp del: upt_rec_numeral)
  then show ?thesis using assms by (simp add: decrypt_round_def xor_key_eq)
qed

lemma last_exchanges:
  assumes "length st = 16"
  shows "mix_column_last_exchange (SubBytes st) = shift_rows (sub_bytes S_enc st)"
    and "inv_mix_column_last_exchange (InvSubBytes st) = map S_dec (inv_shift_rows st)"
  using sixteen [OF assms]
  by (auto simp: mix_column_last_exchange_def inv_mix_column_last_exchange_def SubBytes_def InvSubBytes_def
    sub_bytes_def shift_rows_def inv_shift_rows_def upt_16 simp del: upt_rec_numeral)

end
