(* ===== verification/Aes_Correct.thy ===== *)
theory Aes_Correct imports Aes_Rounds begin

text \<open>
  The key expansion of the reference AES against FIPS 197, the schedule of the equivalent
  inverse cipher, and the two properties of the block functions: \<^verbatim>\<open>encryptBlock\<close> is the cipher
  of the standard, and \<^verbatim>\<open>AesDecrypt\<close> undoes it.
\<close>

unbundle bit_operations_syntax

section \<open>Words of the schedule\<close>

definition word_ok :: "nat \<Rightarrow> u8 list list \<Rightarrow> bool" where
  "word_ok n w \<longleftrightarrow> length w = n \<and> (\<forall>x\<in>set w. length x = 4)"

lemma MakeWord_bytes: "le_bytes 4 (MakeWord a b c d) = [a, b, c, d]"
  by (simp add: le_bytes_4 MakeWord_def) (intro conjI byte_eqI; auto simp: bit_simps dest: bit_imp_le_length)

lemma GetByte_bytes: "i < 4 \<Longrightarrow> GetByte u i = le_bytes 4 u ! i"
proof -
  have "GetByte u i = ucast (drop_bit (i * 8) u AND mask 8)"
    by (simp add: GetByte_def mask_eq_exp_minus_1)
  also have "\<dots> = ucast (drop_bit (8 * i) u)"
    by (rule bit_word_eqI) (simp add: bit_unsigned_iff bit_and_iff bit_mask_iff mult.commute del: mask_numeral)
  finally show "i < 4 \<Longrightarrow> GetByte u i = le_bytes 4 u ! i" by (simp add: nth_le_bytes)
qed

lemma xor_le_bytes: "le_bytes 4 (x XOR y :: u32) = xor_bytes (le_bytes 4 x) (le_bytes 4 y)"
  by (rule nth_equalityI) (simp_all add: xor_bytes_def nth_le_bytes drop_bit_xor unsigned_xor_eq)

lemma four: "length x = 4 \<Longrightarrow> \<exists>a b c d. x = [a, b, c, d]"
  by (auto simp: length_Suc_conv eval_nat_numeral)

lemma sub_rot_word:
  "le_bytes 4 (MakeWord (S_enc (GetByte u 1)) (S_enc (GetByte u 2)) (S_enc (GetByte u 3)) (S_enc (GetByte u 0)))
   = map S_enc (rotate1 (le_bytes 4 u))"
  "le_bytes 4 (MakeWord (S_enc (GetByte u 0)) (S_enc (GetByte u 1)) (S_enc (GetByte u 2)) (S_enc (GetByte u 3)))
   = map S_enc (le_bytes 4 u)"
  by (simp_all add: MakeWord_bytes GetByte_bytes) (simp_all add: le_bytes_4)

lemma round_constants_rcons: "map (le_bytes 4) (take 10 s_round_constants) = map rcon [1..<11]"
  by code_simp

lemma round_constant_rcon: "j < 10 \<Longrightarrow> le_bytes 4 (s_round_constants ! j) = rcon (Suc j)"
proof -
  assume j: "j < 10"
  have "length s_round_constants = 29" by (simp add: s_round_constants_def)
  then have "le_bytes 4 (s_round_constants ! j) = map (le_bytes 4) (take 10 s_round_constants) ! j"
    using j by simp
  also have "\<dots> = rcon (Suc j)" unfolding round_constants_rcons using j by (simp del: upt_rec_numeral)
  finally show ?thesis .
qed

section \<open>The expansion loop\<close>

text \<open>
  After the words below \<open>i\<close>: their bytes are the standard's, and the constant pointer has
  advanced once for each multiple of \<open>nk\<close>.
\<close>

definition expanded :: "nat \<Rightarrow> u8 list list \<Rightarrow> nat \<Rightarrow> u32 list \<times> u32 list \<Rightarrow> bool" where
  "expanded nk W i = (\<lambda>(w, rtbl). length w = 128 \<and> length W = i \<and> map (le_bytes 4) (take i w) = W \<and>
     rtbl = drop ((i - 1) div nk) s_round_constants)"

lemma expand_word_step:
  assumes e: "expanded nk W i (w, rtbl)" and nk: "0 < nk" "nk \<le> i" "i < 128" "i div nk \<le> 10"
  shows "expanded nk (W @ [key_word S_enc nk W i]) (Suc i) (expand_word nk i (w, rtbl))"
proof -
  have w: "length w = 128" "length W = i" "map (le_bytes 4) (take i w) = W"
    and r: "rtbl = drop ((i - 1) div nk) s_round_constants"
    using e by (simp_all add: expanded_def)
  have W: "W ! j = le_bytes 4 (w ! j)" if "j < i" for j
    unfolding w(3) [symmetric] using that w(1) nk by simp
  have i: "i - 1 < i" "i - nk < i" using nk by auto
  have l: "length s_round_constants = 29" by (simp add: s_round_constants_def)
  have c: "(i - 1) div nk = (if i mod nk = 0 then i div nk - 1 else i div nk)"
  proof (cases "i mod nk = 0")
    case True
    then obtain q where q: "i = nk * q" by (metis mod_0_imp_dvd dvdE)
    then obtain q' where q': "q = Suc q'" using nk by (cases q) auto
    then have iq: "i = nk + nk * q'" using q by simp
    have "(i - 1) div nk = q'"
    proof (rule div_nat_eqI)
      show "nk * q' \<le> i - 1" using iq nk by linarith
      show "i - 1 < nk * Suc q'" using iq nk by simp
    qed
    moreover have "i div nk = q" using q nk by simp
    ultimately show ?thesis using True q' by simp
  next
    case False
    have e: "i = nk * (i div nk) + i mod nk" "i mod nk < nk" using nk by simp_all
    have "(i - 1) div nk = i div nk"
    proof (rule div_nat_eqI)
      show "nk * (i div nk) \<le> i - 1" using e False by linarith
      have "nk * Suc (i div nk) = nk + nk * (i div nk)" by simp
      then show "i - 1 < nk * Suc (i div nk)" using e by linarith
    qed
    then show ?thesis using False by simp
  qed
  have pos: "0 < i div nk" using nk by (simp add: div_greater_zero_iff)
  obtain w' rtbl' where ew: "expand_word nk i (w, rtbl) = (w', rtbl')" by fastforce
  have "le_bytes 4 (w' ! i) = key_word S_enc nk W i \<and> w' = w[i := w' ! i] \<and>
      rtbl' = drop (i div nk) s_round_constants"
  proof (cases "i mod nk = 0")
    case True
    have "hd rtbl = s_round_constants ! (i div nk - 1)" "tl rtbl = drop (i div nk) s_round_constants"
      using True c r pos nk l by (simp_all add: hd_drop_conv_nth tl_drop drop_Suc [symmetric])
    moreover have "le_bytes 4 (s_round_constants ! (i div nk - 1)) = rcon (i div nk)"
      using round_constant_rcon [of "i div nk - 1"] pos nk by simp
    ultimately show ?thesis
      using True ew nk w W [OF i(1)] W [OF i(2)]
      by (auto simp: expand_word_def Let_def key_word_def xor_le_bytes sub_rot_word [unfolded One_nat_def])
  next
    case False
    then have "rtbl = drop (i div nk) s_round_constants" using c r by simp
    then show ?thesis
      using False ew nk w W [OF i(1)] W [OF i(2)]
      by (auto simp: expand_word_def Let_def key_word_def xor_le_bytes sub_rot_word [unfolded One_nat_def] split: if_splits)
  qed
  moreover from this have "length w' = 128" "take (Suc i) w' = take i w @ [w' ! i]"
    using w nk take_list_update_Suc [of i w "w' ! i"] by (metis length_list_update)+
  ultimately show ?thesis unfolding ew expanded_def using w by simp
qed

lemma expand_loop:
  assumes "expanded nk W nk s" "0 < nk" "n \<le> 128" "(n - 1) div nk \<le> 10" "nk \<le> n"
  shows "expanded nk (foldl (\<lambda>w i. w @ [key_word S_enc nk w i]) W [nk..<n]) n
           (foldl (\<lambda>s i. expand_word nk i s) s [nk..<n])"
  using assms(3-5)
proof (induction n)
  case 0
  then show ?case using assms(2) by simp
next
  case (Suc n)
  show ?case
  proof (cases "nk = Suc n")
    case True
    then show ?thesis using assms(1) by simp
  next
    case False
    then have n: "nk \<le> n" using Suc.prems by simp
    have "(n - 1) div nk \<le> n div nk" by (intro div_le_mono) simp
    then have "expanded nk (foldl (\<lambda>w i. w @ [key_word S_enc nk w i]) W [nk..<n]) n
           (foldl (\<lambda>s i. expand_word nk i s) s [nk..<n])"
      using Suc n by auto
    then show ?thesis
      using expand_word_step [of nk _ n "fst (foldl (\<lambda>s i. expand_word nk i s) s [nk..<n])"
          "snd (foldl (\<lambda>s i. expand_word nk i s) s [nk..<n])"] assms(2) n Suc.prems
      by simp
  qed
qed

lemma copy_key_words:
  assumes "length enc = 128" "n \<le> 128" "4 * n \<le> length key"
  shows "let e = foldl (\<lambda>w i. w[i := MakeWord (key ! (4 * i)) (key ! (4 * i + 1)) (key ! (4 * i + 2))
                                      (key ! (4 * i + 3))]) enc [0..<n]
         in length e = 128 \<and> map (le_bytes 4) (take n e) = map (\<lambda>i. take 4 (drop (4 * i) key)) [0..<n]"
  using assms(2,3)
proof (induction n)
  case 0
  then show ?case using assms(1) by simp
next
  case (Suc n)
  let ?e = "foldl (\<lambda>w i. w[i := MakeWord (key ! (4 * i)) (key ! (4 * i + 1)) (key ! (4 * i + 2))
                                      (key ! (4 * i + 3))]) enc [0..<n]"
  have "take 4 (drop (4 * n) key) = [key ! (4 * n), key ! (4 * n + 1), key ! (4 * n + 2), key ! (4 * n + 3)]"
    using Suc.prems by (intro nth_equalityI) (auto simp: less_Suc_eq numeral_eq_Suc)
  then show ?case using Suc by (simp add: Let_def take_list_update_Suc MakeWord_bytes)
qed

text \<open>The key lengths and round counts of the parameter table.\<close>

definition aes_params :: "nat \<Rightarrow> nat \<Rightarrow> nat \<Rightarrow> bool" where
  "aes_params len nk nr \<longleftrightarrow> (len, nk, nr) \<in> {(128, 4, 10), (192, 6, 12), (256, 8, 14)}"

lemma expand_enc_expansion:
  assumes "aes_params len nk nr" "length enc = 128" "4 * nk \<le> length key"
  shows "length (expand_enc nk nr key enc) = 128"
    and "map (le_bytes 4) (take (4 * (nr + 1)) (expand_enc nk nr key enc)) = key_expansion S_enc nk nr key"
proof -
  let ?e = "foldl (\<lambda>w i. w[i := MakeWord (key ! (4 * i)) (key ! (4 * i + 1)) (key ! (4 * i + 2))
                                      (key ! (4 * i + 3))]) enc [0..<nk]"
  let ?W = "map (\<lambda>i. take 4 (drop (4 * i) key)) [0..<nk]"
  have p: "0 < nk" "nk \<le> 128" "4 * (nr + 1) \<le> 128" "(4 * (nr + 1) - 1) div nk \<le> 10" "nk \<le> 4 * (nr + 1)"
    using assms(1) by (auto simp: aes_params_def)
  have "length ?e = 128" "map (le_bytes 4) (take nk ?e) = ?W"
    using copy_key_words [OF assms(2) p(2) assms(3)] by (simp_all add: Let_def)
  then have "expanded nk ?W nk (?e, s_round_constants)"
    using p(1) by (simp add: expanded_def)
  from expand_loop [OF this p(1,3,4,5)]
  show "length (expand_enc nk nr key enc) = 128"
    "map (le_bytes 4) (take (4 * (nr + 1)) (expand_enc nk nr key enc)) = key_expansion S_enc nk nr key"
    by (auto simp: expanded_def expand_enc_def key_expansion_def Let_def split: prod.splits)
qed


section \<open>Blocks of a byte array\<close>

definition blk :: "nat \<Rightarrow> u8 list \<Rightarrow> u8 list" where
  "blk r d = take 16 (drop (16 * r) d)"

lemma blk_write_at:
  assumes "length x = 16" "16 * q + 16 \<le> length d"
  shows "blk r (write_at (16 * q) x d) = (if r = q then x else blk r d)"
proof -
  consider "r = q" | "r < q" | "q < r" by linarith
  then show ?thesis
  proof cases
    case 1
    then show ?thesis using assms by (simp add: blk_def write_at_def)
  next
    case 2
    then have "16 * r + 16 \<le> 16 * q" by simp
    then show ?thesis using 2 assms by (simp add: blk_def write_at_def drop_take)
  next
    case 3
    then have "16 * q + 16 \<le> 16 * r" by simp
    then show ?thesis using 3 assms by (simp add: blk_def write_at_def)
  qed
qed

lemma swap_round_keys_blk:
  assumes "16 * j + 16 \<le> length d"
  shows "length (swap_round_keys i j d) = length d \<and>
    (\<forall>r. blk r (swap_round_keys i j d) = (if i \<le> r \<and> r \<le> j then blk (i + j - r) d else blk r d))"
  using assms
proof (induction i j d rule: swap_round_keys.induct)
  case (1 i j d)
  show ?case
  proof (cases "i < j")
    case False
    have "i + j - r = r" if "i \<le> r" "r \<le> j" for r using that False by linarith
    then show ?thesis using False by (simp add: swap_round_keys.simps)
  next
    case True
    have l: "length (blk i d) = 16" "length (blk j d) = 16" using 1(2) True by (simp_all add: blk_def)
    define d1 where "d1 = write_at (16 * i) (blk j d) d"
    define d2 where "d2 = write_at (16 * j) (blk i d) d1"
    have d: "length d1 = length d" "length d2 = length d"
      using 1(2) True l by (simp_all add: d1_def d2_def)
    have b: "blk r d2 = (if r = j then blk i d else if r = i then blk j d else blk r d)" for r
      using 1(2) True l d by (simp add: d1_def d2_def blk_write_at)
    have s: "swap_round_keys i j d = swap_round_keys (i + 1) (j - 1) d2"
      using True by (subst swap_round_keys.simps) (simp add: Let_def d1_def d2_def blk_def)
    have IH: "length (swap_round_keys (i + 1) (j - 1) d2) = length d2 \<and>
      (\<forall>r. blk r (swap_round_keys (i + 1) (j - 1) d2)
        = (if i + 1 \<le> r \<and> r \<le> j - 1 then blk (i + 1 + (j - 1) - r) d2 else blk r d2))"
      using 1(1) [OF True refl refl refl] True 1(2) d unfolding d1_def d2_def blk_def by simp
    then show ?thesis using True d unfolding s by (auto simp: b)
  qed
qed

lemma length_concat_const: "(\<And>x. x \<in> set xs \<Longrightarrow> length x = n) \<Longrightarrow> length (concat xs) = n * length xs"
  by (induction xs) simp_all

lemma write_words_loop:
  assumes "\<And>i. i < n \<Longrightarrow> length (f i) = 4" "4 * n \<le> length d" "k \<le> n"
  shows "foldl (\<lambda>d i. write_at (4 * i) (f i) d) d [k..<n]
         = take (4 * k) d @ concat (map f [k..<n]) @ drop (4 * n) d"
  using assms(3,1,2)
proof (induction n rule: dec_induct)
  case base
  then show ?case by simp
next
  case (step m)
  let ?x = "take (4 * k) d @ concat (map f [k..<m]) @ drop (4 * m) d"
  have "length x = 4" if "x \<in> set (map f [k..<m])" for x using that step.prems(1) by auto
  then have l: "length (concat (map f [k..<m])) = 4 * (m - k)"
    using length_concat_const [of "map f [k..<m]" 4] by (simp only: length_map length_upt)
  have km: "4 * k + 4 * (m - k) = 4 * m" using step by simp
  have "write_at (4 * m) (f m) ?x = take (4 * k) d @ concat (map f [k..<Suc m]) @ drop (4 * Suc m) d"
    using step l by (simp add: write_at_def km add.commute)
  then show ?case using step by simp
qed


section \<open>The round keys in the object\<close>

definition aes_round_key :: "nat \<Rightarrow> nat \<Rightarrow> u8 list \<Rightarrow> nat \<Rightarrow> u8 list" where
  "aes_round_key nk nr key r = round_key (key_expansion S_enc nk nr key) r"

text \<open>The object after \<open>setKey\<close>: the schedule, and the reversed schedule of the inverse cipher.\<close>

definition keyed :: "nat \<Rightarrow> nat \<Rightarrow> u8 list \<Rightarrow> rijndael \<Rightarrow> bool" where
  "keyed nk nr key s \<longleftrightarrow> m_nrounds s = nr \<and> m_key_size s = 4 * nk \<and>
     length (m_round_key_enc s) = 512 \<and> length (m_round_key_dec s) = 512 \<and>
     (\<forall>r\<le>nr. blk r (m_round_key_enc s) = aes_round_key nk nr key r \<and>
        blk r (m_round_key_dec s) =
          (if r = 0 then aes_round_key nk nr key nr else if r = nr then aes_round_key nk nr key 0
           else inv_mix_columns (aes_round_key nk nr key (nr - r))))"

lemma take_drop_concat_words:
  "take (4 * k) (concat (map (le_bytes 4) v)) = concat (map (le_bytes 4) (take k v))"
  "drop (4 * k) (concat (map (le_bytes 4) v)) = concat (map (le_bytes 4) (drop k (v :: u32 list)))"
proof (induction v arbitrary: k)
  case (Cons a v)
  { case 1 then show ?case using Cons by (cases k) simp_all
  next
    case 2 then show ?case using Cons by (cases k) simp_all
  }
qed simp_all

lemma blk_concat_words:
  "blk r (concat (map (le_bytes 4) w)) = concat (map (le_bytes 4) (take 4 (drop (4 * r) (w :: u32 list))))"
  using take_drop_concat_words(2) [of "4 * r" w] take_drop_concat_words(1) [of 4] by (simp add: blk_def)

lemma le_word_bitwise:
  assumes "length xs = length ys"
  shows "le_word xs XOR le_word ys = (le_word (map2 (XOR) xs ys) :: 'a::len word)"
    and "le_word xs AND le_word ys = (le_word (map2 (AND) xs ys) :: 'a word)"
  using assms by (auto simp: bit_le_word bit_simps intro!: bit_word_eqI)

lemma word_is_bytes: "\<exists>a b c d. (w :: u32) = le_word [a, b, c, d]"
proof -
  have "le_word (le_bytes 4 w) = w" by (rule le_word_le_bytes) simp
  then show ?thesis using four [of "le_bytes 4 w"] by fastforce
qed

lemma less_32_cases:
  "pos < (32 :: nat) \<Longrightarrow> pos = 0 \<or> pos = 1 \<or> pos = 2 \<or> pos = 3 \<or> pos = 4 \<or> pos = 5 \<or> pos = 6 \<or> pos = 7 \<or>
     pos = 8 \<or> pos = 9 \<or> pos = 10 \<or> pos = 11 \<or> pos = 12 \<or> pos = 13 \<or> pos = 14 \<or> pos = 15 \<or> pos = 16 \<or> pos = 17 \<or>
     pos = 18 \<or> pos = 19 \<or> pos = 20 \<or> pos = 21 \<or> pos = 22 \<or> pos = 23 \<or> pos = 24 \<or> pos = 25 \<or> pos = 26 \<or> pos = 27 \<or>
     pos = 28 \<or> pos = 29 \<or> pos = 30 \<or> pos = 31"
  by (auto simp: numeral_eq_Suc less_Suc_eq)

lemma double_bytes:
  "push_bit 1 (le_word [a, b, c, d]) AND (0xfefefefe :: u32)
   = le_word [push_bit 1 a, push_bit 1 b, push_bit 1 c, push_bit 1 d]"
proof (rule bit_word_eqI)
  define p where "p = (\<lambda>x :: u8. push_bit 1 x)"
  have p: "bit (p x) k \<longleftrightarrow> k < 8 \<and> 0 < k \<and> bit x (k - 1)" for x k
    by (simp only: p_def bit_push_bit_iff) auto
  fix n assume "n < LENGTH(32)"
  then have n: "n < 32" by simp
  have "bit (push_bit 1 (le_word [a, b, c, d]) AND (0xfefefefe :: u32)) n \<longleftrightarrow>
      bit (0xfefefefe :: int) n \<and> 0 < n \<and> n < 32 \<and> bit (le_word [a, b, c, d] :: u32) (n - 1)"
    by (simp only: bit_and_iff bit_push_bit_iff bit_numeral_word_iff) auto
  then show "bit (push_bit 1 (le_word [a, b, c, d]) AND (0xfefefefe :: u32)) n
      = bit (le_word [push_bit 1 a, push_bit 1 b, push_bit 1 c, push_bit 1 d] :: u32) n"
    unfolding p_def [symmetric, THEN fun_cong] using less_32_cases [OF n]
    by (elim disjE) (simp_all add: bit_le_word p del: le_word.simps)
qed

lemma top_bit: "x AND 0x80 = (if bit x 7 then 0x80 else 0 :: u8)"
  by (cases "bit x 7") (rule byte_eqI; simp add: bit_and_iff)+

lemma reduce_bytes:
  "(push_bit 1 (le_word [a, b, c, d] AND 0x80808080) - drop_bit 7 (le_word [a, b, c, d] AND 0x80808080))
     AND (0x1b1b1b1b :: u32)
   = le_word (map (\<lambda>x. if bit x 7 then 0x1b else 0) [a, b, c, d])"
proof -
  have e: "(0x80808080 :: u32) = le_word [0x80, 0x80, 0x80, 0x80]" by simp
  have "le_word [a, b, c, d] AND (0x80808080 :: u32)
      = le_word (map (\<lambda>x. if bit x 7 then 0x80 else 0) [a, b, c, d])"
    unfolding e by (simp add: le_word_bitwise top_bit del: le_word.simps)
  then show ?thesis
    by (simp only: list.map) (cases "bit a 7"; cases "bit b 7"; cases "bit c 7"; cases "bit d 7"; simp)
qed

lemma gmulx2_32_bytes:
  "gmulx2_32 (le_word [a, b, c, d]) = le_word [xtime a, xtime b, xtime c, xtime d]"
proof -
  have "v + v = push_bit 1 v" for v :: u32 by (simp add: push_bit_eq_mult)
  then show ?thesis
    unfolding gmulx2_32_def
    by (simp only: double_bytes reduce_bytes) (simp add: le_word_bitwise xtime_def del: le_word.simps)
qed

lemma ROR_words:
  "ROR (le_word [a, b, c, d]) 8 = le_word [b, c, d, a]"
  "ROR (le_word [a, b, c, d]) 16 = le_word [c, d, a, b]"
  "ROR (le_word [a, b, c, d]) 24 = le_word [d, a, b, c]"
proof -
  have l: "le_word (le_bytes 4 w) = w" for w :: u32 by (rule le_word_le_bytes) simp
  show "ROR (le_word [a, b, c, d]) 8 = le_word [b, c, d, a]"
    "ROR (le_word [a, b, c, d]) 16 = le_word [c, d, a, b]"
    "ROR (le_word [a, b, c, d]) 24 = le_word [d, a, b, c]"
    using l [of "ROR (le_word [a, b, c, d]) 8"] l [of "ROR (le_word [a, b, c, d]) 16"]
      l [of "ROR (le_word [a, b, c, d]) 24"] by (simp_all only: ROR_bytes)
qed

lemma InvMixColumns_bytes:
  "le_bytes 4 (InvMixColumns (le_word [a, b, c, d]))
   = (let f = (\<lambda>a b c d. gf_mul 0x0e a XOR gf_mul 0x0b b XOR gf_mul 0x0d c XOR gf_mul 0x09 d)
      in [f a b c d, f b c d a, f c d a b, f d a b c])"
proof -
  have r: "drop_bit 8 v OR push_bit 24 v = ROR v 8" "drop_bit 16 v OR push_bit 16 v = ROR v 16"
    "drop_bit 24 v OR push_bit 8 v = ROR v 24" for v
    by (simp_all add: ROR_def)
  have "InvMixColumns (le_word [a, b, c, d]) = le_word
      (let f = (\<lambda>a b c d. gf_mul 0x0e a XOR gf_mul 0x0b b XOR gf_mul 0x0d c XOR gf_mul 0x09 d)
      in [f a b c d, f b c d a, f c d a b, f d a b c])"
    unfolding InvMixColumns_def Let_def r gf_mul_values
    by (simp add: gmulx2_32_bytes le_word_bitwise ROR_words ac_simps del: le_word.simps)
  then show ?thesis by (simp add: Let_def le_bytes_4_le_word del: le_word.simps)
qed

lemma inv_mix_columns_words:
  assumes "length ws = 4"
  shows "concat (map (\<lambda>w. le_bytes 4 (InvMixColumns w)) ws) = inv_mix_columns (concat (map (le_bytes 4) ws))"
proof -
  obtain w0 w1 w2 w3 where ws: "ws = [w0, w1, w2, w3]"
    using assms by (auto simp: length_Suc_conv eval_nat_numeral)
  show ?thesis unfolding ws
    using word_is_bytes [of w0] word_is_bytes [of w1] word_is_bytes [of w2] word_is_bytes [of w3]
    by (auto simp: InvMixColumns_bytes le_bytes_4_le_word inv_mix_columns_eq Let_def simp del: le_word.simps)
qed

lemma setKey_keyed:
  assumes p: "aes_params len nk nr" and k: "length key = 4 * nk"
    and s: "length (m_round_key_enc s) = 512" "length (m_round_key_dec s) = 512"
  shows "\<exists>s'. Rijndael_setKey (Some key) len s = Some s' \<and> keyed nk nr key s'"
proof -
  define W where "W = key_expansion S_enc nk nr key"
  define e where "e = expand_enc nk nr key (le_words 4 128 (m_round_key_enc s))"
  have e: "length e = 128" "map (le_bytes 4) (take (4 * (nr + 1)) e) = W"
    using expand_enc_expansion [OF p _ eq_refl, of "le_words 4 128 (m_round_key_enc s)" key] k
    by (simp_all add: e_def W_def)
  have n: "4 * (nr + 1) \<le> 128" "0 < nr" "len div 8 = 4 * nk" "4 * nk * 8 \<le> 512" "16 \<le> 4 * nk * 8"
    using p by (auto simp: aes_params_def)
  define enc where "enc = concat (map (le_bytes 4) e)"
  have encl: "length enc = 512" using e(1) by (simp add: enc_def)
  have rk: "blk r enc = aes_round_key nk nr key r" if "r \<le> nr" for r
  proof -
    have "map (le_bytes 4) (take 4 (drop (4 * r) e)) = take 4 (drop (4 * r) W)"
      using that by (simp add: e(2) [symmetric] take_map drop_map drop_take min_def)
    then show ?thesis
      using that n e(1) by (simp add: enc_def blk_concat_words aes_round_key_def round_key_def W_def)
  qed
  define d0 where "d0 = write_at 0 (take (4 * nk * 8) enc) (m_round_key_dec s)"
  define d1 where "d1 = foldl (\<lambda>d i. write_at (4 * i) (le_bytes 4 (InvMixColumns (e ! i))) d) d0 [4..<4 * (nr + 1)]"
  have d0: "length d0 = 512" "take 16 d0 = take 16 enc"
    using n s encl by (simp_all add: d0_def write_at_def min_def)
  have d1e: "d1 = take 16 d0 @ concat (map (\<lambda>i. le_bytes 4 (InvMixColumns (e ! i))) [4..<4 * (nr + 1)]) @ drop (16 * (nr + 1)) d0"
    using write_words_loop [of "4 * (nr + 1)" "\<lambda>i. le_bytes 4 (InvMixColumns (e ! i))" d0 4] n d0 d1_def by simp
  define v where "v = take 4 e @ map InvMixColumns (take (4 * nr) (drop 4 e))"
  have v: "length v = 4 * (nr + 1)" using e(1) n by (simp add: v_def)
  have "map (\<lambda>i. le_bytes 4 (InvMixColumns (e ! i))) [4..<4 * (nr + 1)]
      = map (le_bytes 4) (map InvMixColumns (take (4 * nr) (drop 4 e)))"
    using e(1) n by (intro nth_equalityI) (simp_all add: min_def)
  moreover have "take 16 enc = concat (map (le_bytes 4) (take 4 e))"
    using take_drop_concat_words(1) [of 4 e] by (simp add: enc_def)
  ultimately have d1: "d1 = concat (map (le_bytes 4) v) @ drop (16 * (nr + 1)) d0"
    by (simp add: d1e d0(2) v_def)
  have d1l: "length d1 = 512" using v n d0 by (simp add: d1)
  have d1b: "blk r d1 = (if r = 0 then aes_round_key nk nr key 0 else inv_mix_columns (aes_round_key nk nr key r))"
    if r: "r \<le> nr" for r
  proof -
    have "blk r d1 = concat (map (le_bytes 4) (take 4 (drop (4 * r) v)))"
      unfolding blk_concat_words [symmetric] using v r by (simp add: d1 blk_def)
    also have "take 4 (drop (4 * r) v)
        = (if r = 0 then take 4 e else map InvMixColumns (take 4 (drop (4 * r) e)))"
    proof (cases r)
      case 0
      then show ?thesis using e(1) n by (simp add: v_def)
    next
      case (Suc r')
      then show ?thesis using e(1) n r by (simp add: v_def take_map drop_map drop_take min_def add.commute)
    qed
    also have "concat (map (le_bytes 4) \<dots>)
        = (if r = 0 then aes_round_key nk nr key 0 else inv_mix_columns (aes_round_key nk nr key r))"
      using rk [OF r] r n e(1) inv_mix_columns_words [of "take 4 (drop (4 * r) e)"]
      by (auto simp: enc_def blk_concat_words comp_def)
    finally show ?thesis .
  qed
  define d2 where "d2 = swap_round_keys 0 nr d1"
  have d2: "length d2 = 512" "blk r d2 = (if r \<le> nr then blk (nr - r) d1 else blk r d1)" for r
    using swap_round_keys_blk [of nr d1 0] n d1l by (auto simp: d2_def)
  define d3 where "d3 = write_at 0 (take 16 (drop (16 * nr) enc)) d2"
  have d3: "length d3 = 512" "blk r d3 = (if r = 0 then blk nr enc else blk r d2)" for r
    using blk_write_at [of "take 16 (drop (16 * nr) enc)" 0 d2 r] n encl d2 by (simp_all add: d3_def blk_def)
  let ?s = "s\<lparr>m_block_size := BitsToBlockSize len, m_nrounds := nr, m_key_size := 4 * nk,
      m_round_key_enc := enc, m_round_key_dec := d3\<rparr>"
  obtain prm where prm: "ParamsMap (BitsToBlockSize len) = Some prm" "Nr prm = nr"
    using p by (auto simp: aes_params_def ParamsMap_def BitsToBlockSize_def)
  have "expandKeys (Some key) (s\<lparr>m_block_size := BitsToBlockSize len, m_nrounds := nr, m_key_size := 4 * nk\<rparr>) = ?s"
    unfolding d3_def d2_def d1_def enc_def e_def d0_def by (simp add: expandKeys_def Let_def)
  then have "Rijndael_setKey (Some key) len s = Some ?s"
    by (simp add: Rijndael_setKey_def prm n(3))
  moreover have "keyed nk nr key ?s"
    using n d3 d2 d1b encl rk by (auto simp: keyed_def)
  ultimately show ?thesis by blast
qed

section \<open>Encryption\<close>

lemma encrypt_rounds_eq:
  assumes "16 * (a + n) \<le> length pk" "length st = 16"
  shows "encrypt_rounds n (drop (16 * a) pk) st = (drop (16 * (a + n)) pk,
    foldl (\<lambda>st r. xor_bytes (mix_columns (shift_rows (sub_bytes S_enc st))) (blk r pk)) st [a..<a + n])
    \<and> length (foldl (\<lambda>st r. xor_bytes (mix_columns (shift_rows (sub_bytes S_enc st))) (blk r pk)) st [a..<a + n]) = 16"
  using assms
proof (induction n arbitrary: a st)
  case 0
  then show ?case by simp
next
  case (Suc n)
  let ?st = "xor_bytes (mix_columns (shift_rows (sub_bytes S_enc st))) (blk a pk)"
  have r: "encrypt_round (drop (16 * a) pk) st = ?st"
    using Suc.prems by (simp add: encrypt_round_eq blk_def)
  have "length ?st = 16" using Suc.prems by (simp add: blk_def)
  then have ih: "encrypt_rounds n (drop (16 * Suc a) pk) ?st = (drop (16 * (Suc a + n)) pk,
    foldl (\<lambda>st r. xor_bytes (mix_columns (shift_rows (sub_bytes S_enc st))) (blk r pk)) ?st [Suc a..<Suc a + n])
    \<and> length (foldl (\<lambda>st r. xor_bytes (mix_columns (shift_rows (sub_bytes S_enc st))) (blk r pk)) ?st [Suc a..<Suc a + n]) = 16"
    using Suc.prems by (intro Suc.IH) simp_all
  have s: "encrypt_rounds (Suc n) (drop (16 * a) pk) st = encrypt_rounds n (drop (16 * Suc a) pk) ?st"
    by (simp add: r add.commute)
  have u: "[a..<a + Suc n] = a # [Suc a..<Suc a + n]" "a + Suc n = Suc a + n"
    by (simp_all add: upt_conv_Cons del: upt_Suc)
  show ?case unfolding s u(1) unfolding u(2) foldl_Cons by (rule ih)
qed

lemma decrypt_rounds_eq:
  assumes "16 * (a + n) \<le> length pk" "length st = 16"
  shows "decrypt_rounds n (drop (16 * a) pk) st = (drop (16 * (a + n)) pk,
    foldl (\<lambda>st r. xor_bytes (inv_mix_columns (map S_dec (inv_shift_rows st))) (blk r pk)) st [a..<a + n])
    \<and> length (foldl (\<lambda>st r. xor_bytes (inv_mix_columns (map S_dec (inv_shift_rows st))) (blk r pk)) st [a..<a + n]) = 16"
  using assms
proof (induction n arbitrary: a st)
  case 0
  then show ?case by simp
next
  case (Suc n)
  let ?st = "xor_bytes (inv_mix_columns (map S_dec (inv_shift_rows st))) (blk a pk)"
  have r: "decrypt_round (drop (16 * a) pk) st = ?st"
    using Suc.prems by (simp add: decrypt_round_eq blk_def)
  have "length ?st = 16" using Suc.prems by (simp add: blk_def)
  then have ih: "decrypt_rounds n (drop (16 * Suc a) pk) ?st = (drop (16 * (Suc a + n)) pk,
    foldl (\<lambda>st r. xor_bytes (inv_mix_columns (map S_dec (inv_shift_rows st))) (blk r pk)) ?st [Suc a..<Suc a + n])
    \<and> length (foldl (\<lambda>st r. xor_bytes (inv_mix_columns (map S_dec (inv_shift_rows st))) (blk r pk)) ?st [Suc a..<Suc a + n]) = 16"
    using Suc.prems by (intro Suc.IH) simp_all
  have s: "decrypt_rounds (Suc n) (drop (16 * a) pk) st = decrypt_rounds n (drop (16 * Suc a) pk) ?st"
    by (simp add: r add.commute)
  have u: "[a..<a + Suc n] = a # [Suc a..<Suc a + n]" "a + Suc n = Suc a + n"
    by (simp_all add: upt_conv_Cons del: upt_Suc)
  show ?case unfolding s u(1) unfolding u(2) foldl_Cons by (rule ih)
qed


lemma encryptBlock_cipher:
  assumes k: "keyed nk nr key s" and nr: "0 < nr" "16 * nr + 16 \<le> 512" and b: "length blk0 = 16"
  shows "Rijndael_encryptBlock blk0 (m_round_key_enc s) nr = aes_cipher S_enc nr (key_expansion S_enc nk nr key) blk0"
proof -
  let ?pk = "m_round_key_enc s" and ?W = "key_expansion S_enc nk nr key"
  have l: "length ?pk = 512" and rk: "blk r ?pk = round_key ?W r" if "r \<le> nr" for r
    using k that by (simp_all add: keyed_def aes_round_key_def)
  have l: "length ?pk = 512" using k by (simp add: keyed_def)
  have lb: "length (blk r ?pk) = 16" if "r \<le> nr" for r
    using that nr l by (simp add: blk_def)
  let ?f = "\<lambda>st r. xor_bytes (mix_columns (shift_rows (sub_bytes S_enc st))) (blk r ?pk)"
  define st0 where "st0 = xor_bytes blk0 (blk 0 ?pk)"
  have st0: "length st0 = 16" "xor_key ?pk blk0 = st0"
    using b l lb [of 0] by (simp_all add: st0_def xor_key_eq blk_def)
  have R: "encrypt_rounds (nr - 1) (drop 16 ?pk) st0 = (drop (16 * nr) ?pk, foldl ?f st0 [1..<nr])"
    "length (foldl ?f st0 [1..<nr]) = 16"
    using encrypt_rounds_eq [of 1 "nr - 1" ?pk st0] nr l st0 by (simp_all del: upt_Suc)
  have "foldl ?f st0 [1..<nr] = foldl (\<lambda>st r. xor_bytes (mix_columns (shift_rows (sub_bytes S_enc st))) (round_key ?W r)) st0 [1..<nr]"
    using rk by (intro foldl_cong) simp_all
  moreover have "xor_key (drop (16 * nr) ?pk) x = xor_bytes x (blk nr ?pk)" if "length x = 16" for x
    using that nr l by (simp add: xor_key_eq blk_def)
  ultimately show ?thesis
    using st0 R nr rk [of 0] rk [of nr]
    by (simp add: Rijndael_encryptBlock_def encryptBlockKernel_def Let_def last_exchanges aes_cipher_def st0_def)
qed

section \<open>Decryption\<close>

lemma inv_sub_shift:
  "length st = 16 \<Longrightarrow> map S_dec (inv_shift_rows (shift_rows (sub_bytes S_enc st))) = st"
  by (simp add: inv_shift_rows_shift_rows sub_bytes_def comp_def)

text \<open>
  The state after \<open>r\<close> rounds of decryption is the state that the round \<open>nr - r\<close> of encryption
  had before its key was added.
\<close>

lemma decrypt_undoes:
  assumes K: "\<And>r. r \<le> nr \<Longrightarrow> length (K r) = 16" and nr: "0 < nr" and st0: "length st0 = 16"
    and E: "\<And>r. E r = foldl (\<lambda>st r. xor_bytes (mix_columns (shift_rows (sub_bytes S_enc st))) (K r)) st0 [1..<Suc r]"
  shows "r < nr \<Longrightarrow>
    foldl (\<lambda>st r. xor_bytes (inv_mix_columns (map S_dec (inv_shift_rows st))) (inv_mix_columns (K (nr - r))))
      (shift_rows (sub_bytes S_enc (E (nr - 1)))) [1..<Suc r]
    = shift_rows (sub_bytes S_enc (E (nr - 1 - r)))"
proof (induction r)
  case 0
  then show ?case by simp
next
  case (Suc r)
  have l: "length (E i) = 16" if "i \<le> nr" for i
    using that K by (induction i) (simp_all add: E st0)
  define i where "i = nr - 1 - Suc r"
  have i: "nr - 1 - r = Suc i" "nr - Suc r = Suc i" "Suc i \<le> nr" using Suc.prems by (simp_all add: i_def)
  have e: "E (Suc i) = xor_bytes (mix_columns (shift_rows (sub_bytes S_enc (E i)))) (K (Suc i))"
    by (simp add: E)
  have "inv_mix_columns (E (Suc i))
      = xor_bytes (shift_rows (sub_bytes S_enc (E i))) (inv_mix_columns (K (Suc i)))"
    using K i by (simp add: e inv_mix_columns_xor inv_mix_columns_mix_columns)
  then have "xor_bytes (inv_mix_columns (map S_dec (inv_shift_rows (shift_rows (sub_bytes S_enc (E (Suc i)))))))
      (inv_mix_columns (K (Suc i))) = shift_rows (sub_bytes S_enc (E i))"
    using l [OF i(3)] by (simp add: inv_sub_shift xor_bytes_self)
  moreover have "[1..<Suc (Suc r)] = [1..<Suc r] @ [Suc r]" by simp
  ultimately show ?case using Suc i by (simp only: foldl_append foldl_Cons foldl_Nil i_def [symmetric])
qed

lemma AesDecrypt_encryptBlock:
  assumes k: "keyed nk nr key s" and nr: "0 < nr" "16 * nr + 16 \<le> 512" and b: "length blk0 = 16"
  shows "AesDecrypt (Rijndael_encryptBlock blk0 (m_round_key_enc s) nr) (m_round_key_dec s) nr = blk0"
proof -
  let ?pk = "m_round_key_dec s"
  define K where "K = aes_round_key nk nr key"
  define st0 where "st0 = xor_bytes blk0 (K 0)"
  define E where "E r = foldl (\<lambda>st r. xor_bytes (mix_columns (shift_rows (sub_bytes S_enc st))) (K r)) st0 [1..<Suc r]" for r
  have l: "length ?pk = 512" "length (m_round_key_enc s) = 512" using k by (simp_all add: keyed_def)
  have K: "blk r (m_round_key_enc s) = K r" if "r \<le> nr" for r using k that by (simp add: keyed_def K_def)
  have Kl: "length (K r) = 16" if "r \<le> nr" for r
    using that nr l K [OF that, symmetric] by (simp add: blk_def)
  have D: "blk r ?pk = (if r = 0 then K nr else if r = nr then K 0 else inv_mix_columns (K (nr - r)))"
    if "r \<le> nr" for r using k that by (simp add: keyed_def K_def)
  have st0: "length st0 = 16" using b Kl [of 0] by (simp add: st0_def)
  have El: "length (E r) = 16" if "r \<le> nr" for r
    using that Kl by (induction r) (simp_all add: E_def st0)
  have enc: "Rijndael_encryptBlock blk0 (m_round_key_enc s) nr = xor_bytes (shift_rows (sub_bytes S_enc (E (nr - 1)))) (K nr)"
    unfolding encryptBlock_cipher [OF assms] aes_cipher_def Let_def
    using nr by (simp add: E_def st0_def K_def aes_round_key_def)
  let ?c = "xor_bytes (shift_rows (sub_bytes S_enc (E (nr - 1)))) (K nr)"
  let ?d0 = "shift_rows (sub_bytes S_enc (E (nr - 1)))"
  have c: "length ?c = 16" using Kl by simp
  have x0: "xor_key ?pk ?c = ?d0"
    using c l D [of 0] Kl [of nr] by (simp add: xor_key_eq blk_def xor_bytes_self)
  let ?f = "\<lambda>st r. xor_bytes (inv_mix_columns (map S_dec (inv_shift_rows st))) (blk r ?pk)"
  have R: "decrypt_rounds (nr - 1) (drop 16 ?pk) ?d0 = (drop (16 * nr) ?pk, foldl ?f ?d0 [1..<nr])"
    "length (foldl ?f ?d0 [1..<nr]) = 16"
    using decrypt_rounds_eq [of 1 "nr - 1" ?pk ?d0] nr l by (simp_all del: upt_Suc)
  have "foldl ?f ?d0 [1..<nr]
      = foldl (\<lambda>st r. xor_bytes (inv_mix_columns (map S_dec (inv_shift_rows st))) (inv_mix_columns (K (nr - r)))) ?d0 [1..<nr]"
    using D by (intro foldl_cong) auto
  also have "\<dots> = shift_rows (sub_bytes S_enc (E 0))"
    using decrypt_undoes [OF Kl nr(1) st0 E_def, of "nr - 1"] nr by simp
  finally have F: "foldl ?f ?d0 [1..<nr] = shift_rows (sub_bytes S_enc st0)" by (simp add: E_def)
  have "xor_key (drop (16 * nr) ?pk) st0 = blk0"
    using st0 l nr b D [of nr] Kl [of 0] by (simp add: xor_key_eq blk_def st0_def xor_bytes_self)
  then show ?thesis
    unfolding AesDecrypt_def enc x0 Let_def R(1) F using st0 by (simp add: last_exchanges inv_sub_shift)
qed


text \<open>The first round key is the beginning of the key.\<close>

lemma take_foldl_append:
  "k \<le> length w \<Longrightarrow> take k (foldl (\<lambda>w i. w @ [f w i]) w xs) = take k w"
  by (induction xs arbitrary: w) simp_all

lemma first_round_key:
  assumes "4 \<le> nk"
  shows "round_key (key_expansion S nk nr key) 0 = take 16 key"
proof -
  have "take 4 (map (\<lambda>i. take 4 (drop (4 * i) key)) [0..<nk]) = map (\<lambda>i. take 4 (drop (4 * i) key)) [0, 1, 2, 3]"
    using assms by (intro nth_equalityI) (auto simp: less_Suc_eq numeral_eq_Suc)
  moreover have "take 16 key = take 4 key @ take 4 (drop 4 key) @ take 4 (drop 8 key) @ take 4 (drop 12 key)"
    using take_add [of 4 12 key] take_add [of 4 8 "drop 4 key"] take_add [of 4 4 "drop 8 key"] by simp
  ultimately show ?thesis
    using assms by (simp add: round_key_def key_expansion_def take_foldl_append)
qed

section \<open>Properties\<close>

text \<open>C10:
  The S-box of the code is the S-box of FIPS 197: for every byte it is the affine map of the
  inverse in the field (zero for zero), and the inverse table undoes it.
\<close>

theorem GetSbox_is_fips: "is_sbox S_enc \<and> (\<forall>x. GetSbox (GetSbox x False) True = x)"
  using GetSbox_is_sbox S_dec_S_enc by blast

text \<open>C11:
  For every key of 128, 192 or 256 bits and every block, \<open>setKey\<close> followed by \<open>encryptBlock\<close>
  is the cipher of FIPS 197 under the key expansion of FIPS 197, whatever round keys the
  object held before.
\<close>

theorem Rijndael_encrypts:
  assumes "(len, nk, nr) \<in> {(128, 4, 10 :: nat), (192, 6, 12), (256, 8, 14)}" "length key = 4 * nk"
    "length (m_round_key_enc s) = 512" "length (m_round_key_dec s) = 512" "length blk0 = 16"
  shows "\<exists>s'. Rijndael_setKey (Some key) len s = Some s' \<and> getNr s' = nr \<and> getNk s' = nk \<and>
     Rijndael_encryptBlock blk0 (m_round_key_enc s') (getNr s')
       = aes_cipher S_enc nr (key_expansion S_enc nk nr key) blk0"
proof -
  have p: "aes_params len nk nr" using assms(1) by (simp add: aes_params_def)
  then have nr: "0 < nr" "16 * nr + 16 \<le> 512" by (auto simp: aes_params_def)
  obtain s' where "Rijndael_setKey (Some key) len s = Some s'" and k: "keyed nk nr key s'"
    using setKey_keyed [OF p assms(2-4)] by blast
  moreover have "getNr s' = nr" "getNk s' = nk" using k by (simp_all add: keyed_def getNr_def getNk_def)
  ultimately show ?thesis using encryptBlock_cipher [OF k nr assms(5)] by auto
qed

text \<open>The example of FIPS 197, appendix B, through the specification.\<close>

theorem Rijndael_encrypts_witness:
  "\<exists>s'. Rijndael_setKey (Some [0x2b, 0x7e, 0x15, 0x16, 0x28, 0xae, 0xd2, 0xa6, 0xab, 0xf7, 0x15, 0x88,
         0x09, 0xcf, 0x4f, 0x3c]) 128 Rijndael_ctor = Some s' \<and>
     Rijndael_encryptBlock [0x32, 0x43, 0xf6, 0xa8, 0x88, 0x5a, 0x30, 0x8d, 0x31, 0x31, 0x98, 0xa2,
         0xe0, 0x37, 0x07, 0x34] (m_round_key_enc s') 10
       = aes_cipher S_enc 10 (key_expansion S_enc 4 10 [0x2b, 0x7e, 0x15, 0x16, 0x28, 0xae, 0xd2, 0xa6,
         0xab, 0xf7, 0x15, 0x88, 0x09, 0xcf, 0x4f, 0x3c])
         [0x32, 0x43, 0xf6, 0xa8, 0x88, 0x5a, 0x30, 0x8d, 0x31, 0x31, 0x98, 0xa2, 0xe0, 0x37, 0x07, 0x34]"
  using Rijndael_encrypts [of 128 4 10 "[0x2b, 0x7e, 0x15, 0x16, 0x28, 0xae, 0xd2, 0xa6, 0xab, 0xf7, 0x15, 0x88,
         0x09, 0xcf, 0x4f, 0x3c]" Rijndael_ctor "[0x32, 0x43, 0xf6, 0xa8, 0x88, 0x5a, 0x30, 0x8d, 0x31, 0x31, 0x98, 0xa2,
         0xe0, 0x37, 0x07, 0x34]"]
  by (auto simp: Rijndael_ctor_def)

text \<open>C12:
  For every key of 128, 192 or 256 bits, \<open>AesDecrypt\<close> with the object's decryption keys undoes
  \<open>encryptBlock\<close> with its encryption keys.
\<close>

theorem AesDecrypt_inverts:
  assumes "(len, nk, nr) \<in> {(128, 4, 10 :: nat), (192, 6, 12), (256, 8, 14)}" "length key = 4 * nk"
    "length (m_round_key_enc s) = 512" "length (m_round_key_dec s) = 512" "length blk0 = 16"
    "Rijndael_setKey (Some key) len s = Some s'"
  shows "AesDecrypt (Rijndael_encryptBlock blk0 (m_round_key_enc s') (m_nrounds s'))
           (m_round_key_dec s') (m_nrounds s') = blk0"
proof -
  have p: "aes_params len nk nr" using assms(1) by (simp add: aes_params_def)
  then have nr: "0 < nr" "16 * nr + 16 \<le> 512" by (auto simp: aes_params_def)
  have k: "keyed nk nr key s'" using setKey_keyed [OF p assms(2-4)] assms(6) by auto
  then have "m_nrounds s' = nr" by (simp add: keyed_def)
  then show ?thesis using AesDecrypt_encryptBlock [OF k nr assms(5)] by simp
qed

theorem AesDecrypt_inverts_witness:
  "\<exists>s'. Rijndael_setKey (Some (replicate 32 7)) 256 Rijndael_ctor = Some s' \<and>
     AesDecrypt (Rijndael_encryptBlock (replicate 16 9) (m_round_key_enc s') (m_nrounds s'))
       (m_round_key_dec s') (m_nrounds s') = replicate 16 9"
proof -
  have p: "aes_params 256 8 14" by (simp add: aes_params_def)
  obtain s' where "Rijndael_setKey (Some (replicate 32 7)) 256 Rijndael_ctor = Some s'"
    using setKey_keyed [OF p, of "replicate 32 7" Rijndael_ctor] by (auto simp: Rijndael_ctor_def)
  moreover from AesDecrypt_inverts [OF _ _ _ _ _ this, of 8 14 "replicate 16 9"]
  have "AesDecrypt (Rijndael_encryptBlock (replicate 16 9) (m_round_key_enc s') (m_nrounds s'))
       (m_round_key_dec s') (m_nrounds s') = replicate 16 9" by (simp add: Rijndael_ctor_def)
  ultimately show ?thesis by blast
qed

text \<open>C19:
  The destructor erases the encryption keys and leaves the decryption keys, whose range it
  computes as empty: the first sixteen bytes of the user's key stay in memory.
\<close>

theorem Rijndael_dtor_leaves_key:
  assumes "(len, nk, nr) \<in> {(128, 4, 10 :: nat), (192, 6, 12), (256, 8, 14)}" "length key = 4 * nk"
    "length (m_round_key_enc s) = 512" "length (m_round_key_dec s) = 512"
    "Rijndael_setKey (Some key) len s = Some s'"
  shows "m_round_key_enc (Rijndael_dtor s') = replicate 512 0 \<and>
    m_round_key_dec (Rijndael_dtor s') = m_round_key_dec s' \<and>
    blk nr (m_round_key_dec (Rijndael_dtor s')) = take 16 key"
proof -
  have p: "aes_params len nk nr" using assms(1) by (simp add: aes_params_def)
  have k: "keyed nk nr key s'" using setKey_keyed [OF p assms(2-4)] assms(5) by auto
  have d: "m_round_key_dec (Rijndael_dtor s') = m_round_key_dec s'" "m_round_key_enc (Rijndael_dtor s') = replicate 512 0"
    using k by (simp_all add: keyed_def Rijndael_dtor_def fill_zero_def write_at_def Let_def)
  have "blk nr (m_round_key_dec s') = round_key (key_expansion S_enc nk nr key) 0"
    using k p by (auto simp: keyed_def aes_round_key_def aes_params_def)
  also have "\<dots> = take 16 key" by (rule first_round_key) (use p in \<open>auto simp: aes_params_def\<close>)
  finally show ?thesis using d by simp
qed

theorem Rijndael_dtor_leaves_key_witness:
  "\<exists>s'. Rijndael_setKey (Some (replicate 16 7)) 128 Rijndael_ctor = Some s' \<and>
     blk 10 (m_round_key_dec (Rijndael_dtor s')) = replicate 16 7"
proof -
  have p: "aes_params 128 4 10" by (simp add: aes_params_def)
  obtain s' where s': "Rijndael_setKey (Some (replicate 16 7)) 128 Rijndael_ctor = Some s'"
    using setKey_keyed [OF p, of "replicate 16 7" Rijndael_ctor] by (auto simp: Rijndael_ctor_def)
  have l: "length (m_round_key_enc Rijndael_ctor) = 512" "length (m_round_key_dec Rijndael_ctor) = 512"
    by (simp_all add: Rijndael_ctor_def)
  have "blk 10 (m_round_key_dec (Rijndael_dtor s')) = take 16 (replicate 16 7)"
    by (rule Rijndael_dtor_leaves_key [OF _ _ l s', of 4 10, THEN conjunct2, THEN conjunct2]) simp_all
  then show ?thesis using s' by simp
qed

text \<open>A key length other than 128, 192 or 256 bits is not in the parameter table: the lookup
  throws, and no key is set.
\<close>

theorem Rijndael_setKey_domain:
  "Rijndael_setKey key len s = None \<longleftrightarrow> len \<noteq> 128 \<and> len \<noteq> 192 \<and> len \<noteq> 256"
  by (auto simp: Rijndael_setKey_def ParamsMap_def BitsToBlockSize_def)


end
