(* ===== verification/Cipher_Common.thy ===== *)
theory Cipher_Common imports Aes_Correct "HOL-Library.Monad_Syntax" begin

text \<open>
  The parts every cipher object of \<^verbatim>\<open>lib/include/alcp/cipher/cipher_common.hh\<close> is composed of:
  the state manager, the key manager on top of the reference AES, the IV manager and the
  buffer of a partial block. The modes call \<open>onKeySet\<close> and \<open>onIvSet\<close> without asking
  \<open>canSetKey\<close> and \<open>canSetIv\<close>, so the lemma on the state manager is about the transitions alone.
\<close>

unbundle bit_operations_syntax

section \<open>State manager\<close>

datatype cipher_state = Uninitialized | KeySet | IvSet | Ready | Processing | Finalized

definition isReady :: "cipher_state \<Rightarrow> bool" where
  "isReady s \<longleftrightarrow> s = Ready \<or> s = Processing"

definition canSetKey :: "cipher_state \<Rightarrow> bool" where
  "canSetKey s \<longleftrightarrow> s = Uninitialized \<or> s = KeySet \<or> s = Ready \<or> s = Finalized"

definition canSetIv :: "cipher_state \<Rightarrow> bool" where
  "canSetIv s \<longleftrightarrow> s = KeySet \<or> s = IvSet \<or> s = Ready \<or> s = Finalized"

definition canSetAad :: "cipher_state \<Rightarrow> bool" where
  "canSetAad s \<longleftrightarrow> s = Ready"

definition canProcess :: "cipher_state \<Rightarrow> bool" where
  "canProcess s \<longleftrightarrow> s = Ready \<or> s = Processing"

definition canFinalize :: "cipher_state \<Rightarrow> bool" where
  "canFinalize s \<longleftrightarrow> s = Processing \<or> s = Ready"

definition onKeySet :: "cipher_state \<Rightarrow> cipher_state" where
  "onKeySet s = (if s = IvSet \<or> s = Ready then Ready else KeySet)"

definition onIvSet :: "cipher_state \<Rightarrow> cipher_state" where
  "onIvSet s = (if s = KeySet \<or> s = Ready \<or> s = Finalized then Ready else IvSet)"

definition onProcessStart :: "cipher_state \<Rightarrow> cipher_state" where
  "onProcessStart s = (if s = Ready then Processing else s)"

definition onFinalize :: "cipher_state \<Rightarrow> cipher_state" where
  "onFinalize s = Finalized"

definition StateManager_reset :: "cipher_state \<Rightarrow> cipher_state" where
  "StateManager_reset s = Uninitialized"

text \<open>Keys and IVs set in any order.\<close>

datatype set_event = Key_Event | Iv_Event

fun set_events :: "set_event list \<Rightarrow> cipher_state \<Rightarrow> cipher_state" where
  "set_events [] s = s"
| "set_events (Key_Event # es) s = set_events es (onKeySet s)"
| "set_events (Iv_Event # es) s = set_events es (onIvSet s)"

section \<open>Key manager\<close>

record key_manager =
  m_rijndael :: rijndael
  m_originalKey :: "u8 list"
  m_keyLenBytes :: u32
  m_expectedKeyLen :: u32
  m_isKeySet :: bool

definition KeyManager_ctor :: "u32 \<Rightarrow> key_manager" where
  "KeyManager_ctor expectedKeyLen =
     \<lparr>m_rijndael = Rijndael_ctor, m_originalKey = replicate 32 0, m_keyLenBytes = 0,
      m_expectedKeyLen = expectedKeyLen, m_isKeySet = False\<rparr>"

text \<open>
  The length arrives in bits, in 64 bits; its byte count is truncated to 32. The key is
  copied before the expansion, which throws (\<open>Inr\<close> of the object left behind) for a length
  that is not an AES key length. \<open>None\<close> is a read past the end of the key.
\<close>

definition KeyManager_setKey_with ::
  "(u8 list option \<Rightarrow> nat \<Rightarrow> rijndael \<Rightarrow> rijndael option) \<Rightarrow> u8 list option \<Rightarrow> u64 \<Rightarrow> key_manager \<Rightarrow> (alc_error \<times> key_manager + key_manager) option" where
  "KeyManager_setKey_with setKey pKey keyLenBits s =
     (case pKey of
        None \<Rightarrow> Some (Inl (ALC_ERROR_INVALID_ARG, s))
      | Some key \<Rightarrow>
          if keyLenBits = 0 then Some (Inl (ALC_ERROR_INVALID_SIZE, s))
          else
            let keyLenBytes = ucast (keyLenBits div 8) :: u32 in
            if keyLenBytes > 32 then Some (Inl (ALC_ERROR_INVALID_SIZE, s))
            else if m_expectedKeyLen s > 0 \<and> keyLenBytes \<noteq> m_expectedKeyLen s
            then Some (Inl (ALC_ERROR_INVALID_SIZE, s))
            else if length key < unat keyLenBytes then None
            else
              let s = s\<lparr>m_originalKey := write_at 0 (take (unat keyLenBytes) key) (m_originalKey s),
                        m_keyLenBytes := keyLenBytes, m_isKeySet := True\<rparr>
              in case setKey (Some key) (unat (ucast keyLenBits :: u32)) (m_rijndael s) of
                   None \<Rightarrow> Some (Inr s)
                 | Some r \<Rightarrow> Some (Inl (ALC_ERROR_NONE, s\<lparr>m_rijndael := r\<rparr>)))"

definition KeyManager_setKey ::
  "u8 list option \<Rightarrow> u64 \<Rightarrow> key_manager \<Rightarrow> (alc_error \<times> key_manager + key_manager) option" where
  "KeyManager_setKey = KeyManager_setKey_with Rijndael_setKey"

definition setExpectedKeyLen :: "u32 \<Rightarrow> key_manager \<Rightarrow> key_manager" where
  "setExpectedKeyLen keyLenBytes s = s\<lparr>m_expectedKeyLen := keyLenBytes\<rparr>"

definition getKeyLenBits :: "key_manager \<Rightarrow> u32" where
  "getKeyLenBits s = m_keyLenBytes s * 8"

text \<open>The round keys, the round count and the original key; the AES key size stays.\<close>

definition copyKeyStateFrom :: "key_manager \<Rightarrow> key_manager \<Rightarrow> key_manager" where
  "copyKeyStateFrom src s =
     s\<lparr>m_rijndael := (m_rijndael s)\<lparr>m_round_key_enc := m_round_key_enc (m_rijndael src),
                        m_round_key_dec := m_round_key_dec (m_rijndael src),
                        m_nrounds := m_nrounds (m_rijndael src)\<rparr>,
       m_originalKey := write_at 0 (take (unat (m_keyLenBytes src)) (m_originalKey src)) (m_originalKey s),
       m_keyLenBytes := m_keyLenBytes src, m_isKeySet := m_isKeySet src\<rparr>"

definition KeyManager_reset :: "key_manager \<Rightarrow> key_manager" where
  "KeyManager_reset s = s\<lparr>m_originalKey := replicate 32 0, m_keyLenBytes := 0, m_isKeySet := False\<rparr>"

definition KeyManager_encryptBlock :: "u8 list \<Rightarrow> u8 list \<Rightarrow> nat \<Rightarrow> u8 list" where
  "KeyManager_encryptBlock block pKey nRounds = Rijndael_encryptBlock block pKey nRounds"

section \<open>IV manager\<close>

record iv_manager =
  m_iv :: "u8 list"
  m_ivLen :: nat
  m_minLen :: nat
  m_maxLen :: nat
  m_isSet :: bool

definition IvManager_ctor :: "nat \<Rightarrow> nat \<Rightarrow> iv_manager" where
  "IvManager_ctor minLen maxLen =
     \<lparr>m_iv = replicate 128 0, m_ivLen = 0, m_minLen = minLen, m_maxLen = maxLen, m_isSet = False\<rparr>"

definition IvManager_setIv :: "u8 list option \<Rightarrow> iv_manager \<Rightarrow> (alc_error \<times> iv_manager) option" where
  "IvManager_setIv pIv s =
     (case pIv of
        None \<Rightarrow> Some (ALC_ERROR_INVALID_ARG, s)
      | Some iv \<Rightarrow>
          if length iv < m_minLen s \<or> length iv > m_maxLen s then Some (ALC_ERROR_INVALID_SIZE, s)
          else do {
            b \<leftarrow> CopyBlock (m_iv s) 0 iv;
            Some (ALC_ERROR_NONE, s\<lparr>m_iv := b, m_ivLen := length iv, m_isSet := True\<rparr>)
          })"

definition setLimits :: "nat \<Rightarrow> nat \<Rightarrow> iv_manager \<Rightarrow> iv_manager" where
  "setLimits lo hi s = s\<lparr>m_minLen := lo, m_maxLen := hi\<rparr>"

definition IvManager_reset :: "iv_manager \<Rightarrow> iv_manager" where
  "IvManager_reset s = s\<lparr>m_iv := replicate 128 0, m_ivLen := 0, m_isSet := False\<rparr>"

section \<open>Partial buffer\<close>

record partial_buffer =
  m_buf :: "u8 list"
  m_len :: nat

definition PartialBuffer_ctor :: partial_buffer where
  "PartialBuffer_ctor = \<lparr>m_buf = replicate 16 0, m_len = 0\<rparr>"

text \<open>The number of bytes appended, and the buffer; a write past its end is \<open>None\<close>.\<close>

definition PartialBuffer_append :: "u8 list \<Rightarrow> partial_buffer \<Rightarrow> (nat \<times> partial_buffer) option" where
  "PartialBuffer_append data s =
     (let space = 16 - m_len s; toAppend = (if length data < space then length data else space)
      in do {
        b \<leftarrow> CopyBlock (m_buf s) (m_len s) (take toAppend data);
        Some (toAppend, s\<lparr>m_buf := b, m_len := m_len s + toAppend\<rparr>)
      })"

definition PartialBuffer_isFull :: "partial_buffer \<Rightarrow> bool" where
  "PartialBuffer_isFull s \<longleftrightarrow> m_len s = 16"

definition PartialBuffer_remaining :: "partial_buffer \<Rightarrow> nat" where
  "PartialBuffer_remaining s = 16 - m_len s"

definition PartialBuffer_clear :: "partial_buffer \<Rightarrow> partial_buffer" where
  "PartialBuffer_clear s = s\<lparr>m_buf := replicate 16 0, m_len := 0\<rparr>"

definition PartialBuffer_extract :: "partial_buffer \<Rightarrow> u8 list \<times> nat \<times> partial_buffer" where
  "PartialBuffer_extract s = (take (m_len s) (m_buf s), m_len s, PartialBuffer_clear s)"

definition PartialBuffer_setLen :: "nat \<Rightarrow> partial_buffer \<Rightarrow> partial_buffer" where
  "PartialBuffer_setLen len s = s\<lparr>m_len := (if len \<le> 16 then len else 16)\<rparr>"

section \<open>Lemmas\<close>

named_theorems state_simps

declare isReady_def [state_simps] canSetKey_def [state_simps] canSetIv_def [state_simps]
  canProcess_def [state_simps] canFinalize_def [state_simps] onKeySet_def [state_simps]
  onIvSet_def [state_simps] onProcessStart_def [state_simps] onFinalize_def [state_simps]
  StateManager_reset_def [state_simps]

lemma set_events_ready:
  "s \<in> {Uninitialized, KeySet, IvSet, Ready} \<Longrightarrow>
   set_events es s =
     (if (s = KeySet \<or> s = Ready \<or> Key_Event \<in> set es) \<and> (s = IvSet \<or> s = Ready \<or> Iv_Event \<in> set es) then Ready
      else if s = KeySet \<or> Key_Event \<in> set es then KeySet
      else if s = IvSet \<or> Iv_Event \<in> set es then IvSet else s)"
proof (induction es arbitrary: s)
  case Nil
  then show ?case by auto
next
  case (Cons e es)
  show ?case using Cons.prems by (cases e; cases s) (auto simp: Cons.IH state_simps)
qed

definition pb_ok :: "partial_buffer \<Rightarrow> bool" where
  "pb_ok s \<longleftrightarrow> length (m_buf s) = 16 \<and> m_len s \<le> 16"

definition pb_bytes :: "partial_buffer \<Rightarrow> u8 list" where
  "pb_bytes s = take (m_len s) (m_buf s)"

lemma append_pb:
  assumes "pb_ok s"
  shows "\<exists>s'. PartialBuffer_append data s = Some (min (length data) (16 - m_len s), s') \<and> pb_ok s' \<and>
     pb_bytes s' = pb_bytes s @ take (16 - m_len s) data"
  using assms
  by (auto simp: PartialBuffer_append_def pb_ok_def pb_bytes_def Let_def min_def take_write_at_end write_at_def)

lemma KeyManager_setKey_with_keyed:
  assumes "(keyLenBits, nk, nr) \<in> {(128, 4, 10), (192, 6, 12), (256, 8, 14), (2 ^ 35 + 128, 4, 10)}"
    "length key = 4 * nk" "m_expectedKeyLen s = 0 \<or> unat (m_expectedKeyLen s) = 4 * nk"
    "length (m_originalKey s) = 32"
    "\<And>len. aes_params len nk nr \<Longrightarrow> \<exists>r. setKey (Some key) len (m_rijndael s) = Some r \<and> keyed nk nr key r"
  shows "\<exists>s'. KeyManager_setKey_with setKey (Some key) keyLenBits s = Some (Inl (ALC_ERROR_NONE, s')) \<and>
     m_isKeySet s' \<and> take (length key) (m_originalKey s') = key \<and>
     unat (getKeyLenBits s') = 32 * nk \<and> keyed nk nr key (m_rijndael s')"
proof -
  have len: "unat (ucast (keyLenBits div 8) :: u32) = 4 * nk" "keyLenBits \<noteq> 0"
    "aes_params (unat (ucast keyLenBits :: u32)) nk nr" "nk \<le> 8"
    using assms(1) by (auto simp: aes_params_def)
  have b: "\<not> (32 :: u32) < ucast (keyLenBits div 8)" "ucast (keyLenBits div 8) = (of_nat (4 * nk) :: u32)"
    using assms(1) by auto
  have x: "\<not> (0 < m_expectedKeyLen s \<and> ucast (keyLenBits div 8) \<noteq> m_expectedKeyLen s)"
    using assms(3) len(1) by (auto simp: word_unat_eq_iff word_less_nat_alt)
  obtain r where r: "setKey (Some key) (unat (ucast keyLenBits :: u32)) (m_rijndael s) = Some r"
    "keyed nk nr key r" using assms(5) [OF len(3)] by blast
  have g: "unat (of_nat (4 * nk) * 8 :: u32) = 32 * nk"
    using len(4) by (simp add: unat_word_ariths unat_of_nat take_bit_nat_eq_self)
  show ?thesis
    using b(1) x r len(1,2) assms(2,4) len(4) g
    by (simp add: KeyManager_setKey_with_def Let_def getKeyLenBits_def b(2)) (simp add: take_write_at_end write_at_0)
qed

section \<open>Properties\<close>

text \<open>The transitions alone, as the cipher modes call them: from a new object, setting keys and
  IVs in any order and any number of times makes it ready exactly when both have been set.
\<close>

theorem StateManager_ready_iff_both_set:
  "isReady (set_events es Uninitialized) \<longleftrightarrow> Key_Event \<in> set es \<and> Iv_Event \<in> set es"
  by (simp add: set_events_ready isReady_def)

text \<open>
  The key manager with an AES key length: the key is kept, and the round keys are those the
  AES theorems are about. The byte count is taken modulo \<open>2 ^ 32\<close>, so a length of
  \<open>2 ^ 35 + 128\<close> bits is accepted as a 128-bit key.
\<close>

theorem KeyManager_setKey_keys:
  assumes "(keyLenBits, nk, nr) \<in> {(128, 4, 10), (192, 6, 12), (256, 8, 14), (2 ^ 35 + 128, 4, 10)}"
    "length key = 4 * nk" "m_expectedKeyLen s = 0 \<or> unat (m_expectedKeyLen s) = 4 * nk"
    "length (m_round_key_enc (m_rijndael s)) = 512" "length (m_round_key_dec (m_rijndael s)) = 512"
    "length (m_originalKey s) = 32"
  shows "\<exists>s'. KeyManager_setKey (Some key) keyLenBits s = Some (Inl (ALC_ERROR_NONE, s')) \<and>
     m_isKeySet s' \<and> take (length key) (m_originalKey s') = key \<and>
     unat (getKeyLenBits s') = 32 * nk \<and> keyed nk nr key (m_rijndael s')"
  unfolding KeyManager_setKey_def
  using KeyManager_setKey_with_keyed [OF assms(1-3,6)] setKey_keyed [OF _ assms(2,4,5)] by blast

theorem KeyManager_setKey_keys_witness:
  "\<exists>s'. KeyManager_setKey (Some (replicate 16 3)) (2 ^ 35 + 128) (KeyManager_ctor 16) = Some (Inl (ALC_ERROR_NONE, s')) \<and>
     m_isKeySet s' \<and> getKeyLenBits s' = 128 \<and> keyed 4 10 (replicate 16 3) (m_rijndael s')"
proof -
  obtain s' where "KeyManager_setKey (Some (replicate 16 3)) (2 ^ 35 + 128) (KeyManager_ctor 16)
      = Some (Inl (ALC_ERROR_NONE, s'))" "m_isKeySet s'" "unat (getKeyLenBits s') = 32 * 4"
    "keyed 4 10 (replicate 16 3) (m_rijndael s')"
    using KeyManager_setKey_keys [of "2 ^ 35 + 128" 4 10 "replicate 16 3" "KeyManager_ctor 16"]
    by (auto simp: KeyManager_ctor_def Rijndael_ctor_def)
  moreover from this have "getKeyLenBits s' = 128" by (simp add: word_unat_eq_iff)
  ultimately show ?thesis by blast
qed

text \<open>What the key manager refuses without touching its state, and what it does with a length
  that is no AES key length: the key is stored and counts as set, and the expansion throws.
\<close>

theorem KeyManager_setKey_errors:
  "KeyManager_setKey None n s = Some (Inl (ALC_ERROR_INVALID_ARG, s)) \<and>
   KeyManager_setKey (Some key) 0 s = Some (Inl (ALC_ERROR_INVALID_SIZE, s)) \<and>
   (n \<noteq> 0 \<and> (ucast (n div 8) :: u32) > 32 \<longrightarrow>
      KeyManager_setKey (Some key) n s = Some (Inl (ALC_ERROR_INVALID_SIZE, s))) \<and>
   (n \<noteq> 0 \<and> m_expectedKeyLen s > 0 \<and> ucast (n div 8) \<noteq> m_expectedKeyLen s \<longrightarrow>
      KeyManager_setKey (Some key) n s = Some (Inl (ALC_ERROR_INVALID_SIZE, s))) \<and>
   (m_expectedKeyLen s = 0 \<and> length key = 17 \<longrightarrow>
      (\<exists>s'. KeyManager_setKey (Some key) 136 s = Some (Inr s') \<and> m_isKeySet s' \<and> m_rijndael s' = m_rijndael s))"
  by (auto simp: KeyManager_setKey_def KeyManager_setKey_with_def Let_def Rijndael_setKey_def ParamsMap_def BitsToBlockSize_def)

theorem KeyManager_setKey_errors_witness:
  "KeyManager_setKey (Some (replicate 33 0)) 264 (KeyManager_ctor 0) = Some (Inl (ALC_ERROR_INVALID_SIZE, KeyManager_ctor 0)) \<and>
   KeyManager_setKey (Some (replicate 16 0)) 128 (KeyManager_ctor 32) = Some (Inl (ALC_ERROR_INVALID_SIZE, KeyManager_ctor 32)) \<and>
   (\<exists>s'. KeyManager_setKey (Some (replicate 17 0)) 136 (KeyManager_ctor 0) = Some (Inr s') \<and> m_isKeySet s')"
  using KeyManager_setKey_errors [of 264 "KeyManager_ctor 0" "replicate 33 0"]
    KeyManager_setKey_errors [of 128 "KeyManager_ctor 32" "replicate 16 0"]
    KeyManager_setKey_errors [of 136 "KeyManager_ctor 0" "replicate 17 0"]
  by (auto simp: KeyManager_ctor_def)

text \<open>
  The IV manager keeps exactly the IV it was given, for the lengths between its limits, and
  otherwise does not change; with limits inside the array no call writes past it.
\<close>

theorem IvManager_setIv_spec:
  assumes "length (m_iv s) = 128" "m_maxLen s \<le> 128"
  shows "IvManager_setIv None s = Some (ALC_ERROR_INVALID_ARG, s) \<and>
     (\<exists>err s'. IvManager_setIv (Some iv) s = Some (err, s') \<and> length (m_iv s') = 128 \<and>
        (if m_minLen s \<le> length iv \<and> length iv \<le> m_maxLen s
         then err = ALC_ERROR_NONE \<and> m_isSet s' \<and> take (m_ivLen s') (m_iv s') = iv
         else err = ALC_ERROR_INVALID_SIZE \<and> s' = s))"
  using assms by (auto simp: IvManager_setIv_def write_at_0)

theorem IvManager_setIv_spec_witness:
  "\<exists>s'. IvManager_setIv (Some (replicate 16 5)) (IvManager_ctor 16 16) = Some (ALC_ERROR_NONE, s') \<and>
     take (m_ivLen s') (m_iv s') = replicate 16 5"
  using IvManager_setIv_spec [of "IvManager_ctor 16 16" "replicate 16 5"] by (auto simp: IvManager_ctor_def)

text \<open>The partial buffer gives back what was put into it: appends are kept in order up to
  sixteen bytes, each reports how much it took, and \<open>extract\<close> returns them and empties it.
\<close>

theorem PartialBuffer_roundtrip:
  "\<exists>s1 s2. PartialBuffer_append x PartialBuffer_ctor = Some (min (length x) 16, s1) \<and>
     PartialBuffer_append y s1 = Some (min (length y) (PartialBuffer_remaining s1), s2) \<and>
     PartialBuffer_extract s2 = (take 16 (x @ y), min 16 (length x + length y), PartialBuffer_ctor) \<and>
     (PartialBuffer_isFull s2 \<longleftrightarrow> 16 \<le> length x + length y)"
proof -
  have c: "pb_ok PartialBuffer_ctor" "m_len PartialBuffer_ctor = 0" "pb_bytes PartialBuffer_ctor = []"
    by (simp_all add: pb_ok_def PartialBuffer_ctor_def pb_bytes_def)
  obtain s1 where s1: "PartialBuffer_append x PartialBuffer_ctor = Some (min (length x) 16, s1)" "pb_ok s1"
    "pb_bytes s1 = take 16 x" using append_pb [OF c(1), of x] c by auto
  obtain s2 where s2: "PartialBuffer_append y s1 = Some (min (length y) (16 - m_len s1), s2)" "pb_ok s2"
    "pb_bytes s2 = take 16 x @ take (16 - m_len s1) y" using append_pb [OF s1(2), of y] s1(3) by auto
  have l1: "m_len s1 = min 16 (length x)" using s1(2) arg_cong [OF s1(3), of length]
    by (simp add: pb_ok_def pb_bytes_def min_def split: if_splits)
  have l2: "m_len s2 = min 16 (length x + length y)" using s2(2) arg_cong [OF s2(3), of length] l1
    by (simp add: pb_ok_def pb_bytes_def min_def split: if_splits)
  have "pb_bytes s2 = take 16 (x @ y)" using s2(3) l1 by (simp add: min_def)
  then show ?thesis using s1(1) s2(1) l2
    by (auto simp: PartialBuffer_extract_def PartialBuffer_remaining_def PartialBuffer_isFull_def
      PartialBuffer_clear_def PartialBuffer_ctor_def pb_bytes_def min_def)
qed

end
