(* ===== verification/Chacha20.thy ===== *)
theory Chacha20 imports Cipher_Common begin

text \<open>
  ChaCha20: the portable kernel of \<^verbatim>\<open>lib/cipher/chacha20_inplace.cc.inc\<close> and the cipher object of
  \<^verbatim>\<open>lib/cipher/chacha20.cc\<close>, for any kernel, against RFC 8439. The specification works on the
  state as four rows, where the diagonal round is the column round between rotations of the
  rows. A pointer that may be null is an option; \<open>None\<close> around a result is a write or a read
  outside an array.
\<close>

unbundle bit_operations_syntax

section \<open>The portable kernel\<close>

definition QuarterRound :: "u32 \<Rightarrow> u32 \<Rightarrow> u32 \<Rightarrow> u32 \<Rightarrow> u32 \<times> u32 \<times> u32 \<times> u32" where
  "QuarterRound a b c d =
     (let a = a + b; d = d XOR a; d = RotateLeft32 d 16;
          c = c + d; b = b XOR c; b = RotateLeft32 b 12;
          a = a + b; d = d XOR a; d = RotateLeft32 d 8;
          c = c + d; b = b XOR c; b = RotateLeft32 b 7
      in (a, b, c, d))"

definition QuarterRoundState :: "nat \<Rightarrow> nat \<Rightarrow> nat \<Rightarrow> nat \<Rightarrow> u32 list \<Rightarrow> u32 list" where
  "QuarterRoundState i1 i2 i3 i4 state =
     (let (a, b, c, d) = QuarterRound (state ! i1) (state ! i2) (state ! i3) (state ! i4)
      in state[i1 := a, i2 := b, i3 := c, i4 := d])"

definition InnerBlock :: "u32 list \<Rightarrow> u32 list" where
  "InnerBlock state =
     (let state = QuarterRoundState 0 4 8 12 state; state = QuarterRoundState 1 5 9 13 state;
          state = QuarterRoundState 2 6 10 14 state; state = QuarterRoundState 3 7 11 15 state;
          state = QuarterRoundState 0 5 10 15 state; state = QuarterRoundState 1 6 11 12 state;
          state = QuarterRoundState 2 7 8 13 state
      in QuarterRoundState 3 4 9 14 state)"

definition AddState :: "u32 list \<Rightarrow> u32 list \<Rightarrow> u32 list" where
  "AddState state1 state2 = map (\<lambda>i. state1 ! i + state2 ! i) [0..<16]"

definition ValidateKey :: "u8 list option \<Rightarrow> u64 \<Rightarrow> alc_error" where
  "ValidateKey key keylen =
     (if key = None \<or> keylen \<noteq> 256 then ALC_ERROR_INVALID_ARG else ALC_ERROR_NONE)"

definition ValidateIv :: "u8 list option \<Rightarrow> u64 \<Rightarrow> alc_error" where
  "ValidateIv iv iVlen =
     (if iv = None \<or> iVlen \<noteq> 16 then ALC_ERROR_INVALID_ARG else ALC_ERROR_NONE)"

text \<open>
  \<^verbatim>\<open>SecureCopy<Uint8>(state + k, ...)\<close>: a copy into the bytes of the state words from word
  \<open>k\<close> on. The size the code names for the key, 96, exceeds what is there, but only 32 bytes
  are copied.
\<close>

definition state_copy :: "nat \<Rightarrow> nat \<Rightarrow> u8 list \<Rightarrow> nat \<Rightarrow> u32 list \<Rightarrow> alc_error \<times> u32 list" where
  "state_copy k destSize src srcSize state =
     (let bytes = concat (map (le_bytes 4) state)
      in case SecureCopy (Some (drop (4 * k) bytes)) destSize (Some src) srcSize of
           (err, Some d) \<Rightarrow> (err, take k state @ le_words 4 (length state - k) d)
         | (err, None) \<Rightarrow> (err, state))"

definition SetKey :: "u32 list \<Rightarrow> u8 list \<Rightarrow> u64 \<Rightarrow> alc_error \<times> u32 list" where
  "SetKey state key keylen =
     (let err = ValidateKey (Some key) keylen in
      if alcp_is_error err then (err, state)
      else state_copy 4 ((16 - 4) * 8) key (unat (keylen div 8)) state)"

definition SetIv :: "u32 list \<Rightarrow> u8 list \<Rightarrow> u64 \<Rightarrow> alc_error \<times> u32 list" where
  "SetIv state iv ivlen =
     (let err = ValidateIv (Some iv) ivlen in
      if alcp_is_error err then (err, state)
      else state_copy 12 (4 * (16 - 12)) iv (unat ivlen) state)"

definition CreateInitialState ::
  "u32 list \<Rightarrow> u8 list \<Rightarrow> u64 \<Rightarrow> u8 list \<Rightarrow> u64 \<Rightarrow> u32 \<Rightarrow> alc_error \<times> u32 list" where
  "CreateInitialState state key keylen iv ivlen counter =
     (let state = state[0 := 0x61707865, 1 := 0x3320646e, 2 := 0x79622d32, 3 := 0x6b206574];
          (err, state) = SetKey state key (keylen * 8) in
      if alcp_is_error err then (err, state)
      else
        let (err, state) = SetIv state iv ivlen in
        if alcp_is_error err then (err, state)
        else (ALC_ERROR_NONE, state[12 := counter]))"

text \<open>
  The loop over the blocks; \<open>off\<close> is the variable \<^verbatim>\<open>blocks\<close>, which counts bytes. \<open>state\<close> is
  the array the loop declares, carrying what the previous turn left in it.
\<close>

function ProcessInput_loop ::
  "u8 list \<Rightarrow> u64 \<Rightarrow> u8 list \<Rightarrow> u64 \<Rightarrow> u8 list \<Rightarrow> u32 \<Rightarrow> nat \<Rightarrow> u32 list \<Rightarrow> u8 list" where
  "ProcessInput_loop key keylen iv ivlen plaintext ctr off state =
     (if off < length plaintext then
        let (err, state) = CreateInitialState state key keylen iv ivlen (ctr + of_nat (off div 64));
            working_state = (InnerBlock ^^ 10) state;
            state = AddState working_state state;
            p_state = concat (map (le_bytes 4) state);
            bytes_to_xor = (if length plaintext - off < 64 then length plaintext - off else 64)
        in map2 (XOR) (take bytes_to_xor (drop off plaintext)) p_state
           @ ProcessInput_loop key keylen iv ivlen plaintext ctr (off + 64) state
      else [])"
  by pat_completeness auto
termination
  by (relation "measure (\<lambda>(key, keylen, iv, ivlen, plaintext, ctr, off, state). length plaintext - off)") auto

declare ProcessInput_loop.simps [simp del]

text \<open>The block count and the remainder it is given add up to the length of the input.\<close>

definition ProcessInput :: "u8 list \<Rightarrow> u64 \<Rightarrow> u8 list \<Rightarrow> u64 \<Rightarrow> u8 list \<Rightarrow> nat \<Rightarrow> nat \<Rightarrow> alc_error \<times> u8 list" where
  "ProcessInput key keylen iv ivlen plaintext blocks remBytes =
     (let plaintextLength = blocks * 64 + remBytes;
          cInitialCounter = le_word (take 4 iv)
      in (ALC_ERROR_NONE,
          ProcessInput_loop key keylen iv ivlen (take plaintextLength plaintext) cInitialCounter 0 (replicate 16 0)))"

section \<open>The cipher object\<close>

record chacha =
  cc_state :: cipher_state
  cc_key :: key_manager
  cc_iv :: iv_manager

definition ChaCha20_ctor :: chacha where
  "ChaCha20_ctor = \<lparr>cc_state = Uninitialized, cc_key = KeyManager_ctor 32, cc_iv = IvManager_ctor 16 16\<rparr>"

text \<open>
  The object keeps the first 32 bytes of the original key and the first 16 of the IV array
  for the kernel. The exception of the key manager is a \<open>None\<close> here too: the only length
  that passes the validation is 256 bits.
\<close>

definition ChaCha20_setKey :: "u8 list option \<Rightarrow> u64 \<Rightarrow> chacha \<Rightarrow> (alc_error \<times> chacha) option" where
  "ChaCha20_setKey key keylen s =
     (let err = ValidateKey key keylen in
      if alcp_is_error err then Some (err, s)
      else case KeyManager_setKey key keylen (cc_key s) of
             Some (Inl (err, km)) \<Rightarrow>
               let s = s\<lparr>cc_key := km\<rparr>
               in Some (err, if err = ALC_ERROR_NONE then s\<lparr>cc_state := onKeySet (cc_state s)\<rparr> else s)
           | _ \<Rightarrow> None)"

definition ChaCha20_setIv :: "u8 list option \<Rightarrow> u64 \<Rightarrow> chacha \<Rightarrow> (alc_error \<times> chacha) option" where
  "ChaCha20_setIv iv ivlen s =
     (let err = ValidateIv iv ivlen in
      if alcp_is_error err then Some (err, s)
      else do {
        (err, im) \<leftarrow> IvManager_setIv (map_option (take (unat ivlen)) iv) (cc_iv s);
        let s = s\<lparr>cc_iv := im\<rparr>
        in Some (err, if err = ALC_ERROR_NONE then s\<lparr>cc_state := onIvSet (cc_state s)\<rparr> else s)
      })"

definition ChaCha20_init ::
  "u8 list option \<Rightarrow> u64 \<Rightarrow> u8 list option \<Rightarrow> u64 \<Rightarrow> chacha \<Rightarrow> (alc_error \<times> chacha) option" where
  "ChaCha20_init pKey keyLen pIv ivLen s = do {
     (err, s) \<leftarrow> (if keyLen \<noteq> 0 \<or> pKey \<noteq> None then ChaCha20_setKey pKey keyLen s else Some (ALC_ERROR_NONE, s));
     if err \<noteq> ALC_ERROR_NONE then Some (err, s)
     else if pIv \<noteq> None then ChaCha20_setIv pIv ivLen s
     else Some (err, s)
   }"

text \<open>
  \<^verbatim>\<open>encrypt\<close>, whose three specialisations differ in the kernel they call: the error, the
  output buffer and \<^verbatim>\<open>*outlen\<close> afterwards.
\<close>

type_synonym chacha_kernel = "u8 list \<Rightarrow> u8 list \<Rightarrow> u8 list \<Rightarrow> nat \<Rightarrow> nat \<Rightarrow> alc_error \<times> u8 list"

definition ChaCha256_encrypt ::
  "chacha_kernel \<Rightarrow> u8 list option \<Rightarrow> u8 list option \<Rightarrow> nat option \<Rightarrow> chacha \<Rightarrow>
   (alc_error \<times> u8 list option \<times> nat option) option" where
  "ChaCha256_encrypt kern pInput pOutput outlen s =
     (case (pInput, pOutput, outlen) of
        (Some inp, Some out, Some _) \<Rightarrow>
          let len = length inp; blocks = len div 64; remBytes = len - blocks * 64;
              (err, ct) = kern (take 32 (m_originalKey (cc_key s))) (take 16 (m_iv (cc_iv s))) inp blocks remBytes
          in do {
            out \<leftarrow> CopyBlock out 0 ct;
            Some (err, Some out, Some (if err = ALC_ERROR_NONE then len else 0))
          }
      | _ \<Rightarrow> Some (ALC_ERROR_INVALID_ARG, pOutput, outlen))"

definition ChaCha256_decrypt ::
  "chacha_kernel \<Rightarrow> u8 list option \<Rightarrow> u8 list option \<Rightarrow> nat option \<Rightarrow> chacha \<Rightarrow>
   (alc_error \<times> u8 list option \<times> nat option) option" where
  "ChaCha256_decrypt kern pInput pOutput outlen s = ChaCha256_encrypt kern pInput pOutput outlen s"

definition ref_kernel :: chacha_kernel where
  "ref_kernel key iv inp blocks remBytes = ProcessInput key 32 iv 16 inp blocks remBytes"

section \<open>RFC 8439\<close>

definition rfc_quarter :: "u32 \<times> u32 \<times> u32 \<times> u32 \<Rightarrow> u32 \<times> u32 \<times> u32 \<times> u32" where
  "rfc_quarter = (\<lambda>(a, b, c, d).
     let a1 = a + b; d1 = word_rotl 16 (d XOR a1); c1 = c + d1; b1 = word_rotl 12 (b XOR c1);
         a2 = a1 + b1; d2 = word_rotl 8 (d1 XOR a2); c2 = c1 + d2; b2 = word_rotl 7 (b1 XOR c2)
     in (a2, b2, c2, d2))"

text \<open>The state as four rows of four words.\<close>

type_synonym rows = "u32 list \<times> u32 list \<times> u32 list \<times> u32 list"

definition column_round :: "rows \<Rightarrow> rows" where
  "column_round = (\<lambda>(r0, r1, r2, r3).
     let q = map rfc_quarter (zip r0 (zip r1 (zip r2 r3)))
     in (map fst q, map (fst \<circ> snd) q, map (fst \<circ> snd \<circ> snd) q, map (snd \<circ> snd \<circ> snd) q))"

definition diagonal_round :: "rows \<Rightarrow> rows" where
  "diagonal_round = (\<lambda>(r0, r1, r2, r3).
     let (s0, s1, s2, s3) = column_round (r0, rotate 1 r1, rotate 2 r2, rotate 3 r3)
     in (s0, rotate 3 s1, rotate 2 s2, rotate 1 s3))"

definition rows_words :: "rows \<Rightarrow> u32 list" where
  "rows_words = (\<lambda>(r0, r1, r2, r3). r0 @ r1 @ r2 @ r3)"

definition rfc_state :: "u8 list \<Rightarrow> u32 \<Rightarrow> u8 list \<Rightarrow> rows" where
  "rfc_state key counter nonce =
     ([0x61707865, 0x3320646e, 0x79622d32, 0x6b206574], le_words 4 4 key, le_words 4 4 (drop 16 key),
      counter # le_words 4 3 nonce)"

definition chacha20_block :: "u8 list \<Rightarrow> u32 \<Rightarrow> u8 list \<Rightarrow> u8 list" where
  "chacha20_block key counter nonce =
     (let st = rfc_state key counter nonce; w = ((diagonal_round \<circ> column_round) ^^ 10) st
      in concat (map (le_bytes 4) (map2 (+) (rows_words w) (rows_words st))))"

text \<open>The message in blocks of 64 bytes, each against its own key stream block.\<close>

function chacha20_crypt :: "u8 list \<Rightarrow> u32 \<Rightarrow> u8 list \<Rightarrow> u8 list \<Rightarrow> u8 list" where
  "chacha20_crypt key counter nonce m =
     (if m = [] then []
      else map2 (XOR) (take 64 m) (chacha20_block key counter nonce)
           @ chacha20_crypt key (counter + 1) nonce (drop 64 m))"
  by pat_completeness auto
termination by (relation "measure (\<lambda>(key, counter, nonce, m). length m)") auto

declare chacha20_crypt.simps [simp del]


section \<open>The kernel computes the key stream of the RFC\<close>

lemma QuarterRound_rfc: "QuarterRound a b c d = rfc_quarter (a, b, c, d)"
  by (simp add: QuarterRound_def rfc_quarter_def Let_def RotateLeft32_rotl)

definition rows_ok :: "rows \<Rightarrow> bool" where
  "rows_ok = (\<lambda>(r0, r1, r2, r3). length r0 = 4 \<and> length r1 = 4 \<and> length r2 = 4 \<and> length r3 = 4)"

lemma four_words: "length (x :: u32 list) = 4 \<Longrightarrow> \<exists>a b c d. x = [a, b, c, d]"
  by (auto simp: length_Suc_conv eval_nat_numeral)

lemma rows_cases:
  assumes "rows_ok r"
  obtains a0 a1 a2 a3 b0 b1 b2 b3 c0 c1 c2 c3 d0 d1 d2 d3 where
    "r = ([a0, a1, a2, a3], [b0, b1, b2, b3], [c0, c1, c2, c3], [d0, d1, d2, d3])"
proof -
  obtain r0 r1 r2 r3 where r: "r = (r0, r1, r2, r3)" by (cases r) auto
  then have "length r0 = 4" "length r1 = 4" "length r2 = 4" "length r3 = 4"
    using assms by (simp_all add: rows_ok_def)
  from this [THEN four_words] show thesis using that unfolding r by blast
qed

lemma rows_ok_rounds: "rows_ok r \<Longrightarrow> rows_ok (column_round r)" "rows_ok r \<Longrightarrow> rows_ok (diagonal_round r)"
proof -
  show c: "rows_ok r \<Longrightarrow> rows_ok (column_round r)" for r
    by (auto simp: rows_ok_def column_round_def Let_def)
  show "rows_ok r \<Longrightarrow> rows_ok (diagonal_round r)"
    using c by (auto simp: rows_ok_def diagonal_round_def column_round_def Let_def)
qed

lemma InnerBlock_rounds:
  assumes "rows_ok r"
  shows "InnerBlock (rows_words r) = rows_words (diagonal_round (column_round r))"
proof -
  obtain a0 a1 a2 a3 b0 b1 b2 b3 c0 c1 c2 c3 d0 d1 d2 d3 where
    r: "r = ([a0, a1, a2, a3], [b0, b1, b2, b3], [c0, c1, c2, c3], [d0, d1, d2, d3])"
    using rows_cases [OF assms] .
  have u: "\<exists>w x y z. rfc_quarter p = (w, x, y, z)" for p by (cases "rfc_quarter p") auto
  obtain p0 q0 s0 t0 where 0: "rfc_quarter (a0, b0, c0, d0) = (p0, q0, s0, t0)" using u by blast
  obtain p1 q1 s1 t1 where 1: "rfc_quarter (a1, b1, c1, d1) = (p1, q1, s1, t1)" using u by blast
  obtain p2 q2 s2 t2 where 2: "rfc_quarter (a2, b2, c2, d2) = (p2, q2, s2, t2)" using u by blast
  obtain p3 q3 s3 t3 where 3: "rfc_quarter (a3, b3, c3, d3) = (p3, q3, s3, t3)" using u by blast
  obtain e0 f0 g0 h0 where 4: "rfc_quarter (p0, q1, s2, t3) = (e0, f0, g0, h0)" using u by blast
  obtain e1 f1 g1 h1 where 5: "rfc_quarter (p1, q2, s3, t0) = (e1, f1, g1, h1)" using u by blast
  obtain e2 f2 g2 h2 where 6: "rfc_quarter (p2, q3, s0, t1) = (e2, f2, g2, h2)" using u by blast
  obtain e3 f3 g3 h3 where 7: "rfc_quarter (p3, q0, s1, t2) = (e3, f3, g3, h3)" using u by blast
  have rot: "rotate 2 [w, x, y, z] = [y, z, w, x]" "rotate 3 [w, x, y, z] = [z, w, x, y]" for w x y z :: u32
    by (simp_all add: numeral_eq_Suc)
  have S0: "QuarterRoundState 0 4 8 12 [a0, a1, a2, a3, b0, b1, b2, b3, c0, c1, c2, c3, d0, d1, d2, d3]
      = [p0, a1, a2, a3, q0, b1, b2, b3, s0, c1, c2, c3, t0, d1, d2, d3]"
    by (simp add: QuarterRoundState_def QuarterRound_rfc 0)
  have S1: "QuarterRoundState 1 5 9 13 [p0, a1, a2, a3, q0, b1, b2, b3, s0, c1, c2, c3, t0, d1, d2, d3]
      = [p0, p1, a2, a3, q0, q1, b2, b3, s0, s1, c2, c3, t0, t1, d2, d3]"
    by (simp add: QuarterRoundState_def QuarterRound_rfc 1)
  have S2: "QuarterRoundState 2 6 10 14 [p0, p1, a2, a3, q0, q1, b2, b3, s0, s1, c2, c3, t0, t1, d2, d3]
      = [p0, p1, p2, a3, q0, q1, q2, b3, s0, s1, s2, c3, t0, t1, t2, d3]"
    by (simp add: QuarterRoundState_def QuarterRound_rfc 2)
  have S3: "QuarterRoundState 3 7 11 15 [p0, p1, p2, a3, q0, q1, q2, b3, s0, s1, s2, c3, t0, t1, t2, d3]
      = [p0, p1, p2, p3, q0, q1, q2, q3, s0, s1, s2, s3, t0, t1, t2, t3]"
    by (simp add: QuarterRoundState_def QuarterRound_rfc 3)
  have S4: "QuarterRoundState 0 5 10 15 [p0, p1, p2, p3, q0, q1, q2, q3, s0, s1, s2, s3, t0, t1, t2, t3]
      = [e0, p1, p2, p3, q0, f0, q2, q3, s0, s1, g0, s3, t0, t1, t2, h0]"
    by (simp add: QuarterRoundState_def QuarterRound_rfc 4)
  have S5: "QuarterRoundState 1 6 11 12 [e0, p1, p2, p3, q0, f0, q2, q3, s0, s1, g0, s3, t0, t1, t2, h0]
      = [e0, e1, p2, p3, q0, f0, f1, q3, s0, s1, g0, g1, h1, t1, t2, h0]"
    by (simp add: QuarterRoundState_def QuarterRound_rfc 5)
  have S6: "QuarterRoundState 2 7 8 13 [e0, e1, p2, p3, q0, f0, f1, q3, s0, s1, g0, g1, h1, t1, t2, h0]
      = [e0, e1, e2, p3, q0, f0, f1, f2, g2, s1, g0, g1, h1, h2, t2, h0]"
    by (simp add: QuarterRoundState_def QuarterRound_rfc 6)
  have S7: "QuarterRoundState 3 4 9 14 [e0, e1, e2, p3, q0, f0, f1, f2, g2, s1, g0, g1, h1, h2, t2, h0]
      = [e0, e1, e2, e3, f3, f0, f1, f2, g2, g3, g0, g1, h1, h2, h3, h0]"
    by (simp add: QuarterRoundState_def QuarterRound_rfc 7)
  have c: "column_round r = ([p0, p1, p2, p3], [q0, q1, q2, q3], [s0, s1, s2, s3], [t0, t1, t2, t3])"
    by (simp add: column_round_def r 0 1 2 3)
  have "column_round ([p0, p1, p2, p3], [q1, q2, q3, q0], [s2, s3, s0, s1], [t3, t0, t1, t2])
      = ([e0, e1, e2, e3], [f0, f1, f2, f3], [g0, g1, g2, g3], [h0, h1, h2, h3])"
    by (simp add: column_round_def 4 5 6 7)
  then have d: "diagonal_round (column_round r)
      = ([e0, e1, e2, e3], [f3, f0, f1, f2], [g2, g3, g0, g1], [h1, h2, h3, h0])"
    by (simp add: c diagonal_round_def rot)
  show ?thesis unfolding d
    by (simp add: InnerBlock_def r rows_words_def S0 S1 [unfolded One_nat_def] S2 S3 S4
        S5 [unfolded One_nat_def] S6 S7 Let_def)
qed

lemma InnerBlock_iterate:
  "rows_ok r \<Longrightarrow> (InnerBlock ^^ n) (rows_words r) = rows_words (((diagonal_round \<circ> column_round) ^^ n) r)
     \<and> rows_ok (((diagonal_round \<circ> column_round) ^^ n) r)"
  by (induction n) (simp_all add: InnerBlock_rounds rows_ok_rounds)

lemma length_rows_words: "rows_ok r \<Longrightarrow> length (rows_words r) = 16"
  by (auto simp: rows_ok_def rows_words_def)

lemma rows_ok_rfc_state: "rows_ok (rfc_state key counter nonce)"
  by (simp add: rows_ok_def rfc_state_def)

lemma AddState_map2: "length a = 16 \<Longrightarrow> length b = 16 \<Longrightarrow> AddState a b = map2 (+) a b"
  by (rule nth_equalityI) (simp_all add: AddState_def)

lemma le_words_append:
  "le_words sz (m + n) bs = le_words sz m bs @ le_words sz n (drop (sz * m) bs)"
  by (induction m arbitrary: bs) (simp_all add: add.commute)

lemma le_words_take: "sz * n \<le> k \<Longrightarrow> le_words sz n (take k bs) = le_words sz n bs"
proof (induction n arbitrary: k bs)
  case (Suc n)
  then have "sz \<le> k" "sz * n \<le> k - sz" by simp_all
  then show ?case using Suc.IH [of "k - sz" "drop sz bs"] by (simp add: drop_take min_def)
qed simp

lemma CreateInitialState_rfc:
  assumes "length state = 16" "length key = 32" "length iv = 16"
  shows "CreateInitialState state key 32 iv 16 counter
         = (ALC_ERROR_NONE, rows_words (rfc_state key counter (drop 4 iv)))"
proof -
  define st where "st = state[0 := 0x61707865, 1 := 0x3320646e, 2 := 0x79622d32, 3 := 0x6b206574]"
  have st: "length st = 16" "take 4 st = [0x61707865, 0x3320646e, 0x79622d32, 0x6b206574]"
  proof -
    show "length st = 16" using assms by (simp add: st_def)
    show "take 4 st = [0x61707865, 0x3320646e, 0x79622d32, 0x6b206574]"
      using assms by (intro nth_equalityI) (auto simp: st_def nth_list_update less_Suc_eq numeral_eq_Suc)
  qed
  have K: "SetKey st key (32 * 8) = (ALC_ERROR_NONE,
      take 4 st @ le_words 4 12 (key @ drop 48 (concat (map (le_bytes 4) st))))"
    using st assms by (simp add: SetKey_def ValidateKey_def state_copy_def SecureCopy_def write_at_def Let_def)
  define st2 where "st2 = take 4 st @ le_words 4 12 (key @ drop 48 (concat (map (le_bytes 4) st)))"
  have st2: "length st2 = 16" "take 12 st2 = take 4 st @ le_words 4 8 key"
  proof -
    show "length st2 = 16" using st by (simp add: st2_def)
    have "le_words 4 (8 + 4) (key @ drop 48 (concat (map (le_bytes 4) st)))
        = (le_words 4 8 key @ le_words 4 4 (drop 48 (concat (map (le_bytes 4) st))) :: u32 list)"
    proof -
      let ?d = "drop 48 (concat (map (le_bytes 4) st))"
      have "(le_words 4 8 (key @ ?d) :: u32 list) = le_words 4 8 (take 32 (key @ ?d))"
        by (rule le_words_take [symmetric]) simp
      also have "take 32 (key @ ?d) = key" using assms(2) by simp
      finally show ?thesis using assms(2) by (subst le_words_append) simp
    qed
    then show "take 12 st2 = take 4 st @ le_words 4 8 key" using st by (simp add: st2_def)
  qed
  have V: "SetIv st2 iv 16 = (ALC_ERROR_NONE, take 12 st2 @ le_words 4 4 iv)"
    using st2 assms by (simp add: SetIv_def ValidateIv_def state_copy_def SecureCopy_def write_at_def Let_def)
  have "(le_words 4 4 iv :: u32 list) = le_word (take 4 iv) # le_words 4 3 (drop 4 iv)"
    by (simp add: numeral_eq_Suc)
  moreover have "(le_words 4 8 key :: u32 list) = le_words 4 4 key @ le_words 4 4 (drop 16 key)"
    using le_words_append [of 4 4 4 key] by simp
  ultimately have "(take 12 st2 @ le_words 4 4 iv)[12 := counter] = rows_words (rfc_state key counter (drop 4 iv))"
    using st2 st by (simp add: list_update_append rows_words_def rfc_state_def)
  then show ?thesis
    using K V unfolding CreateInitialState_def Let_def st_def [symmetric] st2_def [symmetric] by simp
qed

lemma ProcessInput_loop_rfc:
  assumes "length key = 32" "length iv = 16" "length state = 16" "64 dvd off"
  shows "ProcessInput_loop key 32 iv 16 m ctr off state
         = chacha20_crypt key (ctr + of_nat (off div 64)) (drop 4 iv) (drop off m)"
  using assms(3,4)
proof (induction "length m - off" arbitrary: off state rule: less_induct)
  case less
  show ?case
  proof (cases "off < length m")
    case False
    then show ?thesis by (subst ProcessInput_loop.simps) (simp add: chacha20_crypt.simps)
  next
    case True
    let ?st = "rfc_state key (ctr + of_nat (off div 64)) (drop 4 iv)"
    let ?w = "((diagonal_round \<circ> column_round) ^^ 10) ?st"
    have c: "CreateInitialState state key 32 iv 16 (ctr + of_nat (off div 64)) = (ALC_ERROR_NONE, rows_words ?st)"
      by (rule CreateInitialState_rfc [OF less.prems(1) assms(1,2)])
    note I = InnerBlock_iterate [OF rows_ok_rfc_state, of 10 key "ctr + of_nat (off div 64)" "drop 4 iv"]
    have a: "AddState (rows_words ?w) (rows_words ?st) = map2 (+) (rows_words ?w) (rows_words ?st)"
      by (intro AddState_map2 length_rows_words) (use I rows_ok_rfc_state in auto)
    define b where "b = (if length m - off < 64 then length m - off else 64)"
    have b: "take b (drop off m) = take 64 (drop off m)" using True by (auto simp: b_def)
    have l: "length (map2 (+) (rows_words ?w) (rows_words ?st)) = 16"
      using I rows_ok_rfc_state by (simp add: length_rows_words)
    have o: "(off + 64) div 64 = Suc (off div 64)" by simp
    have IH: "ProcessInput_loop key 32 iv 16 m ctr (off + 64) (map2 (+) (rows_words ?w) (rows_words ?st))
        = chacha20_crypt key (ctr + of_nat (off div 64) + 1) (drop 4 iv) (drop 64 (drop off m))"
      using less.hyps [of "off + 64" "map2 (+) (rows_words ?w) (rows_words ?st)"] True less.prems l
      by (simp add: o add.commute add.left_commute)
    have "ProcessInput_loop key 32 iv 16 m ctr off state
        = map2 (XOR) (take b (drop off m)) (chacha20_block key (ctr + of_nat (off div 64)) (drop 4 iv))
          @ ProcessInput_loop key 32 iv 16 m ctr (off + 64) (map2 (+) (rows_words ?w) (rows_words ?st))"
      using True I unfolding b_def
      by (subst ProcessInput_loop.simps) (simp only: c Let_def prod.case a if_True chacha20_block_def)
    also have "\<dots> = chacha20_crypt key (ctr + of_nat (off div 64)) (drop 4 iv) (drop off m)"
      unfolding IH b using True by (subst (2) chacha20_crypt.simps) simp
    finally show ?thesis .
  qed
qed


lemma ProcessInput_rfc:
  assumes "length key = 32" "length iv = 16"
  shows "ProcessInput key 32 iv 16 m (length m div 64) (length m - length m div 64 * 64)
         = (ALC_ERROR_NONE, chacha20_crypt key (le_word (take 4 iv)) (drop 4 iv) m)"
proof -
  have "length m div 64 * 64 + (length m - length m div 64 * 64) = length m" by simp
  then show ?thesis
    using ProcessInput_loop_rfc [OF assms, of "replicate 16 0" 0 m "le_word (take 4 iv)"]
    by (simp add: ProcessInput_def Let_def)
qed

section \<open>Streams\<close>

lemma length_chacha20_block [simp]: "length (chacha20_block key counter nonce) = 64"
  using InnerBlock_iterate [OF rows_ok_rfc_state, of 10 key counter nonce]
  by (simp add: chacha20_block_def Let_def length_rows_words rows_ok_rfc_state del: map_map)

lemma chacha20_block_ne [simp]: "chacha20_block key counter nonce \<noteq> []"
  using length_chacha20_block [of key counter nonce] by (metis length_0_conv zero_neq_numeral)

lemma length_chacha20_crypt [simp]: "length (chacha20_crypt key counter nonce m) = length m"
  by (induction key counter nonce m rule: chacha20_crypt.induct) (subst chacha20_crypt.simps, auto)

lemma xor_twice: "length x \<le> length k \<Longrightarrow> map2 (XOR) (map2 (XOR) x k) k = (x :: u8 list)"
  by (rule nth_equalityI) (simp_all add: ac_simps)

lemma chacha20_crypt_twice:
  "chacha20_crypt key counter nonce (chacha20_crypt key counter nonce m) = m"
proof (induction key counter nonce m rule: chacha20_crypt.induct)
  case (1 key counter nonce m)
  show ?case
  proof (cases "m = []")
    case True
    then show ?thesis by (simp add: chacha20_crypt.simps)
  next
    case False
    let ?k = "chacha20_block key counter nonce"
    let ?c = "map2 (XOR) (take 64 m) ?k @ chacha20_crypt key (counter + 1) nonce (drop 64 m)"
    have c: "chacha20_crypt key counter nonce m = ?c" using False by (subst chacha20_crypt.simps) simp
    have t: "take 64 ?c = map2 (XOR) (take 64 m) ?k" "drop 64 ?c = chacha20_crypt key (counter + 1) nonce (drop 64 m)"
      by (cases "length m \<le> 64"; simp add: chacha20_crypt.simps [of _ _ _ "[]"])+
    have "chacha20_crypt key counter nonce ?c
        = map2 (XOR) (take 64 ?c) ?k @ chacha20_crypt key (counter + 1) nonce (drop 64 ?c)"
      using False by (subst chacha20_crypt.simps) simp
    also have "\<dots> = take 64 m @ drop 64 m"
      unfolding t using 1 [OF False] by (simp add: xor_twice)
    finally show ?thesis by (simp add: c)
  qed
qed

lemma chacha20_crypt_xor_nth:
  "i < length m \<Longrightarrow> chacha20_crypt key counter nonce m ! i
     = m ! i XOR chacha20_block key (counter + of_nat (i div 64)) nonce ! (i mod 64)"
proof (induction key counter nonce m arbitrary: i rule: chacha20_crypt.induct)
  case (1 key counter nonce m)
  then have ne: "m \<noteq> []" by auto
  show ?case
  proof (cases "i < 64")
    case True
    then show ?thesis using 1(2) ne by (subst chacha20_crypt.simps) (simp add: nth_append)
  next
    case False
    then have i: "i = 64 + (i - 64)" "i - 64 < length (drop 64 m)" using 1(2) by simp_all
    then have d: "i div 64 = Suc ((i - 64) div 64)" "i mod 64 = (i - 64) mod 64"
      using False by (simp_all add: le_div_geq le_mod_geq)
    have "chacha20_crypt key counter nonce m ! i = chacha20_crypt key (counter + 1) nonce (drop 64 m) ! (i - 64)"
      using False 1(2) ne by (subst chacha20_crypt.simps) (simp add: nth_append)
    then show ?thesis using 1(1) [OF ne i(2)] i 1(2) by (simp add: d add.assoc)
  qed
qed

section \<open>The object\<close>

text \<open>An object that holds the key and the IV.\<close>

definition chacha_holds :: "u8 list \<Rightarrow> u8 list \<Rightarrow> chacha \<Rightarrow> bool" where
  "chacha_holds key iv s \<longleftrightarrow> length key = 32 \<and> length iv = 16 \<and>
     take 32 (m_originalKey (cc_key s)) = key \<and> take 16 (m_iv (cc_iv s)) = iv"

text \<open>The shape every object has that was constructed and used.\<close>

definition chacha_ok :: "chacha \<Rightarrow> bool" where
  "chacha_ok s \<longleftrightarrow> m_expectedKeyLen (cc_key s) = 32 \<and> length (m_originalKey (cc_key s)) = 32 \<and>
     length (m_round_key_enc (m_rijndael (cc_key s))) = 512 \<and>
     length (m_round_key_dec (m_rijndael (cc_key s))) = 512 \<and>
     length (m_iv (cc_iv s)) = 128 \<and> m_minLen (cc_iv s) = 16 \<and> m_maxLen (cc_iv s) = 16"

lemma chacha_ok_ctor: "chacha_ok ChaCha20_ctor"
  by (simp add: chacha_ok_def ChaCha20_ctor_def KeyManager_ctor_def IvManager_ctor_def Rijndael_ctor_def)


lemma chacha_setKey:
  assumes "chacha_ok s" "length key = 32"
  shows "\<exists>s'. ChaCha20_setKey (Some key) 256 s = Some (ALC_ERROR_NONE, s') \<and> chacha_ok s' \<and>
     take 32 (m_originalKey (cc_key s')) = key \<and> cc_iv s' = cc_iv s \<and> cc_state s' = onKeySet (cc_state s)"
proof -
  have p: "aes_params 256 8 14" by (simp add: aes_params_def)
  obtain r where r: "Rijndael_setKey (Some key) 256 (m_rijndael (cc_key s)) = Some r" "keyed 8 14 key r"
    using setKey_keyed [OF p, of key "m_rijndael (cc_key s)"] assms by (auto simp: chacha_ok_def)
  then show ?thesis
    using assms by (auto simp: ChaCha20_setKey_def ValidateKey_def KeyManager_setKey_def KeyManager_setKey_with_def chacha_ok_def
      write_at_def keyed_def)
qed

lemma chacha_setIv:
  assumes "chacha_ok s" "length iv = 16"
  shows "\<exists>s'. ChaCha20_setIv (Some iv) 16 s = Some (ALC_ERROR_NONE, s') \<and> chacha_ok s' \<and>
     take 16 (m_iv (cc_iv s')) = iv \<and> cc_key s' = cc_key s \<and> cc_state s' = onIvSet (cc_state s)"
  using assms by (auto simp: ChaCha20_setIv_def ValidateIv_def IvManager_setIv_def chacha_ok_def write_at_def)

lemma chacha_init:
  assumes "chacha_ok s" "length key = 32" "length iv = 16"
  shows "\<exists>s'. ChaCha20_init (Some key) 256 (Some iv) 16 s = Some (ALC_ERROR_NONE, s') \<and> chacha_ok s' \<and>
     chacha_holds key iv s' \<and> cc_state s' = onIvSet (onKeySet (cc_state s))"
proof -
  obtain s1 where 1: "ChaCha20_setKey (Some key) 256 s = Some (ALC_ERROR_NONE, s1)" "chacha_ok s1"
    "take 32 (m_originalKey (cc_key s1)) = key" "cc_state s1 = onKeySet (cc_state s)"
    using chacha_setKey [OF assms(1,2)] by blast
  obtain s2 where 2: "ChaCha20_setIv (Some iv) 16 s1 = Some (ALC_ERROR_NONE, s2)" "chacha_ok s2"
    "take 16 (m_iv (cc_iv s2)) = iv" "cc_key s2 = cc_key s1" "cc_state s2 = onIvSet (cc_state s1)"
    using chacha_setIv [OF 1(2) assms(3)] by blast
  show ?thesis using 1 2 assms by (auto simp: ChaCha20_init_def chacha_holds_def)
qed

lemma chacha_encrypt:
  assumes "chacha_holds key iv s" "length m \<le> length out"
  shows "ChaCha256_encrypt ref_kernel (Some m) (Some out) (Some l) s
     = Some (ALC_ERROR_NONE, Some (write_at 0 (chacha20_crypt key (le_word (take 4 iv)) (drop 4 iv) m) out),
             Some (length m))"
  using assms ProcessInput_rfc [of key iv m]
  by (simp add: ChaCha256_encrypt_def ref_kernel_def chacha_holds_def Let_def)

section \<open>Properties\<close>

text \<open>C14:
  The cipher object with the portable kernel, initialised with a 256-bit key and a 16-byte IV
  (the block counter and the nonce), is ready and encrypts any message to the ChaCha20
  cipher text of RFC 8439, the counter wrapping at \<open>2 ^ 32\<close>.
\<close>

theorem ChaCha20_encrypts:
  assumes "chacha_ok s" "cc_state s \<in> {Uninitialized, KeySet, Ready}" "length key = 32" "length iv = 16"
  shows "\<exists>s'. ChaCha20_init (Some key) 256 (Some iv) 16 s = Some (ALC_ERROR_NONE, s') \<and> isReady (cc_state s') \<and>
     (\<forall>m out. length out = length m \<longrightarrow>
        ChaCha256_encrypt ref_kernel (Some m) (Some out) (Some 0) s'
          = Some (ALC_ERROR_NONE, Some (chacha20_crypt key (le_word (take 4 iv)) (drop 4 iv) m), Some (length m)))"
proof -
  obtain s' where s': "ChaCha20_init (Some key) 256 (Some iv) 16 s = Some (ALC_ERROR_NONE, s')"
    "chacha_holds key iv s'" "cc_state s' = onIvSet (onKeySet (cc_state s))"
    using chacha_init [OF assms(1,3,4)] by blast
  moreover have "isReady (cc_state s')" using assms(2) s'(3) by (auto simp: state_simps)
  ultimately show ?thesis using chacha_encrypt [OF s'(2)] by (auto simp: write_at_def)
qed

theorem ChaCha20_encrypts_witness:
  "\<exists>s'. ChaCha20_init (Some (replicate 32 1)) 256 (Some (replicate 16 2)) 16 ChaCha20_ctor = Some (ALC_ERROR_NONE, s') \<and>
     ChaCha256_encrypt ref_kernel (Some (replicate 100 7)) (Some (replicate 100 0)) (Some 0) s'
       = Some (ALC_ERROR_NONE, Some (chacha20_crypt (replicate 32 1) 0x02020202 (replicate 12 2) (replicate 100 7)), Some 100)"
proof -
  have "take 4 (replicate 16 (2 :: u8)) = [2, 2, 2, 2]" by (simp add: numeral_eq_Suc)
  then have "le_word (take 4 (replicate 16 2)) = (0x02020202 :: u32)" "drop 4 (replicate 16 (2 :: u8)) = replicate 12 2"
    by (simp_all del: take_replicate)
  then show ?thesis
    using ChaCha20_encrypts [OF chacha_ok_ctor, of "replicate 32 1" "replicate 16 2"]
    by (auto simp: ChaCha20_ctor_def)
qed

text \<open>C15:
  \<open>decrypt\<close> of what \<open>encrypt\<close> produced gives the message back; and because the object's counter
  does not move, two messages encrypted one after the other are masked with the same key
  stream: the XOR of their cipher texts is the XOR of the messages.
\<close>

theorem ChaCha20_decrypts:
  assumes "chacha_holds key iv s" "length c = length m" "length out = length m"
    "ChaCha256_encrypt ref_kernel (Some m) (Some c) (Some 0) s = Some (err, Some c1, Some l)"
    "length m2 = length m"
    "ChaCha256_encrypt ref_kernel (Some m2) (Some c) (Some 0) s = Some (err2, Some c2, Some l2)"
  shows "ChaCha256_decrypt ref_kernel (Some c1) (Some out) (Some 0) s = Some (ALC_ERROR_NONE, Some m, Some (length m)) \<and>
     map2 (XOR) c1 c2 = map2 (XOR) m m2"
proof -
  let ?f = "chacha20_crypt key (le_word (take 4 iv)) (drop 4 iv)"
  have c: "c1 = ?f m" "c2 = ?f m2"
    using chacha_encrypt [OF assms(1), of m c 0] chacha_encrypt [OF assms(1), of m2 c 0] assms
    by (auto simp: write_at_def)
  have "map2 (XOR) (?f m) (?f m2) = map2 (XOR) m m2"
    using assms(5) by (intro nth_equalityI) (simp_all add: chacha20_crypt_xor_nth ac_simps)
  then show ?thesis
    using chacha_encrypt [OF assms(1), of c1 out 0] assms(3) c
    by (simp add: ChaCha256_decrypt_def chacha20_crypt_twice write_at_def)
qed

theorem ChaCha20_decrypts_witness:
  "\<exists>s c1. ChaCha20_init (Some (replicate 32 1)) 256 (Some (replicate 16 2)) 16 ChaCha20_ctor = Some (ALC_ERROR_NONE, s) \<and>
     ChaCha256_encrypt ref_kernel (Some [1, 2, 3]) (Some [0, 0, 0]) (Some 0) s = Some (ALC_ERROR_NONE, Some c1, Some 3) \<and>
     ChaCha256_decrypt ref_kernel (Some c1) (Some [0, 0, 0]) (Some 0) s = Some (ALC_ERROR_NONE, Some [1, 2, 3], Some 3)"
proof -
  obtain s where s: "ChaCha20_init (Some (replicate 32 1)) 256 (Some (replicate 16 2)) 16 ChaCha20_ctor = Some (ALC_ERROR_NONE, s)"
    "chacha_holds (replicate 32 1) (replicate 16 2) s"
    using chacha_init [OF chacha_ok_ctor, of "replicate 32 1" "replicate 16 2"] by auto
  obtain c1 where c: "ChaCha256_encrypt ref_kernel (Some [1, 2, 3]) (Some [0, 0, 0]) (Some 0) s = Some (ALC_ERROR_NONE, Some c1, Some 3)"
    using chacha_encrypt [OF s(2), of "[1, 2, 3]" "[0, 0, 0]" 0] by auto
  show ?thesis using s(1) c ChaCha20_decrypts [OF s(2) _ _ c _ c, of "[0, 0, 0]"] by auto
qed

text \<open>What the cipher refuses, without changing its state: a missing key, or one whose length is
  not 256 bits, an IV whose length is not 16, null buffers; nothing is written then.
\<close>

theorem ChaCha20_rejects:
  "(keylen \<noteq> 256 \<longrightarrow> ChaCha20_setKey key keylen s = Some (ALC_ERROR_INVALID_ARG, s)) \<and>
   ChaCha20_setKey None keylen s = Some (ALC_ERROR_INVALID_ARG, s) \<and>
   (ivlen \<noteq> 16 \<longrightarrow> ChaCha20_setIv iv ivlen s = Some (ALC_ERROR_INVALID_ARG, s)) \<and>
   ChaCha20_setIv None ivlen s = Some (ALC_ERROR_INVALID_ARG, s) \<and>
   ChaCha20_init None 0 None ivlen s = Some (ALC_ERROR_NONE, s) \<and>
   ChaCha256_encrypt kern None out n s = Some (ALC_ERROR_INVALID_ARG, out, n) \<and>
   ChaCha256_encrypt kern inp None n s = Some (ALC_ERROR_INVALID_ARG, None, n) \<and>
   ChaCha256_encrypt kern inp out None s = Some (ALC_ERROR_INVALID_ARG, out, None)"
  by (auto simp: ChaCha20_setKey_def ChaCha20_setIv_def ValidateKey_def ValidateIv_def ChaCha20_init_def
    ChaCha256_encrypt_def alcp_is_error_def split: option.splits)

theorem ChaCha20_rejects_witness:
  "ChaCha20_setKey (Some (replicate 16 0)) 128 ChaCha20_ctor = Some (ALC_ERROR_INVALID_ARG, ChaCha20_ctor) \<and>
   ChaCha20_setIv (Some (replicate 12 0)) 12 ChaCha20_ctor = Some (ALC_ERROR_INVALID_ARG, ChaCha20_ctor)"
  using ChaCha20_rejects [of 128 "Some (replicate 16 0)" ChaCha20_ctor 12 "Some (replicate 12 0)"] by simp

end
