(* ===== verification/Chacha20_Poly1305.thy ===== *)
theory Chacha20_Poly1305 imports Poly1305_Mac Chacha20 begin

text \<open>
  The AEAD of \<^verbatim>\<open>lib/cipher/chacha20_poly1305.cc\<close>: a ChaCha20 object, a Poly1305 object and two
  64-bit counts, for any MAC with the interface \<open>one_time_mac\<close>, against RFC 8439. A buffer
  that may be null is an option; \<open>in_place\<close> says that input and output are the same memory.
\<close>

section \<open>The object\<close>

record 'p chachapoly =
  cp_chacha :: chacha
  cp_mac :: 'p
  m_poly1305_key :: "u8 list"
  m_len_input_processed :: u64
  m_len_aad_processed :: u64

definition ChaChPoly_ctor :: "'p \<Rightarrow> 'p chachapoly" where
  "ChaChPoly_ctor p =
     \<lparr>cp_chacha = ChaCha20_ctor, cp_mac = p, m_poly1305_key = replicate 32 0,
      m_len_input_processed = 0, m_len_aad_processed = 0\<rparr>"

definition ChaChPoly_setIvInternal :: "u8 list option \<Rightarrow> u64 \<Rightarrow> 'p chachapoly \<Rightarrow> (alc_error \<times> 'p chachapoly) option" where
  "ChaChPoly_setIvInternal iv ivLen s =
     (case iv of
        None \<Rightarrow> Some (ALC_ERROR_INVALID_ARG, s)
      | Some iv \<Rightarrow>
          if ivLen \<noteq> 12 then Some (ALC_ERROR_INVALID_SIZE, s)
          else
            let fullIv = replicate 4 0 @ take (unat ivLen) iv; c = cp_chacha s in do {
              (err, im) \<leftarrow> IvManager_setIv (Some fullIv) (cc_iv c);
              let c = c\<lparr>cc_iv := im\<rparr>;
                  c = (if err = ALC_ERROR_NONE then c\<lparr>cc_state := onIvSet (cc_state c)\<rparr> else c)
              in Some (err, s\<lparr>cp_chacha := c\<rparr>)
            })"

text \<open>The MAC key is the encryption, in place, of the zeroed key buffer.\<close>

definition ChaChPoly_setKeyInternal ::
  "'p mac_ops \<Rightarrow> chacha_kernel \<Rightarrow> u8 list option \<Rightarrow> u64 \<Rightarrow> 'p chachapoly \<Rightarrow> (alc_error \<times> 'p chachapoly) option" where
  "ChaChPoly_setKeyInternal V kern key keylen s = do {
     (err, c) \<leftarrow> ChaCha20_setKey key keylen (cp_chacha s);
     let s = s\<lparr>cp_chacha := c\<rparr> in
     if err \<noteq> ALC_ERROR_NONE then Some (err, s)
     else
       let zeros = replicate 32 0; s = s\<lparr>m_poly1305_key := zeros\<rparr> in do {
         (err, k, _) \<leftarrow> ChaCha256_encrypt kern (Some zeros) (Some zeros) (Some 0) c;
         let s = (case k of Some k \<Rightarrow> s\<lparr>m_poly1305_key := k\<rparr> | None \<Rightarrow> s) in
         if err \<noteq> ALC_ERROR_NONE then Some (err, s)
         else
           let s = s\<lparr>m_len_input_processed := 0, m_len_aad_processed := 0\<rparr> in do {
             (err, p) \<leftarrow> mac_init V (m_poly1305_key s) (cp_mac s);
             Some (err, s\<lparr>cp_mac := p\<rparr>)
           }
       }
   }"

definition ChaChPoly_init ::
  "'p mac_ops \<Rightarrow> chacha_kernel \<Rightarrow> u8 list option \<Rightarrow> u64 \<Rightarrow> u8 list option \<Rightarrow> u64 \<Rightarrow> 'p chachapoly \<Rightarrow>
   (alc_error \<times> 'p chachapoly) option" where
  "ChaChPoly_init V kern pKey keyLen pIv ivLen s = do {
     (err, s) \<leftarrow> ChaChPoly_setIvInternal pIv ivLen s;
     if err \<noteq> ALC_ERROR_NONE then Some (err, s) else ChaChPoly_setKeyInternal V kern pKey keyLen s
   }"

text \<open>A sequence of updates of the MAC, left at the first error.\<close>

fun mac_absorb :: "'p mac_ops \<Rightarrow> u8 list list \<Rightarrow> 'p \<Rightarrow> (alc_error \<times> 'p) option" where
  "mac_absorb V [] p = Some (ALC_ERROR_NONE, p)"
| "mac_absorb V (x # xs) p = do {
     (err, p) \<leftarrow> mac_update V x p;
     if err \<noteq> ALC_ERROR_NONE then Some (err, p) else mac_absorb V xs p
   }"

text \<open>The padding of a count to a multiple of 16; no update is made for none.\<close>

definition pad_updates :: "u64 \<Rightarrow> u8 list list" where
  "pad_updates n =
     (let padding_length = (if n mod 16 = 0 then 0 else 16 - n mod 16)
      in if padding_length \<noteq> 0 then [take (unat padding_length) (replicate 16 0)] else [])"

text \<open>\<^verbatim>\<open>encrypt\<close> and \<^verbatim>\<open>decrypt\<close> advance the block counter first, whatever happens then.\<close>

definition bump_counter :: "'p chachapoly \<Rightarrow> 'p chachapoly" where
  "bump_counter s =
     (let c = cp_chacha s; im = cc_iv c; ctr = le_word (take 4 (m_iv im)) :: u32
      in s\<lparr>cp_chacha := c\<lparr>cc_iv := im\<lparr>m_iv := write_at 0 (le_bytes 4 (ctr + 1)) (m_iv im)\<rparr>\<rparr>\<rparr>)"

definition ChaChPoly_encrypt ::
  "'p mac_ops \<Rightarrow> chacha_kernel \<Rightarrow> u8 list option \<Rightarrow> u8 list option \<Rightarrow> nat option \<Rightarrow> 'p chachapoly \<Rightarrow>
   (alc_error \<times> 'p chachapoly \<times> u8 list option \<times> nat option) option" where
  "ChaChPoly_encrypt V kern inputBuffer outputBuffer outlen s = (
     let s = bump_counter s in do {
       (err, out, _) \<leftarrow> ChaCha256_encrypt kern inputBuffer outputBuffer (Some 0) (cp_chacha s);
       if err \<noteq> ALC_ERROR_NONE then Some (err, s, out, outlen)
       else
         let bufferLength = length (the inputBuffer);
             outlen = map_option (\<lambda>_. bufferLength) outlen;
             s = s\<lparr>m_len_input_processed := m_len_input_processed s + of_nat bufferLength\<rparr>
         in do {
           (err, p) \<leftarrow> mac_absorb V (pad_updates (m_len_aad_processed s) @ [take bufferLength (the out)]
              @ pad_updates (m_len_input_processed s)
              @ [le_bytes 8 (m_len_aad_processed s), le_bytes 8 (m_len_input_processed s)]) (cp_mac s);
           Some (err, s\<lparr>cp_mac := p\<rparr>, out, outlen)
         }
     })"

text \<open>
  \<^verbatim>\<open>decrypt\<close> reads the input again for the MAC, after the cipher has written the output.
\<close>

definition ChaChPoly_decrypt ::
  "'p mac_ops \<Rightarrow> chacha_kernel \<Rightarrow> bool \<Rightarrow> u8 list option \<Rightarrow> u8 list option \<Rightarrow> nat option \<Rightarrow> 'p chachapoly \<Rightarrow>
   (alc_error \<times> 'p chachapoly \<times> u8 list option \<times> nat option) option" where
  "ChaChPoly_decrypt V kern in_place inputBuffer outputBuffer outlen s = (
     let s = bump_counter s in do {
       (err, out, _) \<leftarrow> ChaCha256_encrypt kern inputBuffer outputBuffer (Some 0) (cp_chacha s);
       if err \<noteq> ALC_ERROR_NONE then Some (err, s, out, outlen)
       else
         let bufferLength = length (the inputBuffer);
             outlen = map_option (\<lambda>_. bufferLength) outlen;
             inputBuffer = (if in_place then out else inputBuffer);
             s = s\<lparr>m_len_input_processed := m_len_input_processed s + of_nat bufferLength\<rparr>
         in do {
           (err, p) \<leftarrow> mac_absorb V (pad_updates (m_len_aad_processed s) @ [take bufferLength (the inputBuffer)]
              @ pad_updates (m_len_input_processed s)
              @ [le_bytes 8 (m_len_aad_processed s), le_bytes 8 (m_len_input_processed s)]) (cp_mac s);
           Some (err, s\<lparr>cp_mac := p\<rparr>, out, outlen)
         }
     })"

definition ChaChPoly_setAad ::
  "'p mac_ops \<Rightarrow> u8 list option \<Rightarrow> u64 \<Rightarrow> 'p chachapoly \<Rightarrow> (alc_error \<times> 'p chachapoly) option" where
  "ChaChPoly_setAad V pInput len s =
     (case pInput of
        None \<Rightarrow> Some (if len > 0 then ALC_ERROR_INVALID_ARG else ALC_ERROR_NONE, s)
      | Some x \<Rightarrow> do {
          (err, p) \<leftarrow> mac_update V (take (unat len) x) (cp_mac s);
          let s = s\<lparr>cp_mac := p\<rparr>
          in Some (err, if err \<noteq> ALC_ERROR_NONE then s else s\<lparr>m_len_aad_processed := m_len_aad_processed s + len\<rparr>)
        })"

definition ChaChPoly_getTag ::
  "'p mac_ops \<Rightarrow> u8 list option \<Rightarrow> 'p chachapoly \<Rightarrow> (alc_error \<times> 'p chachapoly \<times> u8 list option) option" where
  "ChaChPoly_getTag V pOutput s =
     (case pOutput of
        None \<Rightarrow> Some (ALC_ERROR_INVALID_ARG, s, None)
      | Some out \<Rightarrow> do {
          (err, p, out) \<leftarrow> mac_finalize V out (cp_mac s);
          Some (err, s\<lparr>cp_mac := p\<rparr>, Some out)
        })"

definition ChaChPoly_setTagLength :: "u64 \<Rightarrow> alc_error" where
  "ChaChPoly_setTagLength tagLength = (if tagLength \<noteq> 16 then ALC_ERROR_INVALID_SIZE else ALC_ERROR_NONE)"

section \<open>RFC 8439\<close>

definition rfc_otk :: "u8 list \<Rightarrow> u8 list \<Rightarrow> u8 list" where
  "rfc_otk key nonce = take 32 (chacha20_block key 0 nonce)"

definition pad16 :: "nat \<Rightarrow> u8 list" where
  "pad16 n = replicate ((16 - n mod 16) mod 16) 0"

definition rfc_mac_data :: "u8 list \<Rightarrow> u8 list \<Rightarrow> u8 list" where
  "rfc_mac_data aad ct = aad @ pad16 (length aad) @ ct @ pad16 (length ct)
     @ le_bytes 8 (of_nat (length aad) :: u64) @ le_bytes 8 (of_nat (length ct) :: u64)"

definition rfc_aead_tag :: "u8 list \<Rightarrow> u8 list \<Rightarrow> u8 list \<Rightarrow> u8 list \<Rightarrow> u8 list" where
  "rfc_aead_tag key nonce aad ct = poly1305_spec (rfc_otk key nonce) (rfc_mac_data aad ct)"

definition rfc_aead_crypt :: "u8 list \<Rightarrow> u8 list \<Rightarrow> u8 list \<Rightarrow> u8 list" where
  "rfc_aead_crypt key nonce m = chacha20_crypt key 1 nonce m"

section \<open>The padding and the counter\<close>

lemma concat_pad_updates: "concat (pad_updates (of_nat n)) = pad16 n"
proof -
  have m: "unat ((of_nat n :: u64) mod 16) = n mod 16"
    by (simp add: unat_mod unat_of_nat mod_mod_cancel)
  have d: "n mod 16 \<noteq> 0 \<Longrightarrow> unat (16 - (of_nat n :: u64) mod 16) = 16 - n mod 16"
    using m by (subst unat_sub) (simp_all add: word_le_nat_alt)
  have z: "(of_nat n :: u64) mod 16 = 0 \<longleftrightarrow> n mod 16 = 0"
    using m by (metis unat_0 unat_eq_zero)
  show ?thesis
  proof (cases "n mod 16 = 0")
    case False
    then have "(16 - (of_nat n :: u64) mod 16) \<noteq> 0" using d by (metis diff_is_0_eq less_irrefl_nat mod_less_divisor not_le unat_0 zero_less_numeral)
    then show ?thesis using False d z by (simp add: pad_updates_def pad16_def Let_def min_def)
  qed (simp add: pad_updates_def pad16_def z)
qed

lemma chacha20_crypt_zero: "chacha20_crypt key 0 nonce (replicate 32 0) = rfc_otk key nonce"
proof -
  have z: "map2 (XOR) (replicate 32 0) k = take 32 k" for k :: "u8 list"
    by (rule nth_equalityI) simp_all
  show ?thesis
    by (subst chacha20_crypt.simps) (simp add: z rfc_otk_def chacha20_crypt.simps [of _ _ _ "[]"])
qed


lemma CopyBlock_same: "length x = length y \<Longrightarrow> CopyBlock x 0 y = Some y"
  by (simp add: write_at_def)

lemma bump_counter_holds:
  assumes "chacha_ok (cp_chacha s)" "chacha_holds key (le_bytes 4 (c :: u32) @ nonce) (cp_chacha s)" "length nonce = 12"
  shows "chacha_ok (cp_chacha (bump_counter s)) \<and>
     chacha_holds key (le_bytes 4 (c + 1) @ nonce) (cp_chacha (bump_counter s)) \<and>
     cp_mac (bump_counter s) = cp_mac s \<and> m_len_input_processed (bump_counter s) = m_len_input_processed s \<and>
     m_len_aad_processed (bump_counter s) = m_len_aad_processed s"
proof -
  let ?iv = "m_iv (cc_iv (cp_chacha s))"
  have iv: "take 16 ?iv = le_bytes 4 c @ nonce" "length ?iv = 128"
    using assms by (simp_all add: chacha_holds_def chacha_ok_def)
  have "take 4 ?iv = take 4 (take 16 ?iv)" by simp
  then have t: "take 4 ?iv = le_bytes 4 c" unfolding iv by simp
  have "take 16 (write_at 0 (le_bytes 4 (c + 1)) ?iv) = le_bytes 4 (c + 1) @ drop 4 (take 16 ?iv)"
    using iv(2) by (simp add: write_at_def drop_take)
  then show ?thesis
    using assms iv t by (auto simp: bump_counter_def Let_def chacha_holds_def chacha_ok_def le_word_le_bytes)
qed

section \<open>The AEAD over any one-time MAC\<close>

context one_time_mac
begin

lemma mac_absorb_holds:
  "holds k m p \<Longrightarrow> \<exists>p'. mac_absorb V xs p = Some (ALC_ERROR_NONE, p') \<and> holds k (m @ concat xs) p'"
proof (induction xs arbitrary: m p)
  case (Cons x xs)
  then obtain q where q: "mac_update V x p = Some (ALC_ERROR_NONE, q)" "holds k (m @ x) q"
    using mac_update_holds by blast
  from Cons.IH [OF q(2)] show ?case by (auto simp: q(1))
qed simp

text \<open>What the object holds between calls: its counter, the MAC input so far, and the counts.\<close>

definition aead_st :: "u8 list \<Rightarrow> u8 list \<Rightarrow> u32 \<Rightarrow> u8 list \<Rightarrow> nat \<Rightarrow> nat \<Rightarrow> 'p chachapoly \<Rightarrow> bool" where
  "aead_st key nonce c d a n s \<longleftrightarrow> length nonce = 12 \<and> chacha_ok (cp_chacha s) \<and>
     chacha_holds key (le_bytes 4 c @ nonce) (cp_chacha s) \<and>
     holds (rfc_otk key nonce) d (cp_mac s) \<and> m_len_aad_processed s = of_nat a \<and> m_len_input_processed s = of_nat n"

lemma aead_init:
  assumes "chacha_ok (cp_chacha s)" "ok (cp_mac s)" "length key = 32" "length nonce = 12"
  shows "\<exists>s'. ChaChPoly_init V ref_kernel (Some key) 256 (Some nonce) 12 s = Some (ALC_ERROR_NONE, s') \<and>
     aead_st key nonce 0 [] 0 0 s'"
proof -
  let ?iv = "replicate 4 0 @ nonce"
  let ?c = "cp_chacha s"
  obtain c1 where c1: "ChaCha20_setIv (Some ?iv) 16 ?c = Some (ALC_ERROR_NONE, c1)" "chacha_ok c1"
    "take 16 (m_iv (cc_iv c1)) = ?iv"
    using chacha_setIv [OF assms(1), of ?iv] assms(4) by auto
  have i: "ChaChPoly_setIvInternal (Some nonce) 12 s = Some (ALC_ERROR_NONE, s\<lparr>cp_chacha := c1\<rparr>)"
    using c1(1) assms(4) by (auto simp: ChaChPoly_setIvInternal_def ChaCha20_setIv_def ValidateIv_def Let_def
      alcp_is_error_def bind_eq_Some_conv split: if_splits)
  obtain c2 where c2: "ChaCha20_setKey (Some key) 256 c1 = Some (ALC_ERROR_NONE, c2)" "chacha_ok c2"
    "take 32 (m_originalKey (cc_key c2)) = key" "cc_iv c2 = cc_iv c1"
    using chacha_setKey [OF c1(2) assms(3)] by blast
  have h: "chacha_holds key ?iv c2" using c1 c2 assms by (simp add: chacha_holds_def)
  have lk: "length (rfc_otk key nonce) = 32" by (simp add: rfc_otk_def)
  have z: "le_word (replicate 4 0) = (0 :: u32)" using le_word_le_bytes [of 4 "0 :: u32"] by simp
  have e: "ChaCha256_encrypt ref_kernel (Some (replicate 32 0)) (Some (replicate 32 0)) (Some 0) c2
      = Some (ALC_ERROR_NONE, Some (rfc_otk key nonce), Some 32)"
    using chacha_encrypt [OF h, of "replicate 32 0" "replicate 32 0" 0]
    by (simp add: z chacha20_crypt_zero write_at_def lk)
  obtain p where "mac_init V (rfc_otk key nonce) (cp_mac s) = Some (ALC_ERROR_NONE, p)" "holds (rfc_otk key nonce) [] p"
    using mac_init_holds [OF assms(2) lk] by blast
  then show ?thesis
    using c2(2) h assms(4)
    by (simp add: ChaChPoly_init_def i ChaChPoly_setKeyInternal_def c2(1) e aead_st_def)
qed

lemma aead_aad:
  assumes "aead_st key nonce c d a n s" "length x < 2 ^ 64"
  shows "\<exists>s'. ChaChPoly_setAad V (Some x) (of_nat (length x)) s = Some (ALC_ERROR_NONE, s') \<and>
    aead_st key nonce c (d @ x) (a + length x) n s'"
proof -
  have u: "unat (of_nat (length x) :: u64) = length x" using assms(2) by (simp add: unat_of_nat)
  obtain p where "mac_update V x (cp_mac s) = Some (ALC_ERROR_NONE, p)" "holds (rfc_otk key nonce) (d @ x) p"
    using mac_update_holds assms(1) unfolding aead_st_def by blast
  then show ?thesis using assms(1) by (auto simp: ChaChPoly_setAad_def aead_st_def u)
qed

text \<open>What both directions add to the MAC input: \<open>x\<close> is the message or the cipher text.\<close>

definition mac_part :: "nat \<Rightarrow> nat \<Rightarrow> u8 list \<Rightarrow> u8 list" where
  "mac_part a n x = pad16 a @ x @ pad16 (n + length x) @ le_bytes 8 (of_nat a :: u64)
     @ le_bytes 8 (of_nat (n + length x) :: u64)"

lemma aead_cipher:
  assumes "aead_st key nonce c d a n s" "length out = length m"
  shows "\<exists>s'. ChaChPoly_encrypt V ref_kernel (Some m) (Some out) ol s
      = Some (ALC_ERROR_NONE, s', Some (chacha20_crypt key (c + 1) nonce m), map_option (\<lambda>_. length m) ol) \<and>
    aead_st key nonce (c + 1) (d @ mac_part a n (chacha20_crypt key (c + 1) nonce m)) a (n + length m) s'"
    and "\<exists>s'. ChaChPoly_decrypt V ref_kernel in_place (Some m) (Some out) ol s
      = Some (ALC_ERROR_NONE, s', Some (chacha20_crypt key (c + 1) nonce m), map_option (\<lambda>_. length m) ol) \<and>
    aead_st key nonce (c + 1)
      (d @ mac_part a n (if in_place then chacha20_crypt key (c + 1) nonce m else m)) a (n + length m) s'"
proof -
  let ?b = "bump_counter s" and ?ct = "chacha20_crypt key (c + 1) nonce m"
  have b: "chacha_ok (cp_chacha ?b)" "chacha_holds key (le_bytes 4 (c + 1) @ nonce) (cp_chacha ?b)"
    "cp_mac ?b = cp_mac s" "m_len_input_processed ?b = of_nat n" "m_len_aad_processed ?b = of_nat a"
    "length nonce = 12" "holds (rfc_otk key nonce) d (cp_mac s)"
    using bump_counter_holds [of s key c nonce] assms(1) by (auto simp: aead_st_def)
  have e: "ChaCha256_encrypt ref_kernel (Some m) (Some out) (Some 0) (cp_chacha ?b) = Some (ALC_ERROR_NONE, Some ?ct, Some (length m))"
    using chacha_encrypt [OF b(2), of m out 0] assms(2) by (simp add: le_word_le_bytes write_at_def)
  have l: "of_nat n + of_nat (length m) = (of_nat (n + length m) :: u64)" by simp
  have A: "\<exists>p. mac_absorb V (pad_updates (of_nat a) @ [x] @ pad_updates (of_nat (n + length m)) @
      [le_bytes 8 (of_nat a :: u64), le_bytes 8 (of_nat (n + length m) :: u64)]) (cp_mac s) = Some (ALC_ERROR_NONE, p) \<and>
      holds (rfc_otk key nonce) (d @ mac_part a n x) p" if "length x = length m" for x
    using mac_absorb_holds [OF b(7), of "pad_updates (of_nat a) @ [x] @ pad_updates (of_nat (n + length m)) @
      [le_bytes 8 (of_nat a :: u64), le_bytes 8 (of_nat (n + length m) :: u64)]"] that
    by (simp add: concat_pad_updates mac_part_def del: of_nat_add)
  show "\<exists>s'. ChaChPoly_encrypt V ref_kernel (Some m) (Some out) ol s
      = Some (ALC_ERROR_NONE, s', Some ?ct, map_option (\<lambda>_. length m) ol) \<and>
    aead_st key nonce (c + 1) (d @ mac_part a n ?ct) a (n + length m) s'"
    using A [of ?ct] b unfolding aead_st_def ChaChPoly_encrypt_def Let_def e
    by (auto simp: l simp del: of_nat_add)
  show "\<exists>s'. ChaChPoly_decrypt V ref_kernel in_place (Some m) (Some out) ol s
      = Some (ALC_ERROR_NONE, s', Some ?ct, map_option (\<lambda>_. length m) ol) \<and>
    aead_st key nonce (c + 1) (d @ mac_part a n (if in_place then ?ct else m)) a (n + length m) s'"
    using A [of "if in_place then ?ct else m"] b unfolding aead_st_def ChaChPoly_decrypt_def Let_def e
    by (auto simp: l simp del: of_nat_add)
qed

lemma aead_tag:
  assumes "aead_st key nonce c d a n s" "length tg = 16"
  shows "\<exists>s'. ChaChPoly_getTag V (Some tg) s
    = Some (ALC_ERROR_NONE, s', Some (poly1305_spec (rfc_otk key nonce) d)) \<and>
    chacha_ok (cp_chacha s') \<and> (16 dvd length d \<longrightarrow> ok (cp_mac s'))"
proof -
  obtain p where "mac_finalize V tg (cp_mac s) = Some (ALC_ERROR_NONE, p, poly1305_spec (rfc_otk key nonce) d)"
    "16 dvd length d \<longrightarrow> ok p"
    using mac_finalize_spec [OF _ assms(2)] assms(1) unfolding aead_st_def by blast
  then show ?thesis using assms(1) by (auto simp: ChaChPoly_getTag_def aead_st_def)
qed

end


section \<open>The AEAD with the reference MAC\<close>

text \<open>
  On machines below Zen 4 the dynamic MAC object behaves as the reference one, so the lemmas
  above apply to it through the interpretation \<open>ref_mac\<close>.
\<close>

lemma dynamic_ops:
  "arch_rank arch < arch_rank eZen4 \<Longrightarrow> Poly1305_ops Z eDynamic arch = Poly1305_ops Z eReference arch"
  by (intro mac_ops.equality)
    (simp_all add: Poly1305_ops_def fun_eq_iff Poly1305_init_def Poly1305_update_def Poly1305_finalize_def ref_path)

definition aead_ok :: "'z poly1305_mac chachapoly \<Rightarrow> bool" where
  "aead_ok s \<longleftrightarrow> chacha_ok (cp_chacha s) \<and> ref_mac_ok (cp_mac s)"

abbreviation "AeadOps Z arch \<equiv> Poly1305_ops Z eDynamic arch"

definition aead_new :: "'z radix44_ops \<Rightarrow> arch_level \<Rightarrow> 'z poly1305_mac chachapoly" where
  "aead_new Z arch = ChaChPoly_ctor (Poly1305_ctor Z eDynamic arch)"

lemma aead_ok_new: "arch_rank arch < arch_rank eZen4 \<Longrightarrow> aead_ok (aead_new Z arch)"
  using ref_mac_ok_ctor [OF ref_path(1)]
  by (simp add: aead_ok_def aead_new_def ChaChPoly_ctor_def chacha_ok_ctor)

lemma mac_data_part: "x @ ref_mac.mac_part (length x) 0 ct = rfc_mac_data x ct"
  by (simp add: ref_mac.mac_part_def rfc_mac_data_def)

lemma rfc_mac_data_whole: "16 dvd length (rfc_mac_data aad ct)"
proof -
  have p: "16 dvd n + length (pad16 n)" for n
  proof (cases "n mod 16 = 0")
    case False
    have "n + (16 - n mod 16) = 16 * (n div 16) + 16"
      using mult_div_mod_eq [of 16 n] mod_less_divisor [of 16 n] by linarith
    then show ?thesis using False by (simp add: pad16_def)
  qed (simp add: pad16_def dvd_eq_mod_eq_0)
  have "length (rfc_mac_data aad ct)
      = (length aad + length (pad16 (length aad))) + (length ct + length (pad16 (length ct))) + 16"
    by (simp add: rfc_mac_data_def)
  then show ?thesis using p [of "length aad"] p [of "length ct"] by simp
qed

lemma aead_open_run:
  assumes "arch_rank arch < arch_rank eZen4" "aead_ok s" "length key = 32" "length nonce = 12" "length aad < 2 ^ 64"
  shows "\<exists>s1 s2. ChaChPoly_init (AeadOps Z arch) ref_kernel (Some key) 256 (Some nonce) 12 s = Some (ALC_ERROR_NONE, s1) \<and>
     ChaChPoly_setAad (AeadOps Z arch) (Some aad) (of_nat (length aad)) s1 = Some (ALC_ERROR_NONE, s2) \<and>
     ref_mac.aead_st key nonce 0 aad (length aad) 0 s2"
proof -
  have ok: "chacha_ok (cp_chacha s)" "ref_mac_ok (cp_mac s)" using assms(2) by (simp_all add: aead_ok_def)
  obtain s1 where 1: "ChaChPoly_init (AeadOps Z arch) ref_kernel (Some key) 256 (Some nonce) 12 s = Some (ALC_ERROR_NONE, s1)"
    "ref_mac.aead_st key nonce 0 [] 0 0 s1"
    using ref_mac.aead_init [OF ok assms(3,4)] unfolding dynamic_ops [OF assms(1)] by blast
  show ?thesis using 1 ref_mac.aead_aad [OF 1(2) assms(5)] unfolding dynamic_ops [OF assms(1)] by auto
qed

section \<open>Properties\<close>

text \<open>C16:
  Sealing: an object initialised with a 256-bit key and a 12-byte nonce, given the additional
  data and then the message in one call, produces the cipher text and the tag of RFC 8439,
  and may be initialised again.
\<close>

theorem ChaChPoly_seals:
  assumes "arch_rank arch < arch_rank eZen4" "aead_ok s" "length key = 32" "length nonce = 12" "length aad < 2 ^ 64"
    "length out = length m" "length tg = 16"
  shows "\<exists>s1 s2 s3 s4. ChaChPoly_init (AeadOps Z arch) ref_kernel (Some key) 256 (Some nonce) 12 s = Some (ALC_ERROR_NONE, s1) \<and>
     ChaChPoly_setAad (AeadOps Z arch) (Some aad) (of_nat (length aad)) s1 = Some (ALC_ERROR_NONE, s2) \<and>
     ChaChPoly_encrypt (AeadOps Z arch) ref_kernel (Some m) (Some out) ol s2
       = Some (ALC_ERROR_NONE, s3, Some (rfc_aead_crypt key nonce m), map_option (\<lambda>_. length m) ol) \<and>
     ChaChPoly_getTag (AeadOps Z arch) (Some tg) s3
       = Some (ALC_ERROR_NONE, s4, Some (rfc_aead_tag key nonce aad (rfc_aead_crypt key nonce m))) \<and>
     aead_ok s4"
proof -
  obtain s1 s2 where 1: "ChaChPoly_init (AeadOps Z arch) ref_kernel (Some key) 256 (Some nonce) 12 s = Some (ALC_ERROR_NONE, s1)"
    "ChaChPoly_setAad (AeadOps Z arch) (Some aad) (of_nat (length aad)) s1 = Some (ALC_ERROR_NONE, s2)"
    and h: "ref_mac.aead_st key nonce 0 aad (length aad) 0 s2"
    using aead_open_run [OF assms(1-5)] by blast
  obtain s3 where 3: "ChaChPoly_encrypt (AeadOps Z arch) ref_kernel (Some m) (Some out) ol s2
       = Some (ALC_ERROR_NONE, s3, Some (rfc_aead_crypt key nonce m), map_option (\<lambda>_. length m) ol)"
    "ref_mac.aead_st key nonce 1 (rfc_mac_data aad (rfc_aead_crypt key nonce m)) (length aad) (length m) s3"
    using ref_mac.aead_cipher(1) [OF h assms(6), of Z arch ol] unfolding dynamic_ops [OF assms(1)]
    by (auto simp: mac_data_part rfc_aead_crypt_def)
  show ?thesis using 1 3(1) ref_mac.aead_tag [OF 3(2) assms(7), of Z arch] rfc_mac_data_whole
    unfolding dynamic_ops [OF assms(1)] by (auto simp: rfc_aead_tag_def aead_ok_def)
qed

theorem ChaChPoly_seals_witness:
  "\<exists>s1 s2 s3 s4. ChaChPoly_init (AeadOps no_radix44 eZen3) ref_kernel (Some (replicate 32 1)) 256 (Some (replicate 12 2)) 12
       (aead_new no_radix44 eZen3) = Some (ALC_ERROR_NONE, s1) \<and>
     ChaChPoly_setAad (AeadOps no_radix44 eZen3) (Some [9]) 1 s1 = Some (ALC_ERROR_NONE, s2) \<and>
     ChaChPoly_encrypt (AeadOps no_radix44 eZen3) ref_kernel (Some [1, 2]) (Some [0, 0]) None s2
       = Some (ALC_ERROR_NONE, s3, Some (rfc_aead_crypt (replicate 32 1) (replicate 12 2) [1, 2]), None) \<and>
     ChaChPoly_getTag (AeadOps no_radix44 eZen3) (Some (replicate 16 0)) s3 = Some (ALC_ERROR_NONE, s4,
       Some (rfc_aead_tag (replicate 32 1) (replicate 12 2) [9] (rfc_aead_crypt (replicate 32 1) (replicate 12 2) [1, 2])))"
  using ChaChPoly_seals [of eZen3 "aead_new no_radix44 eZen3" "replicate 32 1" "replicate 12 2" "[9]" "[0, 0]" "[1, 2]"
      "replicate 16 0" no_radix44 None] aead_ok_new [of eZen3 no_radix44] by fastforce

text \<open>C17:
  Opening the sealed message with the same key, nonce and additional data, into a buffer of
  its own, gives the message and the same tag; in place, the MAC reads the buffer after it was
  decrypted, so the tag is that of the plain text taken as cipher text.
\<close>

theorem ChaChPoly_opens:
  assumes "arch_rank arch < arch_rank eZen4" "aead_ok s" "length key = 32" "length nonce = 12" "length aad < 2 ^ 64"
    "ct = rfc_aead_crypt key nonce m" "length out = length m" "length tg = 16"
  shows "\<exists>s1 s2 s3 s4. ChaChPoly_init (AeadOps Z arch) ref_kernel (Some key) 256 (Some nonce) 12 s = Some (ALC_ERROR_NONE, s1) \<and>
     ChaChPoly_setAad (AeadOps Z arch) (Some aad) (of_nat (length aad)) s1 = Some (ALC_ERROR_NONE, s2) \<and>
     ChaChPoly_decrypt (AeadOps Z arch) ref_kernel in_place (Some ct) (Some out) ol s2
       = Some (ALC_ERROR_NONE, s3, Some m, map_option (\<lambda>_. length m) ol) \<and>
     ChaChPoly_getTag (AeadOps Z arch) (Some tg) s3
       = Some (ALC_ERROR_NONE, s4, Some (rfc_aead_tag key nonce aad (if in_place then m else ct)))"
proof -
  have l: "length out = length ct" and m: "chacha20_crypt key (0 + 1) nonce ct = m"
    using assms by (simp_all add: rfc_aead_crypt_def chacha20_crypt_twice)
  obtain s1 s2 where 1: "ChaChPoly_init (AeadOps Z arch) ref_kernel (Some key) 256 (Some nonce) 12 s = Some (ALC_ERROR_NONE, s1)"
    "ChaChPoly_setAad (AeadOps Z arch) (Some aad) (of_nat (length aad)) s1 = Some (ALC_ERROR_NONE, s2)"
    and h: "ref_mac.aead_st key nonce 0 aad (length aad) 0 s2"
    using aead_open_run [OF assms(1-5)] by blast
  obtain s3 where 3: "ChaChPoly_decrypt (AeadOps Z arch) ref_kernel in_place (Some ct) (Some out) ol s2
       = Some (ALC_ERROR_NONE, s3, Some m, map_option (\<lambda>_. length m) ol)"
    "ref_mac.aead_st key nonce (0 + 1) (rfc_mac_data aad (if in_place then m else ct)) (length aad) (0 + length ct) s3"
    using ref_mac.aead_cipher(2) [OF h l, of Z arch in_place ol] l assms(7) unfolding dynamic_ops [OF assms(1)] m mac_data_part
    by auto
  show ?thesis using 1 3(1) ref_mac.aead_tag [OF 3(2) assms(8), of Z arch]
    unfolding dynamic_ops [OF assms(1)] by (auto simp: rfc_aead_tag_def)
qed

theorem ChaChPoly_opens_witness:
  "\<exists>s1 s2 s3 s4. ChaChPoly_init (AeadOps no_radix44 eZen) ref_kernel (Some (replicate 32 1)) 256 (Some (replicate 12 2)) 12
       (aead_new no_radix44 eZen) = Some (ALC_ERROR_NONE, s1) \<and>
     ChaChPoly_setAad (AeadOps no_radix44 eZen) (Some []) 0 s1 = Some (ALC_ERROR_NONE, s2) \<and>
     ChaChPoly_decrypt (AeadOps no_radix44 eZen) ref_kernel True
       (Some (rfc_aead_crypt (replicate 32 1) (replicate 12 2) [5])) (Some [0]) None s2 = Some (ALC_ERROR_NONE, s3, Some [5], None) \<and>
     ChaChPoly_getTag (AeadOps no_radix44 eZen) (Some (replicate 16 0)) s3
       = Some (ALC_ERROR_NONE, s4, Some (rfc_aead_tag (replicate 32 1) (replicate 12 2) [] [5]))"
  using ChaChPoly_opens [of eZen "aead_new no_radix44 eZen" "replicate 32 1" "replicate 12 2" "[]"
      "rfc_aead_crypt (replicate 32 1) (replicate 12 2) [5]" "[5]" "[0]" "replicate 16 0" no_radix44 True None]
    aead_ok_new [of eZen no_radix44] by fastforce

text \<open>C18:
  Two calls of \<open>encrypt\<close> are not one call on the two parts: the counter moves by one per call,
  so when the first part has more than one block, the second part is masked with key stream
  that the first part already used, and the XOR of the two cipher texts there is the XOR of
  the plain texts.
\<close>

theorem ChaChPoly_two_calls_reuse_key_stream:
  assumes "arch_rank arch < arch_rank eZen4" "aead_ok s" "length key = 32" "length nonce = 12" "length aad < 2 ^ 64"
    "length m1 = 64 + length m2" "length o1 = length m1" "length o2 = length m2"
  shows "\<exists>s1 s2 s3 s4 c1 c2. ChaChPoly_init (AeadOps Z arch) ref_kernel (Some key) 256 (Some nonce) 12 s = Some (ALC_ERROR_NONE, s1) \<and>
     ChaChPoly_setAad (AeadOps Z arch) (Some aad) (of_nat (length aad)) s1 = Some (ALC_ERROR_NONE, s2) \<and>
     ChaChPoly_encrypt (AeadOps Z arch) ref_kernel (Some m1) (Some o1) None s2 = Some (ALC_ERROR_NONE, s3, Some c1, None) \<and>
     ChaChPoly_encrypt (AeadOps Z arch) ref_kernel (Some m2) (Some o2) None s3 = Some (ALC_ERROR_NONE, s4, Some c2, None) \<and>
     map2 (XOR) (drop 64 c1) c2 = map2 (XOR) (drop 64 m1) m2"
proof -
  let ?c1 = "chacha20_crypt key (0 + 1) nonce m1" and ?c2 = "chacha20_crypt key (0 + 1 + 1) nonce m2"
  obtain s1 s2 where 1: "ChaChPoly_init (AeadOps Z arch) ref_kernel (Some key) 256 (Some nonce) 12 s = Some (ALC_ERROR_NONE, s1)"
    "ChaChPoly_setAad (AeadOps Z arch) (Some aad) (of_nat (length aad)) s1 = Some (ALC_ERROR_NONE, s2)"
    and h: "ref_mac.aead_st key nonce 0 aad (length aad) 0 s2"
    using aead_open_run [OF assms(1-5)] by blast
  obtain s3 d n where 3: "ChaChPoly_encrypt (AeadOps Z arch) ref_kernel (Some m1) (Some o1) None s2
       = Some (ALC_ERROR_NONE, s3, Some ?c1, None)" "ref_mac.aead_st key nonce (0 + 1) d (length aad) n s3"
    using ref_mac.aead_cipher(1) [OF h assms(7), of Z arch None] unfolding dynamic_ops [OF assms(1)] by force
  obtain s4 where 4: "ChaChPoly_encrypt (AeadOps Z arch) ref_kernel (Some m2) (Some o2) None s3
       = Some (ALC_ERROR_NONE, s4, Some ?c2, None)"
    using ref_mac.aead_cipher(1) [OF 3(2) assms(8), of Z arch None] unfolding dynamic_ops [OF assms(1)] by force
  have "map2 (XOR) (drop 64 ?c1) ?c2 = map2 (XOR) (drop 64 m1) m2"
  proof (rule nth_equalityI)
    fix i assume "i < length (map2 (XOR) (drop 64 ?c1) ?c2)"
    moreover have "(i + 64) div 64 = Suc (i div 64)" by simp
    ultimately show "map2 (XOR) (drop 64 ?c1) ?c2 ! i = map2 (XOR) (drop 64 m1) m2 ! i"
      using assms(6) by (simp add: chacha20_crypt_xor_nth ac_simps)
  qed (use assms(6) in simp)
  then show ?thesis using 1 3(1) 4 by blast
qed

theorem ChaChPoly_two_calls_reuse_key_stream_witness:
  "\<exists>s1 s2 s3 s4 c1 c2. ChaChPoly_init (AeadOps no_radix44 eZen) ref_kernel (Some (replicate 32 1)) 256 (Some (replicate 12 2)) 12
       (aead_new no_radix44 eZen) = Some (ALC_ERROR_NONE, s1) \<and>
     ChaChPoly_setAad (AeadOps no_radix44 eZen) (Some []) 0 s1 = Some (ALC_ERROR_NONE, s2) \<and>
     ChaChPoly_encrypt (AeadOps no_radix44 eZen) ref_kernel (Some (replicate 65 3)) (Some (replicate 65 0)) None s2
       = Some (ALC_ERROR_NONE, s3, Some c1, None) \<and>
     ChaChPoly_encrypt (AeadOps no_radix44 eZen) ref_kernel (Some [7]) (Some [0]) None s3 = Some (ALC_ERROR_NONE, s4, Some c2, None) \<and>
     map2 (XOR) (drop 64 c1) c2 = [4]"
  using ChaChPoly_two_calls_reuse_key_stream [of eZen "aead_new no_radix44 eZen" "replicate 32 1" "replicate 12 2" "[]"
      "replicate 65 3" "[7]" "replicate 65 0" "[0]" no_radix44]
    aead_ok_new [of eZen no_radix44] by fastforce

text \<open>What the AEAD refuses: no nonce, a nonce whose length is not 12, a key whose length is not
  256 bits (the nonce is kept then), a tag length other than 16. Encryption without a buffer fails, and still
  advances the block counter, so that the next call is masked with another key stream.
\<close>

theorem ChaChPoly_rejects:
  "ChaChPoly_init V kern key keylen None ivlen s = Some (ALC_ERROR_INVALID_ARG, s) \<and>
   (ivlen \<noteq> 12 \<longrightarrow> ChaChPoly_init V kern key keylen (Some iv) ivlen s = Some (ALC_ERROR_INVALID_SIZE, s)) \<and>
   (length iv = 12 \<and> chacha_ok (cp_chacha s) \<and> keylen \<noteq> 256 \<longrightarrow>
      (\<exists>s'. ChaChPoly_init V kern key keylen (Some iv) 12 s = Some (ALC_ERROR_INVALID_ARG, s') \<and>
         take 16 (m_iv (cc_iv (cp_chacha s'))) = replicate 4 0 @ iv)) \<and>
   ChaChPoly_encrypt V kern None out outlen s = Some (ALC_ERROR_INVALID_ARG, bump_counter s, out, outlen) \<and>
   ChaChPoly_decrypt V kern in_place inp None outlen s = Some (ALC_ERROR_INVALID_ARG, bump_counter s, None, outlen) \<and>
   (len > 0 \<longrightarrow> ChaChPoly_setAad V None len s = Some (ALC_ERROR_INVALID_ARG, s)) \<and>
   ChaChPoly_getTag V None s = Some (ALC_ERROR_INVALID_ARG, s, None) \<and>
   (ChaChPoly_setTagLength tagLength = ALC_ERROR_NONE \<longleftrightarrow> tagLength = 16)"
proof -
  have k: "ChaCha20_setKey key keylen c = Some (ALC_ERROR_INVALID_ARG, c)" if "keylen \<noteq> 256" for c
    using that by (simp add: ChaCha20_setKey_def ValidateKey_def alcp_is_error_def)
  show ?thesis
    by (auto simp: ChaChPoly_init_def ChaChPoly_setIvInternal_def ChaChPoly_setKeyInternal_def k
      ChaChPoly_encrypt_def ChaChPoly_decrypt_def ChaCha256_encrypt_def ChaChPoly_setAad_def ChaChPoly_getTag_def
      ChaChPoly_setTagLength_def IvManager_setIv_def chacha_ok_def write_at_def Let_def split: option.splits)
qed

theorem ChaChPoly_rejects_witness:
  "ChaChPoly_init (AeadOps no_radix44 eZen) ref_kernel (Some (replicate 32 1)) 256 (Some (replicate 8 2)) 8
       (aead_new no_radix44 eZen) = Some (ALC_ERROR_INVALID_SIZE, aead_new no_radix44 eZen) \<and>
   ChaChPoly_setAad (AeadOps no_radix44 eZen) None 3 (aead_new no_radix44 eZen)
     = Some (ALC_ERROR_INVALID_ARG, aead_new no_radix44 eZen)"
  using ChaChPoly_rejects [of "AeadOps no_radix44 eZen" ref_kernel "Some (replicate 32 1)" 256 8 "aead_new no_radix44 eZen"
      "replicate 8 2" _ _ _ _ 3] by simp

end
