(* ===== verification/Aesni.thy ===== *)
theory Aesni imports Aes_Correct begin

text \<open>
  The AES-NI code: the block functions of \<^verbatim>\<open>lib/include/alcp/cipher/aesni.hh\<close> and the key
  expansion of \<^verbatim>\<open>lib/arch/avx2/aesni_keyexp.cc\<close>. A register is the list of its sixteen
  bytes, lowest first; the instructions are the operations their manual gives, the S-box being
  the one of the standard. Both agree with the portable code of \<open>Rijndael\<close>.
\<close>

unbundle bit_operations_syntax

section \<open>Registers and instructions\<close>

type_synonym m128 = "u8 list"

definition mm_xor_si128 :: "m128 \<Rightarrow> m128 \<Rightarrow> m128" where
  "mm_xor_si128 a b = xor_bytes a b"

definition mm_aesenc_si128 :: "m128 \<Rightarrow> m128 \<Rightarrow> m128" where
  "mm_aesenc_si128 st k = xor_bytes (mix_columns (shift_rows (sub_bytes S_enc st))) k"

definition mm_aesenclast_si128 :: "m128 \<Rightarrow> m128 \<Rightarrow> m128" where
  "mm_aesenclast_si128 st k = xor_bytes (shift_rows (sub_bytes S_enc st)) k"

definition mm_aesdec_si128 :: "m128 \<Rightarrow> m128 \<Rightarrow> m128" where
  "mm_aesdec_si128 st k = xor_bytes (inv_mix_columns (map S_dec (inv_shift_rows st))) k"

definition mm_aesdeclast_si128 :: "m128 \<Rightarrow> m128 \<Rightarrow> m128" where
  "mm_aesdeclast_si128 st k = xor_bytes (map S_dec (inv_shift_rows st)) k"

definition mm_aesimc_si128 :: "m128 \<Rightarrow> m128" where
  "mm_aesimc_si128 a = inv_mix_columns a"

text \<open>The words of 32 bits of a register.\<close>

definition dword :: "m128 \<Rightarrow> nat \<Rightarrow> u8 list" where
  "dword x i = take 4 (drop (4 * i) x)"

definition mm_aeskeygenassist_si128 :: "m128 \<Rightarrow> u8 \<Rightarrow> m128" where
  "mm_aeskeygenassist_si128 x rc =
     (let s1 = map S_enc (dword x 1); s3 = map S_enc (dword x 3); c = [rc, 0, 0, 0]
      in s1 @ xor_bytes (rotate1 s1) c @ s3 @ xor_bytes (rotate1 s3) c)"

definition mm_slli_si128 :: "m128 \<Rightarrow> nat \<Rightarrow> m128" where
  "mm_slli_si128 x n = take 16 (replicate n 0 @ x)"

definition mm_shuffle_epi32 :: "m128 \<Rightarrow> nat \<Rightarrow> m128" where
  "mm_shuffle_epi32 x imm = concat (map (\<lambda>i. dword x (imm div 4 ^ i mod 4)) [0..<4])"

definition mm_shuffle_pd :: "m128 \<Rightarrow> m128 \<Rightarrow> nat \<Rightarrow> m128" where
  "mm_shuffle_pd a b imm =
     take 8 (drop (8 * (imm mod 2)) a) @ take 8 (drop (8 * (imm div 2 mod 2)) b)"

definition mm_cvtsi64_si128 :: "u8 list \<Rightarrow> m128" where
  "mm_cvtsi64_si128 q = take 8 q @ replicate 8 0"

text \<open>A shuffle takes the byte each mask byte names; \<open>reverse_mask\<close> is the one that turns a register round.\<close>

definition mm_shuffle_epi8 :: "m128 \<Rightarrow> u8 list \<Rightarrow> m128" where
  "mm_shuffle_epi8 x idx = map (\<lambda>m. if bit m 7 then 0 else x ! unat (m AND 0xf)) idx"

definition reverse_mask :: "u8 list" where
  "reverse_mask = [15, 14, 13, 12, 11, 10, 9, 8, 7, 6, 5, 4, 3, 2, 1, 0]"

definition mm_slli_epi64 :: "m128 \<Rightarrow> nat \<Rightarrow> m128" where
  "mm_slli_epi64 x n = le_bytes 8 (push_bit n (le_word (take 8 x) :: u64)) @
                       le_bytes 8 (push_bit n (le_word (drop 8 x) :: u64))"

definition mm_add_epi64 :: "m128 \<Rightarrow> m128 \<Rightarrow> m128" where
  "mm_add_epi64 x y = le_bytes 8 (le_word (take 8 x) + le_word (take 8 y) :: u64) @
                      le_bytes 8 (le_word (drop 8 x) + le_word (drop 8 y) :: u64)"

section \<open>The block functions\<close>

text \<open>
  The overloads take one, two, four or eight blocks through the same rounds; here the blocks
  are a list. \<open>pKey\<close> is the memory of the round keys.
\<close>

fun aesni_rounds :: "(m128 \<Rightarrow> m128 \<Rightarrow> m128) \<Rightarrow> nat \<Rightarrow> u8 list \<Rightarrow> m128 list \<Rightarrow> u8 list \<times> m128 list" where
  "aesni_rounds f 0 pKey bs = (pKey, bs)"
| "aesni_rounds f (Suc n) pKey bs = aesni_rounds f n (drop 16 pKey) (map (\<lambda>b. f b (take 16 pKey)) bs)"

definition AesEncrypt_blocks :: "m128 list \<Rightarrow> u8 list \<Rightarrow> nat \<Rightarrow> m128 list" where
  "AesEncrypt_blocks bs pKey nRounds =
     (let bs = map (\<lambda>b. mm_xor_si128 b (take 16 pKey)) bs;
          (pKey, bs) = aesni_rounds mm_aesenc_si128 (nRounds - 1) (drop 16 pKey) bs
      in map (\<lambda>b. mm_aesenclast_si128 b (take 16 pKey)) bs)"

definition AesEncrypt :: "m128 \<Rightarrow> u8 list \<Rightarrow> nat \<Rightarrow> m128" where
  "AesEncrypt b pKey nRounds =
     (let b = mm_xor_si128 b (take 16 pKey);
          (pKey, bs) = aesni_rounds mm_aesenc_si128 (nRounds - 1) (drop 16 pKey) [b]
      in mm_aesenclast_si128 (hd bs) (take 16 pKey))"

definition AesDecrypt_blocks :: "m128 list \<Rightarrow> u8 list \<Rightarrow> nat \<Rightarrow> m128 list" where
  "AesDecrypt_blocks bs pKey nRounds =
     (let bs = map (\<lambda>b. mm_xor_si128 b (take 16 pKey)) bs;
          (pKey, bs) = aesni_rounds mm_aesdec_si128 (nRounds - 1) (drop 16 pKey) bs
      in map (\<lambda>b. mm_aesdeclast_si128 b (take 16 pKey)) bs)"

section \<open>The key expansion\<close>

definition aes128keyassist :: "m128 \<Rightarrow> m128 \<Rightarrow> m128" where
  "aes128keyassist tmp0 tmp1 =
     (let tmp = mm_slli_si128 tmp0 4; tmp0 = mm_xor_si128 tmp0 tmp;
          tmp = mm_slli_si128 tmp 4; tmp0 = mm_xor_si128 tmp0 tmp;
          tmp = mm_slli_si128 tmp 4; tmp0 = mm_xor_si128 tmp0 tmp;
          tmp1 = mm_shuffle_epi32 tmp1 0xff
      in mm_xor_si128 tmp0 tmp1)"

definition ExpandDecryptKeys :: "u8 list \<Rightarrow> u8 list \<Rightarrow> nat \<Rightarrow> u8 list" where
  "ExpandDecryptKeys pDecKey pEncKey nr =
     (let dec = write_at (16 * nr) (blk 0 pEncKey) pDecKey;
          dec = foldl (\<lambda>dec i. write_at (16 * i) (mm_aesimc_si128 (blk (nr - i) pEncKey)) dec) dec (rev [1..<nr])
      in write_at 0 (blk nr pEncKey) dec)"

definition aes192keyassist :: "m128 \<Rightarrow> m128 \<Rightarrow> m128 \<Rightarrow> m128 \<times> m128" where
  "aes192keyassist tmp0 tmp1 tmp2 =
     (let tmp1 = mm_shuffle_epi32 tmp1 0x55;
          tmp4 = mm_slli_si128 tmp0 4; tmp0 = mm_xor_si128 tmp0 tmp4;
          tmp4 = mm_slli_si128 tmp4 4; tmp0 = mm_xor_si128 tmp0 tmp4;
          tmp4 = mm_slli_si128 tmp4 4; tmp0 = mm_xor_si128 tmp0 tmp4;
          tmp0 = mm_xor_si128 tmp0 tmp1;
          tmp1 = mm_shuffle_epi32 tmp0 0xff;
          tmp4 = mm_slli_si128 tmp2 4; tmp2 = mm_xor_si128 tmp2 tmp4
      in (tmp0, mm_xor_si128 tmp2 tmp1))"

definition aes256keyassist_1 :: "m128 \<Rightarrow> m128 \<Rightarrow> m128" where
  "aes256keyassist_1 tmp1 tmp2 =
     (let tmp2 = mm_shuffle_epi32 tmp2 0xff;
          tmp3 = mm_slli_si128 tmp1 4; tmp1 = mm_xor_si128 tmp1 tmp3;
          tmp3 = mm_slli_si128 tmp3 4; tmp1 = mm_xor_si128 tmp1 tmp3;
          tmp3 = mm_slli_si128 tmp3 4; tmp1 = mm_xor_si128 tmp1 tmp3
      in mm_xor_si128 tmp1 tmp2)"

definition aes256keyassist_2 :: "m128 \<Rightarrow> m128 \<Rightarrow> m128" where
  "aes256keyassist_2 tmp1 tmp3 =
     (let tmp4 = mm_aeskeygenassist_si128 tmp1 0x0; tmp0 = mm_shuffle_epi32 tmp4 0xaa;
          tmp4 = mm_slli_si128 tmp3 4; tmp3 = mm_xor_si128 tmp3 tmp4;
          tmp4 = mm_slli_si128 tmp4 4; tmp3 = mm_xor_si128 tmp3 tmp4;
          tmp4 = mm_slli_si128 tmp4 4; tmp3 = mm_xor_si128 tmp3 tmp4
      in mm_xor_si128 tmp3 tmp0)"

text \<open>The round keys a function computes, in the order it stores them.\<close>

definition round_keys128 :: "u8 list \<Rightarrow> m128 list" where
  "round_keys128 pUserKey =
     foldl (\<lambda>ks rc. ks @ [aes128keyassist (last ks) (mm_aeskeygenassist_si128 (last ks) rc)])
       [take 16 pUserKey] [0x1, 0x2, 0x4, 0x8, 0x10, 0x20, 0x40, 0x80, 0x1b, 0x36]"

text \<open>Two turns of the 192-bit expansion give three round keys; the half stored last is completed by the next turn.\<close>

definition step192 :: "m128 \<times> m128 \<times> m128 list \<Rightarrow> u8 \<times> u8 \<Rightarrow> m128 \<times> m128 \<times> m128 list" where
  "step192 = (\<lambda>(tmp0, tmp2, ks) (rc1, rc2).
     let tmp1 = mm_aeskeygenassist_si128 tmp2 rc1;
         (tmp0, tmp2) = aes192keyassist tmp0 tmp1 tmp2;
         ks = butlast ks @ [mm_shuffle_pd (last ks) tmp0 0, mm_shuffle_pd tmp0 tmp2 1];
         tmp1 = mm_aeskeygenassist_si128 tmp2 rc2;
         (tmp0, tmp2) = aes192keyassist tmp0 tmp1 tmp2
     in (tmp0, tmp2, ks @ [tmp0, tmp2]))"

definition round_keys192 :: "u8 list \<Rightarrow> m128 list" where
  "round_keys192 pUserKey =
     (let tmp0 = take 16 pUserKey; tmp2 = mm_cvtsi64_si128 (take 8 (drop 16 pUserKey));
          (tmp0, tmp2, ks) = foldl step192 (tmp0, tmp2, [tmp0, tmp2])
                               [(0x1, 0x2), (0x4, 0x8), (0x10, 0x20), (0x40, 0x80)]
      in butlast ks)"

definition step256 :: "m128 \<times> m128 \<times> m128 list \<Rightarrow> u8 \<Rightarrow> m128 \<times> m128 \<times> m128 list" where
  "step256 = (\<lambda>(tmp0, tmp2, ks) rc.
     let tmp1 = mm_aeskeygenassist_si128 tmp2 rc;
         tmp0 = aes256keyassist_1 tmp0 tmp1;
         tmp2 = aes256keyassist_2 tmp0 tmp2
     in (tmp0, tmp2, ks @ [tmp0, tmp2]))"

definition round_keys256 :: "u8 list \<Rightarrow> m128 list" where
  "round_keys256 pUserKey =
     (let tmp0 = take 16 pUserKey; tmp2 = take 16 (drop 16 pUserKey);
          (tmp0, tmp2, ks) = foldl step256 (tmp0, tmp2, [tmp0, tmp2]) [0x01, 0x02, 0x04, 0x08, 0x10, 0x20];
          tmp1 = mm_aeskeygenassist_si128 tmp2 0x40;
          tmp0 = aes256keyassist_1 tmp0 tmp1
      in ks @ [tmp0])"

definition ExpandTweakKeys :: "u8 list \<Rightarrow> u8 list \<Rightarrow> nat \<Rightarrow> u8 list" where
  "ExpandTweakKeys pUserKey pTweakKey nRounds =
     write_at 0 (concat (if nRounds = 14 then round_keys256 pUserKey
                         else if nRounds = 12 then round_keys192 pUserKey
                         else round_keys128 pUserKey)) pTweakKey"

definition ExpandKeys :: "u8 list \<Rightarrow> u8 list \<Rightarrow> u8 list \<Rightarrow> nat \<Rightarrow> u8 list \<times> u8 list" where
  "ExpandKeys pUserKey pEncKey pDecKey nRounds =
     (let enc = write_at 0 (concat (if nRounds = 14 then round_keys256 pUserKey
                         else if nRounds = 12 then round_keys192 pUserKey
                         else round_keys128 pUserKey)) pEncKey
      in (enc, ExpandDecryptKeys pDecKey enc nRounds))"

text \<open>\<^verbatim>\<open>Rijndael::setKey\<close> on a machine with these instructions.\<close>

definition Rijndael_setKey_aesni :: "u8 list option \<Rightarrow> nat \<Rightarrow> rijndael \<Rightarrow> rijndael option" where
  "Rijndael_setKey_aesni pUserKey len s =
     (let s = s\<lparr>m_block_size := BitsToBlockSize len\<rparr>;
          key = (case pUserKey of Some k \<Rightarrow> k | None \<Rightarrow> replicate 32 0)
      in case ParamsMap (m_block_size s) of
           None \<Rightarrow> None
         | Some prm \<Rightarrow>
             let (enc, dec) = ExpandKeys key (m_round_key_enc s) (m_round_key_dec s) (Nr prm)
             in Some (s\<lparr>m_nrounds := Nr prm, m_key_size := len div 8, m_round_key_enc := enc, m_round_key_dec := dec\<rparr>))"

section \<open>The block functions are the portable ones\<close>

lemma aesni_rounds_eq:
  "aesni_rounds f n (drop (16 * a) pk) bs
   = (drop (16 * (a + n)) pk, map (\<lambda>b. foldl (\<lambda>st r. f st (blk r pk)) b [a..<a + n]) bs)"
proof (induction n arbitrary: a bs)
  case (Suc n)
  have "[a..<a + Suc n] = a # [Suc a..<Suc a + n]" by (simp add: upt_conv_Cons del: upt_Suc)
  then show ?case using Suc [of "Suc a"] by (simp add: blk_def comp_def add.commute del: upt_Suc)
qed simp

lemma aesni_rounds_first:
  "0 < nr \<Longrightarrow> aesni_rounds f (nr - Suc 0) (drop 16 pk) bs
   = (drop (16 * nr) pk, map (\<lambda>b. foldl (\<lambda>st r. f st (blk r pk)) b [1..<nr]) bs)"
  using aesni_rounds_eq [of f "nr - 1" 1 pk bs] by simp

lemma AesEncrypt_fold:
  "0 < nr \<Longrightarrow> AesEncrypt b pk nr
   = mm_aesenclast_si128 (foldl (\<lambda>st r. mm_aesenc_si128 st (blk r pk)) (xor_bytes b (blk 0 pk)) [1..<nr]) (blk nr pk)"
  by (simp add: AesEncrypt_def aesni_rounds_first mm_xor_si128_def blk_def)

lemma AesEncrypt_blocks_map: "0 < nr \<Longrightarrow> AesEncrypt_blocks bs pk nr = map (\<lambda>b. AesEncrypt b pk nr) bs"
  by (simp add: AesEncrypt_blocks_def AesEncrypt_fold aesni_rounds_first mm_xor_si128_def blk_def)

lemma length_blk: "16 * r + 16 \<le> length pk \<Longrightarrow> length (blk r pk) = 16"
  by (simp add: blk_def)

text \<open>The portable kernel on any key memory is the same computation.\<close>

lemma AesEncrypt_portable:
  assumes "0 < nr" "16 * nr + 16 \<le> length pk" "length b = 16"
  shows "AesEncrypt b pk nr = Rijndael_encryptBlock b pk nr"
proof -
  have st: "xor_key pk b = xor_bytes b (blk 0 pk)" "length (xor_key pk b) = 16"
    using assms by (simp_all add: xor_key_eq blk_def)
  have R: "encrypt_rounds (nr - 1) (drop 16 pk) (xor_key pk b)
      = (drop (16 * nr) pk, foldl (\<lambda>st r. mm_aesenc_si128 st (blk r pk)) (xor_key pk b) [1..<nr])"
    "length (foldl (\<lambda>st r. mm_aesenc_si128 st (blk r pk)) (xor_key pk b) [1..<nr]) = 16"
    using encrypt_rounds_eq [of 1 "nr - 1" pk "xor_key pk b"] st assms
    by (simp_all add: mm_aesenc_si128_def del: upt_Suc)
  have "xor_key (drop (16 * nr) pk) x = xor_bytes x (blk nr pk)" if "length x = 16" for x
    using that assms by (simp add: xor_key_eq blk_def)
  then show ?thesis
    using assms R st(1)
    by (simp add: AesEncrypt_fold Rijndael_encryptBlock_def encryptBlockKernel_def Let_def last_exchanges
      mm_aesenclast_si128_def)
qed

lemma AesDecrypt_blocks_map:
  assumes "0 < nr" "16 * nr + 16 \<le> length pk" "\<And>b. b \<in> set bs \<Longrightarrow> length b = 16"
  shows "AesDecrypt_blocks bs pk nr = map (\<lambda>b. AesDecrypt b pk nr) bs"
proof -
  have "mm_aesdeclast_si128 (foldl (\<lambda>st r. mm_aesdec_si128 st (blk r pk)) (xor_bytes b (blk 0 pk)) [1..<nr]) (blk nr pk)
      = AesDecrypt b pk nr" if b: "length b = 16" for b
  proof -
    have st: "xor_key pk b = xor_bytes b (blk 0 pk)" "length (xor_key pk b) = 16"
      using assms b by (simp_all add: xor_key_eq blk_def)
    have R: "decrypt_rounds (nr - 1) (drop 16 pk) (xor_key pk b)
        = (drop (16 * nr) pk, foldl (\<lambda>st r. mm_aesdec_si128 st (blk r pk)) (xor_key pk b) [1..<nr])"
      "length (foldl (\<lambda>st r. mm_aesdec_si128 st (blk r pk)) (xor_key pk b) [1..<nr]) = 16"
      using decrypt_rounds_eq [of 1 "nr - 1" pk "xor_key pk b"] st assms
      by (simp_all add: mm_aesdec_si128_def del: upt_Suc)
    have "xor_key (drop (16 * nr) pk) x = xor_bytes x (blk nr pk)" if "length x = 16" for x
      using that assms by (simp add: xor_key_eq blk_def)
    then show ?thesis
      using R st(1) by (simp add: AesDecrypt_def Let_def last_exchanges mm_aesdeclast_si128_def)
  qed
  then show ?thesis using assms
    by (simp add: AesDecrypt_blocks_def aesni_rounds_first mm_xor_si128_def blk_def)
qed

section \<open>The expansion in chunks\<close>

definition kexp :: "nat \<Rightarrow> u8 list \<Rightarrow> nat \<Rightarrow> u8 list list" where
  "kexp nk key m = foldl (\<lambda>w i. w @ [key_word S_enc nk w i]) (map (dword key) [0..<nk]) [nk..<m]"

lemma kexp_key_expansion: "key_expansion S_enc nk nr key = kexp nk key (4 * (nr + 1))"
  by (simp add: key_expansion_def kexp_def dword_def [abs_def])

lemma kexp_Suc: "nk \<le> m \<Longrightarrow> kexp nk key (Suc m) = kexp nk key m @ [key_word S_enc nk (kexp nk key m) m]"
  by (simp add: kexp_def)

lemma kexp_start: "kexp nk key nk = map (dword key) [0..<nk]"
  by (simp add: kexp_def)

lemma length_kexp: "nk \<le> m \<Longrightarrow> length (kexp nk key m) = m"
  by (induction m rule: dec_induct) (simp_all add: kexp_start kexp_Suc)

lemma xor_words:
  "length a = 4 \<Longrightarrow> length b = 4 \<Longrightarrow> xor_bytes (a @ x) (b @ y) = xor_bytes a b @ xor_bytes x y"
  by (simp add: xor_bytes_def)

text \<open>The first word of a chunk, and the words after it.\<close>

definition core_word :: "nat \<Rightarrow> u8 list \<Rightarrow> u8 list" where
  "core_word q x = xor_bytes (map S_enc (rotate1 x)) (rcon q)"

lemma kexp4:
  assumes "0 < q" "kexp 4 key (4 * q) = P @ [a, b, c, d]"
  shows "kexp 4 key (4 * Suc q) = P @ [a, b, c, d] @
    (let r0 = xor_bytes a (core_word q d); r1 = xor_bytes b r0; r2 = xor_bytes c r1; r3 = xor_bytes d r2
     in [r0, r1, r2, r3])"
proof -
  have l: "length P + 4 = 4 * q" using length_kexp [of 4 "4 * q" key] assms by simp
  then have P: "4 * q - 4 = length P" "4 * q - 1 = length P + 3" "Suc (4 * q) - 4 = length P + 1"
    "Suc (Suc (4 * q)) - 4 = length P + 2" "Suc (Suc (Suc (4 * q))) - 4 = length P + 3" by simp_all
  have m: "Suc (4 * q) mod 4 = 1" "Suc (Suc (4 * q)) mod 4 = 2" "Suc (Suc (Suc (4 * q))) mod 4 = 3"
    by (simp_all add: mod_Suc)
  have e: "4 * Suc q = Suc (Suc (Suc (Suc (4 * q))))" by simp
  show ?thesis
    unfolding e using assms l P m
    by (simp add: kexp_Suc key_word_def Let_def nth_append core_word_def)
qed

lemma kexp6:
  assumes "0 < q" "kexp 6 key (6 * q) = P @ [a0, a1, a2, a3, a4, a5]"
  shows "kexp 6 key (6 * Suc q) = P @ [a0, a1, a2, a3, a4, a5] @
    (let r0 = xor_bytes a0 (core_word q a5); r1 = xor_bytes a1 r0; r2 = xor_bytes a2 r1; r3 = xor_bytes a3 r2;
         r4 = xor_bytes a4 r3; r5 = xor_bytes a5 r4
     in [r0, r1, r2, r3, r4, r5])"
proof -
  have l: "length P + 6 = 6 * q" using length_kexp [of 6 "6 * q" key] assms by simp
  then have P: "6 * q - 6 = length P" "6 * q - 1 = length P + 5" "Suc (6 * q) - 6 = length P + 1"
    "Suc (Suc (6 * q)) - 6 = length P + 2" "Suc (Suc (Suc (6 * q))) - 6 = length P + 3"
    "Suc (Suc (Suc (Suc (6 * q)))) - 6 = length P + 4" "Suc (Suc (Suc (Suc (Suc (6 * q))))) - 6 = length P + 5" by simp_all
  have m: "Suc (6 * q) mod 6 = 1" "Suc (Suc (6 * q)) mod 6 = 2" "Suc (Suc (Suc (6 * q))) mod 6 = 3"
    "Suc (Suc (Suc (Suc (6 * q)))) mod 6 = 4" "Suc (Suc (Suc (Suc (Suc (6 * q))))) mod 6 = 5"
    by (simp_all add: mod_Suc)
  have e: "6 * Suc q = Suc (Suc (Suc (Suc (Suc (Suc (6 * q))))))" by simp
  show ?thesis
    unfolding e using assms l P m
    by (simp add: kexp_Suc key_word_def Let_def nth_append core_word_def)
qed

lemma kexp8:
  assumes "0 < q" "kexp 8 key (8 * q) = P @ [a0, a1, a2, a3, a4, a5, a6, a7]"
  defines "r0 \<equiv> xor_bytes a0 (core_word q a7)"
  defines "r1 \<equiv> xor_bytes a1 r0"
  defines "r2 \<equiv> xor_bytes a2 r1"
  defines "r3 \<equiv> xor_bytes a3 r2"
  shows "kexp 8 key (8 * q + 4) = P @ [a0, a1, a2, a3, a4, a5, a6, a7] @ [r0, r1, r2, r3]"
    and "kexp 8 key (8 * Suc q) = P @ [a0, a1, a2, a3, a4, a5, a6, a7] @ [r0, r1, r2, r3] @
    (let r4 = xor_bytes a4 (map S_enc r3); r5 = xor_bytes a5 r4; r6 = xor_bytes a6 r5; r7 = xor_bytes a7 r6
     in [r4, r5, r6, r7])"
proof -
  have l: "length P + 8 = 8 * q" using length_kexp [of 8 "8 * q" key] assms(1,2) by simp
  then have P: "8 * q - 8 = length P" "8 * q - 1 = length P + 7" "Suc (8 * q) - 8 = length P + 1"
    "Suc (Suc (8 * q)) - 8 = length P + 2" "Suc (Suc (Suc (8 * q))) - 8 = length P + 3" by simp_all
  have m: "Suc (8 * q) mod 8 = 1" "Suc (Suc (8 * q)) mod 8 = 2" "Suc (Suc (Suc (8 * q))) mod 8 = 3"
    by (simp_all add: mod_Suc)
  have e: "8 * q + 4 = Suc (Suc (Suc (Suc (8 * q))))" by simp
  show k: "kexp 8 key (8 * q + 4) = P @ [a0, a1, a2, a3, a4, a5, a6, a7] @ [r0, r1, r2, r3]"
    unfolding e using assms(1,2) l P m
    by (simp add: kexp_Suc key_word_def Let_def nth_append core_word_def r0_def r1_def r2_def r3_def)
  let ?W = "P @ [a0, a1, a2, a3, a4, a5, a6, a7, r0, r1, r2, r3]"
  define r4 where "r4 = xor_bytes a4 (map S_enc r3)"
  define r5 where "r5 = xor_bytes a5 r4"
  define r6 where "r6 = xor_bytes a6 r5"
  have m: "(12 + length P) mod 8 = 4" "(13 + length P) mod 8 = 5" "(14 + length P) mod 8 = 6" "(15 + length P) mod 8 = 7"
  proof -
    have "length P = 8 * (q - 1)" using l by simp
    then show "(12 + length P) mod 8 = 4" "(13 + length P) mod 8 = 5" "(14 + length P) mod 8 = 6" "(15 + length P) mod 8 = 7"
      by simp_all
  qed
  have e: "8 * q + 4 = 12 + length P" "8 * Suc q = 16 + length P" using l assms(1) by simp_all
  have 4: "kexp 8 key (13 + length P) = ?W @ [r4]"
    using kexp_Suc [of 8 "12 + length P" key] k m by (simp add: e key_word_def nth_append r4_def)
  have 5: "kexp 8 key (14 + length P) = ?W @ [r4, r5]"
    using kexp_Suc [of 8 "13 + length P" key] 4 m by (simp add: key_word_def nth_append r5_def)
  have 6: "kexp 8 key (15 + length P) = ?W @ [r4, r5, r6]"
    using kexp_Suc [of 8 "14 + length P" key] 5 m by (simp add: key_word_def nth_append r6_def)
  have 7: "kexp 8 key (16 + length P) = ?W @ [r4, r5, r6, xor_bytes a7 r6]"
    using kexp_Suc [of 8 "15 + length P" key] 6 m by (simp add: key_word_def nth_append)
  show "kexp 8 key (8 * Suc q) = P @ [a0, a1, a2, a3, a4, a5, a6, a7] @ [r0, r1, r2, r3] @
    (let r4 = xor_bytes a4 (map S_enc r3); r5 = xor_bytes a5 r4; r6 = xor_bytes a6 r5; r7 = xor_bytes a7 r6
     in [r4, r5, r6, r7])"
    unfolding e using 7 by (simp add: Let_def r4_def r5_def r6_def)
qed

section \<open>The key instructions on words\<close>

lemma shuffle_consts:
  "mm_shuffle_epi32 x 0xff = dword x 3 @ dword x 3 @ dword x 3 @ dword x 3"
  "mm_shuffle_epi32 x 0x55 = dword x 1 @ dword x 1 @ dword x 1 @ dword x 1"
  "mm_shuffle_epi32 x 0xaa = dword x 2 @ dword x 2 @ dword x 2 @ dword x 2"
  by (simp_all add: mm_shuffle_epi32_def upt_rec_numeral upt_conv_Cons)

lemma dword_words:
  assumes "length a = 4" "length b = 4" "length c = 4"
  shows "dword (a @ x) 0 = a" "dword (a @ b @ x) 1 = take 4 b" "dword (a @ b @ c @ x) 2 = c"
    "dword (a @ b @ c @ x) 3 = take 4 x"
  using assms by (simp_all add: dword_def)

lemma assist_words:
  assumes "length a = 4" "length b = 4" "length c = 4" "length d = 4"
  shows "dword (mm_aeskeygenassist_si128 (a @ b @ c @ d) rc) 3 = xor_bytes (rotate1 (map S_enc d)) [rc, 0, 0, 0]"
    "dword (mm_aeskeygenassist_si128 (a @ b @ c @ d) rc) 1 = xor_bytes (rotate1 (map S_enc b)) [rc, 0, 0, 0]"
    "dword (mm_aeskeygenassist_si128 (a @ b @ c @ d) rc) 2 = map S_enc d"
  using assms by (simp_all add: mm_aeskeygenassist_si128_def Let_def dword_words dword_words(2) [unfolded One_nat_def])

lemma slli_words:
  assumes "length a = 4" "length b = 4" "length c = 4" "length d = 4"
  shows "mm_slli_si128 (a @ b @ c @ d) 4 = replicate 4 0 @ a @ b @ c"
  using assms by (simp add: mm_slli_si128_def)

lemma xor_zeros: "length a = 4 \<Longrightarrow> xor_bytes a (replicate 4 0) = a"
  by (rule nth_equalityI) (simp_all add: xor_bytes_def)

lemma xor_bytes_commute: "xor_bytes a b = xor_bytes b a"
  by (rule nth_equalityI) (simp_all add: xor_bytes_def ac_simps)

lemma xor_bytes_left_commute: "xor_bytes a (xor_bytes b c) = xor_bytes b (xor_bytes a c)"
  by (metis xor_bytes_assoc xor_bytes_commute)

lemmas xor_bytes_ac = xor_bytes_assoc xor_bytes_commute xor_bytes_left_commute

lemma xor_regs:
  assumes "length a = 4" "length b = 4" "length c = 4" "length d = 4"
    and "length a' = 4" "length b' = 4" "length c' = 4" "length d' = 4"
  shows "mm_xor_si128 (a @ b @ c @ d) (a' @ b' @ c' @ d')
    = xor_bytes a a' @ xor_bytes b b' @ xor_bytes c c' @ xor_bytes d d'"
  using assms by (simp add: mm_xor_si128_def xor_words)

text \<open>The chain of shifts and XORs the three functions share.\<close>

lemma shift_chain:
  assumes "length a = 4" "length b = 4" "length c = 4" "length d = 4" "length g = 4"
  defines "x \<equiv> a @ b @ c @ d" and "r0 \<equiv> xor_bytes a g"
  defines "s1 \<equiv> mm_slli_si128 x 4"
  defines "s2 \<equiv> mm_slli_si128 s1 4"
  shows "mm_xor_si128 (mm_xor_si128 (mm_xor_si128 (mm_xor_si128 x s1) s2) (mm_slli_si128 s2 4)) (g @ g @ g @ g)
    = r0 @ xor_bytes b r0 @ xor_bytes c (xor_bytes b r0) @ xor_bytes d (xor_bytes c (xor_bytes b r0))"
  unfolding assms(6-) using assms(1-5) by (simp add: slli_words xor_regs xor_zeros xor_bytes_ac)

lemma core_word_map: "core_word q x = xor_bytes (rotate1 (map S_enc x)) (rcon q)"
  by (simp add: core_word_def rotate1_map)

lemma aes128keyassist_words:
  assumes "length a = 4" "length b = 4" "length c = 4" "length d = 4" "rcon q = [rc, 0, 0, 0]"
  shows "aes128keyassist (a @ b @ c @ d) (mm_aeskeygenassist_si128 (a @ b @ c @ d) rc)
    = (let r0 = xor_bytes a (core_word q d); r1 = xor_bytes b r0; r2 = xor_bytes c r1; r3 = xor_bytes d r2
       in r0 @ r1 @ r2 @ r3)"
  by (simp only: aes128keyassist_def Let_def shuffle_consts assist_words [OF assms(1-4)] core_word_map assms(5)
    shift_chain [OF assms(1-4)] length_xor_bytes length_rotate1 length_map assms list.size)

lemma aes256keyassist_words:
  assumes "length a = 4" "length b = 4" "length c = 4" "length d = 4"
  shows "length e = 4 \<Longrightarrow> length f = 4 \<Longrightarrow> length g = 4 \<Longrightarrow> length h = 4 \<Longrightarrow> rcon q = [rc, 0, 0, 0] \<Longrightarrow>
    aes256keyassist_1 (a @ b @ c @ d) (mm_aeskeygenassist_si128 (e @ f @ g @ h) rc)
    = (let r0 = xor_bytes a (core_word q h); r1 = xor_bytes b r0; r2 = xor_bytes c r1; r3 = xor_bytes d r2
       in r0 @ r1 @ r2 @ r3)"
    and "length e = 4 \<Longrightarrow> length f = 4 \<Longrightarrow> length g = 4 \<Longrightarrow> length h = 4 \<Longrightarrow>
    aes256keyassist_2 (e @ f @ g @ h) (a @ b @ c @ d)
    = (let r0 = xor_bytes a (map S_enc h); r1 = xor_bytes b r0; r2 = xor_bytes c r1; r3 = xor_bytes d r2
       in r0 @ r1 @ r2 @ r3)"
  by (simp_all only: aes256keyassist_1_def aes256keyassist_2_def Let_def shuffle_consts assist_words core_word_map)
    (simp_all add: shift_chain assms)

lemma aes192keyassist_words:
  assumes "length a = 4" "length b = 4" "length c = 4" "length d = 4"
    and "length e = 4" "length f = 4" "length x = 4" "length y = 4" "rcon q = [rc, 0, 0, 0]"
  shows "aes192keyassist (a @ b @ c @ d) (mm_aeskeygenassist_si128 (e @ f @ x @ y) rc) (e @ f @ x @ y)
    = (let r0 = xor_bytes a (core_word q f); r1 = xor_bytes b r0; r2 = xor_bytes c r1; r3 = xor_bytes d r2;
           r4 = xor_bytes e r3
       in (r0 @ r1 @ r2 @ r3, r4 @ xor_bytes f r4 @ xor_bytes (xor_bytes x f) r3 @ xor_bytes (xor_bytes y x) r3))"
  by (simp only: aes192keyassist_def Let_def shuffle_consts assist_words [OF assms(5-8)] core_word_map assms(9))
    (simp add: shift_chain assms dword_words slli_words xor_regs xor_bytes_ac xor_zeros)

section \<open>The expansions\<close>

definition words4 :: "u8 list list \<Rightarrow> bool" where
  "words4 w \<longleftrightarrow> (\<forall>x\<in>set w. length x = 4)"

lemma words4_simps [simp]:
  "words4 []" "words4 (x # w) \<longleftrightarrow> length x = 4 \<and> words4 w" "words4 (v @ w) \<longleftrightarrow> words4 v \<and> words4 w"
  by (auto simp: words4_def)

lemma rcons:
  "rcon 1 = [0x1, 0, 0, 0]" "rcon 2 = [0x2, 0, 0, 0]" "rcon 3 = [0x4, 0, 0, 0]" "rcon 4 = [0x8, 0, 0, 0]"
  "rcon 5 = [0x10, 0, 0, 0]" "rcon 6 = [0x20, 0, 0, 0]" "rcon 7 = [0x40, 0, 0, 0]" "rcon 8 = [0x80, 0, 0, 0]"
  "rcon 9 = [0x1b, 0, 0, 0]" "rcon 10 = [0x36, 0, 0, 0]"
  by code_simp+

text \<open>The constants of the three expansions, at the positions they are used.\<close>

lemma rcons128: "list_all (\<lambda>(i, rc). 0 < 1 + 1 * i \<and> rcon (1 + 1 * i) = [rc, 0, 0, 0])
    (enumerate 0 [0x1, 0x2, 0x4, 0x8, 0x10, 0x20, 0x40, 0x80, 0x1b, 0x36])"
  by code_simp

lemma rcons192: "list_all (\<lambda>(i, rc). 0 < 1 + 2 * i \<and> rcon (1 + 2 * i) = [fst rc, 0, 0, 0] \<and> rcon (Suc (1 + 2 * i)) = [snd rc, 0, 0, 0])
    (enumerate 0 [(0x1, 0x2), (0x4, 0x8), (0x10, 0x20), (0x40, 0x80)])"
  by code_simp

lemma rcons256: "list_all (\<lambda>(i, rc). 0 < 1 + 1 * i \<and> rcon (1 + 1 * i) = [rc, 0, 0, 0])
    (enumerate 0 [0x01, 0x02, 0x04, 0x08, 0x10, 0x20])"
  by code_simp

lemma foldl_steps:
  assumes "\<And>q s x. J q s \<Longrightarrow> C q x \<Longrightarrow> J (q + k) (f s x)"
  shows "J q s \<Longrightarrow> list_all (\<lambda>(i, x). C (q + k * i) x) (enumerate n xs) \<Longrightarrow> n = 0 \<Longrightarrow>
    m = q + k * length xs \<Longrightarrow> J m (foldl f s xs)"
proof -
  have "J (q + k * n) s \<Longrightarrow> list_all (\<lambda>(i, x). C (q + k * i) x) (enumerate n xs) \<Longrightarrow>
      J (q + k * (n + length xs)) (foldl f s xs)" for n
  proof (induction xs arbitrary: n s)
    case (Cons x xs)
    then have "J (q + k * Suc n) (f s x)" using assms [of "q + k * n" s x] by (simp add: add.commute add.left_commute)
    then show ?case using Cons.IH [of "Suc n" "f s x"] Cons.prems(2) by simp
  qed simp
  from this [of 0] show "J q s \<Longrightarrow> list_all (\<lambda>(i, x). C (q + k * i) x) (enumerate n xs) \<Longrightarrow> n = 0 \<Longrightarrow>
    m = q + k * length xs \<Longrightarrow> J m (foldl f s xs)" by simp
qed

lemma dword_concat: "length x = 16 \<Longrightarrow> dword x 0 @ dword x 1 @ dword x 2 @ dword x 3 = x"
  using append_take_drop_id [of 4 x] append_take_drop_id [of 4 "drop 4 x"] append_take_drop_id [of 4 "drop 8 x"]
  by (simp add: dword_def)

text \<open>128-bit keys: after \<open>q - 1\<close> constants.\<close>

definition keys128 :: "u8 list \<Rightarrow> nat \<Rightarrow> m128 list \<Rightarrow> bool" where
  "keys128 key q ks \<longleftrightarrow> (\<exists>P a b c d. kexp 4 key (4 * q) = P @ [a, b, c, d] \<and> words4 (P @ [a, b, c, d]) \<and>
     ks \<noteq> [] \<and> last ks = a @ b @ c @ d \<and> concat ks = concat (P @ [a, b, c, d]))"

lemma keys128_step:
  assumes "keys128 key q ks" "rcon q = [rc, 0, 0, 0]" "0 < q"
  shows "keys128 key (Suc q) (ks @ [aes128keyassist (last ks) (mm_aeskeygenassist_si128 (last ks) rc)])"
proof -
  obtain P a b c d where k: "kexp 4 key (4 * q) = P @ [a, b, c, d]" "words4 (P @ [a, b, c, d])"
    "last ks = a @ b @ c @ d" "concat ks = concat (P @ [a, b, c, d])"
    using assms(1) by (auto simp: keys128_def)
  have "length (core_word q d) = 4" using k(2) by (simp add: core_word_def rcon_def)
  then show ?thesis
    using k kexp4 [OF assms(3) k(1)] aes128keyassist_words [of a b c d q rc] assms(2)
    unfolding keys128_def
    by (intro exI [of _ "P @ [a, b, c, d]"] exI) (auto simp: Let_def)
qed

lemma round_keys128_concat:
  assumes "length key = 16"
  shows "concat (round_keys128 key) = concat (kexp 4 key 44) \<and> words4 (kexp 4 key 44)"
proof -
  have u: "[0..<4] = [0, 1, 2, 3 :: nat]" by (simp add: upt_rec_numeral upt_conv_Cons)
  have "kexp 4 key (4 * 1) = [] @ [dword key 0, dword key 1, dword key 2, dword key 3]"
    using kexp_start [of 4 key] by (simp add: u)
  moreover have "words4 ([] @ [dword key 0, dword key 1, dword key 2, dword key 3])"
    using assms by (simp add: dword_def)
  ultimately have "keys128 key 1 [take 16 key]"
    unfolding keys128_def using assms dword_concat [of key] by fastforce
  then have "keys128 key 11 (round_keys128 key)"
    unfolding round_keys128_def
    by - (rule foldl_steps [OF _ _ rcons128 refl]; simp add: keys128_step)
  then show ?thesis by (auto simp: keys128_def)
qed

text \<open>256-bit keys: the last eight words are in the two registers.\<close>

definition keys256 :: "u8 list \<Rightarrow> nat \<Rightarrow> m128 \<times> m128 \<times> m128 list \<Rightarrow> bool" where
  "keys256 key q s \<longleftrightarrow> (\<exists>P a0 a1 a2 a3 a4 a5 a6 a7. kexp 8 key (8 * q) = P @ [a0, a1, a2, a3, a4, a5, a6, a7] \<and>
     words4 (P @ [a0, a1, a2, a3, a4, a5, a6, a7]) \<and>
     fst s = a0 @ a1 @ a2 @ a3 \<and> fst (snd s) = a4 @ a5 @ a6 @ a7 \<and>
     concat (snd (snd s)) = concat (P @ [a0, a1, a2, a3, a4, a5, a6, a7]))"

lemma core_word_length [simp]: "length x = 4 \<Longrightarrow> length (core_word q x) = 4"
  by (simp add: core_word_def rcon_def)

lemma keys256_step:
  assumes "keys256 key q s" "rcon q = [rc, 0, 0, 0]" "0 < q"
  shows "keys256 key (Suc q) (step256 s rc)"
proof -
  obtain tmp0 tmp2 ks where s: "s = (tmp0, tmp2, ks)" by (cases s) auto
  obtain P a0 a1 a2 a3 a4 a5 a6 a7 where k: "kexp 8 key (8 * q) = P @ [a0, a1, a2, a3, a4, a5, a6, a7]"
    and w: "words4 (P @ [a0, a1, a2, a3, a4, a5, a6, a7])"
    and r: "tmp0 = a0 @ a1 @ a2 @ a3" "tmp2 = a4 @ a5 @ a6 @ a7" "concat ks = concat (P @ [a0, a1, a2, a3, a4, a5, a6, a7])"
    using assms(1) by (auto simp: keys256_def s)
  define r0 where "r0 = xor_bytes a0 (core_word q a7)"
  define r1 where "r1 = xor_bytes a1 r0"
  define r2 where "r2 = xor_bytes a2 r1"
  define r3 where "r3 = xor_bytes a3 r2"
  define r4 where "r4 = xor_bytes a4 (map S_enc r3)"
  define r5 where "r5 = xor_bytes a5 r4"
  define r6 where "r6 = xor_bytes a6 r5"
  define r7 where "r7 = xor_bytes a7 r6"
  note d = r0_def r1_def r2_def r3_def r4_def r5_def r6_def r7_def
  have l: "length a0 = 4" "length a1 = 4" "length a2 = 4" "length a3 = 4" "length a4 = 4" "length a5 = 4"
    "length a6 = 4" "length a7 = 4" using w by simp_all
  then have lr: "length r0 = 4" "length r1 = 4" "length r2 = 4" "length r3 = 4" "length r4 = 4" "length r5 = 4"
    "length r6 = 4" "length r7 = 4" by (simp_all add: d)
  have K: "kexp 8 key (8 * Suc q) = (P @ [a0, a1, a2, a3, a4, a5, a6, a7]) @ [r0, r1, r2, r3, r4, r5, r6, r7]"
    using kexp8(2) [OF assms(3) k] by (simp add: Let_def d)
  have A: "aes256keyassist_1 tmp0 (mm_aeskeygenassist_si128 tmp2 rc) = r0 @ r1 @ r2 @ r3"
    using aes256keyassist_words(1) [OF l(1-8) assms(2)] by (simp add: r Let_def d)
  have B: "aes256keyassist_2 (r0 @ r1 @ r2 @ r3) tmp2 = r4 @ r5 @ r6 @ r7"
    using aes256keyassist_words(2) [OF l(5-8) lr(1-4)] by (simp add: r Let_def r4_def r5_def r6_def r7_def)
  have "step256 s rc = (r0 @ r1 @ r2 @ r3, r4 @ r5 @ r6 @ r7, ks @ [r0 @ r1 @ r2 @ r3, r4 @ r5 @ r6 @ r7])"
    by (simp add: s step256_def A B Let_def)
  then show ?thesis using K w lr r(3) unfolding keys256_def
    by (intro exI [of _ "P @ [a0, a1, a2, a3, a4, a5, a6, a7]"] exI) auto
qed

lemma round_keys256_concat:
  assumes "length key = 32"
  shows "concat (round_keys256 key) = concat (kexp 8 key 60) \<and> words4 (kexp 8 key 60)"
proof -
  have u: "[0..<8] = [0, 1, 2, 3, 4, 5, 6, 7 :: nat]" by (simp add: upt_rec_numeral upt_conv_Cons)
  let ?a = "dword key 0" and ?b = "dword key 1" and ?c = "dword key 2" and ?d = "dword key 3"
  have k: "kexp 8 key (8 * 1) = [] @ [?a, ?b, ?c, ?d, dword key 4, dword key 5, dword key 6, dword key 7]"
    using kexp_start [of 8 key] by (simp add: u)
  have w: "words4 ([] @ [?a, ?b, ?c, ?d, dword key 4, dword key 5, dword key 6, dword key 7])"
    using assms by (simp add: dword_def)
  have h: "take 16 key = ?a @ ?b @ ?c @ ?d" "take 16 (drop 16 key) = dword key 4 @ dword key 5 @ dword key 6 @ dword key 7"
    using dword_concat [of "take 16 key"] dword_concat [of "take 16 (drop 16 key)"] assms
    by (simp_all add: dword_def drop_take)
  have "keys256 key 1 (take 16 key, take 16 (drop 16 key), [take 16 key, take 16 (drop 16 key)])"
    unfolding keys256_def using k w h by (intro exI [of _ "[]"] exI) auto
  then have J: "keys256 key 7
      (foldl step256 (take 16 key, take 16 (drop 16 key), [take 16 key, take 16 (drop 16 key)])
        [0x01, 0x02, 0x04, 0x08, 0x10, 0x20])"
    by - (rule foldl_steps [OF _ _ rcons256 refl]; simp add: keys256_step)
  obtain tmp0 tmp2 ks where F: "foldl step256 (take 16 key, take 16 (drop 16 key), [take 16 key, take 16 (drop 16 key)])
        [0x01, 0x02, 0x04, 0x08, 0x10, 0x20] = (tmp0, tmp2, ks)" by (rule prod_cases3)
  obtain P a0 a1 a2 a3 a4 a5 a6 a7 where k: "kexp 8 key (8 * 7) = P @ [a0, a1, a2, a3, a4, a5, a6, a7]"
    and w: "words4 (P @ [a0, a1, a2, a3, a4, a5, a6, a7])"
    and r: "tmp0 = a0 @ a1 @ a2 @ a3" "tmp2 = a4 @ a5 @ a6 @ a7" "concat ks = concat (P @ [a0, a1, a2, a3, a4, a5, a6, a7])"
    using J unfolding F keys256_def by auto
  have l: "length a0 = 4" "length a1 = 4" "length a2 = 4" "length a3 = 4" "length a4 = 4" "length a5 = 4"
    "length a6 = 4" "length a7 = 4" using w by simp_all
  have A: "aes256keyassist_1 tmp0 (mm_aeskeygenassist_si128 tmp2 0x40)
      = (let r0 = xor_bytes a0 (core_word 7 a7); r1 = xor_bytes a1 r0; r2 = xor_bytes a2 r1; r3 = xor_bytes a3 r2
         in r0 @ r1 @ r2 @ r3)"
    using aes256keyassist_words(1) [OF l rcons(7)] unfolding r .
  have K: "kexp 8 key 60 = P @ [a0, a1, a2, a3, a4, a5, a6, a7] @
      (let r0 = xor_bytes a0 (core_word 7 a7); r1 = xor_bytes a1 r0; r2 = xor_bytes a2 r1; r3 = xor_bytes a3 r2
         in [r0, r1, r2, r3])"
    using kexp8(1) [OF _ k] by (simp add: Let_def)
  have "round_keys256 key = ks @ [aes256keyassist_1 tmp0 (mm_aeskeygenassist_si128 tmp2 0x40)]"
    unfolding round_keys256_def Let_def F by simp
  then show ?thesis using w l r(3) by (simp add: A K Let_def)
qed

text \<open>192-bit keys: six words in one register and a half, above them two words of no meaning.\<close>

definition keys192 :: "u8 list \<Rightarrow> nat \<Rightarrow> m128 \<times> m128 \<times> m128 list \<Rightarrow> bool" where
  "keys192 key q s \<longleftrightarrow> (\<exists>P a0 a1 a2 a3 a4 a5 x y. kexp 6 key (6 * q) = P @ [a0, a1, a2, a3, a4, a5] \<and>
     words4 (P @ [a0, a1, a2, a3, a4, a5]) \<and> length x = 4 \<and> length y = 4 \<and>
     fst s = a0 @ a1 @ a2 @ a3 \<and> fst (snd s) = a4 @ a5 @ x @ y \<and>
     (\<exists>ks. snd (snd s) = ks @ [a4 @ a5 @ x @ y] \<and> concat ks = concat (P @ [a0, a1, a2, a3])))"

lemma keys192I:
  "kexp 6 key (6 * q) = P @ [a0, a1, a2, a3, a4, a5] \<Longrightarrow> words4 (P @ [a0, a1, a2, a3, a4, a5]) \<Longrightarrow>
    length x = 4 \<Longrightarrow> length y = 4 \<Longrightarrow> concat ks = concat (P @ [a0, a1, a2, a3]) \<Longrightarrow>
    keys192 key q (a0 @ a1 @ a2 @ a3, a4 @ a5 @ x @ y, ks @ [a4 @ a5 @ x @ y])"
  unfolding keys192_def fst_conv snd_conv by blast

lemma shuffle_pd_words:
  assumes "length a = 4" "length b = 4" "length c = 4" "length d = 4"
    "length a' = 4" "length b' = 4" "length c' = 4" "length d' = 4"
  shows "mm_shuffle_pd (a @ b @ c @ d) (a' @ b' @ c' @ d') 0 = a @ b @ a' @ b'"
    "mm_shuffle_pd (a @ b @ c @ d) (a' @ b' @ c' @ d') 1 = c @ d @ a' @ b'"
  using assms by (simp_all add: mm_shuffle_pd_def)

text \<open>One call of the assistant is one chunk of six words.\<close>

lemma chunk192:
  assumes "kexp 6 key (6 * q) = P @ [a0, a1, a2, a3, a4, a5]" "words4 (P @ [a0, a1, a2, a3, a4, a5])"
    "length x = 4" "length y = 4" "rcon q = [rc, 0, 0, 0]" "0 < q"
  obtains r0 r1 r2 r3 r4 r5 u v where
    "kexp 6 key (6 * Suc q) = (P @ [a0, a1, a2, a3, a4, a5]) @ [r0, r1, r2, r3, r4, r5]"
    "words4 [r0, r1, r2, r3, r4, r5]" "length u = 4" "length v = 4"
    "aes192keyassist (a0 @ a1 @ a2 @ a3) (mm_aeskeygenassist_si128 (a4 @ a5 @ x @ y) rc) (a4 @ a5 @ x @ y)
      = (r0 @ r1 @ r2 @ r3, r4 @ r5 @ u @ v)"
proof -
  have l: "length a0 = 4" "length a1 = 4" "length a2 = 4" "length a3 = 4" "length a4 = 4" "length a5 = 4"
    using assms(2) by simp_all
  show thesis
    using kexp6 [OF assms(6,1)] aes192keyassist_words [OF l assms(3-5)] l assms(3,4)
    by (intro that) (simp_all add: Let_def)
qed

lemma keys192_step:
  assumes "keys192 key q s" "rcon q = [fst rc, 0, 0, 0]" "rcon (Suc q) = [snd rc, 0, 0, 0]" "0 < q"
  shows "keys192 key (q + 2) (step192 s rc)"
proof -
  obtain tmp0 tmp2 ks where s: "s = (tmp0, tmp2, ks)" by (cases s) auto
  obtain P a0 a1 a2 a3 a4 a5 x y ks0 where k: "kexp 6 key (6 * q) = P @ [a0, a1, a2, a3, a4, a5]"
    and w: "words4 (P @ [a0, a1, a2, a3, a4, a5])" "length x = 4" "length y = 4"
    and r: "tmp0 = a0 @ a1 @ a2 @ a3" "tmp2 = a4 @ a5 @ x @ y" "ks = ks0 @ [a4 @ a5 @ x @ y]"
      "concat ks0 = concat (P @ [a0, a1, a2, a3])"
    using assms(1) by (auto simp: keys192_def s)
  obtain r0 r1 r2 r3 r4 r5 u v where
    K1: "kexp 6 key (6 * Suc q) = (P @ [a0, a1, a2, a3, a4, a5]) @ [r0, r1, r2, r3, r4, r5]"
    and w1: "words4 [r0, r1, r2, r3, r4, r5]" "length u = 4" "length v = 4"
    and A1: "aes192keyassist tmp0 (mm_aeskeygenassist_si128 tmp2 (fst rc)) tmp2 = (r0 @ r1 @ r2 @ r3, r4 @ r5 @ u @ v)"
    using chunk192 [OF k w assms(2,4)] unfolding r by metis
  have wP: "words4 ((P @ [a0, a1, a2, a3, a4, a5]) @ [r0, r1, r2, r3, r4, r5])" using w w1 by simp
  obtain t0 t1 t2 t3 t4 t5 u' v' where
    K2: "kexp 6 key (6 * Suc (Suc q)) = ((P @ [a0, a1, a2, a3, a4, a5]) @ [r0, r1, r2, r3, r4, r5]) @ [t0, t1, t2, t3, t4, t5]"
    and w2: "words4 [t0, t1, t2, t3, t4, t5]" "length u' = 4" "length v' = 4"
    and A2: "aes192keyassist (r0 @ r1 @ r2 @ r3) (mm_aeskeygenassist_si128 (r4 @ r5 @ u @ v) (snd rc)) (r4 @ r5 @ u @ v)
      = (t0 @ t1 @ t2 @ t3, t4 @ t5 @ u' @ v')"
    using chunk192 [OF K1 wP w1(2,3) assms(3) zero_less_Suc] by metis
  have "step192 s rc = (t0 @ t1 @ t2 @ t3, t4 @ t5 @ u' @ v',
      (ks0 @ [a4 @ a5 @ r0 @ r1, r2 @ r3 @ r4 @ r5, t0 @ t1 @ t2 @ t3]) @ [t4 @ t5 @ u' @ v'])"
    using w w1 by (simp add: s step192_def case_prod_beta Let_def A1 A2 r(3) shuffle_pd_words shuffle_pd_words(2) [unfolded One_nat_def])
  moreover have "6 * (q + 2) = 6 * Suc (Suc q)" by simp
  ultimately show ?thesis
    using keys192I [of key "q + 2" "P @ [a0, a1, a2, a3, a4, a5, r0, r1, r2, r3, r4, r5]" t0 t1 t2 t3 t4 t5 u' v'
        "ks0 @ [a4 @ a5 @ r0 @ r1, r2 @ r3 @ r4 @ r5, t0 @ t1 @ t2 @ t3]"] K2 wP w2 r(4) by simp
qed

lemma round_keys192_concat:
  assumes "length key = 24"
  shows "concat (round_keys192 key) = concat (kexp 6 key 52) \<and> words4 (kexp 6 key 52)"
proof -
  have u: "[0..<6] = [0, 1, 2, 3, 4, 5 :: nat]" by (simp add: upt_rec_numeral upt_conv_Cons)
  let ?a = "dword key 0" and ?b = "dword key 1" and ?c = "dword key 2" and ?d = "dword key 3"
  let ?t2 = "mm_cvtsi64_si128 (take 8 (drop 16 key))"
  have k: "kexp 6 key (6 * 1) = [] @ [?a, ?b, ?c, ?d, dword key 4, dword key 5]"
    using kexp_start [of 6 key] by (simp add: u)
  have w: "words4 ([] @ [?a, ?b, ?c, ?d, dword key 4, dword key 5])"
    using assms by (simp add: dword_def)
  have h: "take 16 key = ?a @ ?b @ ?c @ ?d"
    using dword_concat [of "take 16 key"] assms by (simp add: dword_def drop_take)
  have "take 8 (drop 16 key) = dword key 4 @ dword key 5"
    using append_take_drop_id [of 4 "take 8 (drop 16 key)"] by (simp add: dword_def drop_take)
  then have h2: "?t2 = dword key 4 @ dword key 5 @ replicate 4 0 @ replicate 4 0"
    using w by (simp add: mm_cvtsi64_si128_def numeral_eq_Suc)
  have "keys192 key 1 (take 16 key, ?t2, [take 16 key, ?t2])"
    using keys192I [of key 1 "[]" ?a ?b ?c ?d "dword key 4" "dword key 5" "replicate 4 0" "replicate 4 0" "[take 16 key]"] k w h h2
    by simp
  then have J: "keys192 key 9
      (foldl step192 (take 16 key, ?t2, [take 16 key, ?t2]) [(0x1, 0x2), (0x4, 0x8), (0x10, 0x20), (0x40, 0x80)])"
    by - (rule foldl_steps [OF _ _ rcons192 refl]; simp add: keys192_step [unfolded add_2_eq_Suc'])
  obtain tmp0 tmp2 ks where F: "foldl step192 (take 16 key, ?t2, [take 16 key, ?t2])
        [(0x1, 0x2), (0x4, 0x8), (0x10, 0x20), (0x40, 0x80)] = (tmp0, tmp2, ks)" by (rule prod_cases3)
  obtain P a0 a1 a2 a3 a4 a5 where k9: "kexp 6 key (6 * 9) = P @ [a0, a1, a2, a3, a4, a5]"
    and w: "words4 (P @ [a0, a1, a2, a3, a4, a5])" and r: "concat (butlast ks) = concat (P @ [a0, a1, a2, a3])"
    using J unfolding F keys192_def by auto
  have 1: "kexp 6 key 54 = kexp 6 key 52 @ [key_word S_enc 6 (kexp 6 key 52) 52, key_word S_enc 6 (kexp 6 key 53) 53]"
    using kexp_Suc [of 6 52 key] kexp_Suc [of 6 53 key] by simp
  then have "kexp 6 key 52 = P @ [a0, a1, a2, a3]" using k9 by simp
  moreover have "round_keys192 key = butlast ks" unfolding round_keys192_def Let_def F by simp
  ultimately show ?thesis using w r by simp
qed

section \<open>The round keys in memory\<close>

lemma blk_writes:
  assumes "\<And>i. i \<in> set xs \<Longrightarrow> length (f i) = 16 \<and> 16 * i + 16 \<le> length d"
  shows "length (foldl (\<lambda>d i. write_at (16 * i) (f i) d) d xs) = length d \<and>
    blk r (foldl (\<lambda>d i. write_at (16 * i) (f i) d) d xs) = (if r \<in> set xs then f r else blk r d)"
  using assms
proof (induction xs rule: rev_induct)
  case (snoc x xs)
  let ?d = "foldl (\<lambda>d i. write_at (16 * i) (f i) d) d xs"
  have x: "length (f x) = 16" "16 * x + 16 \<le> length d" using snoc.prems [of x] by simp_all
  have IH: "length ?d = length d" "blk r ?d = (if r \<in> set xs then f r else blk r d)"
    using snoc.IH snoc.prems by simp_all
  show ?case using x IH by (auto simp: blk_write_at)
qed simp

lemma ExpandDecryptKeys_blk:
  assumes "0 < nr" "16 * nr + 16 \<le> length pDecKey" "16 * nr + 16 \<le> length pEncKey"
  shows "length (ExpandDecryptKeys pDecKey pEncKey nr) = length pDecKey" (is "length ?D = _")
    and "r \<le> nr \<Longrightarrow> blk r (ExpandDecryptKeys pDecKey pEncKey nr)
      = (if r = 0 then blk nr pEncKey else if r = nr then blk 0 pEncKey else inv_mix_columns (blk (nr - r) pEncKey))"
proof -
  define d0 where "d0 = write_at (16 * nr) (blk 0 pEncKey) pDecKey"
  define d1 where "d1 = foldl (\<lambda>dec i. write_at (16 * i) (mm_aesimc_si128 (blk (nr - i) pEncKey)) dec) d0 (rev [1..<nr])"
  have l: "length (blk 0 pEncKey) = 16" "length (blk nr pEncKey) = 16" using assms by (simp_all add: blk_def)
  have d0: "length d0 = length pDecKey" "blk r d0 = (if r = nr then blk 0 pEncKey else blk r pDecKey)" for r
    using assms l by (simp_all add: d0_def blk_write_at)
  have d1: "length d1 = length pDecKey"
    "blk r d1 = (if r \<in> set (rev [1..<nr]) then mm_aesimc_si128 (blk (nr - r) pEncKey) else blk r d0)" for r
    using blk_writes [of "rev [1..<nr]" "\<lambda>i. mm_aesimc_si128 (blk (nr - i) pEncKey)" d0 r] assms d0
    by (auto simp: d1_def mm_aesimc_si128_def)
  have D: "?D = write_at (16 * 0) (blk nr pEncKey) d1"
    by (simp add: ExpandDecryptKeys_def d0_def d1_def Let_def)
  show "length ?D = length pDecKey" using D d1 assms l by simp
  show "r \<le> nr \<Longrightarrow> blk r ?D
      = (if r = 0 then blk nr pEncKey else if r = nr then blk 0 pEncKey else inv_mix_columns (blk (nr - r) pEncKey))"
    unfolding D using assms l d1 d0 blk_write_at [of "blk nr pEncKey" 0 d1 r]
    by (auto simp: mm_aesimc_si128_def)
qed

lemma take_drop_concat4:
  "words4 w \<Longrightarrow> take (4 * k) (concat w) = concat (take k w) \<and> drop (4 * k) (concat w) = concat (drop k w)"
proof (induction w arbitrary: k)
  case (Cons x w)
  then show ?case using Cons by (cases k) auto
qed simp

lemma round_keys_concat:
  assumes "aes_params len nk nr" "length key = 4 * nk"
  shows "concat (if nr = 14 then round_keys256 key else if nr = 12 then round_keys192 key else round_keys128 key)
      = concat (key_expansion S_enc nk nr key) \<and> words4 (key_expansion S_enc nk nr key)"
  using assms round_keys128_concat [of key] round_keys192_concat [of key] round_keys256_concat [of key]
  by (auto simp: aes_params_def kexp_key_expansion)

lemma ExpandKeys_blk:
  assumes p: "aes_params len nk nr" "length key = 4 * nk" and l: "length pEncKey = 512" "length pDecKey = 512"
    and e: "ExpandKeys key pEncKey pDecKey nr = (enc, dec)"
  shows "length enc = 512" "length dec = 512"
    "r \<le> nr \<Longrightarrow> blk r enc = aes_round_key nk nr key r"
    "r \<le> nr \<Longrightarrow> blk r dec = (if r = 0 then aes_round_key nk nr key nr else if r = nr then aes_round_key nk nr key 0
           else inv_mix_columns (aes_round_key nk nr key (nr - r)))"
proof -
  let ?W = "key_expansion S_enc nk nr key"
  have n: "16 * nr + 16 \<le> 512" "0 < nr" "nk \<le> 4 * (nr + 1)" using p by (auto simp: aes_params_def)
  have W: "words4 ?W" "length ?W = 4 * (nr + 1)"
    using round_keys_concat [OF p] length_kexp [OF n(3), of key] by (simp_all add: kexp_key_expansion)
  have cl: "length (concat ?W) = 16 * nr + 16"
    using length_concat_const [of ?W 4] W by (simp add: words4_def)
  have enc: "enc = write_at 0 (concat ?W) pEncKey" and dec: "dec = ExpandDecryptKeys pDecKey enc nr"
    using e round_keys_concat [OF p] by (simp_all add: ExpandKeys_def Let_def split: if_splits)
  show le: "length enc = 512" using enc cl n l by simp
  show "length dec = 512" using ExpandDecryptKeys_blk(1) [of nr pDecKey enc] n le l dec by simp
  have E: "blk r enc = aes_round_key nk nr key r" if "r \<le> nr" for r
  proof -
    have "16 * r + 16 \<le> length (concat ?W)" using that cl by simp
    then have "blk r enc = take (4 * 4) (drop (4 * (4 * r)) (concat ?W))"
      by (simp add: enc blk_def write_at_def)
    also have "\<dots> = concat (take 4 (drop (4 * r) ?W))"
    proof -
      have "drop (4 * (4 * r)) (concat ?W) = concat (drop (4 * r) ?W)" using take_drop_concat4 [OF W(1), of "4 * r"] by simp
      moreover have "words4 (drop (4 * r) ?W)" using W(1) by (auto simp: words4_def dest: in_set_dropD)
      ultimately show ?thesis using take_drop_concat4 [of "drop (4 * r) ?W" 4] by simp
    qed
    finally show ?thesis by (simp add: aes_round_key_def round_key_def)
  qed
  then show "r \<le> nr \<Longrightarrow> blk r enc = aes_round_key nk nr key r" .
  show "r \<le> nr \<Longrightarrow> blk r dec = (if r = 0 then aes_round_key nk nr key nr else if r = nr then aes_round_key nk nr key 0
           else inv_mix_columns (aes_round_key nk nr key (nr - r)))"
    using ExpandDecryptKeys_blk(2) [of nr pDecKey enc r] n le l dec E by auto
qed

lemma setKey_aesni_keyed:
  assumes "aes_params len nk nr" "length key = 4 * nk"
    "length (m_round_key_enc s) = 512" "length (m_round_key_dec s) = 512"
  shows "\<exists>s'. Rijndael_setKey_aesni (Some key) len s = Some s' \<and> keyed nk nr key s'"
proof -
  obtain enc dec where e: "ExpandKeys key (m_round_key_enc s) (m_round_key_dec s) nr = (enc, dec)" by fastforce
  obtain prm where prm: "ParamsMap (BitsToBlockSize len) = Some prm" "Nr prm = nr"
    using assms(1) by (auto simp: aes_params_def ParamsMap_def BitsToBlockSize_def)
  have "len div 8 = 4 * nk" using assms(1) by (auto simp: aes_params_def)
  then show ?thesis
    using e prm ExpandKeys_blk [OF assms e] by (simp add: Rijndael_setKey_aesni_def Let_def keyed_def)
qed

section \<open>Keys that compute a cipher\<close>

lemma mm_shuffle_reverse: "length x = 16 \<Longrightarrow> mm_shuffle_epi8 x reverse_mask = rev x"
proof -
  assume l: "length x = 16"
  have m: "map (\<lambda>m. (bit m 7, unat (m AND 0xf))) reverse_mask = map (\<lambda>i. (False, 15 - i)) [0..<16]" by code_simp
  have "mm_shuffle_epi8 x reverse_mask
      = map (\<lambda>(b, i). if b then 0 else x ! i) (map (\<lambda>m. (bit m 7, unat (m AND 0xf))) reverse_mask)"
    by (simp add: mm_shuffle_epi8_def)
  also have "\<dots> = map (\<lambda>i. x ! (15 - i)) [0..<16]" unfolding m by simp
  also have "\<dots> = rev x" using l by (intro nth_equalityI) (simp_all add: rev_nth)
  finally show ?thesis .
qed

text \<open>The round keys compute the cipher \<open>E\<close>, through either block function.\<close>

definition keys_compute :: "(u8 list \<Rightarrow> u8 list) \<Rightarrow> u8 list \<Rightarrow> nat \<Rightarrow> bool" where
  "keys_compute E keys nr \<longleftrightarrow> (\<forall>b. length b = 16 \<longrightarrow>
     AesEncrypt b keys nr = E b \<and> Rijndael_encryptBlock b keys nr = E b \<and> length (E b) = 16)"

lemma keys_computeD:
  assumes "keys_compute E keys nr" "length b = 16"
  shows "AesEncrypt b keys nr = E b" "Rijndael_encryptBlock b keys nr = E b" "length (E b) = 16"
  using assms by (simp_all add: keys_compute_def)

lemma keyed_computes:
  assumes k: "keyed nk nr key r" and nr: "0 < nr" "16 * nr + 16 \<le> 512"
  shows "keys_compute (aes_cipher S_enc nr (key_expansion S_enc nk nr key)) (m_round_key_enc r) nr"
proof -
  have l: "length (m_round_key_enc r) = 512" using k by (simp add: keyed_def)
  have "blk nr (m_round_key_enc r) = round_key (key_expansion S_enc nk nr key) nr"
    using k by (simp add: keyed_def aes_round_key_def)
  moreover have "length (blk nr (m_round_key_enc r)) = 16" using nr l by (simp add: length_blk)
  ultimately have "length (round_key (key_expansion S_enc nk nr key) nr) = 16" by simp
  then show ?thesis
    using encryptBlock_cipher [OF k nr] AesEncrypt_portable [OF nr(1)] nr(2) l
    by (simp add: keys_compute_def) (simp add: aes_cipher_def Let_def)
qed

section \<open>Properties\<close>

text \<open>C20:
  On a machine with AES-NI \<open>setKey\<close> stores, for every key of 128, 192 or 256 bits, the round keys
  the portable code stores, those of the equivalent inverse cipher included; both are the
  expansion of FIPS 197.
\<close>

theorem ExpandKeys_is_portable:
  assumes "(len, nk, nr) \<in> {(128, 4, 10 :: nat), (192, 6, 12), (256, 8, 14)}" "length key = 4 * nk"
    "length (m_round_key_enc s) = 512" "length (m_round_key_dec s) = 512"
  shows "\<exists>a p. Rijndael_setKey_aesni (Some key) len s = Some a \<and> Rijndael_setKey (Some key) len s = Some p \<and>
     getNr a = getNr p \<and> getNk a = getNk p \<and> (\<forall>r\<in>{0..nr}.
        blk r (m_round_key_enc a) = round_key (key_expansion S_enc nk nr key) r \<and>
        blk r (m_round_key_enc a) = blk r (m_round_key_enc p) \<and>
        blk r (m_round_key_dec a) = blk r (m_round_key_dec p))"
proof -
  have p: "aes_params len nk nr" using assms(1) by (simp add: aes_params_def)
  show ?thesis
    using setKey_aesni_keyed [OF p assms(2-4)] setKey_keyed [OF p assms(2-4)]
    by (fastforce simp: keyed_def getNr_def getNk_def aes_round_key_def)
qed

theorem ExpandKeys_is_portable_witness:
  "\<exists>a p. Rijndael_setKey_aesni (Some (replicate 24 7)) 192 Rijndael_ctor = Some a \<and>
     Rijndael_setKey (Some (replicate 24 7)) 192 Rijndael_ctor = Some p \<and> getNr a = getNr p \<and> getNk a = getNk p \<and>
     (\<forall>r\<in>{0..12}. blk r (m_round_key_enc a) = round_key (key_expansion S_enc 6 12 (replicate 24 7)) r \<and>
        blk r (m_round_key_enc a) = blk r (m_round_key_enc p) \<and> blk r (m_round_key_dec a) = blk r (m_round_key_dec p))"
  using ExpandKeys_is_portable [of 192 6 12 "replicate 24 7" Rijndael_ctor] by (simp add: Rijndael_ctor_def)

text \<open>C21:
  The AES-NI block functions, whatever number of blocks they interleave and whatever the key
  memory holds, give for each block the value of the portable \<open>encryptBlock\<close> and
  \<open>AesDecrypt\<close>.
\<close>

theorem aesni_blocks_are_portable:
  assumes "0 < nr" "16 * nr + 16 \<le> length pk" "\<forall>b\<in>set bs. length b = 16"
  shows "AesEncrypt_blocks bs pk nr = map (\<lambda>b. Rijndael_encryptBlock b pk nr) bs \<and>
    AesDecrypt_blocks bs pk nr = map (\<lambda>b. AesDecrypt b pk nr) bs"
  using assms AesDecrypt_blocks_map [OF assms(1,2), of bs]
  by (simp add: AesEncrypt_blocks_map AesEncrypt_portable)

theorem aesni_blocks_are_portable_witness:
  "AesEncrypt_blocks [replicate 16 1, replicate 16 2] (replicate 512 7) 14
     = map (\<lambda>b. Rijndael_encryptBlock b (replicate 512 7) 14) [replicate 16 1, replicate 16 2] \<and>
   AesDecrypt_blocks [replicate 16 1, replicate 16 2] (replicate 512 7) 14
     = map (\<lambda>b. AesDecrypt b (replicate 512 7) 14) [replicate 16 1, replicate 16 2]"
  using aesni_blocks_are_portable [of 14 "replicate 512 7" "[replicate 16 1, replicate 16 2]"] by simp

end
