(* ===== verification/Cmac.thy ===== *)
theory Cmac imports Aesni Cipher_Common begin

text \<open>
  AES-CMAC: \<^verbatim>\<open>lib/mac/cmac.cc\<close> with both of its block loops, the AES-NI one of
  \<^verbatim>\<open>lib/arch/avx2/aesni_cmac.cc\<close> and the portable one, against NIST SP 800-38B.
\<close>

unbundle bit_operations_syntax

section \<open>NIST SP 800-38B\<close>

definition cmac_double :: "u128 \<Rightarrow> u128" where
  "cmac_double w = (if bit w 127 then push_bit 1 w XOR 0x87 else push_bit 1 w)"

definition cmac_k1 :: "(u8 list \<Rightarrow> u8 list) \<Rightarrow> u8 list" where
  "cmac_k1 E = be_bytes 16 (cmac_double (be_word (E (replicate 16 0))))"

definition cmac_k2 :: "(u8 list \<Rightarrow> u8 list) \<Rightarrow> u8 list" where
  "cmac_k2 E = be_bytes 16 (cmac_double (be_word (cmac_k1 E)))"

definition cmac_last :: "(u8 list \<Rightarrow> u8 list) \<Rightarrow> u8 list \<Rightarrow> u8 list" where
  "cmac_last E m = (if length m = 16 then xor_bytes (cmac_k1 E) m
                    else xor_bytes (cmac_k2 E) (m @ 0x80 # replicate (15 - length m) 0))"

text \<open>The chaining value after the first \<open>n\<close> blocks.\<close>

definition cmac_chain :: "(u8 list \<Rightarrow> u8 list) \<Rightarrow> u8 list \<Rightarrow> nat \<Rightarrow> u8 list" where
  "cmac_chain E m n = foldl (\<lambda>c i. E (xor_bytes c (blk i m))) (replicate 16 0) [0..<n]"

definition cmac_mac :: "(u8 list \<Rightarrow> u8 list) \<Rightarrow> u8 list \<Rightarrow> u8 list" where
  "cmac_mac E m =
     (let n = (if m = [] then 1 else (length m + 15) div 16)
      in E (xor_bytes (cmac_chain E m (n - 1)) (cmac_last E (drop (16 * (n - 1)) m))))"

section \<open>The AES-NI functions\<close>

definition mm_movemask_epi8 :: "m128 \<Rightarrow> nat \<Rightarrow> bool" where
  "mm_movemask_epi8 x i = bit (x ! i) 7"

definition left_shift_1 :: "m128 \<Rightarrow> m128" where
  "left_shift_1 x =
     (let out = mm_slli_epi64 x 1
      in if mm_movemask_epi8 x 7 then mm_add_epi64 out (replicate 8 0 @ [1] @ replicate 7 0) else out)"

definition shuffle_for_shifting :: "m128 \<Rightarrow> m128" where
  "shuffle_for_shifting x = mm_shuffle_epi8 x reverse_mask"

text \<open>The subkey as a register, and as it is stored.\<close>

definition subkey_derive_singlestep :: "m128 \<Rightarrow> m128 \<Rightarrow> m128 \<times> u8 list" where
  "subkey_derive_singlestep test rb =
     (let temp = left_shift_1 test;
          k = (if mm_movemask_epi8 test 15 then mm_xor_si128 rb temp else temp)
      in (k, shuffle_for_shifting k))"

definition get_subkeys :: "u8 list \<Rightarrow> nat \<Rightarrow> u8 list \<times> u8 list" where
  "get_subkeys pEncryptKeys cNRounds =
     (let rb = 0x87 # replicate 15 0; l = replicate 16 0;
          l = AesEncrypt l pEncryptKeys cNRounds;
          l = shuffle_for_shifting l;
          (k1_reg, k1) = subkey_derive_singlestep l rb;
          (k2_reg, k2) = subkey_derive_singlestep k1_reg rb
      in (k1, k2))"

definition update_avx2 :: "u8 list \<Rightarrow> u8 list \<Rightarrow> u8 list \<Rightarrow> u8 list \<Rightarrow> nat \<Rightarrow> nat \<Rightarrow> u8 list" where
  "update_avx2 pPlaintext pBuffer pEncryptKeys pEnc rounds cNBlocks =
     (let a1 = mm_xor_si128 pEnc pBuffer;
          a1 = AesEncrypt a1 pEncryptKeys rounds
      in foldl (\<lambda>a1 i. AesEncrypt (mm_xor_si128 a1 (blk i pPlaintext)) pEncryptKeys rounds) a1 [0..<cNBlocks])"

text \<open>The buffer is padded in place; a write past it is \<open>None\<close>. The value is the buffer and the last block.\<close>

definition finalize_avx2 ::
  "u8 list \<Rightarrow> nat \<Rightarrow> nat \<Rightarrow> u8 list \<Rightarrow> u8 list \<Rightarrow> nat \<Rightarrow> u8 list \<Rightarrow> u8 list \<Rightarrow> (u8 list \<times> u8 list) option" where
  "finalize_avx2 pBuff buff_offset cBlockSize pSubKey1 pSubKey2 cRounds pEnc pEncryptKeys =
     do {
       (pBuff, b0) \<leftarrow>
         (if buff_offset = cBlockSize then Some (pBuff, mm_xor_si128 pSubKey1 pBuff)
          else do {
            pBuff \<leftarrow> CopyBlock pBuff buff_offset [0x80];
            pBuff \<leftarrow> CopyBlock pBuff (buff_offset + 1) (replicate (cBlockSize - (buff_offset + 1)) 0);
            Some (pBuff, mm_xor_si128 pSubKey2 pBuff)
          });
       Some (pBuff, AesEncrypt (mm_xor_si128 pEnc b0) pEncryptKeys cRounds)
     }"

section \<open>The object\<close>

definition xor_a_b :: "u8 list \<Rightarrow> u8 list \<Rightarrow> nat \<Rightarrow> u8 list" where
  "xor_a_b a b len = map (\<lambda>j. b ! j XOR a ! j) [0..<len]"

text \<open>
  \<open>cm_keys\<close> is the pointer \<^verbatim>\<open>m_encrypt_keys\<close>: null, or to the round keys of the object's own key
  manager. \<open>zen\<close> is the cached architecture level being at least \<^verbatim>\<open>eZen\<close>.
\<close>

record cmac =
  cm_keyManager :: key_manager
  cm_k1 :: "u8 list"
  cm_k2 :: "u8 list"
  cm_keys :: bool
  cm_buff :: "u8 list"
  cm_buff_offset :: nat
  cm_buffEnc :: "u8 list"
  cm_finalized :: bool

definition Cmac_ctor :: cmac where
  "Cmac_ctor = \<lparr>cm_keyManager = KeyManager_ctor 0, cm_k1 = replicate 16 0, cm_k2 = replicate 16 0, cm_keys = False,
     cm_buff = replicate 16 0, cm_buff_offset = 0, cm_buffEnc = replicate 16 0, cm_finalized = False\<rparr>"

definition Cmac_copy :: "cmac \<Rightarrow> cmac" where
  "Cmac_copy src =
     \<lparr>cm_keyManager = (if m_isKeySet (cm_keyManager src) then copyKeyStateFrom (cm_keyManager src) (KeyManager_ctor 0)
                       else KeyManager_ctor 0),
      cm_k1 = cm_k1 src, cm_k2 = cm_k2 src, cm_keys = m_isKeySet (cm_keyManager src),
      cm_buff = cm_buff src, cm_buff_offset = cm_buff_offset src, cm_buffEnc = cm_buffEnc src,
      cm_finalized = cm_finalized src\<rparr>"

definition cmac_round_keys :: "cmac \<Rightarrow> u8 list" where
  "cmac_round_keys s = m_round_key_enc (m_rijndael (cm_keyManager s))"

definition cmac_rounds :: "cmac \<Rightarrow> nat" where
  "cmac_rounds s = m_nrounds (m_rijndael (cm_keyManager s))"

definition getSubkeys :: "cmac \<Rightarrow> cmac" where
  "getSubkeys s = (let (k1, k2) = get_subkeys (cmac_round_keys s) (cmac_rounds s) in s\<lparr>cm_k1 := k1, cm_k2 := k2\<rparr>)"

text \<open>The portable block loop.\<close>

definition cmac_update_ref :: "u8 list \<Rightarrow> u8 list \<Rightarrow> u8 list \<Rightarrow> u8 list \<Rightarrow> nat \<Rightarrow> nat \<Rightarrow> u8 list" where
  "cmac_update_ref pMsgBuf buff keys enc rounds n_blocks =
     (let enc = xor_a_b enc buff 16;
          enc = KeyManager_encryptBlock enc keys rounds
      in foldl (\<lambda>enc i. KeyManager_encryptBlock (xor_a_b enc (blk i pMsgBuf) 16) keys rounds) enc [0..<n_blocks])"

text \<open>The blocks to process now and the bytes to keep; a whole last block is kept.\<close>

definition cmac_split :: "nat \<Rightarrow> nat \<times> nat" where
  "cmac_split ptxt_bytes_rem =
     (let n_blocks = ptxt_bytes_rem div 16;
          unprocessed_bytes_left = ptxt_bytes_rem - 16 * n_blocks
      in if unprocessed_bytes_left = 0 then (n_blocks - 1, 16) else (n_blocks, unprocessed_bytes_left))"

text \<open>The block count is cast to 32 bits on the way into the AES-NI loop, and only there.\<close>

definition Cmac_update :: "bool \<Rightarrow> u8 list option \<Rightarrow> cmac \<Rightarrow> (alc_error \<times> cmac) option" where
  "Cmac_update zen pMsgBuf s =
     (if cm_finalized s then Some (ALC_ERROR_BAD_STATE, s)
      else case pMsgBuf of
        None \<Rightarrow> Some (ALC_ERROR_NONE, s)
      | Some msg \<Rightarrow>
          let sz = length msg in
          if \<not> cm_keys s then Some (ALC_ERROR_BAD_STATE, s)
          else if sz = 0 then Some (ALC_ERROR_NONE, s)
          else if (cm_buff_offset s + sz) mod 2 ^ 64 \<le> 16 then do {
            buff \<leftarrow> CopyBlock (cm_buff s) (cm_buff_offset s) msg;
            Some (ALC_ERROR_NONE, s\<lparr>cm_buff := buff, cm_buff_offset := cm_buff_offset s + sz\<rparr>)
          }
          else
            let b = 16 - cm_buff_offset s in do {
            buff \<leftarrow> CopyBlock (cm_buff s) (cm_buff_offset s) (take b msg);
            let msg = drop b msg;
                (n_blocks, unprocessed) = cmac_split (sz - b);
                enc = (if zen then update_avx2 msg buff (cmac_round_keys s) (cm_buffEnc s) (cmac_rounds s) (n_blocks mod 2 ^ 32)
                       else cmac_update_ref msg buff (cmac_round_keys s) (cm_buffEnc s) (cmac_rounds s) n_blocks) in do {
            buff \<leftarrow> CopyBlock buff 0 (take unprocessed (drop (16 * n_blocks) msg));
            Some (ALC_ERROR_NONE, s\<lparr>cm_buff := buff, cm_buff_offset := unprocessed, cm_buffEnc := enc\<rparr>)
          }})"

definition Cmac_reset :: "cmac \<Rightarrow> cmac" where
  "Cmac_reset s = s\<lparr>cm_buffEnc := replicate 16 0, cm_buff := replicate 16 0, cm_buff_offset := 0, cm_finalized := False\<rparr>"

text \<open>\<^verbatim>\<open>CopyBytes(pMsgBuf, m_pBuffEnc, size)\<close> checks neither the pointer nor the sixteen bytes of its source.\<close>

definition cmac_copy_out :: "u8 list option \<Rightarrow> nat \<Rightarrow> u8 list \<Rightarrow> u8 list option option" where
  "cmac_copy_out pMsgBuf sz enc =
     (if sz = 0 then Some pMsgBuf
      else if sz > length enc then None
      else do { out \<leftarrow> pMsgBuf; out \<leftarrow> CopyBlock out 0 (take sz enc); Some (Some out) })"

definition Cmac_finalize ::
  "bool \<Rightarrow> u8 list option \<Rightarrow> nat \<Rightarrow> cmac \<Rightarrow> (alc_error \<times> cmac \<times> u8 list option) option" where
  "Cmac_finalize zen pMsgBuf sz s =
     (if cm_finalized s then Some (ALC_ERROR_BAD_STATE, s, pMsgBuf)
      else if \<not> cm_keys s then Some (ALC_ERROR_BAD_STATE, s, pMsgBuf)
      else if zen then do {
        (buff, enc) \<leftarrow> finalize_avx2 (cm_buff s) (cm_buff_offset s) 16 (cm_k1 s) (cm_k2 s) (cmac_rounds s)
                         (cm_buffEnc s) (cmac_round_keys s);
        out \<leftarrow> cmac_copy_out pMsgBuf sz enc;
        Some (ALC_ERROR_NONE, s\<lparr>cm_buff := buff, cm_buffEnc := enc, cm_finalized := True\<rparr>, out)
      }
      else do {
        (buff, off) \<leftarrow>
          (if cm_buff_offset s = 16 then Some (xor_a_b (cm_k1 s) (cm_buff s) 16, 16)
           else do {
             buff \<leftarrow> CopyBlock (cm_buff s) (cm_buff_offset s) [0x80];
             buff \<leftarrow> CopyBlock buff (cm_buff_offset s + 1) (replicate (16 - (cm_buff_offset s + 1)) 0);
             Some (xor_a_b (cm_k2 s) buff 16, cm_buff_offset s + 1)
           });
        let enc = KeyManager_encryptBlock (xor_a_b (cm_buffEnc s) buff 16) (cmac_round_keys s) (cmac_rounds s) in do {
        out \<leftarrow> cmac_copy_out pMsgBuf sz enc;
        Some (ALC_ERROR_NONE, s\<lparr>cm_buff := buff, cm_buff_offset := off, cm_buffEnc := enc, cm_finalized := True\<rparr>, out)
      }})"

text \<open>The key expansion the key manager runs is the one of the machine.\<close>

definition Cmac_init :: "bool \<Rightarrow> u8 list option \<Rightarrow> nat \<Rightarrow> cmac \<Rightarrow> (alc_error \<times> cmac) option" where
  "Cmac_init zen pKey keyLen s =
     (if keyLen \<noteq> 32 \<and> keyLen \<noteq> 24 \<and> keyLen \<noteq> 16 then Some (ALC_ERROR_INVALID_SIZE, s)
      else case KeyManager_setKey_with (if zen then Rijndael_setKey_aesni else Rijndael_setKey)
                  pKey (of_nat (keyLen * 8)) (cm_keyManager s) of
        None \<Rightarrow> None
      | Some (Inr km) \<Rightarrow> None
      | Some (Inl (err, km)) \<Rightarrow>
          let s = s\<lparr>cm_keyManager := km\<rparr>
          in if err \<noteq> ALC_ERROR_NONE then Some (err, s)
             else Some (err, Cmac_reset (getSubkeys (s\<lparr>cm_keys := True\<rparr>))))"

text \<open>The function the C interface calls for \<^verbatim>\<open>alcp_mac_init\<close>.\<close>

definition cmac_wrapperInit :: "bool \<Rightarrow> u8 list option \<Rightarrow> nat \<Rightarrow> cmac \<Rightarrow> (alc_error \<times> cmac) option" where
  "cmac_wrapperInit zen key sz s = do { (_, s) \<leftarrow> Cmac_init zen key sz s; Some (ALC_ERROR_NONE, s) }"

section \<open>Subkeys\<close>

lemma bit_le_word_halves:
  assumes "length a = 8" "length b = 8"
  shows "bit (le_word (a @ b) :: u128) k
    \<longleftrightarrow> (if k < 64 then bit (le_word a :: u64) k else k < 128 \<and> bit (le_word b :: u64) (k - 64))"
proof (cases "k < 64")
  case True
  then have "k div 8 < 8" by simp
  then show ?thesis using True assms by (auto simp: bit_le_word nth_append)
next
  case False
  then obtain j where k: "k = 64 + j" by (metis le_Suc_ex not_less)
  have "k div 8 = 8 + j div 8" "k mod 8 = j mod 8"
    using mod_mult_self4 [of 8 8 j] by (simp_all add: k)
  then show ?thesis using False assms by (auto simp: bit_le_word nth_append k)
qed

lemma bit_times_2: "bit (w * 2 :: 'a::len word) k \<longleftrightarrow> k < LENGTH('a) \<and> 0 < k \<and> bit w (k - 1)"
  by (auto simp: mult.commute [of w] bit_double_iff dest: bit_imp_le_length)

lemma left_shift_1_halves:
  assumes "length a = 8" "length b = 8"
  shows "left_shift_1 (a @ b) = le_bytes 8 (push_bit 1 (le_word a :: u64)) @
    le_bytes 8 (push_bit 1 (le_word b :: u64) OR (if bit (le_word a :: u64) 63 then 1 else 0))"
proof -
  have m: "mm_movemask_epi8 (a @ b) 7 = bit (le_word a :: u64) 63"
    using assms by (simp add: mm_movemask_epi8_def bit_le_word nth_append)
  have o: "w * 2 + 1 = w * 2 OR 1" for w :: u64
    by (subst disjunctive_add) (auto simp: bit_times_2 bit_1_iff)
  have c: "le_word (take 8 (replicate 8 0 @ [1] @ replicate 7 0)) = (0 :: u64)"
    "le_word (drop 8 (replicate 8 0 @ [1] @ replicate 7 0)) = (1 :: u64)" by code_simp+
  show ?thesis
    using assms by (simp add: left_shift_1_def m mm_slli_epi64_def mm_add_epi64_def le_word_le_bytes Let_def o c [simplified])
qed

lemma left_shift_1_word:
  assumes "length x = 16"
  shows "le_word (left_shift_1 x) = push_bit 1 (le_word x :: u128)" "length (left_shift_1 x) = 16"
proof -
  obtain a b where x: "x = a @ b" "length a = 8" "length b = 8"
    using assms that [of "take 8 x" "drop 8 x"] by simp
  show "length (left_shift_1 x) = 16" using x by (simp add: left_shift_1_halves)
  show "le_word (left_shift_1 x) = push_bit 1 (le_word x :: u128)"
  proof (rule bit_word_eqI)
    fix k assume "k < LENGTH(128)"
    then have k: "k < 128" by simp
    have "k = 0 \<or> 0 < k \<and> k < 64 \<or> k = 64 \<or> (\<exists>j. k = 65 + j \<and> j < 63)"
    proof (cases "k \<le> 64")
      case False
      then have "k = 65 + (k - 65)" "k - 65 < 63" using k by simp_all
      then show ?thesis by blast
    qed auto
    then consider "k = 0" | "0 < k" "k < 64" | "k = 64" | j where "k = 65 + j" "j < 63" by blast
    then show "bit (le_word (left_shift_1 x) :: u128) k = bit (push_bit 1 (le_word x :: u128)) k"
      using x by cases (simp_all add: left_shift_1_halves bit_le_word_halves le_word_le_bytes bit_times_2 bit_or_iff bit_1_iff less_imp_diff_less)
  qed
qed

lemma shuffle_rev: "length x = 16 \<Longrightarrow> shuffle_for_shifting x = rev x"
  by (simp add: shuffle_for_shifting_def mm_shuffle_reverse)

lemma subkey_step:
  assumes "length x = 16"
  shows "subkey_derive_singlestep x (0x87 # replicate 15 0)
    = (le_bytes 16 (cmac_double (le_word x)), be_bytes 16 (cmac_double (le_word x)))"
proof -
  have m: "mm_movemask_epi8 x 15 = bit (le_word x :: u128) 127"
    using assms by (simp add: mm_movemask_epi8_def bit_le_word)
  have e: "left_shift_1 x = le_bytes 16 (push_bit 1 (le_word x :: u128))"
    using left_shift_1_word [OF assms] le_bytes_le_word [of "left_shift_1 x", where 'a = 128] by simp
  have r: "0x87 # replicate 15 0 = le_bytes 16 (0x87 :: u128)" by code_simp
  have x: "xor_bytes (le_bytes 16 v) (le_bytes 16 w) = le_bytes 16 (v XOR w :: u128)" for v w :: u128
    by (intro nth_equalityI) (simp_all add: xor_bytes_def nth_le_bytes drop_bit_xor unsigned_xor_eq)
  show ?thesis
    by (simp add: subkey_derive_singlestep_def m e r mm_xor_si128_def x shuffle_rev be_bytes_def cmac_double_def
        Let_def xor.commute)
qed

lemma get_subkeys_spec:
  assumes "AesEncrypt (replicate 16 0) keys nr = E (replicate 16 0)" "length (E (replicate 16 0)) = 16"
  shows "get_subkeys keys nr = (cmac_k1 E, cmac_k2 E)"
  using assms
  by (simp add: get_subkeys_def shuffle_rev subkey_step cmac_k1_def cmac_k2_def be_word_def be_bytes_def
      le_word_le_bytes Let_def)

section \<open>The block loops\<close>

lemma xor_a_b_bytes: "length a = n \<Longrightarrow> length b = n \<Longrightarrow> xor_a_b a b n = xor_bytes a b"
  by (intro nth_equalityI) (simp_all add: xor_a_b_def xor_bytes_def xor.commute)

lemma cmac_chain_Suc: "cmac_chain E m (Suc n) = E (xor_bytes (cmac_chain E m n) (blk n m))"
  by (simp add: cmac_chain_def)

lemma cmac_chain_append: "16 * n \<le> length m \<Longrightarrow> cmac_chain E (m @ x) n = cmac_chain E m n"
  by (induction n) (simp_all add: cmac_chain_Suc blk_def, simp add: cmac_chain_def)

lemma length_cmac_chain: "keys_compute E keys nr \<Longrightarrow> 16 * n \<le> length m \<Longrightarrow> length (cmac_chain E m n) = 16"
  by (induction n) (simp_all add: cmac_chain_Suc keys_computeD blk_def, simp add: cmac_chain_def)

lemma cmac_chain_add:
  "cmac_chain E m (q + n) = foldl (\<lambda>c i. E (xor_bytes c (blk i (drop (16 * q) m)))) (cmac_chain E m q) [0..<n]"
  by (induction n) (simp_all add: cmac_chain_Suc, simp add: blk_def add.commute)

text \<open>Any function that agrees with \<open>E\<close> on blocks drives the same loop.\<close>

lemma block_loop:
  assumes "\<And>c x. length c = 16 \<Longrightarrow> length x = 16 \<Longrightarrow> f c x = E (xor_bytes c x) \<and> length (E (xor_bytes c x)) = 16"
    "length c = 16" "16 * n \<le> length msg"
  shows "foldl (\<lambda>c i. f c (blk i msg)) c [0..<n] = foldl (\<lambda>c i. E (xor_bytes c (blk i msg))) c [0..<n] \<and>
    length (foldl (\<lambda>c i. E (xor_bytes c (blk i msg))) c [0..<n]) = 16"
  using assms(3)
proof (induction n)
  case (Suc n)
  have "length (blk n msg) = 16" using Suc.prems by (simp add: blk_def)
  then show ?case using Suc assms(1) by simp
qed (simp add: assms(2))

lemma update_loops:
  assumes "keys_compute E keys nr" "length enc = 16" "length buff = 16" "16 * n \<le> length msg"
  shows "update_avx2 msg buff keys enc nr n = foldl (\<lambda>c i. E (xor_bytes c (blk i msg))) (E (xor_bytes enc buff)) [0..<n]"
    "cmac_update_ref msg buff keys enc nr n = foldl (\<lambda>c i. E (xor_bytes c (blk i msg))) (E (xor_bytes enc buff)) [0..<n]"
proof -
  have E: "length (E (xor_bytes enc buff)) = 16" using keys_computeD(3) [OF assms(1)] assms by simp
  show "update_avx2 msg buff keys enc nr n = foldl (\<lambda>c i. E (xor_bytes c (blk i msg))) (E (xor_bytes enc buff)) [0..<n]"
    using block_loop [of "\<lambda>c x. AesEncrypt (mm_xor_si128 c x) keys nr" E "E (xor_bytes enc buff)" n msg] E assms
    by (simp add: update_avx2_def mm_xor_si128_def keys_computeD [OF assms(1)])
  show "cmac_update_ref msg buff keys enc nr n = foldl (\<lambda>c i. E (xor_bytes c (blk i msg))) (E (xor_bytes enc buff)) [0..<n]"
    using block_loop [of "\<lambda>c x. KeyManager_encryptBlock (xor_a_b c x 16) keys nr" E "E (xor_bytes enc buff)" n msg] E assms
    by (simp add: cmac_update_ref_def xor_a_b_bytes KeyManager_encryptBlock_def keys_computeD [OF assms(1)])
qed

section \<open>The object holds the chained message\<close>

definition cm_keyed :: "(u8 list \<Rightarrow> u8 list) \<Rightarrow> cmac \<Rightarrow> bool" where
  "cm_keyed E s \<longleftrightarrow> cm_keys s \<and> m_isKeySet (cm_keyManager s) \<and> keys_compute E (cmac_round_keys s) (cmac_rounds s) \<and>
     cm_k1 s = cmac_k1 E \<and> cm_k2 s = cmac_k2 E"

definition cm_holds :: "(u8 list \<Rightarrow> u8 list) \<Rightarrow> u8 list \<Rightarrow> cmac \<Rightarrow> bool" where
  "cm_holds E m s \<longleftrightarrow> cm_keyed E s \<and> \<not> cm_finalized s \<and> length (cm_buff s) = 16 \<and> length (cm_buffEnc s) = 16 \<and>
     cm_buff_offset s \<le> 16 \<and>
     (\<exists>p. length m = 16 * p + cm_buff_offset s \<and> (0 < p \<longrightarrow> 0 < cm_buff_offset s) \<and>
        take (cm_buff_offset s) (cm_buff s) = drop (16 * p) m \<and> cm_buffEnc s = cmac_chain E m p)"

lemma cm_holds_reset: "cm_keyed E s \<Longrightarrow> cm_holds E [] (Cmac_reset s)"
  by (simp add: cm_holds_def cm_keyed_def Cmac_reset_def cmac_round_keys_def cmac_rounds_def cmac_chain_def)

text \<open>The arithmetic of the last, held back, block.\<close>

lemma held_back:
  assumes "0 < (r :: nat)"
  obtains n u where "cmac_split r = (n, u)" "16 * n + u = r" "0 < u" "u \<le> 16" "n \<le> r div 16"
proof (cases "r mod 16 = 0")
  case True
  then obtain k where k: "r = 16 * Suc k" using assms by (metis dvd_def dvd_eq_mod_eq_0 gr0_implies_Suc mult_0_right not_gr0)
  show thesis using that [of k 16] k by (simp add: cmac_split_def)
next
  case False
  have "r = 16 * (r div 16) + r mod 16" by simp
  then show thesis using that [of "r div 16" "r mod 16"] False by (simp add: minus_mult_div_eq_mod cmac_split_def Let_def)
qed

lemma Cmac_update_holds:
  assumes h: "cm_holds E m s" and l: "length msg + 16 < 2 ^ 64" "zen \<longrightarrow> length msg < 2 ^ 36"
  shows "\<exists>s'. Cmac_update zen (Some msg) s = Some (ALC_ERROR_NONE, s') \<and> cm_holds E (m @ msg) s'"
proof -
  let ?o = "cm_buff_offset s"
  obtain p where k: "cm_keyed E s" "\<not> cm_finalized s" "length (cm_buff s) = 16" "length (cm_buffEnc s) = 16" "?o \<le> 16"
    "length m = 16 * p + ?o" "0 < p \<longrightarrow> 0 < ?o" "take ?o (cm_buff s) = drop (16 * p) m" "cm_buffEnc s = cmac_chain E m p"
    using h by (auto simp: cm_holds_def)
  have K: "keys_compute E (cmac_round_keys s) (cmac_rounds s)" "cm_keys s" using k(1) by (simp_all add: cm_keyed_def)
  have mm: "(?o + length msg) mod 2 ^ 64 = ?o + length msg" using k(5) l(1) by simp
  consider "msg = []" | "msg \<noteq> []" "?o + length msg \<le> 16" | "16 < ?o + length msg" by fastforce
  then show ?thesis
  proof cases
    case 1
    then show ?thesis using h K k(2) by (simp add: Cmac_update_def)
  next
    case 2
    then show ?thesis
      using k K mm l(1)
      by (auto simp: Cmac_update_def cm_holds_def cm_keyed_def cmac_round_keys_def cmac_rounds_def take_write_at_end
          cmac_chain_append intro!: exI [of _ p])
  next
    case 3
    define b where "b = 16 - ?o"
    define buff where "buff = write_at ?o (take b msg) (cm_buff s)"
    define r where "r = length msg - b"
    have b: "b < length msg" "?o + b = 16" using 3 k(5) by (simp_all add: b_def)
    obtain n u where nu: "cmac_split r = (n, u)"
      "16 * n + u = r" "0 < u" "u \<le> 16" "n \<le> r div 16" using held_back [of r] b by (auto simp: r_def)
    define enc where "enc = foldl (\<lambda>c i. E (xor_bytes c (blk i (drop b msg)))) (E (xor_bytes (cm_buffEnc s) buff)) [0..<n]"
    have buff: "length buff = 16" "buff = blk p (m @ msg)"
    proof -
      have "buff = take (?o + b) buff" using b k(3) by (simp add: buff_def)
      also have "\<dots> = take ?o (cm_buff s) @ take b msg"
        unfolding buff_def by (rule take_write_at_end) (use b k(3,5) in simp_all)
      also have "\<dots> = drop (16 * p) m @ take b msg" by (simp only: k(8))
      also have "\<dots> = blk p (m @ msg)" using k(5,6) b by (simp add: blk_def b_def)
      finally show "buff = blk p (m @ msg)" .
      show "length buff = 16" using b k(3) by (simp add: buff_def)
    qed
    have d: "drop (16 * Suc p) (m @ msg) = drop b msg" using k(5,6) by (simp add: b_def)
    have "enc = cmac_chain E (m @ msg) (Suc p + n)"
      unfolding cmac_chain_add d enc_def
      using k(6,9) buff(2) by (simp add: cmac_chain_Suc cmac_chain_append)
    moreover have "n mod 2 ^ 32 = n" if zen
    proof -
      have "r div 16 < 2 ^ 32" using l(2) that by (simp add: r_def div_less_iff_less_mult)
      then show ?thesis using nu(5) by simp
    qed
    then have U: "(if zen then update_avx2 (drop b msg) buff (cmac_round_keys s) (cm_buffEnc s) (cmac_rounds s) (n mod 2 ^ 32)
                       else cmac_update_ref (drop b msg) buff (cmac_round_keys s) (cm_buffEnc s) (cmac_rounds s) n) = enc"
      using update_loops [OF K(1) k(4) buff(1), of n "drop b msg"] nu(2) by (simp add: enc_def r_def)
    let ?s = "s\<lparr>cm_buff := write_at 0 (take u (drop (16 * n) (drop b msg))) buff, cm_buff_offset := u, cm_buffEnc := enc\<rparr>"
    have "Cmac_update zen (Some msg) s = Some (ALC_ERROR_NONE, ?s)"
    proof -
      have "msg \<noteq> []" using b by auto
      moreover have "CopyBlock (cm_buff s) ?o (take b msg) = Some buff" using b k(3) by (simp add: buff_def)
      ultimately show ?thesis using k(2) K(2) 3 nu(1,4) U buff(1)
        by (simp add: Cmac_update_def Let_def mm [simplified] b_def [symmetric] r_def [symmetric])
    qed
    moreover have "length (cmac_chain E (m @ msg) (Suc p + n)) = 16"
      using length_cmac_chain [OF K(1), of "Suc p + n" "m @ msg"] nu(2) k(5,6) b by (simp add: r_def)
    moreover have "take u (write_at 0 (take u (drop (16 * n) (drop b msg))) buff) = drop (16 * (Suc p + n)) (m @ msg)"
    proof -
      have "drop (16 * (Suc p + n)) (m @ msg) = drop (16 * n) (drop b msg)"
      proof -
        have "16 * (Suc p + n) = 16 * n + 16 * Suc p" by simp
        then show ?thesis by (simp only: d [symmetric] drop_drop)
      qed
      moreover have "length (drop (16 * n) (drop b msg)) = u" using nu(2) by (simp add: r_def)
      ultimately show ?thesis using nu(4) buff(1) write_at_0 [of "drop (16 * n) (drop b msg)" buff] by simp
    qed
    moreover have "length (m @ msg) = 16 * (Suc p + n) + u" using nu(2) k(6) b by (simp add: r_def)
    ultimately show ?thesis
      using k(1) nu buff(1) unfolding cm_holds_def
      by (intro exI [of _ ?s]) (auto simp: cm_keyed_def cmac_round_keys_def cmac_rounds_def k(2) intro!: exI [of _ "Suc p + n"])
  qed
qed

lemma cmac_blocks_last:
  assumes "length m = 16 * p + j" "0 < p \<longrightarrow> 0 < j" "j \<le> 16"
  shows "(if m = [] then 1 else (length m + 15) div 16) - 1 = p"
proof (cases "j = 0")
  case True
  then show ?thesis using assms by simp
next
  case False
  then have "(16 * p + j + 15) div 16 = p + 1" using assms(3) by (intro div_nat_eqI) simp_all
  then show ?thesis using assms(1) False by auto
qed

lemma pad_in_place:
  assumes "length buff = 16" "j < 16"
  shows "\<exists>b1. CopyBlock buff j [0x80] = Some b1 \<and>
    CopyBlock b1 (j + 1) (replicate (16 - (j + 1)) 0) = Some (take j buff @ 0x80 # replicate (15 - j) (0 :: u8))"
  using assms by (simp add: write_at_def)

lemma Cmac_finalize_copies:
  assumes h: "cm_holds E m s"
  shows "length (cmac_mac E m) = 16"
    "\<exists>s'. Cmac_finalize zen buf sz s = do { out \<leftarrow> cmac_copy_out buf sz (cmac_mac E m); Some (ALC_ERROR_NONE, s', out) }"
proof -
  let ?o = "cm_buff_offset s"
  obtain p where k: "cm_keyed E s" "\<not> cm_finalized s" "length (cm_buff s) = 16" "length (cm_buffEnc s) = 16" "?o \<le> 16"
    "length m = 16 * p + ?o" "0 < p \<longrightarrow> 0 < ?o" "take ?o (cm_buff s) = drop (16 * p) m" "cm_buffEnc s = cmac_chain E m p"
    using h by (auto simp: cm_holds_def)
  have K: "keys_compute E (cmac_round_keys s) (cmac_rounds s)" "cm_keys s" "cm_k1 s = cmac_k1 E" "cm_k2 s = cmac_k2 E"
    using k(1) by (simp_all add: cm_keyed_def)
  have kl: "length (cmac_k1 E) = 16" "length (cmac_k2 E) = 16" by (simp_all add: cmac_k1_def cmac_k2_def)
  define b0 where "b0 = cmac_last E (drop (16 * p) m)"
  have b0: "length b0 = 16" using k(5,6) kl by (simp add: b0_def cmac_last_def)
  have T: "cmac_mac E m = E (xor_bytes (cm_buffEnc s) b0)"
    using cmac_blocks_last [OF k(6,7,5)] by (simp add: cmac_mac_def Let_def k(9) b0_def)
  have El: "length (E (xor_bytes (cm_buffEnc s) b0)) = 16" using keys_computeD(3) [OF K(1)] k(4) b0 by simp
  then show "length (cmac_mac E m) = 16" by (simp add: T)
  show "\<exists>s'. Cmac_finalize zen buf sz s = do { out \<leftarrow> cmac_copy_out buf sz (cmac_mac E m); Some (ALC_ERROR_NONE, s', out) }"
  proof (cases "?o = 16")
    case True
    then have "cm_buff s = drop (16 * p) m" using k(3,8) by simp
    then have "xor_bytes (cmac_k1 E) (cm_buff s) = b0" using k(6) True by (simp add: b0_def cmac_last_def)
    then show ?thesis
      using k(2,3,4) K True b0 kl
      by (cases zen) (auto simp: T Cmac_finalize_def finalize_avx2_def mm_xor_si128_def xor_a_b_bytes KeyManager_encryptBlock_def keys_computeD [OF K(1)] Let_def)
  next
    case False
    then have o: "?o < 16" using k(5) by simp
    obtain b1 where b1: "CopyBlock (cm_buff s) ?o [0x80] = Some b1"
      "CopyBlock b1 (?o + 1) (replicate (16 - (?o + 1)) 0) = Some (take ?o (cm_buff s) @ 0x80 # replicate (15 - ?o) (0 :: u8))"
      using pad_in_place [OF k(3) o] by blast
    have l: "length (take ?o (cm_buff s) @ 0x80 # replicate (15 - ?o) (0 :: u8)) = 16" using k(3) o by simp
    have "xor_bytes (cmac_k2 E) (take ?o (cm_buff s) @ 0x80 # replicate (15 - ?o) 0) = b0"
      using k(6,8) o by (simp add: b0_def cmac_last_def)
    then show ?thesis
      using k(2,4) K False b0 kl b1 l
      by (cases zen) (auto simp: T Cmac_finalize_def finalize_avx2_def mm_xor_si128_def xor_a_b_bytes KeyManager_encryptBlock_def keys_computeD [OF K(1)] Let_def
        simp del: CopyBlock_Some length_append)
  qed
qed

lemma Cmac_finalize_holds:
  assumes h: "cm_holds E m s" and out: "length out = sz" "sz \<le> 16"
  shows "\<exists>s'. Cmac_finalize zen (Some out) sz s = Some (ALC_ERROR_NONE, s', Some (take sz (cmac_mac E m)))"
proof -
  have "cmac_copy_out (Some out) sz (cmac_mac E m) = Some (Some (take sz (cmac_mac E m)))"
    using out Cmac_finalize_copies(1) [OF h] by (auto simp: cmac_copy_out_def write_at_def)
  then show ?thesis using Cmac_finalize_copies(2) [OF h, of zen "Some out" sz] by auto
qed

text \<open>The block before it is copied out has sixteen bytes, so asking for more reads past it.\<close>

lemma Cmac_finalize_too_long:
  assumes h: "cm_holds E m s" and n: "16 < n"
  shows "Cmac_finalize zen buf n s = None"
  using Cmac_finalize_copies(1) [OF h] Cmac_finalize_copies(2) [OF h, of zen buf n] n by (auto simp: cmac_copy_out_def)

lemma Cmac_init_holds:
  assumes "(length key, nk, nr) \<in> {(16, 4, 10 :: nat), (24, 6, 12), (32, 8, 14)}"
    "m_expectedKeyLen (cm_keyManager s) = 0" "length (m_originalKey (cm_keyManager s)) = 32"
    "length (m_round_key_enc (m_rijndael (cm_keyManager s))) = 512"
    "length (m_round_key_dec (m_rijndael (cm_keyManager s))) = 512"
  shows "\<exists>s'. Cmac_init zen (Some key) (length key) s = Some (ALC_ERROR_NONE, s') \<and>
    cm_holds (aes_cipher S_enc nr (key_expansion S_enc nk nr key)) [] s'"
proof -
  let ?km = "cm_keyManager s" and ?E = "aes_cipher S_enc nr (key_expansion S_enc nk nr key)"
  let ?set = "if zen then Rijndael_setKey_aesni else Rijndael_setKey"
  have l: "length key = 4 * nk" "0 < nr" "16 * nr + 16 \<le> 512" using assms(1) by auto
  have r: "\<exists>r. ?set (Some key) len (m_rijndael ?km) = Some r \<and> keyed nk nr key r" if "aes_params len nk nr" for len
    using setKey_keyed [OF that l(1) assms(4,5)] setKey_aesni_keyed [OF that l(1) assms(4,5)] by simp
  have "(of_nat (length key * 8), nk, nr) \<in> {(128, 4, 10), (192, 6, 12), (256, 8, 14), (2 ^ 35 + 128 :: u64, 4, 10)}"
    using assms(1) by auto
  from KeyManager_setKey_with_keyed [where setKey = ?set, OF this l(1) disjI1 [OF assms(2)] assms(3) r]
  obtain km where km: "KeyManager_setKey_with ?set (Some key) (of_nat (length key * 8)) ?km = Some (Inl (ALC_ERROR_NONE, km))"
    "m_isKeySet km" "keyed nk nr key (m_rijndael km)" by blast
  let ?s = "s\<lparr>cm_keyManager := km, cm_keys := True\<rparr>"
  have nr: "m_nrounds (m_rijndael km) = nr" using km(3) by (simp add: keyed_def)
  have K: "keys_compute ?E (m_round_key_enc (m_rijndael km)) nr" by (rule keyed_computes [OF km(3) l(2,3)])
  have "get_subkeys (m_round_key_enc (m_rijndael km)) nr = (cmac_k1 ?E, cmac_k2 ?E)"
    by (rule get_subkeys_spec) (simp_all add: keys_computeD [OF K])
  then have "cm_keyed ?E (getSubkeys ?s)"
    using K km(2) nr by (simp add: cm_keyed_def getSubkeys_def cmac_round_keys_def cmac_rounds_def)
  moreover have "Cmac_init zen (Some key) (length key) s = Some (ALC_ERROR_NONE, Cmac_reset (getSubkeys ?s))"
    using assms(1) km(1) by (auto simp: Cmac_init_def)
  ultimately show ?thesis using cm_holds_reset by blast
qed

lemma Cmac_copy_holds: "cm_holds E m s \<Longrightarrow> cm_holds E m (Cmac_copy s)"
  by (auto simp: cm_holds_def cm_keyed_def Cmac_copy_def cmac_round_keys_def cmac_rounds_def copyKeyStateFrom_def)

text \<open>A message in pieces.\<close>

primrec Cmac_updates :: "bool \<Rightarrow> u8 list list \<Rightarrow> cmac \<Rightarrow> (alc_error \<times> cmac) option" where
  "Cmac_updates zen [] s = Some (ALC_ERROR_NONE, s)"
| "Cmac_updates zen (m # ms) s = do {
     (err, s) \<leftarrow> Cmac_update zen (Some m) s;
     if alcp_is_error err then Some (err, s) else Cmac_updates zen ms s
   }"

lemma Cmac_updates_holds:
  assumes "cm_holds E m s" "\<forall>x\<in>set msgs. length x + 16 < 2 ^ 64 \<and> (zen \<longrightarrow> length x < 2 ^ 36)"
  shows "\<exists>s'. Cmac_updates zen msgs s = Some (ALC_ERROR_NONE, s') \<and> cm_holds E (m @ concat msgs) s'"
  using assms
proof (induction msgs arbitrary: m s)
  case (Cons x msgs)
  have x: "length x + 16 < 2 ^ 64" "zen \<longrightarrow> length x < 2 ^ 36" using Cons.prems(2) by auto
  obtain s1 where "Cmac_update zen (Some x) s = Some (ALC_ERROR_NONE, s1)" "cm_holds E (m @ x) s1"
    using Cmac_update_holds [OF Cons.prems(1) x] by blast
  then show ?case using Cons.IH [of "m @ x" s1] Cons.prems(2) by simp
qed simp

section \<open>Properties\<close>

text \<open>C22:
  CMAC is the CMAC of NIST SP 800-38B over AES of FIPS 197: for every key of 16, 24 or 32
  bytes, \<open>init\<close>, any sequence of updates and \<open>finalize\<close> give the MAC of the concatenated
  message, cut to the length asked for; a copy taken before \<open>finalize\<close> gives it as well. On the
  portable path the updates are any that fit the address space; on the AES-NI path every single
  update has to be below 2^36 bytes (64 GiB), because the kernel counts blocks in 32 bits:
  beyond it blocks are lost (\<open>Cmac_update_drops_blocks\<close>).
\<close>

theorem Cmac_computes_mac:
  assumes "(length key, nk, nr) \<in> {(16, 4, 10 :: nat), (24, 6, 12), (32, 8, 14)}"
    "m_expectedKeyLen (cm_keyManager s) = 0" "length (m_originalKey (cm_keyManager s)) = 32"
    "length (m_round_key_enc (m_rijndael (cm_keyManager s))) = 512"
    "length (m_round_key_dec (m_rijndael (cm_keyManager s))) = 512"
    "\<forall>x\<in>set msgs. length x + 16 < 2 ^ 64 \<and> (zen \<longrightarrow> length x < 2 ^ 36)" "length out \<le> 16"
  shows "\<exists>s1 s2. Cmac_init zen (Some key) (length key) s = Some (ALC_ERROR_NONE, s1) \<and>
     Cmac_updates zen msgs s1 = Some (ALC_ERROR_NONE, s2) \<and>
     (\<forall>c\<in>{s2, Cmac_copy s2}. \<exists>s3. Cmac_finalize zen (Some out) (length out) c = Some (ALC_ERROR_NONE, s3,
        Some (take (length out) (cmac_mac (aes_cipher S_enc nr (key_expansion S_enc nk nr key)) (concat msgs)))))"
proof -
  let ?E = "aes_cipher S_enc nr (key_expansion S_enc nk nr key)"
  obtain s1 where s1: "Cmac_init zen (Some key) (length key) s = Some (ALC_ERROR_NONE, s1)" "cm_holds ?E [] s1"
    using Cmac_init_holds [OF assms(1-5)] by blast
  obtain s2 where s2: "Cmac_updates zen msgs s1 = Some (ALC_ERROR_NONE, s2)" "cm_holds ?E (concat msgs) s2"
    using Cmac_updates_holds [OF s1(2) assms(6)] by auto
  have "\<exists>s3. Cmac_finalize zen (Some out) (length out) c = Some (ALC_ERROR_NONE, s3, Some (take (length out) (cmac_mac ?E (concat msgs))))"
    if "c \<in> {s2, Cmac_copy s2}" for c
  proof -
    have "cm_holds ?E (concat msgs) c" using that s2(2) Cmac_copy_holds by auto
    from Cmac_finalize_holds [OF this refl assms(7)] show ?thesis by blast
  qed
  then show ?thesis using s1(1) s2(1) by blast
qed

theorem Cmac_computes_mac_witness:
  "\<exists>s1 s2. Cmac_init True (Some (replicate 16 1)) 16 Cmac_ctor = Some (ALC_ERROR_NONE, s1) \<and>
     Cmac_updates True [replicate 20 2, [], replicate 12 3] s1 = Some (ALC_ERROR_NONE, s2) \<and>
     (\<exists>s3. Cmac_finalize True (Some (replicate 12 0)) 12 s2 = Some (ALC_ERROR_NONE, s3,
        Some (take 12 (cmac_mac (aes_cipher S_enc 10 (key_expansion S_enc 4 10 (replicate 16 1))) (replicate 20 2 @ replicate 12 3)))))"
  using Cmac_computes_mac [of "replicate 16 1" 4 10 Cmac_ctor "[replicate 20 2, [], replicate 12 3]" True "replicate 12 0"]
  by (simp add: Cmac_ctor_def KeyManager_ctor_def Rijndael_ctor_def) blast

text \<open>
  The AES-NI path casts the number of blocks to 32 bits: one update of more than 64 GiB leaves
  out \<open>2 ^ 32\<close> blocks, and the object is the same as after an update without them, so two
  different messages get the same MAC.
\<close>

theorem Cmac_update_drops_blocks:
  assumes "length msg = 16 * (2 ^ 32 + 1) + r" "0 < r" "r \<le> 16"
    "cm_keys s" "\<not> cm_finalized s" "cm_buff_offset s = 0" "length (cm_buff s) = 16"
  shows "Cmac_update True (Some msg) s = Cmac_update True (Some (take 16 msg @ drop (16 * (2 ^ 32 + 1)) msg)) s"
proof -
  have split: "cmac_split (16 * q + r) = (q, r)" for q
    using assms(2,3) by (cases "r = 16") (simp_all add: cmac_split_def Let_def)
  have 1: "cmac_split (length msg - 16) = (2 ^ 32, r)" "cmac_split r = (0, r)"
    using split [of "2 ^ 32"] split [of 0] assms(1) by simp_all
  have n: "msg \<noteq> []" using assms by auto
  show ?thesis
    using assms n 1 by (simp add: Cmac_update_def Let_def update_avx2_def)
qed

theorem Cmac_update_drops_blocks_witness:
  "\<exists>s. Cmac_update True (Some (replicate (16 * (2 ^ 32 + 1) + 5) 7)) s
     = Cmac_update True (Some (replicate 16 7 @ replicate 5 7)) s"
  using Cmac_update_drops_blocks [of "replicate (16 * (2 ^ 32 + 1) + 5) 7" 5 "Cmac_ctor\<lparr>cm_keys := True\<rparr>"]
  by (intro exI [of _ "Cmac_ctor\<lparr>cm_keys := True\<rparr>"]) (simp add: Cmac_ctor_def)

text \<open>C23:
  A key that \<open>init\<close> refuses is reported as accepted by the C interface, whose wrapper drops the
  error: an object that had a key and part of a message goes on with both. And \<open>finalize\<close> asked
  for more than the sixteen bytes of the MAC reads past them.
\<close>

theorem Cmac_refused_key_keeps_old:
  "n \<notin> {16, 24, 32} \<or> pKey = None \<Longrightarrow>
     Cmac_init zen pKey n s = Some (if n \<in> {16, 24, 32} then ALC_ERROR_INVALID_ARG else ALC_ERROR_INVALID_SIZE, s) \<and>
     cmac_wrapperInit zen pKey n s = Some (ALC_ERROR_NONE, s) \<and>
     (\<forall>E m out. cm_holds E m s \<and> length out \<le> 16 \<longrightarrow>
        (\<exists>s'. Cmac_finalize zen (Some out) (length out) s = Some (ALC_ERROR_NONE, s', Some (take (length out) (cmac_mac E m))))) \<and>
     (\<forall>E m buf k. cm_holds E m s \<and> 16 < k \<longrightarrow> Cmac_finalize zen buf k s = None)"
  using Cmac_finalize_holds Cmac_finalize_too_long
  by (auto simp: cmac_wrapperInit_def Cmac_init_def KeyManager_setKey_with_def Let_def)

theorem Cmac_refused_key_keeps_old_witness:
  "cmac_wrapperInit True (Some (replicate 20 0)) 20 Cmac_ctor = Some (ALC_ERROR_NONE, Cmac_ctor) \<and>
   cmac_wrapperInit True None 16 Cmac_ctor = Some (ALC_ERROR_NONE, Cmac_ctor)"
  using Cmac_refused_key_keeps_old [of 20 "Some (replicate 20 0)" True Cmac_ctor]
    Cmac_refused_key_keeps_old [of 16 None True Cmac_ctor] by simp

end
