(* ===== verification/Digest_Interface.thy ===== *)
theory Digest_Interface imports Block_Buffer "HOL-Library.Monad_Syntax" begin

text \<open>
  The interface \<^verbatim>\<open>IDigest\<close> of \<^verbatim>\<open>lib/include/alcp/digest.hh\<close> as its clients use it: a table of
  the virtual operations, and the laws every hash promises. The hashes interpret the locale
  on their own operations; HMAC and HMAC-DRBG are proved once inside it.
\<close>

section \<open>The virtual operations\<close>

text \<open>
  An operation's result is \<open>None\<close> when the C++ code would be undefined. \<open>finalize\<close> gets the
  caller's buffer and returns it as the call leaves it.
\<close>

record 'd digest_ops =
  op_init :: "'d \<Rightarrow> 'd"
  op_update :: "u8 list option \<Rightarrow> 'd \<Rightarrow> (alc_error \<times> 'd) option"
  op_finalize :: "u8 list option \<Rightarrow> 'd \<Rightarrow> (alc_error \<times> 'd \<times> u8 list option) option"
  op_block_len :: "'d \<Rightarrow> nat"
  op_digest_len :: "'d \<Rightarrow> nat"

text \<open>A message handed over in pieces: one \<^verbatim>\<open>update\<close> per piece, stopping at the first error.\<close>

fun feed :: "(u8 list option \<Rightarrow> 'd \<Rightarrow> (alc_error \<times> 'd) option) \<Rightarrow> u8 list list \<Rightarrow> 'd \<Rightarrow> (alc_error \<times> 'd) option" where
  "feed upd [] s = Some (ALC_ERROR_NONE, s)"
| "feed upd (x # xs) s =
     do { (err, s) \<leftarrow> upd (Some x) s; if alcp_is_error err then Some (err, s) else feed upd xs s }"

text \<open>A complete use of the interface: \<^verbatim>\<open>init\<close>, the updates, \<^verbatim>\<open>finalize\<close>.\<close>

definition hash_message :: "'d digest_ops \<Rightarrow> u8 list list \<Rightarrow> u8 list \<Rightarrow> 'd \<Rightarrow> (alc_error \<times> 'd \<times> u8 list option) option" where
  "hash_message V xs out s =
     do { (err, s) \<leftarrow> feed (op_update V) xs (op_init V s);
          if alcp_is_error err then Some (err, s, Some out) else op_finalize V (Some out) s }"

section \<open>The contract\<close>

text \<open>Anything that takes a message in pieces: one more piece never fails and extends the message.\<close>

locale stream =
  fixes upd :: "u8 list option \<Rightarrow> 's \<Rightarrow> (alc_error \<times> 's) option"
    and taken :: "u8 list \<Rightarrow> 's \<Rightarrow> bool"
  assumes upd_taken:
    "taken m s \<Longrightarrow> \<exists>s'. upd (Some x) s = Some (ALC_ERROR_NONE, s') \<and> taken (m @ x) s'"
begin

lemma feed_taken:
  "taken m s \<Longrightarrow> \<exists>s'. feed upd xs s = Some (ALC_ERROR_NONE, s') \<and> taken (m @ concat xs) s'"
proof (induction xs arbitrary: m s)
  case Nil
  then show ?case by simp
next
  case (Cons x xs)
  obtain s1 where s1: "upd (Some x) s = Some (ALC_ERROR_NONE, s1)" "taken (m @ x) s1"
    using upd_taken [OF Cons.prems] by blast
  show ?case using s1(1) Cons.IH [OF s1(2)] by (auto simp: alcp_is_error_def)
qed

end

text \<open>
  \<open>ok\<close> is the well-formedness of the object, \<open>holds m\<close> says that it has absorbed \<open>m\<close> since
  \<^verbatim>\<open>init\<close>, \<open>H\<close> is the hash function of the standard, \<open>B\<close> and \<open>L\<close> its block and output
  lengths, \<open>lim\<close> the longest message it is promised for.
\<close>

locale digest =
  fixes V :: "'d digest_ops"
    and ok :: "'d \<Rightarrow> bool"
    and holds :: "u8 list \<Rightarrow> 'd \<Rightarrow> bool"
    and H :: "u8 list \<Rightarrow> u8 list"
    and B :: nat
    and L :: nat
    and lim :: nat
  assumes init_holds: "ok s \<Longrightarrow> holds [] (op_init V s)"
    and holds_ok: "holds m s \<Longrightarrow> ok s"
    and update_holds:
      "holds m s \<Longrightarrow> \<exists>s'. op_update V (Some x) s = Some (ALC_ERROR_NONE, s') \<and> holds (m @ x) s'"
    and finalize_hash:
      "holds m s \<Longrightarrow> length m \<le> lim \<Longrightarrow> length out = L \<Longrightarrow>
       \<exists>s'. op_finalize V (Some out) s = Some (ALC_ERROR_NONE, s', Some (H m)) \<and> ok s'"
    and lens: "ok s \<Longrightarrow> op_block_len V s = B" "ok s \<Longrightarrow> op_digest_len V s = L"
    and sizes: "0 < L" "L \<le> B"
    and length_H: "length (H m) = L"

sublocale digest \<subseteq> stream "op_update V" holds
  by unfold_locales (rule update_holds)

context digest begin

lemma message_hash:
  assumes "ok s" "length (concat xs) \<le> lim" "length out = L"
  shows "\<exists>s'. hash_message V xs out s = Some (ALC_ERROR_NONE, s', Some (H (concat xs))) \<and> ok s'"
proof -
  obtain s1 where s1: "feed (op_update V) xs (op_init V s) = Some (ALC_ERROR_NONE, s1)"
    "holds (concat xs) s1" using feed_taken [OF init_holds [OF assms(1)], of xs] by auto
  obtain s2 where "op_finalize V (Some out) s1 = Some (ALC_ERROR_NONE, s2, Some (H (concat xs)))" "ok s2"
    using finalize_hash [OF s1(2) assms(2,3)] by blast
  then show ?thesis using s1(1) by (auto simp: hash_message_def)
qed

end

end
