(* ===== verification/Fips180.thy ===== *)
theory Fips180 imports Block_Buffer begin

text \<open>
  The text of FIPS 180-4 the two SHA-2 families are checked against: the functions Ch, Maj,
  \<open>\<Sigma>\<close> and \<open>\<sigma>\<close> on any word size, the message schedule as a recurrence, the round function on
  the eight working variables and the padding. The second half relates them to loops over
  arrays and to the closing step of a block buffer.
\<close>

unbundle bit_operations_syntax

section \<open>FIPS 180-4\<close>

definition fips_ch :: "'a::len word \<Rightarrow> 'a word \<Rightarrow> 'a word \<Rightarrow> 'a word" where
  "fips_ch x y z = (x AND y) XOR (NOT x AND z)"

definition fips_maj :: "'a::len word \<Rightarrow> 'a word \<Rightarrow> 'a word \<Rightarrow> 'a word" where
  "fips_maj x y z = (x AND y) XOR (x AND z) XOR (y AND z)"

definition fips_sum :: "nat \<Rightarrow> nat \<Rightarrow> nat \<Rightarrow> 'a::len word \<Rightarrow> 'a word" where
  "fips_sum r1 r2 r3 x = word_rotr r1 x XOR word_rotr r2 x XOR word_rotr r3 x"

definition fips_sigma :: "nat \<Rightarrow> nat \<Rightarrow> nat \<Rightarrow> 'a::len word \<Rightarrow> 'a word" where
  "fips_sigma r1 r2 n x = word_rotr r1 x XOR word_rotr r2 x XOR drop_bit n x"

text \<open>The message schedule of FIPS 180-4, section 6.2.2: a recurrence over the block's words.\<close>

fun fips_schedule :: "('a::len word \<Rightarrow> 'a word) \<Rightarrow> ('a word \<Rightarrow> 'a word) \<Rightarrow> (nat \<Rightarrow> 'a word) \<Rightarrow> nat \<Rightarrow> 'a word" where
  "fips_schedule sg0 sg1 M t =
     (if t < 16 then M t
      else sg1 (fips_schedule sg0 sg1 M (t - 2)) + fips_schedule sg0 sg1 M (t - 7)
           + sg0 (fips_schedule sg0 sg1 M (t - 15)) + fips_schedule sg0 sg1 M (t - 16))"

declare fips_schedule.simps [simp del]

definition fips_round ::
  "('a::len word \<Rightarrow> 'a word) \<Rightarrow> ('a word \<Rightarrow> 'a word) \<Rightarrow> 'a word \<Rightarrow> 'a word \<Rightarrow>
   'a word \<times> 'a word \<times> 'a word \<times> 'a word \<times> 'a word \<times> 'a word \<times> 'a word \<times> 'a word \<Rightarrow>
   'a word \<times> 'a word \<times> 'a word \<times> 'a word \<times> 'a word \<times> 'a word \<times> 'a word \<times> 'a word" where
  "fips_round S0 S1 K W = (\<lambda>(a, b, c, d, e, f, g, h).
     let T1 = h + S1 e + fips_ch e f g + K + W; T2 = S0 a + fips_maj a b c
     in (T1 + T2, a, b, c, d + T1, e, f, g))"

definition tuple8 :: "'a list \<Rightarrow> 'a \<times> 'a \<times> 'a \<times> 'a \<times> 'a \<times> 'a \<times> 'a \<times> 'a" where
  "tuple8 v = (v ! 0, v ! 1, v ! 2, v ! 3, v ! 4, v ! 5, v ! 6, v ! 7)"

definition list8 :: "'a \<times> 'a \<times> 'a \<times> 'a \<times> 'a \<times> 'a \<times> 'a \<times> 'a \<Rightarrow> 'a list" where
  "list8 = (\<lambda>(a, b, c, d, e, f, g, h). [a, b, c, d, e, f, g, h])"

definition fips_compress ::
  "('a::len word \<Rightarrow> 'a word) \<Rightarrow> ('a word \<Rightarrow> 'a word) \<Rightarrow> nat \<Rightarrow> (nat \<Rightarrow> 'a word) \<Rightarrow> (nat \<Rightarrow> 'a word) \<Rightarrow>
   'a word list \<Rightarrow> 'a word list" where
  "fips_compress S0 S1 rounds K W H =
     map2 (+) H (list8 (foldl (\<lambda>v t. fips_round S0 S1 (K t) (W t) v) (tuple8 H) [0..<rounds]))"

text \<open>
  The padding of section 5.1.1: a one bit, the least number of zeros, and the message length
  in bits as a 64-bit word.
\<close>

definition sha2_pad :: "nat \<Rightarrow> nat \<Rightarrow> u8 list \<Rightarrow> u8 list" where
  "sha2_pad B L m =
     [0x80] @ replicate ((2 * B - 1 - L - length m mod B) mod B) 0
     @ be_bytes L (of_nat (8 * length m) :: u128)"

section \<open>Loops over arrays\<close>

lemma length_foldl_list_update:
  "(\<And>w i. length (f w i) = length w) \<Longrightarrow> length (foldl f w is) = length w"
  by (induction "is" arbitrary: w) auto

lemma foldl_map_upt:
  "n \<le> length w \<Longrightarrow> foldl (\<lambda>w i. w[i := g (w ! i)]) w [0..<n] = map g (take n w) @ drop n w"
proof (induction n)
  case 0
  then show ?case by simp
next
  case (Suc n)
  then show ?case
    by (simp add: list_update_append nth_append take_Suc_conv_app_nth upd_conv_take_nth_drop
        Cons_nth_drop_Suc [symmetric])
qed

lemma list8_tuple8 [simp]: "length v = 8 \<Longrightarrow> list8 (tuple8 v) = v"
  by (auto simp: list8_def tuple8_def eval_nat_numeral length_Suc_conv)

lemma tuple8_list8 [simp]: "tuple8 (list8 t) = t"
  by (simp add: tuple8_def list8_def split: prod.split)

lemma foldl_list8:
  assumes "\<And>v t. f v t = list8 (g (tuple8 v) t)" "length v = 8"
  shows "foldl f v ts = list8 (foldl g (tuple8 v) ts)"
  using assms(2)
proof (induction ts arbitrary: v)
  case Nil
  then show ?case by simp
next
  case (Cons t ts)
  have "length (f v t) = 8" by (simp add: assms(1) list8_def split: prod.split)
  then have "foldl f (f v t) ts = list8 (foldl g (tuple8 (f v t)) ts)" by (rule Cons.IH)
  then show ?case by (simp add: assms(1) [of v t])
qed

lemma length_fips_compress: "length H = 8 \<Longrightarrow> length (fips_compress S0 S1 n K W H) = 8"
  by (simp add: fips_compress_def list8_def split: prod.split)

lemma sha2_pad_length:
  assumes "B = 64 \<and> L = 8 \<or> B = 128 \<and> L = 16"
    and "i = length m mod B" and "n = (if i + 1 \<le> B - L then B else 2 * B) - (i + 1) - L"
  shows "sha2_pad B L m = [0x80] @ replicate n 0 @ be_bytes L (of_nat (8 * length m) :: u128)"
    and "(if i + 1 \<le> B - L then B else 2 * B) = i + 1 + n + L"
proof -
  have i: "i < B" using assms(1,2) by auto
  have "(2 * B - 1 - L - i) mod B = n"
  proof (cases "i + 1 \<le> B - L")
    case True
    then have "2 * B - 1 - L - i = n + B" using assms(1,3) by auto
    moreover have "n < B" using True assms(1,3) by auto
    ultimately show ?thesis by simp
  next
    case False
    then have "2 * B - 1 - L - i = n" "n < B" using assms(1,3) i by auto
    then show ?thesis by simp
  qed
  then show "sha2_pad B L m = [0x80] @ replicate n 0 @ be_bytes L (of_nat (8 * length m) :: u128)"
    using assms(2) by (simp add: sha2_pad_def)
  show "(if i + 1 \<le> B - L then B else 2 * B) = i + 1 + n + L"
    using assms(1,3) i by auto
qed

lemma foldl_schedule:
  assumes f: "\<And>w i. 16 \<le> i \<Longrightarrow>
      f w i = w[i := w ! (i - 16) + sg0 (w ! (i - 15)) + w ! (i - 7) + sg1 (w ! (i - 2))]"
    and "16 \<le> n" "n \<le> length w" "\<And>t. t < 16 \<Longrightarrow> w ! t = M t" "t < n"
  shows "foldl f w [16..<n] ! t = fips_schedule sg0 sg1 M t"
  using assms(2,3,5)
proof (induction n arbitrary: t rule: nat_induct_at_least)
  case base
  then show ?case using assms(4) by (simp add: fips_schedule.simps)
next
  case (Suc n)
  let ?W = "fips_schedule sg0 sg1 M" and ?w = "foldl f w [16..<n]"
  have IH: "?w ! u = ?W u" if "u < n" for u using Suc that by simp
  have len: "length (foldl f w [16..<k]) = length w" for k
    by (induction k) (auto simp: f)
  have "foldl f w [16..<Suc n] = ?w[n := ?w ! (n - 16) + sg0 (?w ! (n - 15)) + ?w ! (n - 7) + sg1 (?w ! (n - 2))]"
    using \<open>16 \<le> n\<close> by (simp add: f)
  also have "\<dots> = ?w[n := ?W n]"
    using \<open>16 \<le> n\<close> by (subst fips_schedule.simps) (simp add: IH ac_simps)
  finally show ?case using Suc.prems IH len by (cases "t = n") auto
qed

lemma foldl_fips_compress:
  assumes f: "\<And>v t. f v t = list8 (fips_round S0 S1 (K t) (w ! t) (tuple8 v))"
    and "length h = 8" and W: "\<And>t. t < n \<Longrightarrow> w ! t = W t"
  shows "map2 (+) h (foldl f h [0..<n]) = fips_compress S0 S1 n K W h"
proof -
  let ?g = "\<lambda>w v t. fips_round S0 S1 (K t) (w t) v"
  have "foldl f h [0..<n] = list8 (foldl (?g (\<lambda>t. w ! t)) (tuple8 h) [0..<n])"
    using assms(2) by (intro foldl_list8) (simp_all add: f)
  also have "foldl (?g (\<lambda>t. w ! t)) (tuple8 h) [0..<n] = foldl (?g W) (tuple8 h) [0..<n]"
    by (rule foldl_cong) (auto simp: W)
  finally show ?thesis by (simp add: fips_compress_def)
qed

text \<open>
  The closing step of both families: marker, zeros and length complete the pending bytes to
  one or two whole blocks, and the buffer's first \<open>bs\<close> bytes are those blocks.
\<close>

lemma close_buffer:
  assumes BL: "B = 64 \<and> L = 8 \<or> B = 128 \<and> L = 16"
    and a: "absorbs B f h0 m h (take i buf)" and i: "i < B" and len: "length buf = 2 * B"
    and bs: "bs = (if i + 1 \<le> B - L then B else 2 * B)" and n: "n = bs - (i + 1) - L"
    and b1: "b1 = write_at i [0x80] buf"
    and b2: "b2 = take (i + 1) b1 @ write_at 0 (replicate n 0) (drop (i + 1) b1)"
    and b3: "b3 = write_at (bs - L) (be_bytes L (of_nat (8 * length m) :: u128)) b2"
  shows "length b1 = 2 * B" "length b2 = 2 * B" "length b3 = 2 * B"
    "n \<le> 2 * B - (i + 1)" "bs \<le> 2 * B" "L \<le> bs" "B dvd bs" "i + 1 + n = bs - L"
    and "foldl f h (chunks B (take bs b3)) = foldl f h0 (chunks B (m @ sha2_pad B L m))"
proof -
  show b: "length b1 = 2 * B" "n \<le> 2 * B - (i + 1)" "bs \<le> 2 * B" "L \<le> bs" "B dvd bs" "i + 1 + n = bs - L"
    using BL i len bs n b1 by auto
  show b2': "length b2 = 2 * B" using b i b2 by simp
  then show b3': "length b3 = 2 * B" using b b3 by simp
  have im: "i = length m mod B" using absorbs_length [OF a] i len by simp
  have nn: "n = (if i + 1 \<le> B - L then B else 2 * B) - (i + 1) - L" using n bs by simp
  note pad = sha2_pad_length [OF BL im nn]
  have "take bs b3 = take i buf @ sha2_pad B L m"
    using padded_block [where bs = bs and i = i and n = n and c = "0x80" and z = 0
        and lenb = "be_bytes L (of_nat (8 * length m) :: u128)" and buf = buf]
      pad b len bs by (simp add: b3 b2 b1)
  moreover from this have "B dvd length (take i buf @ sha2_pad B L m)"
    using b b3' by (metis length_take min_absorb2)
  ultimately show "foldl f h (chunks B (take bs b3)) = foldl f h0 (chunks B (m @ sha2_pad B L m))"
    using absorbs_closed [OF a] by simp
qed

end
