(* ===== verification/Sha256.thy ===== *)
theory Sha256 imports Digest_Interface Fips180 begin

text \<open>
  SHA-224 and SHA-256 as \<^verbatim>\<open>lib/digest/sha256.cc\<close> and \<^verbatim>\<open>lib/include/alcp/digest/sha2.hh\<close>
  implement them on the reference architecture level (no SHA-NI), against the text of
  FIPS 180-4: the message schedule as a recurrence, the round function with rotations, the
  padding rule. \<open>None\<close> is undefined behaviour of the C++ code (a write outside
  \<^verbatim>\<open>m_buffer\<close>, a failed \<^verbatim>\<open>assert\<close>); the theorems show that it does not occur.
\<close>

unbundle bit_operations_syntax

section \<open>The code\<close>

record sha2 = idigest +
  sha2_buffer :: "u8 list"
  sha2_hash :: "u32 list"

abbreviation cChunkSize :: nat where "cChunkSize \<equiv> 64"

definition cRoundConstants256 :: "u32 list" where
  "cRoundConstants256 = [
    0x428A2F98, 0x71374491, 0xB5C0FBCF, 0xE9B5DBA5, 0x3956C25B, 0x59F111F1,
    0x923F82A4, 0xAB1C5ED5, 0xD807AA98, 0x12835B01, 0x243185BE, 0x550C7DC3,
    0x72BE5D74, 0x80DEB1FE, 0x9BDC06A7, 0xC19BF174, 0xE49B69C1, 0xEFBE4786,
    0x0FC19DC6, 0x240CA1CC, 0x2DE92C6F, 0x4A7484AA, 0x5CB0A9DC, 0x76F988DA,
    0x983E5152, 0xA831C66D, 0xB00327C8, 0xBF597FC7, 0xC6E00BF3, 0xD5A79147,
    0x06CA6351, 0x14292967, 0x27B70A85, 0x2E1B2138, 0x4D2C6DFC, 0x53380D13,
    0x650A7354, 0x766A0ABB, 0x81C2C92E, 0x92722C85, 0xA2BFE8A1, 0xA81A664B,
    0xC24B8B70, 0xC76C51A3, 0xD192E819, 0xD6990624, 0xF40E3585, 0x106AA070,
    0x19A4C116, 0x1E376C08, 0x2748774C, 0x34B0BCB5, 0x391C0CB3, 0x4ED8AA4A,
    0x5B9CCA4F, 0x682E6FF3, 0x748F82EE, 0x78A5636F, 0x84C87814, 0x8CC70208,
    0x90BEFFFA, 0xA4506CEB, 0xBEF9A3F7, 0xC67178F2]"

definition extendMsg :: "u32 list \<Rightarrow> nat \<Rightarrow> nat \<Rightarrow> u32 list" where
  "extendMsg w start end =
     foldl (\<lambda>w i.
       let s0 = RotateRight32 (w ! (i - 15)) 7 XOR RotateRight32 (w ! (i - 15)) 18
                XOR drop_bit 3 (w ! (i - 15));
           s1 = RotateRight32 (w ! (i - 2)) 17 XOR RotateRight32 (w ! (i - 2)) 19
                XOR drop_bit 10 (w ! (i - 2))
       in w[i := w ! (i - 16) + s0 + w ! (i - 7) + s1]) w [start..<end]"

definition CompressMsg256_round ::
  "u32 list \<Rightarrow> u32 list \<Rightarrow> u32 list \<Rightarrow> nat \<Rightarrow> u32 list" where
  "CompressMsg256_round w k v i =
     (let a = v ! 0; b = v ! 1; c = v ! 2; d = v ! 3; e = v ! 4; f = v ! 5; g = v ! 6; h = v ! 7;
          s1 = RotateRight32 e 6 XOR RotateRight32 e 11 XOR RotateRight32 e 25;
          ch = (e AND f) XOR (NOT e AND g);
          temp1 = h + s1 + ch + k ! i + w ! i;
          s0 = RotateRight32 a 2 XOR RotateRight32 a 13 XOR RotateRight32 a 22;
          maj = (a AND b) XOR (a AND c) XOR (b AND c);
          temp2 = s0 + maj
      in [temp1 + temp2, a, b, c, d + temp1, e, f, g])"

definition CompressMsg256 :: "u32 list \<Rightarrow> u32 list \<Rightarrow> u32 list \<Rightarrow> u32 list" where
  "CompressMsg256 w pHash k =
     (let v = foldl (CompressMsg256_round w k) pHash [0..<64] in map2 (+) pHash v)"

text \<open>
  One iteration of the loop of \<^verbatim>\<open>processChunk\<close>. \<open>w\<close> is the stack array as the iteration finds
  it: uninitialised the first time, the previous schedule afterwards. The swap loop runs over
  \<^verbatim>\<open>cChunkSize\<close> words, not bytes, so it reads and swaps the whole array.
\<close>

definition processChunk256_step :: "u32 list \<Rightarrow> u32 list \<Rightarrow> u8 list \<Rightarrow> u32 list \<times> u32 list" where
  "processChunk256_step w h src =
     (let w1 = le_words 4 16 (take cChunkSize src) @ drop 16 w;
          w2 = foldl (\<lambda>w i. w[i := ToBigEndian32 (w ! i)]) w1 [0..<cChunkSize];
          w3 = extendMsg w2 16 64
      in (w3, CompressMsg256 w3 h cRoundConstants256))"

function processChunk256_loop :: "u32 list \<Rightarrow> u32 list \<Rightarrow> u8 list \<Rightarrow> nat \<Rightarrow> u32 list" where
  "processChunk256_loop w h src msg_size =
     (if msg_size = 0 then h
      else case processChunk256_step w h src of
        (w', h') \<Rightarrow> processChunk256_loop w' h' (drop cChunkSize src) (msg_size - cChunkSize))"
  by pat_completeness auto
termination
  by (relation "measure (\<lambda>(w, h, src, msg_size). msg_size)") auto

declare processChunk256_loop.simps [simp del]

definition processChunk256_from ::
  "u32 list \<Rightarrow> u32 list \<Rightarrow> u8 list \<Rightarrow> (alc_error \<times> u32 list) option" where
  "processChunk256_from w h src =
     (if length src mod cChunkSize = 0
      then Some (ALC_ERROR_NONE, processChunk256_loop w h src (length src)) else None)"

definition processChunk256 :: "u32 list \<Rightarrow> u8 list \<Rightarrow> (alc_error \<times> u32 list) option" where
  "processChunk256 = processChunk256_from (replicate 64 0)"

definition Sha2_ctor :: "nat \<Rightarrow> sha2" where
  "Sha2_ctor digest_len =
     \<lparr>m_digest_len = digest_len div 8, m_block_len = cChunkSize, m_finished = False, m_msg_len = 0,
      m_idx = 0, sha2_buffer = replicate 128 0, sha2_hash = replicate 8 0\<rparr>"

definition Sha2_copy :: "sha2 \<Rightarrow> sha2" where
  "Sha2_copy src =
     \<lparr>m_digest_len = m_digest_len src, m_block_len = m_block_len src, m_finished = m_finished src,
      m_msg_len = m_msg_len src, m_idx = m_idx src, sha2_buffer = sha2_buffer src,
      sha2_hash = sha2_hash src\<rparr>"

definition Sha2_iv :: "nat \<Rightarrow> u32 list" where
  "Sha2_iv digest_len =
     (if digest_len = 256
      then [0x6a09e667, 0xbb67ae85, 0x3c6ef372, 0xa54ff53a, 0x510e527f, 0x9b05688c, 0x1f83d9ab, 0x5be0cd19]
      else [0xc1059ed8, 0x367cd507, 0x3070dd17, 0xf70e5939, 0xffc00b31, 0x68581511, 0x64f98fa7, 0xbefa4fa4])"

definition Sha2_init :: "nat \<Rightarrow> sha2 \<Rightarrow> sha2" where
  "Sha2_init digest_len s =
     s\<lparr>sha2_hash := Sha2_iv digest_len, m_finished := False, m_msg_len := 0, m_idx := 0\<rparr>"

definition Sha2_update :: "u8 list option \<Rightarrow> sha2 \<Rightarrow> (alc_error \<times> sha2) option" where
  "Sha2_update pSrc s =
     (case pSrc of
        None \<Rightarrow> Some (ALC_ERROR_INVALID_ARG, s)
      | Some src \<Rightarrow>
          if m_finished s then Some (ALC_ERROR_INVALID_ARG, s)
          else if length src = 0 then Some (ALC_ERROR_NONE, s)
          else
            let s = s\<lparr>m_msg_len := m_msg_len s + of_nat (length src)\<rparr>;
                to_process = min (length src + m_idx s) cChunkSize
            in if to_process < cChunkSize then do {
                 buf \<leftarrow> CopyBlock (sha2_buffer s) (m_idx s) src;
                 Some (ALC_ERROR_NONE, s\<lparr>sha2_buffer := buf, m_idx := m_idx s + length src\<rparr>)
               }
               else do {
                 (err, s, src, idx) \<leftarrow>
                   (if m_idx s \<noteq> 0 then
                      let to_process = min (length src) (cChunkSize - m_idx s) in do {
                      buf \<leftarrow> CopyBlock (sha2_buffer s) (m_idx s) (take to_process src);
                      let idx = m_idx s + to_process in
                      if idx = cChunkSize then do {
                        (err, h) \<leftarrow> processChunk256 (sha2_hash s) (take idx buf);
                        Some (err, s\<lparr>sha2_buffer := buf, sha2_hash := h\<rparr>, drop to_process src, 0)
                      }
                      else Some (ALC_ERROR_NONE, s\<lparr>sha2_buffer := buf\<rparr>, drop to_process src, idx)
                    }
                    else Some (ALC_ERROR_NONE, s, src, 0));
                 let num_chunks = length src div cChunkSize; size_chunk = num_chunks * cChunkSize in do {
                 (err, s, src) \<leftarrow>
                   (if num_chunks \<noteq> 0 then do {
                      (err, h) \<leftarrow> processChunk256 (sha2_hash s) (take size_chunk src);
                      Some (err, s\<lparr>sha2_hash := h\<rparr>, drop size_chunk src)
                    }
                    else Some (err, s, src));
                 (s, idx) \<leftarrow>
                   (if length src \<noteq> 0 then do {
                      buf \<leftarrow> CopyBlock (sha2_buffer s) idx src;
                      Some (s\<lparr>sha2_buffer := buf\<rparr>, idx + length src)
                    }
                    else Some (s, idx));
                 Some (err, s\<lparr>m_idx := idx\<rparr>)
               }})"

text \<open>
  \<open>base\<close> is the address of \<^verbatim>\<open>m_buffer\<close>, which the padding loop inspects. The value carries the
  caller's output buffer after the call.
\<close>

definition Sha2_finalize ::
  "nat \<Rightarrow> u8 list option \<Rightarrow> sha2 \<Rightarrow> (alc_error \<times> sha2 \<times> u8 list option) option" where
  "Sha2_finalize base pBuf s =
     (case pBuf of
        None \<Rightarrow> Some (ALC_ERROR_INVALID_ARG, s, pBuf)
      | Some out \<Rightarrow>
          if length out \<noteq> m_digest_len s then Some (ALC_ERROR_INVALID_ARG, s, pBuf)
          else if m_finished s then Some (ALC_ERROR_NONE, s, pBuf)
          else do {
            buf \<leftarrow> CopyBlock (sha2_buffer s) (m_idx s) [0x80];
            let idx = m_idx s + 1;
                block_size = (if idx \<le> cChunkSize - 8 then cChunkSize else length buf);
                bytes_left = of_nat block_size - of_nat idx - 8 in do {
            rest \<leftarrow> PadBlock 1 (base + idx) (drop idx buf) (0 :: u8) bytes_left;
            let buf = take idx buf @ rest; len_in_bits = m_msg_len s * 8 in do {
            buf \<leftarrow> CopyBlock buf (block_size - 8) (le_bytes 8 (ToBigEndian64 len_in_bits));
            (err, h) \<leftarrow> processChunk256 (sha2_hash s) (take block_size buf);
            let out = write_at 0 (CopyBlockWith 4 ToBigEndian32 (concat (map (le_bytes 4) h))
                                   (m_digest_len s)) out;
                s = s\<lparr>sha2_buffer := buf, sha2_hash := h, m_idx := idx\<rparr> in
            if alcp_is_error err then Some (err, s, Some out)
            else Some (err, s\<lparr>m_idx := 0, m_finished := True\<rparr>, Some out)
          }}})"

definition Sha2_get_state :: "sha2 \<Rightarrow> u32 list" where
  "Sha2_get_state s = sha2_hash s"

section \<open>FIPS 180-4\<close>

definition sha256_block :: "u32 list \<Rightarrow> u8 list \<Rightarrow> u32 list" where
  "sha256_block H blk =
     fips_compress (fips_sum 2 13 22) (fips_sum 6 11 25) 64 (\<lambda>t. cRoundConstants256 ! t)
       (fips_schedule (fips_sigma 7 18 3) (fips_sigma 17 19 10)
          (\<lambda>t. be_word (take 4 (drop (4 * t) blk)))) H"

definition sha256_spec :: "nat \<Rightarrow> u8 list \<Rightarrow> u8 list" where
  "sha256_spec digest_len m =
     take (digest_len div 8) (concat (map (be_bytes 4)
       (foldl sha256_block (Sha2_iv digest_len) (chunks 64 (m @ sha2_pad 64 8 m)))))"

section \<open>The compression function\<close>

lemma length_extendMsg [simp]: "length (extendMsg w a b) = length w"
  unfolding extendMsg_def by (rule length_foldl_list_update) (simp add: Let_def)

lemma extendMsg_nth:
  assumes "length w = 64" "\<And>t. t < 16 \<Longrightarrow> w ! t = M t" "t < 64"
  shows "extendMsg w 16 64 ! t = fips_schedule (fips_sigma 7 18 3) (fips_sigma 17 19 10) M t"
  unfolding extendMsg_def using assms
  by (intro foldl_schedule) (simp_all add: Let_def fips_sigma_def RotateRight32_rotr)

lemma CompressMsg256_round_fips:
  "CompressMsg256_round w k v t =
   list8 (fips_round (fips_sum 2 13 22) (fips_sum 6 11 25) (k ! t) (w ! t) (tuple8 v))"
  by (simp add: CompressMsg256_round_def fips_round_def tuple8_def list8_def Let_def
      fips_sum_def fips_ch_def fips_maj_def RotateRight32_rotr)

lemma CompressMsg256_fips:
  assumes "length h = 8" and W: "\<And>t. t < 64 \<Longrightarrow> w ! t = W t"
  shows "CompressMsg256 w h k =
    fips_compress (fips_sum 2 13 22) (fips_sum 6 11 25) 64 (\<lambda>t. k ! t) W h"
  unfolding CompressMsg256_def Let_def
  using assms by (intro foldl_fips_compress) (simp_all add: CompressMsg256_round_fips)

lemma length_sha256_block [simp]: "length H = 8 \<Longrightarrow> length (sha256_block H blk) = 8"
  by (simp add: sha256_block_def length_fips_compress)

lemma processChunk256_step_block:
  assumes "length w = 64" "length h = 8" "64 \<le> length src"
  shows "processChunk256_step w h src =
    (fst (processChunk256_step w h src), sha256_block h (take 64 src))"
    and "length (fst (processChunk256_step w h src)) = 64"
proof -
  let ?w1 = "le_words 4 16 (take 64 src) @ drop 16 w"
  let ?w2 = "map ToBigEndian32 (take 64 ?w1) @ drop 64 ?w1"
  have w2: "foldl (\<lambda>w i. w[i := ToBigEndian32 (w ! i)]) ?w1 [0..<64] = ?w2"
    using assms by (intro foldl_map_upt) simp
  have "?w2 ! t = be_word (take 4 (drop (4 * t) (take 64 src)))" if "t < 16" for t
  proof -
    have "length (take 4 (drop (4 * t) (take 64 src))) = 4" using that assms by simp
    then show ?thesis using that assms
      by (simp add: nth_append nth_le_words ReverseBytes32_le_word)
  qed
  then have "extendMsg ?w2 16 64 ! t = fips_schedule (fips_sigma 7 18 3) (fips_sigma 17 19 10)
      (\<lambda>t. be_word (take 4 (drop (4 * t) (take 64 src)))) t" if "t < 64" for t
    using that assms by (intro extendMsg_nth) auto
  then show "processChunk256_step w h src =
    (fst (processChunk256_step w h src), sha256_block h (take 64 src))"
    unfolding processChunk256_step_def Let_def w2
    using assms by (simp add: sha256_block_def CompressMsg256_fips)
  show "length (fst (processChunk256_step w h src)) = 64"
    unfolding processChunk256_step_def Let_def w2 using assms by simp
qed

lemma processChunk256_loop_blocks:
  assumes "length w = 64" "length h = 8" "length src = 64 * n"
  shows "processChunk256_loop w h src (length src) = foldl sha256_block h (chunks 64 src)"
  using assms
proof (induction n arbitrary: w h src)
  case 0
  then show ?case by (simp add: processChunk256_loop.simps)
next
  case (Suc n)
  note st = processChunk256_step_block [of w h src]
  have "processChunk256_loop w h src (length src) =
    processChunk256_loop (fst (processChunk256_step w h src)) (sha256_block h (take 64 src))
      (drop 64 src) (length (drop 64 src))"
    using Suc.prems st(1) by (subst processChunk256_loop.simps) (auto split: prod.split)
  also have "\<dots> = foldl sha256_block (sha256_block h (take 64 src)) (chunks 64 (drop 64 src))"
    using Suc.prems st(2) by (intro Suc.IH) auto
  finally show ?case using Suc.prems by (simp add: foldl_chunks_step)
qed

lemma processChunk256_from_blocks:
  assumes "length w = 64" "length h = 8" "64 dvd length src"
  shows "processChunk256_from w h src = Some (ALC_ERROR_NONE, foldl sha256_block h (chunks 64 src))"
proof -
  obtain n where "length src = 64 * n" using assms(3) by (auto elim: dvdE)
  then show ?thesis
    using assms processChunk256_loop_blocks [of w h src n] by (simp add: processChunk256_from_def)
qed

lemma processChunk256_blocks:
  "length h = 8 \<Longrightarrow> 64 dvd length src \<Longrightarrow>
   processChunk256 h src = Some (ALC_ERROR_NONE, foldl sha256_block h (chunks 64 src))"
  by (simp add: processChunk256_def processChunk256_from_blocks)

section \<open>The streaming interface\<close>

definition Sha2_holds :: "nat \<Rightarrow> u8 list \<Rightarrow> sha2 \<Rightarrow> bool" where
  "Sha2_holds d m s \<longleftrightarrow>
     (d = 224 \<or> d = 256) \<and> m_digest_len s = d div 8 \<and> m_block_len s = 64 \<and> \<not> m_finished s \<and>
     m_msg_len s = of_nat (length m) \<and> length (sha2_buffer s) = 128 \<and> m_idx s < 64 \<and>
     length (sha2_hash s) = 8 \<and>
     absorbs 64 sha256_block (Sha2_iv d) m (sha2_hash s) (take (m_idx s) (sha2_buffer s))"

lemma length_foldl_sha256 [simp]: "length h = 8 \<Longrightarrow> length (foldl sha256_block h bs) = 8"
  by (induction bs arbitrary: h) auto

lemma Sha2_holds_init:
  assumes "d = 224 \<or> d = 256" "m_digest_len s = d div 8" "m_block_len s = 64" "length (sha2_buffer s) = 128"
  shows "Sha2_holds d [] (Sha2_init d s)"
  using assms by (auto simp: Sha2_holds_def Sha2_init_def Sha2_iv_def absorbs_init)

lemma Sha2_holds_ctor_init: "d = 224 \<or> d = 256 \<Longrightarrow> Sha2_holds d [] (Sha2_init d (Sha2_ctor d))"
  by (rule Sha2_holds_init) (auto simp: Sha2_ctor_def)

lemma Sha2_update_short:
  assumes s: "Sha2_holds d m s" and x: "x \<noteq> []" "m_idx s + length x < 64"
  shows "\<exists>s'. Sha2_update (Some x) s = Some (ALC_ERROR_NONE, s') \<and> Sha2_holds d (m @ x) s'"
proof -
  have "absorbs 64 sha256_block (Sha2_iv d) (m @ x) (sha2_hash s) (take (m_idx s) (sha2_buffer s) @ x)"
    using s x by (intro absorbs_short) (auto simp: Sha2_holds_def)
  then show ?thesis
    using s x by (auto simp: Sha2_update_def Sha2_holds_def Let_def add.commute take_write_at_end)
qed

lemma Sha2_holds_rest:
  assumes s: "Sha2_holds d m s"
    and a: "absorbs 64 sha256_block (Sha2_iv d) (m @ x) h pend"
    and "length h = 8" "length buf = 128" "take (length pend) buf = pend"
    and s': "s' = s\<lparr>m_msg_len := m_msg_len s + of_nat (length x), sha2_hash := h,
                    sha2_buffer := buf, m_idx := length pend\<rparr>"
  shows "Sha2_holds d (m @ x) s'"
  using assms absorbs_less [OF a] by (simp add: Sha2_holds_def)

lemma Sha2_update_long:
  assumes s: "Sha2_holds d m s" and x: "64 \<le> m_idx s + length x"
  shows "\<exists>s'. Sha2_update (Some x) s = Some (ALC_ERROR_NONE, s') \<and> Sha2_holds d (m @ x) s'"
proof -
  define i where "i = m_idx s"
  have i: "i < 64" "64 \<le> length (sha2_buffer s)" "length (sha2_hash s) = 8" "m_finished s = False"
    and pend: "absorbs 64 sha256_block (Sha2_iv d) m (sha2_hash s) (take i (sha2_buffer s))"
    and bl: "length (sha2_buffer s) = 128"
    using s by (auto simp: Sha2_holds_def i_def)
  show ?thesis
  proof (cases "i = 0")
    case True
    define k where "k = length x div 64 * 64"
    define b2 where "b2 = write_at 0 (drop k x) (sha2_buffer s)"
    let ?h = "foldl sha256_block (sha2_hash s) (chunks 64 (take k x))"
    note w = update_whole [OF pend [unfolded True take_0] i(2) _ k_def b2_def]
    have x64: "64 \<le> length x" using x True by (simp add: i_def)
    note w = w [OF x64]
    have p: "processChunk256 (sha2_hash s) (take k x) = Some (ALC_ERROR_NONE, ?h)"
      using i w(6) by (intro processChunk256_blocks)
    have "Sha2_update (Some x) s = Some (ALC_ERROR_NONE,
      s\<lparr>m_msg_len := m_msg_len s + of_nat (length x), sha2_hash := ?h,
        sha2_buffer := b2, m_idx := length (drop k x)\<rparr>)"
      using i(4) w(3,7,8) p by (cases "drop k x = []")
        (simp_all add: Sha2_update_def i_def [symmetric] True w(2,5) k_def [symmetric] Let_def
           del: CopyBlock_Some)
    then show ?thesis using Sha2_holds_rest [OF s w(1) _ _ _ refl] i w(9,10) bl by auto
  next
    case False
    define y where "y = drop (64 - i) x"
    define k where "k = length y div 64 * 64"
    define b1 where "b1 = write_at i (take (64 - i) x) (sha2_buffer s)"
    define b2 where "b2 = write_at 0 (drop k y) b1"
    define h1 where "h1 = sha256_block (sha2_hash s) (take i (sha2_buffer s) @ take (64 - i) x)"
    let ?h = "foldl sha256_block h1 (chunks 64 (take k y))"
    have x64: "64 \<le> i + length x" using x by (simp add: i_def)
    have "0 < i" using False by simp
    note w = update_fill [OF pend i(1) \<open>0 < i\<close> i(2) x64 y_def k_def b1_def b2_def h1_def]
    have lh1: "length h1 = 8" using i by (simp add: h1_def)
    have p1: "processChunk256 (sha2_hash s) (take 64 b1) = Some (ALC_ERROR_NONE, h1)"
      using i w(8-10) by (simp add: processChunk256_blocks h1_def)
    have p2: "processChunk256 h1 (take k y) = Some (ALC_ERROR_NONE, ?h)"
      using lh1 w(11) by (rule processChunk256_blocks)
    note upd = Sha2_update_def i_def [symmetric] w(2-6) y_def [symmetric] k_def [symmetric] p1
    have "Sha2_update (Some x) s = Some (ALC_ERROR_NONE,
      s\<lparr>m_msg_len := m_msg_len s + of_nat (length x), sha2_hash := ?h,
        sha2_buffer := b2, m_idx := length (drop k y)\<rparr>)"
      using i(4) False w(12-15) p2 by (cases "length y div 64 = 0"; cases "drop k y = []")
        (simp_all add: upd Let_def del: CopyBlock_Some)
    then show ?thesis using Sha2_holds_rest [OF s w(1) _ _ _ refl] lh1 w(16,17) bl by auto
  qed
qed

lemma Sha2_finalize_spec:
  assumes s: "Sha2_holds d m s" and out: "length out = d div 8"
  shows "\<exists>h buf. Sha2_finalize base (Some out) s = Some (ALC_ERROR_NONE,
      s\<lparr>m_finished := True, m_idx := 0, sha2_hash := h, sha2_buffer := buf\<rparr>, Some (sha256_spec d m))
      \<and> length h = 8 \<and> length buf = 128"
proof -
  define i where "i = m_idx s"
  define bs :: nat where "bs = (if i + 1 \<le> 64 - 8 then 64 else 128)"
  define n where "n = bs - (i + 1) - 8"
  define b1 where "b1 = write_at i [0x80] (sha2_buffer s)"
  define b2 where "b2 = take (i + 1) b1 @ write_at 0 (replicate n 0) (drop (i + 1) b1)"
  define b3 where "b3 = write_at (bs - 8) (be_bytes 8 (of_nat (8 * length m) :: u128)) b2"
  define h where "h = foldl sha256_block (sha2_hash s) (chunks 64 (take bs b3))"
  have pend: "absorbs 64 sha256_block (Sha2_iv d) m (sha2_hash s) (take i (sha2_buffer s))" "i < 64"
      "length (sha2_buffer s) = 2 * 64"
    and bs: "bs = (if i + 1 \<le> 64 - 8 then 64 else 2 * 64)"
    using s by (auto simp: Sha2_holds_def i_def bs_def)
  note buf = close_buffer [OF _ pend bs n_def b1_def b2_def b3_def, simplified]
  have st: "i < 64" "length (sha2_buffer s) = 128" "length (sha2_hash s) = 8" "\<not> m_finished s"
    "m_digest_len s = d div 8" "d div 8 = 28 \<or> d div 8 = 32" "m_msg_len s = of_nat (length m)"
    using s i_def by (auto simp: Sha2_holds_def)
  have c1: "CopyBlock (sha2_buffer s) i [0x80] = Some b1"
    using st by (simp add: b1_def)
  have c2: "PadBlock 1 (base + (i + 1)) (drop (i + 1) b1) (0 :: u8)
      (of_nat bs - of_nat (i + 1) - 8) = Some (write_at 0 (replicate n 0) (drop (i + 1) b1))"
  proof -
    have "of_nat bs - of_nat (i + 1) - 8 = (of_nat n :: u64)"
      using st(1) by (auto simp: n_def bs_def of_nat_diff)
    moreover have "PadBlock 1 (base + (i + 1)) (drop (i + 1) b1) (0 :: u8) (of_nat n)
      = Some (write_at 0 (replicate n 0) (drop (i + 1) b1))"
      using buf(1,4) by (intro PadBlock_bytes_zero) simp_all
    ultimately show ?thesis by metis
  qed
  have c3: "CopyBlock b2 (bs - 8) (le_bytes 8 (ToBigEndian64 (m_msg_len s * 8))) = Some b3"
    using buf(2,5,6) st(7) be_bytes_bit_length [of 8, where 'a = 64]
    by (simp add: ReverseBytes64_be b3_def)
  have c4: "processChunk256 (sha2_hash s) (take bs b3) = Some (ALC_ERROR_NONE, h)"
    using st buf(3,5,7) by (simp add: processChunk256_blocks h_def min_absorb2)
  have lh: "length h = 8" using st by (simp add: h_def)
  have c5: "write_at 0 (CopyBlockWith 4 ToBigEndian32 (concat (map (le_bytes 4) h)) (m_digest_len s)) out
    = sha256_spec d m"
  proof -
    have "CopyBlockWith 4 ToBigEndian32 (concat (map (le_bytes 4) h)) (d div 8)
      = take (d div 8) (concat (map (be_bytes 4) h))"
      using lh st(6) by (intro CopyBlockWith_words [of 4 "d div 8" "d div 8 div 4"])
        (auto simp: ReverseBytes32_be)
    then show ?thesis
      using out st(5,6) lh buf(9) by (auto simp: write_at_def sha256_spec_def h_def)
  qed
  have "Sha2_finalize base (Some out) s = Some (ALC_ERROR_NONE,
      s\<lparr>m_finished := True, m_idx := 0, sha2_hash := h, sha2_buffer := b3\<rparr>, Some (sha256_spec d m))"
  proof -
    have bs: "(if i + 1 \<le> cChunkSize - 8 then cChunkSize else length b1) = bs"
      using buf(1) by (simp add: bs_def)
    have lo: "(length out \<noteq> m_digest_len s) = False" using out st(5) by simp
    have fin: "m_finished s = False" using st(4) by simp
    note upd = Sha2_finalize_def option.case Let_def i_def [symmetric] lo fin if_False c1 bs
      c2 b2_def [symmetric] c3 c4 c5 prod.case Option.bind.bind_lunit alcp_is_error_NONE
    show ?thesis by (simp only: upd) simp
  qed
  then show ?thesis using lh buf(3) by blast
qed

section \<open>The digest contract\<close>

definition Sha2_ok :: "nat \<Rightarrow> sha2 \<Rightarrow> bool" where
  "Sha2_ok d s \<longleftrightarrow> m_digest_len s = d div 8 \<and> m_block_len s = 64 \<and> length (sha2_buffer s) = 128"

definition Sha2_ops :: "nat \<Rightarrow> nat \<Rightarrow> sha2 digest_ops" where
  "Sha2_ops d base =
     \<lparr>op_init = Sha2_init d, op_update = Sha2_update, op_finalize = Sha2_finalize base,
      op_block_len = m_block_len, op_digest_len = m_digest_len\<rparr>"

lemma Sha2_update_holds:
  assumes "Sha2_holds d m s"
  shows "\<exists>s'. Sha2_update (Some x) s = Some (ALC_ERROR_NONE, s') \<and> Sha2_holds d (m @ x) s'"
proof (cases "x = []")
  case True
  then show ?thesis using assms by (simp add: Sha2_update_def Sha2_holds_def)
next
  case False
  then show ?thesis
    using Sha2_update_short [OF assms False] Sha2_update_long [OF assms, of x]
    by (cases "m_idx s + length x < 64") auto
qed

lemma length_sha256_spec: "d = 224 \<or> d = 256 \<Longrightarrow> length (sha256_spec d m) = d div 8"
  by (auto simp: sha256_spec_def Sha2_iv_def)

lemma Sha2_digest:
  assumes "d = 224 \<or> d = 256"
  shows "digest (Sha2_ops d base) (Sha2_ok d) (Sha2_holds d) (sha256_spec d) 64 (d div 8) lim"
proof unfold_locales
  show "\<exists>s'. op_finalize (Sha2_ops d base) (Some out) s = Some (ALC_ERROR_NONE, s', Some (sha256_spec d m))
      \<and> Sha2_ok d s'" if "Sha2_holds d m s" "length out = d div 8" for m s out
    using that Sha2_finalize_spec [of d m s out base]
    by (auto simp: Sha2_ops_def Sha2_ok_def Sha2_holds_def)
qed (use assms in \<open>auto simp: Sha2_ops_def Sha2_ok_def Sha2_holds_init Sha2_update_holds
       length_sha256_spec, auto simp: Sha2_holds_def\<close>)

interpretation sha256: digest "Sha2_ops 256 base" "Sha2_ok 256" "Sha2_holds 256" "sha256_spec 256" 64 32 lim
  for base lim using Sha2_digest [of 256 base lim] by simp

interpretation sha224: digest "Sha2_ops 224 base" "Sha2_ok 224" "Sha2_holds 224" "sha256_spec 224" 64 28 lim
  for base lim using Sha2_digest [of 224 base lim] by simp

section \<open>Properties\<close>

text \<open>
  C1: SHA-224 and SHA-256 compute the hash of FIPS 180-4. Whatever pieces a message is given
  in, and whatever the object did before, \<^verbatim>\<open>init\<close>, one \<^verbatim>\<open>update\<close> per piece and \<^verbatim>\<open>finalize\<close>
  return no error, touch no byte outside their arrays, and leave the digest of the
  concatenation in the caller's buffer; the object can be used again.
\<close>
theorem Sha2_computes_hash:
  assumes "d = 224 \<or> d = 256" "Sha2_ok d s" "length out = d div 8"
  shows "\<exists>s'. hash_message (Sha2_ops d base) xs out s
              = Some (ALC_ERROR_NONE, s', Some (sha256_spec d (concat xs))) \<and> Sha2_ok d s'"
  using assms sha256.message_hash [of s xs "length (concat xs)" out base]
    sha224.message_hash [of s xs "length (concat xs)" out base] by auto

theorem Sha2_computes_hash_witness:
  "\<exists>s'. hash_message (Sha2_ops 256 64) [[0x61], [], [0x62, 0x63]] (replicate 32 0) (Sha2_ctor 256)
        = Some (ALC_ERROR_NONE, s', Some (sha256_spec 256 [0x61, 0x62, 0x63])) \<and> Sha2_ok 256 s'"
  using Sha2_computes_hash [of 256 "Sha2_ctor 256" "replicate 32 0" 64 "[[0x61], [], [0x62, 0x63]]"]
  by (simp add: Sha2_ok_def Sha2_ctor_def)

text \<open>
  The schedule array of \<^verbatim>\<open>processChunk\<close> lives on the stack uninitialised, and the byte-swap
  loop reads all 64 of its words although only 16 are loaded; the hash state does not depend
  on what the array held, and equals the FIPS 180-4 compression of the blocks.
\<close>
theorem processChunk256_ignores_stack:
  assumes "length w = 64" "length h = 8" "64 dvd length src"
  shows "processChunk256_from w h src = processChunk256 h src
    \<and> processChunk256 h src = Some (ALC_ERROR_NONE, foldl sha256_block h (chunks 64 src))"
  using assms by (simp add: processChunk256_from_blocks processChunk256_blocks)

theorem processChunk256_ignores_stack_witness:
  "processChunk256_from (replicate 64 0xdeadbeef) (Sha2_iv 256) (replicate 128 7)
   = processChunk256 (Sha2_iv 256) (replicate 128 7)"
  using processChunk256_ignores_stack [of "replicate 64 0xdeadbeef" "Sha2_iv 256" "replicate 128 7"]
  by (simp add: Sha2_iv_def)

text \<open>
  A finished object refuses more input, a null source and a wrong output size are
  rejected with \<^verbatim>\<open>ALC_ERROR_INVALID_ARG\<close>, a second \<^verbatim>\<open>finalize\<close> succeeds without writing; none of
  these calls changes the object or the caller's buffer.
\<close>
theorem Sha2_rejects:
  "Sha2_update None s = Some (ALC_ERROR_INVALID_ARG, s)
   \<and> Sha2_finalize base None s = Some (ALC_ERROR_INVALID_ARG, s, None)
   \<and> (m_finished s \<longrightarrow> Sha2_update (Some x) s = Some (ALC_ERROR_INVALID_ARG, s))
   \<and> (length out \<noteq> m_digest_len s \<longrightarrow>
        Sha2_finalize base (Some out) s = Some (ALC_ERROR_INVALID_ARG, s, Some out))
   \<and> (m_finished s \<and> length out = m_digest_len s \<longrightarrow>
        Sha2_finalize base (Some out) s = Some (ALC_ERROR_NONE, s, Some out))"
  by (simp add: Sha2_update_def Sha2_finalize_def)

theorem Sha2_rejects_witness:
  "Sha2_update (Some [1]) ((Sha2_ctor 256)\<lparr>m_finished := True\<rparr>)
     = Some (ALC_ERROR_INVALID_ARG, (Sha2_ctor 256)\<lparr>m_finished := True\<rparr>)
   \<and> Sha2_finalize 64 (Some [0, 0]) ((Sha2_ctor 256)\<lparr>m_finished := True\<rparr>)
     = Some (ALC_ERROR_INVALID_ARG, (Sha2_ctor 256)\<lparr>m_finished := True\<rparr>, Some [0, 0])"
  using Sha2_rejects [of "(Sha2_ctor 256)\<lparr>m_finished := True\<rparr>" 64 "[1]" "[0, 0]"]
  by (simp add: Sha2_ctor_def)

end
