(* ===== verification/Sha512.thy ===== *)
theory Sha512 imports Digest_Interface Fips180 begin

text \<open>
  SHA-384, SHA-512, SHA-512/224 and SHA-512/256 as \<^verbatim>\<open>lib/digest/sha512.cc\<close> and
  \<^verbatim>\<open>lib/include/alcp/digest/sha512.hh\<close> implement them on the reference architecture level,
  against FIPS 180-4. The digests share their structure with \<open>Sha256\<close>; what differs is the
  order of the checks in \<^verbatim>\<open>finalize\<close>, the 128-bit length field and the odd tail of
  SHA-512/224. \<open>None\<close> is undefined behaviour of the C++ code.
\<close>

unbundle bit_operations_syntax

section \<open>The code\<close>

record sha512 = idigest +
  sha512_buffer :: "u8 list"
  sha512_hash :: "u64 list"

abbreviation cChunkSize512 :: nat where "cChunkSize512 \<equiv> 128"

definition cIv_512 :: "u64 list" where
  "cIv_512 =
    [0x6a09e667f3bcc908, 0xbb67ae8584caa73b, 0x3c6ef372fe94f82b, 0xa54ff53a5f1d36f1,
     0x510e527fade682d1, 0x9b05688c2b3e6c1f, 0x1f83d9abfb41bd6b, 0x5be0cd19137e2179]"

definition cIv_384 :: "u64 list" where
  "cIv_384 =
    [0xcbbb9d5dc1059ed8, 0x629a292a367cd507, 0x9159015a3070dd17, 0x152fecd8f70e5939,
     0x67332667ffc00b31, 0x8eb44a8768581511, 0xdb0c2e0d64f98fa7, 0x47b5481dbefa4fa4]"

definition cIv_256 :: "u64 list" where
  "cIv_256 =
    [0x22312194fc2bf72c, 0x9f555fa3c84c64c2, 0x2393b86b6f53b151, 0x963877195940eabd,
     0x96283ee2a88effe3, 0xbe5e1e2553863992, 0x2b0199fc2c85b8aa, 0x0eb72ddc81c52ca2]"

definition cIv_224 :: "u64 list" where
  "cIv_224 =
    [0x8c3d37c819544da2, 0x73e1996689dcd4d6, 0x1dfab7ae32ff9c82, 0x679dd514582f9fcf,
     0x0f6d2b697bd44da8, 0x77e36f7304c48942, 0x3f9d85a86a1d36c8, 0x1112e6ad91d692a1]"

definition cRoundConstants512 :: "u64 list" where
  "cRoundConstants512 = [
    0x428A2F98D728AE22, 0x7137449123EF65CD, 0xB5C0FBCFEC4D3B2F,
    0xE9B5DBA58189DBBC, 0x3956C25BF348B538, 0x59F111F1B605D019,
    0x923F82A4AF194F9B, 0xAB1C5ED5DA6D8118, 0xD807AA98A3030242,
    0x12835B0145706FBE, 0x243185BE4EE4B28C, 0x550C7DC3D5FFB4E2,
    0x72BE5D74F27B896F, 0x80DEB1FE3B1696B1, 0x9BDC06A725C71235,
    0xC19BF174CF692694, 0xE49B69C19EF14AD2, 0xEFBE4786384F25E3,
    0x0FC19DC68B8CD5B5, 0x240CA1CC77AC9C65, 0x2DE92C6F592B0275,
    0x4A7484AA6EA6E483, 0x5CB0A9DCBD41FBD4, 0x76F988DA831153B5,
    0x983E5152EE66DFAB, 0xA831C66D2DB43210, 0xB00327C898FB213F,
    0xBF597FC7BEEF0EE4, 0xC6E00BF33DA88FC2, 0xD5A79147930AA725,
    0x06CA6351E003826F, 0x142929670A0E6E70, 0x27B70A8546D22FFC,
    0x2E1B21385C26C926, 0x4D2C6DFC5AC42AED, 0x53380D139D95B3DF,
    0x650A73548BAF63DE, 0x766A0ABB3C77B2A8, 0x81C2C92E47EDAEE6,
    0x92722C851482353B, 0xA2BFE8A14CF10364, 0xA81A664BBC423001,
    0xC24B8B70D0F89791, 0xC76C51A30654BE30, 0xD192E819D6EF5218,
    0xD69906245565A910, 0xF40E35855771202A, 0x106AA07032BBD1B8,
    0x19A4C116B8D2D0C8, 0x1E376C085141AB53, 0x2748774CDF8EEB99,
    0x34B0BCB5E19B48A8, 0x391C0CB3C5C95A63, 0x4ED8AA4AE3418ACB,
    0x5B9CCA4F7763E373, 0x682E6FF3D6B2B8A3, 0x748F82EE5DEFB2FC,
    0x78A5636F43172F60, 0x84C87814A1F0AB72, 0x8CC702081A6439EC,
    0x90BEFFFA23631E28, 0xA4506CEBDE82BDE9, 0xBEF9A3F7B2C67915,
    0xC67178F2E372532B, 0xCA273ECEEA26619C, 0xD186B8C721C0C207,
    0xEADA7DD6CDE0EB1E, 0xF57D4F7FEE6ED178, 0x06F067AA72176FBA,
    0x0A637DC5A2C898A6, 0x113F9804BEF90DAE, 0x1B710B35131C471B,
    0x28DB77F523047D84, 0x32CAAB7B40C72493, 0x3C9EBE0A15C9BEBC,
    0x431D67C49C100D4C, 0x4CC5D4BECB3E42B6, 0x597F299CFC657E2A,
    0x5FCB6FAB3AD6FAEC, 0x6C44198C4A475817]"

definition CompressMsg512_round ::
  "u64 list \<Rightarrow> u64 list \<Rightarrow> u64 list \<Rightarrow> nat \<Rightarrow> u64 list" where
  "CompressMsg512_round w k v i =
     (let a = v ! 0; b = v ! 1; c = v ! 2; d = v ! 3; e = v ! 4; f = v ! 5; g = v ! 6; h = v ! 7;
          s1 = RotateRight64 e 14 XOR RotateRight64 e 18 XOR RotateRight64 e 41;
          ch = (e AND f) XOR (NOT e AND g);
          temp1 = h + s1 + ch + k ! i + w ! i;
          s0 = RotateRight64 a 28 XOR RotateRight64 a 34 XOR RotateRight64 a 39;
          maj = (a AND b) XOR (a AND c) XOR (b AND c);
          temp2 = s0 + maj
      in [temp1 + temp2, a, b, c, d + temp1, e, f, g])"

definition CompressMsg512 :: "u64 list \<Rightarrow> u64 list \<Rightarrow> u64 list \<Rightarrow> u64 list" where
  "CompressMsg512 w pHash k =
     (let v = foldl (CompressMsg512_round w k) pHash [0..<80] in map2 (+) pHash v)"

definition ExtendMsg :: "u64 list \<Rightarrow> nat \<Rightarrow> nat \<Rightarrow> u64 list" where
  "ExtendMsg w start end =
     foldl (\<lambda>w i.
       let s0 = RotateRight64 (w ! (i - 15)) 1 XOR RotateRight64 (w ! (i - 15)) 8
                XOR drop_bit 7 (w ! (i - 15));
           s1 = RotateRight64 (w ! (i - 2)) 19 XOR RotateRight64 (w ! (i - 2)) 61
                XOR drop_bit 6 (w ! (i - 2))
       in w[i := w ! (i - 16) + s0 + w ! (i - 7) + s1]) w [start..<end]"

text \<open>
  The round of the vectorised kernels, \<^verbatim>\<open>ShaRound\<close> of \<^verbatim>\<open>sha512.hh\<close>: it adds where FIPS 180-4
  has an exclusive or, and rotates nothing: the caller renames the variables. The value is
  the new \<^verbatim>\<open>d\<close> and \<^verbatim>\<open>h\<close>.
\<close>

definition ShaRound ::
  "u64 \<Rightarrow> u64 \<Rightarrow> u64 \<Rightarrow> u64 \<Rightarrow> u64 \<Rightarrow> u64 \<Rightarrow> u64 \<Rightarrow> u64 \<Rightarrow> u64 \<Rightarrow> u64 \<times> u64" where
  "ShaRound a b c d e f g h x =
     (let maj = (a AND (b XOR c)) + (b AND c);
          ch = (e AND f) + (NOT e AND g);
          s0 = RotateRight64 a 28 XOR RotateRight64 a 34 XOR RotateRight64 a 39;
          s1 = RotateRight64 e 14 XOR RotateRight64 e 18 XOR RotateRight64 e 41;
          t = x + h + s1 + ch
      in (d + t, t + s0 + maj))"

definition Sha2_512_ctor :: "nat \<Rightarrow> sha512" where
  "Sha2_512_ctor digest_len =
     \<lparr>m_digest_len = digest_len div 8, m_block_len = cChunkSize512, m_finished = False, m_msg_len = 0,
      m_idx = 0, sha512_buffer = replicate 256 0, sha512_hash = replicate 8 0\<rparr>"

definition Sha2_512_copy :: "sha512 \<Rightarrow> sha512" where
  "Sha2_512_copy src =
     \<lparr>m_digest_len = m_digest_len src, m_block_len = m_block_len src, m_finished = m_finished src,
      m_msg_len = m_msg_len src, m_idx = m_idx src, sha512_buffer = sha512_buffer src,
      sha512_hash = sha512_hash src\<rparr>"

definition Sha2_512_iv :: "nat \<Rightarrow> u64 list" where
  "Sha2_512_iv digest_len =
     (if digest_len = 512 then cIv_512 else if digest_len = 384 then cIv_384
      else if digest_len = 224 then cIv_224 else cIv_256)"

definition Sha2_512_init :: "nat \<Rightarrow> sha512 \<Rightarrow> sha512" where
  "Sha2_512_init digest_len s =
     s\<lparr>m_msg_len := 0, m_finished := False, m_idx := 0, sha512_hash := Sha2_512_iv digest_len\<rparr>"

text \<open>One iteration of \<^verbatim>\<open>processChunk\<close>; \<open>w\<close> is the uninitialised (or previous) schedule array.\<close>

definition processChunk512_step :: "u64 list \<Rightarrow> u64 list \<Rightarrow> u8 list \<Rightarrow> u64 list \<times> u64 list" where
  "processChunk512_step w h src =
     (let w1 = le_words 8 16 (CopyBlockWith 8 ToBigEndian64 src cChunkSize512) @ drop 16 w;
          w2 = ExtendMsg w1 16 80
      in (w2, CompressMsg512 w2 h cRoundConstants512))"

function processChunk512_loop :: "u64 list \<Rightarrow> u64 list \<Rightarrow> u8 list \<Rightarrow> nat \<Rightarrow> u64 list" where
  "processChunk512_loop w h src msg_size =
     (if msg_size = 0 then h
      else case processChunk512_step w h src of
        (w', h') \<Rightarrow> processChunk512_loop w' h' (drop cChunkSize512 src) (msg_size - cChunkSize512))"
  by pat_completeness auto
termination
  by (relation "measure (\<lambda>(w, h, src, msg_size). msg_size)") auto

declare processChunk512_loop.simps [simp del]

definition processChunk512_from ::
  "u64 list \<Rightarrow> u64 list \<Rightarrow> u8 list \<Rightarrow> (alc_error \<times> u64 list) option" where
  "processChunk512_from w h src =
     (if length src mod cChunkSize512 = 0
      then Some (ALC_ERROR_NONE, processChunk512_loop w h src (length src)) else None)"

definition processChunk512 :: "u64 list \<Rightarrow> u8 list \<Rightarrow> (alc_error \<times> u64 list) option" where
  "processChunk512 = processChunk512_from (replicate 80 0)"

definition Sha2_512_update :: "u8 list option \<Rightarrow> sha512 \<Rightarrow> (alc_error \<times> sha512) option" where
  "Sha2_512_update pSrc s =
     (case pSrc of
        None \<Rightarrow> Some (ALC_ERROR_INVALID_ARG, s)
      | Some src \<Rightarrow>
          if length src = 0 then Some (ALC_ERROR_NONE, s)
          else if m_finished s then Some (ALC_ERROR_INVALID_ARG, s)
          else
            let s = s\<lparr>m_msg_len := m_msg_len s + of_nat (length src)\<rparr>;
                to_process = min (length src + m_idx s) cChunkSize512
            in if to_process < cChunkSize512 then do {
                 buf \<leftarrow> CopyBlock (sha512_buffer s) (m_idx s) src;
                 Some (ALC_ERROR_NONE, s\<lparr>sha512_buffer := buf, m_idx := m_idx s + length src\<rparr>)
               }
               else do {
                 (err, s, src, idx) \<leftarrow>
                   (if m_idx s \<noteq> 0 then
                      let to_process = min (length src) (cChunkSize512 - m_idx s) in do {
                      buf \<leftarrow> CopyBlock (sha512_buffer s) (m_idx s) (take to_process src);
                      let idx = m_idx s + to_process in
                      if idx = cChunkSize512 then do {
                        (err, h) \<leftarrow> processChunk512 (sha512_hash s) (take cChunkSize512 buf);
                        Some (err, s\<lparr>sha512_buffer := buf, sha512_hash := h\<rparr>, drop to_process src, 0)
                      }
                      else Some (ALC_ERROR_NONE, s\<lparr>sha512_buffer := buf\<rparr>, drop to_process src, idx)
                    }
                    else Some (ALC_ERROR_NONE, s, src, 0));
                 let to_process = length src - (length src AND (cChunkSize512 - 1)) in do {
                 (err, s, src) \<leftarrow>
                   (if to_process > 0 then do {
                      (err, h) \<leftarrow> processChunk512 (sha512_hash s) (take to_process src);
                      Some (err, s\<lparr>sha512_hash := h\<rparr>, drop to_process src)
                    }
                    else Some (err, s, src));
                 (s, idx) \<leftarrow>
                   (if length src \<noteq> 0 then
                      if length src \<le> cChunkSize512 then do {
                        buf \<leftarrow> CopyBlock (sha512_buffer s) idx src;
                        Some (s\<lparr>sha512_buffer := buf\<rparr>, idx + length src)
                      }
                      else None
                    else Some (s, idx));
                 Some (err, s\<lparr>m_idx := idx\<rparr>)
               }})"

text \<open>
  \<^verbatim>\<open>m_idx++\<close>, the padding and the compression come before the output buffer is looked at.
  \<open>base\<close> is the address of \<^verbatim>\<open>m_buffer\<close>; the bit count is computed in 64 bits and then widened.
\<close>

definition Sha2_512_finalize ::
  "nat \<Rightarrow> u8 list option \<Rightarrow> sha512 \<Rightarrow> (alc_error \<times> sha512 \<times> u8 list option) option" where
  "Sha2_512_finalize base pBuf s =
     (if m_finished s then Some (ALC_ERROR_NONE, s, pBuf)
      else do {
        buf \<leftarrow> CopyBlock (sha512_buffer s) (m_idx s) [0x80];
        let idx = m_idx s + 1;
            buf_len = (if idx \<le> cChunkSize512 - 16 then cChunkSize512 else length buf);
            bytes_left = of_nat buf_len - of_nat idx - 16 in do {
        rest \<leftarrow> PadBlock 8 (base + idx) (drop idx buf) (0 :: u64) bytes_left;
        let buf = take idx buf @ rest;
            len_in_bits = ucast (m_msg_len s * 8) :: u128;
            len_bits_copy = le_bytes 16 (ToBigEndian128 len_in_bits) in do {
        buf \<leftarrow> CopyBlock buf (buf_len - 16) len_bits_copy;
        (err, h) \<leftarrow> processChunk512 (sha512_hash s) (take buf_len buf);
        let s = s\<lparr>m_idx := idx, sha512_buffer := buf, sha512_hash := h\<rparr> in
        if alcp_is_error err then Some (err, s, pBuf)
        else case pBuf of
          None \<Rightarrow> Some (ALC_ERROR_INVALID_ARG, s, pBuf)
        | Some out \<Rightarrow>
            if length out = m_digest_len s then do {
              out \<leftarrow> CopyBlock out 0 (CopyBlockWith 8 ToBigEndian64 (concat (map (le_bytes 8) h)) (m_digest_len s));
              out \<leftarrow> (if m_digest_len s * 8 = 224
                      then CopyBlock out 24 (take 4 (le_bytes 8 (ToBigEndian64 (h ! 3)))) else Some out);
              Some (ALC_ERROR_NONE, s\<lparr>m_idx := 0, m_finished := True\<rparr>, Some out)
            }
            else Some (ALC_ERROR_INVALID_ARG, s, pBuf)
        }}})"

section \<open>FIPS 180-4\<close>

definition sha512_block :: "u64 list \<Rightarrow> u8 list \<Rightarrow> u64 list" where
  "sha512_block H blk =
     fips_compress (fips_sum 28 34 39) (fips_sum 14 18 41) 80 (\<lambda>t. cRoundConstants512 ! t)
       (fips_schedule (fips_sigma 1 8 7) (fips_sigma 19 61 6)
          (\<lambda>t. be_word (take 8 (drop (8 * t) blk)))) H"

definition sha512_spec :: "nat \<Rightarrow> u8 list \<Rightarrow> u8 list" where
  "sha512_spec digest_len m =
     take (digest_len div 8) (concat (map (be_bytes 8)
       (foldl sha512_block (Sha2_512_iv digest_len) (chunks 128 (m @ sha2_pad 128 16 m)))))"

lemma length_Sha2_512_iv [simp]: "length (Sha2_512_iv d) = 8"
  by (simp add: Sha2_512_iv_def cIv_512_def cIv_384_def cIv_256_def cIv_224_def)

section \<open>The compression function\<close>

lemma length_ExtendMsg [simp]: "length (ExtendMsg w a b) = length w"
  unfolding ExtendMsg_def by (rule length_foldl_list_update) (simp add: Let_def)

lemma ExtendMsg_nth:
  assumes "length w = 80" "\<And>t. t < 16 \<Longrightarrow> w ! t = M t" "t < 80"
  shows "ExtendMsg w 16 80 ! t = fips_schedule (fips_sigma 1 8 7) (fips_sigma 19 61 6) M t"
  unfolding ExtendMsg_def using assms
  by (intro foldl_schedule) (simp_all add: Let_def fips_sigma_def RotateRight64_rotr)

lemma CompressMsg512_round_fips:
  "CompressMsg512_round w k v t =
   list8 (fips_round (fips_sum 28 34 39) (fips_sum 14 18 41) (k ! t) (w ! t) (tuple8 v))"
  by (simp add: CompressMsg512_round_def fips_round_def tuple8_def list8_def Let_def
      fips_sum_def fips_ch_def fips_maj_def RotateRight64_rotr)

lemma CompressMsg512_fips:
  assumes "length h = 8" and W: "\<And>t. t < 80 \<Longrightarrow> w ! t = W t"
  shows "CompressMsg512 w h k =
    fips_compress (fips_sum 28 34 39) (fips_sum 14 18 41) 80 (\<lambda>t. k ! t) W h"
  unfolding CompressMsg512_def Let_def
  using assms by (intro foldl_fips_compress) (simp_all add: CompressMsg512_round_fips)

lemma length_sha512_block [simp]: "length H = 8 \<Longrightarrow> length (sha512_block H blk) = 8"
  by (simp add: sha512_block_def length_fips_compress)

lemma processChunk512_step_block:
  assumes "length w = 80" "length h = 8" "128 \<le> length src"
  shows "processChunk512_step w h src =
    (fst (processChunk512_step w h src), sha512_block h (take 128 src))"
    and "length (fst (processChunk512_step w h src)) = 80"
proof -
  let ?ws = "le_words 8 16 src :: u64 list"
  have "CopyBlockWith 8 ToBigEndian64 src 128 = concat (map (le_bytes 8) (map ToBigEndian64 ?ws))"
    by (simp add: CopyBlockWith_whole [where n = 16] comp_def)
  moreover have "le_words 8 16 (concat (map (le_bytes 8) (map ToBigEndian64 ?ws))) = map ToBigEndian64 ?ws"
    using le_words_concat [of 8 "map ToBigEndian64 ?ws"] by simp
  ultimately have w1: "le_words 8 16 (CopyBlockWith 8 ToBigEndian64 src 128) = map ToBigEndian64 ?ws"
    by simp
  have "(map ToBigEndian64 ?ws @ drop 16 w) ! t = be_word (take 8 (drop (8 * t) (take 128 src)))"
    if "t < 16" for t
  proof -
    have "length (take 8 (drop (8 * t) src)) = 8" using that assms by simp
    moreover have "take 8 (drop (8 * t) (take 128 src)) = take 8 (drop (8 * t) src)"
      using that by (simp add: drop_take min_def)
    ultimately show ?thesis using that assms
      by (simp add: nth_append nth_le_words ReverseBytes64_le_word)
  qed
  then have "ExtendMsg (map ToBigEndian64 ?ws @ drop 16 w) 16 80 ! t =
      fips_schedule (fips_sigma 1 8 7) (fips_sigma 19 61 6)
        (\<lambda>t. be_word (take 8 (drop (8 * t) (take 128 src)))) t" if "t < 80" for t
    using that assms by (intro ExtendMsg_nth) auto
  then show "processChunk512_step w h src =
    (fst (processChunk512_step w h src), sha512_block h (take 128 src))"
    unfolding processChunk512_step_def Let_def w1
    using assms by (simp add: sha512_block_def CompressMsg512_fips)
  show "length (fst (processChunk512_step w h src)) = 80"
    unfolding processChunk512_step_def Let_def w1 using assms by simp
qed

lemma processChunk512_loop_blocks:
  assumes "length w = 80" "length h = 8" "length src = 128 * n"
  shows "processChunk512_loop w h src (length src) = foldl sha512_block h (chunks 128 src)"
  using assms
proof (induction n arbitrary: w h src)
  case 0
  then show ?case by (simp add: processChunk512_loop.simps)
next
  case (Suc n)
  note st = processChunk512_step_block [of w h src]
  have "processChunk512_loop w h src (length src) =
    processChunk512_loop (fst (processChunk512_step w h src)) (sha512_block h (take 128 src))
      (drop 128 src) (length (drop 128 src))"
    using Suc.prems st(1) by (subst processChunk512_loop.simps) (auto split: prod.split)
  also have "\<dots> = foldl sha512_block (sha512_block h (take 128 src)) (chunks 128 (drop 128 src))"
    using Suc.prems st(2) by (intro Suc.IH) auto
  finally show ?case using Suc.prems by (simp add: foldl_chunks_step)
qed

lemma processChunk512_from_blocks:
  assumes "length w = 80" "length h = 8" "128 dvd length src"
  shows "processChunk512_from w h src = Some (ALC_ERROR_NONE, foldl sha512_block h (chunks 128 src))"
proof -
  obtain n where "length src = 128 * n" using assms(3) by (auto elim: dvdE)
  then show ?thesis
    using assms processChunk512_loop_blocks [of w h src n] by (simp add: processChunk512_from_def)
qed

lemma processChunk512_blocks:
  "length h = 8 \<Longrightarrow> 128 dvd length src \<Longrightarrow>
   processChunk512 h src = Some (ALC_ERROR_NONE, foldl sha512_block h (chunks 128 src))"
  by (simp add: processChunk512_def processChunk512_from_blocks)

section \<open>The streaming interface\<close>

definition Sha2_512_holds :: "nat \<Rightarrow> u8 list \<Rightarrow> sha512 \<Rightarrow> bool" where
  "Sha2_512_holds d m s \<longleftrightarrow>
     d \<in> {224, 256, 384, 512} \<and> m_digest_len s = d div 8 \<and> m_block_len s = 128 \<and> \<not> m_finished s \<and>
     m_msg_len s = of_nat (length m) \<and> length (sha512_buffer s) = 256 \<and> m_idx s < 128 \<and>
     length (sha512_hash s) = 8 \<and>
     absorbs 128 sha512_block (Sha2_512_iv d) m (sha512_hash s) (take (m_idx s) (sha512_buffer s))"

lemma length_foldl_sha512 [simp]: "length h = 8 \<Longrightarrow> length (foldl sha512_block h bs) = 8"
  by (induction bs arbitrary: h) auto

lemma Sha2_512_holds_init:
  assumes "d \<in> {224, 256, 384, 512}" "m_digest_len s = d div 8" "m_block_len s = 128"
    "length (sha512_buffer s) = 256"
  shows "Sha2_512_holds d [] (Sha2_512_init d s)"
  using assms by (simp add: Sha2_512_holds_def Sha2_512_init_def absorbs_init)

lemma Sha2_512_update_short:
  assumes s: "Sha2_512_holds d m s" and x: "x \<noteq> []" "m_idx s + length x < 128"
  shows "\<exists>s'. Sha2_512_update (Some x) s = Some (ALC_ERROR_NONE, s') \<and> Sha2_512_holds d (m @ x) s'"
proof -
  have "absorbs 128 sha512_block (Sha2_512_iv d) (m @ x) (sha512_hash s) (take (m_idx s) (sha512_buffer s) @ x)"
    using s x by (intro absorbs_short) (auto simp: Sha2_512_holds_def)
  then show ?thesis
    using s x by (auto simp: Sha2_512_update_def Sha2_512_holds_def Let_def add.commute take_write_at_end)
qed

lemma Sha2_512_holds_rest:
  assumes s: "Sha2_512_holds d m s"
    and a: "absorbs 128 sha512_block (Sha2_512_iv d) (m @ x) h pend"
    and "length h = 8" "length buf = 256" "take (length pend) buf = pend"
    and s': "s' = s\<lparr>m_msg_len := m_msg_len s + of_nat (length x), sha512_hash := h,
                    sha512_buffer := buf, m_idx := length pend\<rparr>"
  shows "Sha2_512_holds d (m @ x) s'"
  using assms absorbs_less [OF a] by (simp add: Sha2_512_holds_def)

lemma whole_blocks: "n - (n AND 127) = n div 128 * 128" for n :: nat
proof -
  have "n AND 127 = n mod 128"
    using take_bit_eq_mask [of 7 n] by (simp add: take_bit_eq_mod mask_eq_exp_minus_1)
  then show ?thesis by (simp add: minus_mod_eq_div_mult)
qed

lemma Sha2_512_update_long:
  assumes s: "Sha2_512_holds d m s" and x: "128 \<le> m_idx s + length x"
  shows "\<exists>s'. Sha2_512_update (Some x) s = Some (ALC_ERROR_NONE, s') \<and> Sha2_512_holds d (m @ x) s'"
proof -
  define i where "i = m_idx s"
  have i: "i < 128" "128 \<le> length (sha512_buffer s)" "length (sha512_hash s) = 8" "m_finished s = False"
    and pend: "absorbs 128 sha512_block (Sha2_512_iv d) m (sha512_hash s) (take i (sha512_buffer s))"
    and bl: "length (sha512_buffer s) = 256"
    using s by (auto simp: Sha2_512_holds_def i_def)
  show ?thesis
  proof (cases "i = 0")
    case True
    define k where "k = length x div 128 * 128"
    define b2 where "b2 = write_at 0 (drop k x) (sha512_buffer s)"
    let ?h = "foldl sha512_block (sha512_hash s) (chunks 128 (take k x))"
    note w = update_whole [OF pend [unfolded True take_0] i(2) _ k_def b2_def]
    have x128: "128 \<le> length x" using x True by (simp add: i_def)
    note w = w [OF x128]
    have p: "processChunk512 (sha512_hash s) (take k x) = Some (ALC_ERROR_NONE, ?h)"
      using i w(6) by (intro processChunk512_blocks)
    have k0: "0 < k" using w(5) by (simp add: k_def)
    have rest: "length (drop k x) \<le> 128" using absorbs_less [OF w(1)] by simp
    have "Sha2_512_update (Some x) s = Some (ALC_ERROR_NONE,
      s\<lparr>m_msg_len := m_msg_len s + of_nat (length x), sha512_hash := ?h,
        sha512_buffer := b2, m_idx := length (drop k x)\<rparr>)"
      using i(4) w(3,7,8) p rest by (cases "drop k x = []")
        (simp_all add: Sha2_512_update_def i_def [symmetric] True w(2) whole_blocks k_def [symmetric]
           k0 w(5) Let_def del: CopyBlock_Some)
    then show ?thesis using Sha2_512_holds_rest [OF s w(1) _ _ _ refl] i w(9,10) bl by auto
  next
    case False
    define y where "y = drop (128 - i) x"
    define k where "k = length y div 128 * 128"
    define b1 where "b1 = write_at i (take (128 - i) x) (sha512_buffer s)"
    define b2 where "b2 = write_at 0 (drop k y) b1"
    define h1 where "h1 = sha512_block (sha512_hash s) (take i (sha512_buffer s) @ take (128 - i) x)"
    let ?h = "foldl sha512_block h1 (chunks 128 (take k y))"
    have x128: "128 \<le> i + length x" using x by (simp add: i_def)
    have "0 < i" using False by simp
    note w = update_fill [OF pend i(1) \<open>0 < i\<close> i(2) x128 y_def k_def b1_def b2_def h1_def]
    have lh1: "length h1 = 8" using i by (simp add: h1_def)
    have p1: "processChunk512 (sha512_hash s) (take 128 b1) = Some (ALC_ERROR_NONE, h1)"
      using i w(8-10) by (simp add: processChunk512_blocks h1_def)
    have p2: "processChunk512 h1 (take k y) = Some (ALC_ERROR_NONE, ?h)"
      using lh1 w(11) by (rule processChunk512_blocks)
    have rest: "length (drop k y) \<le> 128" using absorbs_less [OF w(1)] by simp
    have k0: "(0 < k) = (length y div 128 \<noteq> 0)" by (simp add: k_def)
    note upd = Sha2_512_update_def i_def [symmetric] w(2-6) y_def [symmetric] whole_blocks
      k_def [symmetric] k0 p1
    have "Sha2_512_update (Some x) s = Some (ALC_ERROR_NONE,
      s\<lparr>m_msg_len := m_msg_len s + of_nat (length x), sha512_hash := ?h,
        sha512_buffer := b2, m_idx := length (drop k y)\<rparr>)"
      using i(4) False w(12-15) p2 rest by (cases "length y div 128 = 0"; cases "drop k y = []")
        (simp_all add: upd Let_def del: CopyBlock_Some)
    then show ?thesis using Sha2_512_holds_rest [OF s w(1) _ _ _ refl] lh1 w(16,17) bl by auto
  qed
qed

text \<open>The bytes \<^verbatim>\<open>finalize\<close> writes: whole words, and for SHA-512/224 the half word after them.\<close>

lemma Sha2_512_output:
  assumes h: "length h = 8" and d: "d \<in> {224, 256, 384, 512}" and out: "length out = d div 8"
  shows "\<exists>o1. CopyBlock out 0 (CopyBlockWith 8 ToBigEndian64 (concat (map (le_bytes 8) h)) (d div 8)) = Some o1
    \<and> (if d = 224 then CopyBlock o1 24 (take 4 (le_bytes 8 (ToBigEndian64 (h ! 3)))) else Some o1)
      = Some (take (d div 8) (concat (map (be_bytes 8) h)))"
proof -
  let ?cb = "CopyBlockWith 8 ToBigEndian64 (concat (map (le_bytes 8) h)) (d div 8)"
  have l: "length ?cb = d div 8" using h d by (intro length_CopyBlockWith) auto
  then have o1: "CopyBlock out 0 ?cb = Some ?cb" using out by (simp add: write_at_def)
  show ?thesis
  proof (cases "d = 224")
    case True
    have "take 24 ?cb = concat (map (be_bytes 8) (take 3 h))"
      using CopyBlockWith_prefix [of 8 "d div 8" h ToBigEndian64] True h by (simp add: ReverseBytes64_be)
    moreover have "take 28 (concat (map (be_bytes 8) h))
        = concat (map (be_bytes 8) (take 3 h)) @ take 4 (be_bytes 8 (h ! 3))"
    proof -
      have "h = take 3 h @ h ! 3 # drop 4 h" using h id_take_nth_drop [of 3 h] by simp
      then have "concat (map (be_bytes 8) h) = concat (map (be_bytes 8) (take 3 h)) @ be_bytes 8 (h ! 3)
          @ concat (map (be_bytes 8) (drop 4 h))"
      proof -
        from \<open>h = take 3 h @ h ! 3 # drop 4 h\<close>
        have "concat (map (be_bytes 8) h) = concat (map (be_bytes 8) (take 3 h @ h ! 3 # drop 4 h))"
          by (rule arg_cong)
        then show ?thesis by simp
      qed
      then show ?thesis using h by simp
    qed
    ultimately show ?thesis using True o1 l
      by (simp add: write_at_def ReverseBytes64_be)
  next
    case False
    then have "d div 8 = 8 * (d div 8 div 8)" "d div 8 div 8 \<le> length h" using d h by auto
    then have "?cb = take (d div 8) (concat (map (be_bytes 8) h))"
      by (intro CopyBlockWith_words) (simp_all add: ReverseBytes64_be)
    then show ?thesis using False o1 by simp
  qed
qed

text \<open>
  Everything up to the test of the output buffer, which is the same whether that test succeeds
  or not.
\<close>

lemma Sha2_512_finalize_closes:
  assumes s: "Sha2_512_holds d m s" and len: "8 * length m < 2 ^ 64" and base: "8 dvd base"
  shows "\<exists>h buf. length h = 8 \<and> length buf = 256
    \<and> h = foldl sha512_block (Sha2_512_iv d) (chunks 128 (m @ sha2_pad 128 16 m))
    \<and> Sha2_512_finalize base pBuf s =
      (let s = s\<lparr>m_idx := m_idx s + 1, sha512_buffer := buf, sha512_hash := h\<rparr> in
       case pBuf of None \<Rightarrow> Some (ALC_ERROR_INVALID_ARG, s, None)
       | Some out \<Rightarrow>
           if length out = d div 8
           then Some (ALC_ERROR_NONE, s\<lparr>m_idx := 0, m_finished := True\<rparr>, Some (sha512_spec d m))
           else Some (ALC_ERROR_INVALID_ARG, s, Some out))"
proof -
  define i where "i = m_idx s"
  define bs :: nat where "bs = (if i + 1 \<le> 128 - 16 then 128 else 2 * 128)"
  define n where "n = bs - (i + 1) - 16"
  define b1 where "b1 = write_at i [0x80] (sha512_buffer s)"
  define b2 where "b2 = take (i + 1) b1 @ write_at 0 (replicate n 0) (drop (i + 1) b1)"
  define b3 where "b3 = write_at (bs - 16) (be_bytes 16 (of_nat (8 * length m) :: u128)) b2"
  define h where "h = foldl sha512_block (sha512_hash s) (chunks 128 (take bs b3))"
  have pend: "absorbs 128 sha512_block (Sha2_512_iv d) m (sha512_hash s) (take i (sha512_buffer s))" "i < 128"
      "length (sha512_buffer s) = 2 * 128"
    using s by (auto simp: Sha2_512_holds_def i_def)
  note buf = close_buffer [OF _ pend bs_def n_def b1_def b2_def b3_def, simplified]
  have st: "length (sha512_hash s) = 8" "m_finished s = False"
    "m_digest_len s = d div 8" "d \<in> {224, 256, 384, 512}" "m_msg_len s = of_nat (length m)"
    using s by (auto simp: Sha2_512_holds_def)
  have c1: "CopyBlock (sha512_buffer s) i [0x80] = Some b1"
    using pend by (simp add: b1_def)
  have c2: "PadBlock 8 (base + (i + 1)) (drop (i + 1) b1) (0 :: u64)
      (of_nat bs - of_nat (i + 1) - 16) = Some (write_at 0 (replicate n 0) (drop (i + 1) b1))"
  proof -
    have "of_nat bs - of_nat (i + 1) - 16 = (of_nat n :: u64)"
      using pend(2) by (auto simp: n_def bs_def of_nat_diff)
    moreover have "8 dvd base + (i + 1) + n"
      using base buf(8) unfolding add.assoc by (auto simp: bs_def)
    then have "PadBlock 8 (base + (i + 1)) (drop (i + 1) b1) (0 :: u64) (of_nat n)
      = Some (write_at 0 (replicate n 0) (drop (i + 1) b1))"
      using buf(1,4) by (intro PadBlock_zero) simp_all
    ultimately show ?thesis by metis
  qed
  have bits: "le_bytes 16 (ToBigEndian128 (ucast (m_msg_len s * 8))) = be_bytes 16 (of_nat (8 * length m) :: u128)"
  proof -
    have "m_msg_len s * 8 = (of_nat (8 * length m) :: u64)" by (simp add: st(5))
    then have "ucast (m_msg_len s * 8) = (of_nat (8 * length m) :: u128)"
      using len by (simp only: unsigned_of_nat) (simp add: take_bit_nat_eq_self)
    then show ?thesis by (simp add: be_bytes_def ReverseBytes128_bytes)
  qed
  have c3: "CopyBlock b2 (bs - 16) (le_bytes 16 (ToBigEndian128 (ucast (m_msg_len s * 8)))) = Some b3"
    using buf(2,5,6) unfolding bits by (simp add: b3_def)
  have c4: "processChunk512 (sha512_hash s) (take bs b3) = Some (ALC_ERROR_NONE, h)"
    using st buf(3,5,7) by (simp add: processChunk512_blocks h_def min_absorb2)
  have lh: "length h = 8" using st by (simp add: h_def)
  have spec: "sha512_spec d m = take (d div 8) (concat (map (be_bytes 8) h))"
    using buf(9) by (simp add: sha512_spec_def h_def)
  have bs': "(if i + 1 \<le> cChunkSize512 - 16 then cChunkSize512 else length b1) = bs"
    using buf(1) by (simp add: bs_def)
  have n28: "(d = 224) = (d div 8 = 28)" using st(4) by auto
  note upd = Sha2_512_finalize_def Let_def i_def [symmetric] st(2,3) if_False c1 bs'
      c2 b2_def [symmetric] c3 c4 prod.case Option.bind.bind_lunit alcp_is_error_NONE
  have "Sha2_512_finalize base pBuf s =
      (let s = s\<lparr>m_idx := m_idx s + 1, sha512_buffer := b3, sha512_hash := h\<rparr> in
       case pBuf of None \<Rightarrow> Some (ALC_ERROR_INVALID_ARG, s, None)
       | Some out \<Rightarrow>
           if length out = d div 8
           then Some (ALC_ERROR_NONE, s\<lparr>m_idx := 0, m_finished := True\<rparr>, Some (sha512_spec d m))
           else Some (ALC_ERROR_INVALID_ARG, s, Some out))"
  proof (cases pBuf)
    case None
    then show ?thesis by (simp only: upd) (simp add: i_def st(3))
  next
    case (Some out)
    show ?thesis
    proof (cases "length out = d div 8")
      case True
      then show ?thesis
        using Sha2_512_output [OF lh st(4) True] unfolding Some
        by (simp only: upd) (auto simp: i_def st(3) spec n28)
    next
      case False
      then show ?thesis unfolding Some by (simp only: upd) (simp add: i_def st(3))
    qed
  qed
  moreover have "h = foldl sha512_block (Sha2_512_iv d) (chunks 128 (m @ sha2_pad 128 16 m))"
    using buf(9) by (simp add: h_def)
  ultimately show ?thesis using lh buf(3) by blast
qed

lemma Sha2_512_finalize_spec:
  assumes s: "Sha2_512_holds d m s" and out: "length out = d div 8"
    and "8 * length m < 2 ^ 64" "8 dvd base"
  shows "\<exists>h buf. Sha2_512_finalize base (Some out) s = Some (ALC_ERROR_NONE,
      s\<lparr>m_finished := True, m_idx := 0, sha512_hash := h, sha512_buffer := buf\<rparr>, Some (sha512_spec d m))
      \<and> length h = 8 \<and> length buf = 256"
proof -
  obtain h buf where h: "length h = 8" "length buf = 256"
    and e: "Sha2_512_finalize base (Some out) s = Some (ALC_ERROR_NONE,
      s\<lparr>m_idx := m_idx s + 1, sha512_buffer := buf, sha512_hash := h\<rparr>\<lparr>m_idx := 0, m_finished := True\<rparr>,
      Some (sha512_spec d m))"
    using Sha2_512_finalize_closes [OF s assms(3,4), of "Some out"] out unfolding Let_def by force
  show ?thesis by (intro exI [of _ h] exI [of _ buf]) (simp add: e h)
qed


section \<open>The digest contract\<close>

definition Sha2_512_ok :: "nat \<Rightarrow> sha512 \<Rightarrow> bool" where
  "Sha2_512_ok d s \<longleftrightarrow> m_digest_len s = d div 8 \<and> m_block_len s = 128 \<and> length (sha512_buffer s) = 256"

definition Sha2_512_ops :: "nat \<Rightarrow> nat \<Rightarrow> sha512 digest_ops" where
  "Sha2_512_ops d base =
     \<lparr>op_init = Sha2_512_init d, op_update = Sha2_512_update, op_finalize = Sha2_512_finalize base,
      op_block_len = m_block_len, op_digest_len = m_digest_len\<rparr>"

lemma Sha2_512_update_holds:
  assumes "Sha2_512_holds d m s"
  shows "\<exists>s'. Sha2_512_update (Some x) s = Some (ALC_ERROR_NONE, s') \<and> Sha2_512_holds d (m @ x) s'"
proof (cases "x = []")
  case True
  then show ?thesis using assms by (simp add: Sha2_512_update_def Sha2_512_holds_def)
next
  case False
  then show ?thesis
    using Sha2_512_update_short [OF assms False] Sha2_512_update_long [OF assms, of x]
    by (cases "m_idx s + length x < 128") auto
qed

lemma length_sha512_spec: "d \<in> {224, 256, 384, 512} \<Longrightarrow> length (sha512_spec d m) = d div 8"
  by (auto simp: sha512_spec_def)

text \<open>
  The promise is for messages below \<open>2 ^ 61\<close> bytes: the code computes the bit count in 64
  bits, so a longer message would get a wrong length field.
\<close>

lemma Sha2_512_digest:
  assumes d: "d \<in> {224, 256, 384, 512}" and base: "8 dvd base"
  shows "digest (Sha2_512_ops d base) (Sha2_512_ok d) (Sha2_512_holds d) (sha512_spec d) 128 (d div 8)
           (2 ^ 61 - 1)"
proof unfold_locales
  show "\<exists>s'. op_finalize (Sha2_512_ops d base) (Some out) s = Some (ALC_ERROR_NONE, s', Some (sha512_spec d m))
      \<and> Sha2_512_ok d s'" if s: "Sha2_512_holds d m s" "length m \<le> 2 ^ 61 - 1" "length out = d div 8" for m s out
  proof -
    have "8 * length m < 2 ^ 64" using s(2) by simp
    then show ?thesis using s base Sha2_512_finalize_spec [of d m s out base]
      by (auto simp: Sha2_512_ops_def Sha2_512_ok_def Sha2_512_holds_def)
  qed
qed (use assms in \<open>auto simp: Sha2_512_ops_def Sha2_512_ok_def Sha2_512_holds_init Sha2_512_update_holds
       length_sha512_spec, auto simp: Sha2_512_holds_def\<close>)

interpretation sha512: digest "Sha2_512_ops 512 (64 * line)" "Sha2_512_ok 512" "Sha2_512_holds 512"
    "sha512_spec 512" 128 64 "2 ^ 61 - 1"
  for line using Sha2_512_digest [of 512 "64 * line"] by simp

interpretation sha384: digest "Sha2_512_ops 384 (64 * line)" "Sha2_512_ok 384" "Sha2_512_holds 384"
    "sha512_spec 384" 128 48 "2 ^ 61 - 1"
  for line using Sha2_512_digest [of 384 "64 * line"] by simp

section \<open>Properties\<close>

text \<open>
  C2: SHA-384, SHA-512, SHA-512/224 and SHA-512/256 compute the hash of FIPS 180-4 for every
  message below 2^61 bytes, in whatever pieces it arrives: \<^verbatim>\<open>init\<close>, the updates and
  \<^verbatim>\<open>finalize\<close> return no error and stay within their arrays (the word-wise zero padding
  included, the buffer being aligned as its \<^verbatim>\<open>alignas(64)\<close> says).
\<close>
theorem Sha2_512_computes_hash:
  assumes "d \<in> {224, 256, 384, 512}" "Sha2_512_ok d s" "length out = d div 8"
    and "length (concat xs) < 2 ^ 61" "64 dvd base"
  shows "\<exists>s'. hash_message (Sha2_512_ops d base) xs out s
              = Some (ALC_ERROR_NONE, s', Some (sha512_spec d (concat xs))) \<and> Sha2_512_ok d s'"
proof -
  have "8 dvd base" using assms(5) dvd_trans [of 8 64 base] by simp
  then show ?thesis
    using digest.message_hash [OF Sha2_512_digest [OF assms(1)], of base s xs out] assms by simp
qed

theorem Sha2_512_computes_hash_witness:
  "\<exists>s'. hash_message (Sha2_512_ops 224 128) [replicate 200 1, [2]] (replicate 28 0) (Sha2_512_ctor 224)
        = Some (ALC_ERROR_NONE, s', Some (sha512_spec 224 (replicate 200 1 @ [2]))) \<and> Sha2_512_ok 224 s'"
  using Sha2_512_computes_hash [of 224 "Sha2_512_ctor 224" "replicate 28 0" "[replicate 200 1, [2]]" 128]
  by (simp add: Sha2_512_ok_def Sha2_512_ctor_def)

text \<open>
  The SHA-512 \<^verbatim>\<open>finalize\<close> looks at the output buffer only after it has padded and compressed:
  a call with a null pointer or the wrong size returns \<^verbatim>\<open>ALC_ERROR_INVALID_ARG\<close>, but the hash
  state it leaves is already the final one, with the marker byte counted in \<^verbatim>\<open>m_idx\<close> and
  \<^verbatim>\<open>m_finished\<close> still false, so a retry with a correct buffer would pad a second time.
\<close>
theorem Sha2_512_bad_finalize_consumes:
  assumes "Sha2_512_holds d m s" "8 * length m < 2 ^ 64" "8 dvd base"
    and "pBuf = None \<or> (\<exists>out. pBuf = Some out \<and> length out \<noteq> d div 8)"
  shows "\<exists>s'. Sha2_512_finalize base pBuf s = Some (ALC_ERROR_INVALID_ARG, s', pBuf)
    \<and> sha512_hash s' = foldl sha512_block (Sha2_512_iv d) (chunks 128 (m @ sha2_pad 128 16 m))
    \<and> m_idx s' = m_idx s + 1 \<and> \<not> m_finished s' \<and> m_msg_len s' = of_nat (length m)"
proof -
  have "\<not> m_finished s" "m_msg_len s = of_nat (length m)" using assms(1) by (auto simp: Sha2_512_holds_def)
  then show ?thesis
    using Sha2_512_finalize_closes [OF assms(1-3), of pBuf] assms(4) by (auto simp: Let_def)
qed

theorem Sha2_512_bad_finalize_consumes_witness:
  "\<exists>s'. Sha2_512_finalize 64 None (Sha2_512_init 512 (Sha2_512_ctor 512)) = Some (ALC_ERROR_INVALID_ARG, s', None)
    \<and> sha512_hash s' = foldl sha512_block (Sha2_512_iv 512) (chunks 128 ([] @ sha2_pad 128 16 []))
    \<and> m_idx s' = 1 \<and> \<not> m_finished s' \<and> m_msg_len s' = 0"
proof -
  have "Sha2_512_holds 512 [] (Sha2_512_init 512 (Sha2_512_ctor 512))"
    by (rule Sha2_512_holds_init) (simp_all add: Sha2_512_ctor_def)
  from Sha2_512_bad_finalize_consumes [OF this, of 64 None] show ?thesis
    by (simp add: Sha2_512_init_def)
qed

text \<open>
  The round of the vectorised kernels, which uses additions for the disjoint halves of Ch
  and Maj and updates only two variables, is one round of \<^verbatim>\<open>CompressMsg\<close> after the caller's
  renaming of the variables.
\<close>
theorem ShaRound_is_CompressMsg_round:
  "CompressMsg512_round w k [a, b, c, d, e, f, g, h] i =
   (case ShaRound a b c d e f g h (k ! i + w ! i) of (d', h') \<Rightarrow> [h', a, b, c, d', e, f, g])"
proof -
  have "(a AND (b XOR c)) + (b AND c) = (a AND b) XOR (a AND c) XOR (b AND c)"
  proof -
    have "(a AND (b XOR c)) + (b AND c) = (a AND (b XOR c)) OR (b AND c)"
      by (rule disjunctive_add) (auto simp: bit_simps)
    also have "\<dots> = (a AND b) XOR (a AND c) XOR (b AND c)"
      by (rule bit_word_eqI) (auto simp: bit_simps)
    finally show ?thesis .
  qed
  moreover have "(e AND f) + (NOT e AND g) = (e AND f) XOR (NOT e AND g)"
  proof -
    have "(e AND f) + (NOT e AND g) = (e AND f) OR (NOT e AND g)"
      by (rule disjunctive_add) (auto simp: bit_simps)
    also have "\<dots> = (e AND f) XOR (NOT e AND g)"
      by (rule bit_word_eqI) (auto simp: bit_simps)
    finally show ?thesis .
  qed
  ultimately show ?thesis
    by (simp add: CompressMsg512_round_def ShaRound_def Let_def eval_nat_numeral ac_simps)
qed

end
