(* ===== verification/Keccak.thy ===== *)
theory Keccak imports Bytes begin

text \<open>
  The permutation Keccak-f[1600] three times: the reference code of \<^verbatim>\<open>lib/digest/sha3.cc\<close>
  (\<^verbatim>\<open>round\<close>, \<^verbatim>\<open>fFunction\<close>), the in-place code of \<^verbatim>\<open>lib/digest/sha3_inplace.cc.inc\<close> that the
  Zen and Zen3 builds compile (four unrolled rounds without transposition), and FIPS 202. The
  rotation offsets and round constants of the code are checked against the algorithms the
  standard defines them by.

  A state is the flat array of 25 lanes; \<open>cell st i j\<close> is \<^verbatim>\<open>state[i][j]\<close>, which FIPS 202
  calls lane \<open>A[j, i]\<close>.
\<close>

unbundle bit_operations_syntax

section \<open>Tables and state\<close>

definition cRotationConstants :: "u64 list" where
  "cRotationConstants = [
    0, 1, 62, 28, 27,
    36, 44, 6, 55, 20,
    3, 10, 43, 25, 39,
    41, 45, 15, 21, 8,
    18, 2, 61, 56, 14]"

definition cRoundConstantsIota :: "u64 list" where
  "cRoundConstantsIota = [
    0x0000000000000001, 0x0000000000008082, 0x800000000000808A,
    0x8000000080008000, 0x000000000000808B, 0x0000000080000001,
    0x8000000080008081, 0x8000000000008009, 0x000000000000008A,
    0x0000000000000088, 0x0000000080008009, 0x000000008000000A,
    0x000000008000808B, 0x800000000000008B, 0x8000000000008089,
    0x8000000000008003, 0x8000000000008002, 0x8000000000000080,
    0x000000000000800A, 0x800000008000000A, 0x8000000080008081,
    0x8000000000008080, 0x0000000080000001, 0x8000000080008008]"

definition cell :: "'a list \<Rightarrow> nat \<Rightarrow> nat \<Rightarrow> 'a" where
  "cell st i j = st ! (5 * i + j)"

definition set_cell :: "'a list \<Rightarrow> nat \<Rightarrow> nat \<Rightarrow> 'a \<Rightarrow> 'a list" where
  "set_cell st i j v = st[5 * i + j := v]"

text \<open>The pairs of the doubly nested loops, the first index outermost.\<close>

definition loop5x5 :: "(nat \<times> nat) list" where
  "loop5x5 = List.product [0..<5] [0..<5]"

section \<open>The reference code\<close>

definition keccak_theta :: "u64 list \<Rightarrow> u64 list" where
  "keccak_theta state =
     (let c = map (\<lambda>x. foldl (\<lambda>c y. c XOR cell state y x) (cell state 0 x) [1..<5]) [0..<5];
          d = map (\<lambda>x. c ! ((5 + x - 1) mod 5) XOR RotateLeft64 (c ! ((x + 1) mod 5)) 1) [0..<5]
      in foldl (\<lambda>state (x, y). set_cell state x y (cell state x y XOR d ! y)) state loop5x5)"

definition keccak_rho :: "u64 list \<Rightarrow> u64 list" where
  "keccak_rho state =
     map (\<lambda>(x, y). RotateLeft64 (cell state x y) (cell cRotationConstants x y)) loop5x5"

definition keccak_pi :: "u64 list \<Rightarrow> u64 list \<Rightarrow> u64 list" where
  "keccak_pi temp state =
     foldl (\<lambda>state (x, y). set_cell state ((2 * x + 3 * y) mod 5) y (cell temp y x)) state loop5x5"

definition keccak_chi :: "u64 list \<Rightarrow> u64 list" where
  "keccak_chi temp =
     foldl (\<lambda>state (x, y). set_cell state x y
       (cell temp x y XOR (NOT (cell temp x ((y + 1) mod 5)) AND cell temp x ((y + 2) mod 5))))
       temp loop5x5"

definition keccak_round :: "u64 \<Rightarrow> u64 list \<Rightarrow> u64 list" where
  "keccak_round roundConst state =
     (let state1 = keccak_theta state;
          temp = keccak_rho state1;
          state2 = keccak_pi temp state1;
          state3 = keccak_chi state2
      in set_cell state3 0 0 (cell state3 0 0 XOR roundConst))"

definition fFunction :: "u64 list \<Rightarrow> u64 list" where
  "fFunction stateFlat = foldl (\<lambda>st i. keccak_round (cRoundConstantsIota ! i) st) stateFlat [0..<24]"

section \<open>The in-place code\<close>

fun ycord :: "nat \<Rightarrow> nat \<Rightarrow> nat \<Rightarrow> nat" where
  "ycord x y round =
     (if round > 1 then ycord x ((x + 2 * y) mod 5) (round - 1) else (x + 2 * y) mod 5)"

declare ycord.simps [simp del]

text \<open>\<^verbatim>\<open>updateState\<close> gets its five targets by reference, here their coordinates.\<close>

definition updateState :: "(nat \<times> nat) list \<Rightarrow> u64 list \<Rightarrow> u64 list \<Rightarrow> u64 list" where
  "updateState refs B state =
     (let put = (\<lambda>state k v. case refs ! k of (i, j) \<Rightarrow> set_cell state i j v);
          state = put state 0 (B ! 0 XOR (NOT (B ! 1) AND B ! 2));
          state = put state 1 (B ! 1 XOR (NOT (B ! 2) AND B ! 3));
          state = put state 2 (B ! 2 XOR (NOT (B ! 3) AND B ! 4));
          state = put state 3 (B ! 3 XOR (NOT (B ! 4) AND B ! 0))
      in put state 4 (B ! 4 XOR (NOT (B ! 0) AND B ! 1)))"

definition updateInterState :: "u64 list \<Rightarrow> u64 list" where
  "updateInterState state =
     (let C = map (\<lambda>j. cell state 0 j XOR cell state 1 j XOR cell state 2 j XOR cell state 3 j
                       XOR cell state 4 j) [0..<5]
      in [C ! 4 XOR RotateLeft64 (C ! 1) 1, C ! 0 XOR RotateLeft64 (C ! 2) 1,
          C ! 1 XOR RotateLeft64 (C ! 3) 1, C ! 2 XOR RotateLeft64 (C ! 4) 1,
          C ! 3 XOR RotateLeft64 (C ! 0) 1])"

text \<open>
  The statements for one value of \<open>y\<close> in round \<open>r\<close>: five assignments to \<^verbatim>\<open>B\<close> and the call of
  \<^verbatim>\<open>updateState\<close>. The assignment for \<open>x = 0, y = 0\<close> has no rotation.
\<close>

definition inplace_plane :: "nat \<Rightarrow> nat \<Rightarrow> u64 list \<Rightarrow> u64 list \<times> u64 list \<Rightarrow> u64 list \<times> u64 list" where
  "inplace_plane r y D Bst =
     (case Bst of (B, state) \<Rightarrow>
        let B' = foldl (\<lambda>B x.
              let v = cell state (ycord x y r) x XOR D ! x in
              B[ycord x y 1 := (if x = 0 \<and> y = 0 then v
                                else RotateLeft64 v (cell cRotationConstants (ycord x y 1) x))])
              B [0..<5]
        in (B', updateState [(ycord 0 y r, 0), (ycord 1 y r, 1), (ycord 2 y r, 2), (ycord 3 y r, 3),
                             (ycord 4 y r, 4)] B' state))"

definition inplace_round1 :: "u64 \<Rightarrow> u64 list \<times> u64 list \<Rightarrow> u64 list \<times> u64 list" where
  "inplace_round1 rc Bst =
     (let D = updateInterState (snd Bst);
          (B, state) = inplace_plane 1 4 D (inplace_plane 1 3 D (inplace_plane 1 2 D
                         (inplace_plane 1 1 D (inplace_plane 1 0 D Bst))))
      in (B, set_cell state 0 0 (cell state 0 0 XOR rc)))"

definition inplace_round2 :: "u64 \<Rightarrow> u64 list \<times> u64 list \<Rightarrow> u64 list \<times> u64 list" where
  "inplace_round2 rc Bst =
     (let D = updateInterState (snd Bst);
          (B, state) = inplace_plane 2 4 D (inplace_plane 2 3 D (inplace_plane 2 2 D
                         (inplace_plane 2 1 D (inplace_plane 2 0 D Bst))))
      in (B, set_cell state 0 0 (cell state 0 0 XOR rc)))"

definition inplace_round3 :: "u64 \<Rightarrow> u64 list \<times> u64 list \<Rightarrow> u64 list \<times> u64 list" where
  "inplace_round3 rc Bst =
     (let D = updateInterState (snd Bst);
          (B, state) = inplace_plane 3 4 D (inplace_plane 3 3 D (inplace_plane 3 2 D
                         (inplace_plane 3 1 D (inplace_plane 3 0 D Bst))))
      in (B, set_cell state 0 0 (cell state 0 0 XOR rc)))"

definition inplace_round4 :: "u64 \<Rightarrow> u64 list \<times> u64 list \<Rightarrow> u64 list \<times> u64 list" where
  "inplace_round4 rc Bst =
     (let D = updateInterState (snd Bst);
          (B, state) = inplace_plane 4 4 D (inplace_plane 4 3 D (inplace_plane 4 2 D
                         (inplace_plane 4 1 D (inplace_plane 4 0 D Bst))))
      in (B, set_cell state 0 0 (cell state 0 0 XOR rc)))"

text \<open>The loop \<^verbatim>\<open>for (i = 0; i < cNumRounds; i += 4)\<close>; \<^verbatim>\<open>B\<close> starts uninitialised, \<open>B0\<close>.\<close>

definition fFunction_inplace :: "u64 list \<Rightarrow> u64 list \<Rightarrow> u64 list" where
  "fFunction_inplace B0 state =
     snd (foldl (\<lambda>Bst i.
       inplace_round4 (cRoundConstantsIota ! (i + 3)) (inplace_round3 (cRoundConstantsIota ! (i + 2))
         (inplace_round2 (cRoundConstantsIota ! (i + 1)) (inplace_round1 (cRoundConstantsIota ! i) Bst))))
       (B0, state) [0, 4, 8, 12, 16, 20])"

section \<open>FIPS 202\<close>

text \<open>
  The step mappings on lanes \<open>A x y\<close>, coordinates modulo 5. The offsets of \<open>\<rho>\<close> come from the
  walk of section 3.2.2, the round constants from the shift register of section 3.2.5.
\<close>

definition fips_theta :: "(nat \<Rightarrow> nat \<Rightarrow> u64) \<Rightarrow> nat \<Rightarrow> nat \<Rightarrow> u64" where
  "fips_theta A x y =
     (let C = (\<lambda>x. A x 0 XOR A x 1 XOR A x 2 XOR A x 3 XOR A x 4)
      in A x y XOR (C ((x + 4) mod 5) XOR word_rotl 1 (C ((x + 1) mod 5))))"

fun rho_walk :: "nat \<Rightarrow> nat \<times> nat" where
  "rho_walk 0 = (1, 0)"
| "rho_walk (Suc t) = (case rho_walk t of (x, y) \<Rightarrow> (y, (2 * x + 3 * y) mod 5))"

definition rho_offset :: "nat \<Rightarrow> nat \<Rightarrow> nat" where
  "rho_offset x y =
     (case filter (\<lambda>t. rho_walk t = (x, y)) [0..<24] of
        [] \<Rightarrow> 0 | t # _ \<Rightarrow> ((t + 1) * (t + 2) div 2) mod 64)"

definition fips_rho :: "(nat \<Rightarrow> nat \<Rightarrow> u64) \<Rightarrow> nat \<Rightarrow> nat \<Rightarrow> u64" where
  "fips_rho A x y = word_rotl (rho_offset x y) (A x y)"

definition fips_pi :: "(nat \<Rightarrow> nat \<Rightarrow> u64) \<Rightarrow> nat \<Rightarrow> nat \<Rightarrow> u64" where
  "fips_pi A x y = A ((x + 3 * y) mod 5) x"

definition fips_chi :: "(nat \<Rightarrow> nat \<Rightarrow> u64) \<Rightarrow> nat \<Rightarrow> nat \<Rightarrow> u64" where
  "fips_chi A x y = A x y XOR (NOT (A ((x + 1) mod 5) y) AND A ((x + 2) mod 5) y)"

fun lfsr_step :: "bool list \<Rightarrow> bool list" where
  "lfsr_step R = (let R = False # R; b = R ! 8 in
     take 8 (R[0 := R ! 0 \<noteq> b, 4 := R ! 4 \<noteq> b, 5 := R ! 5 \<noteq> b, 6 := R ! 6 \<noteq> b]))"

definition lfsr_rc :: "nat \<Rightarrow> bool" where
  "lfsr_rc t = ((lfsr_step ^^ (t mod 255)) [True, False, False, False, False, False, False, False]) ! 0"

definition fips_round_constant :: "nat \<Rightarrow> u64" where
  "fips_round_constant ir =
     foldl (\<lambda>RC j. if lfsr_rc (j + 7 * ir) then set_bit (2 ^ j - 1) RC else RC) 0 [0..<7]"

definition fips_iota :: "nat \<Rightarrow> (nat \<Rightarrow> nat \<Rightarrow> u64) \<Rightarrow> nat \<Rightarrow> nat \<Rightarrow> u64" where
  "fips_iota ir A x y = (if x = 0 \<and> y = 0 then A x y XOR fips_round_constant ir else A x y)"

definition fips_keccak_round :: "nat \<Rightarrow> (nat \<Rightarrow> nat \<Rightarrow> u64) \<Rightarrow> nat \<Rightarrow> nat \<Rightarrow> u64" where
  "fips_keccak_round ir A = fips_iota ir (fips_chi (fips_pi (fips_rho (fips_theta A))))"

text \<open>\<open>lanes\<close> reads an array as a FIPS state and \<open>flat\<close> stores one.\<close>

definition lanes :: "u64 list \<Rightarrow> nat \<Rightarrow> nat \<Rightarrow> u64" where
  "lanes st x y = st ! (5 * y + x)"

definition flat :: "(nat \<Rightarrow> nat \<Rightarrow> u64) \<Rightarrow> u64 list" where
  "flat A = map (\<lambda>(y, x). A x y) loop5x5"

definition keccak_f :: "u64 list \<Rightarrow> u64 list" where
  "keccak_f st = foldl (\<lambda>st ir. flat (fips_keccak_round ir (lanes st))) st [0..<24]"

section \<open>The reference code computes Keccak-f\<close>

lemma less_5_cases: "(n::nat) < 5 \<Longrightarrow> n = 0 \<or> n = 1 \<or> n = 2 \<or> n = 3 \<or> n = 4"
  by auto

lemma loop5x5_code: "loop5x5 = [(0,0),(0,1),(0,2),(0,3),(0,4),(1,0),(1,1),(1,2),(1,3),(1,4),
  (2,0),(2,1),(2,2),(2,3),(2,4),(3,0),(3,1),(3,2),(3,3),(3,4),(4,0),(4,1),(4,2),(4,3),(4,4)]"
  by (simp add: loop5x5_def upt_conv_Cons)

lemma upt5: "[0..<5] = [0, 1, 2, 3, 4]" "[Suc 0..<5] = [1, 2, 3, 4]"
  by (simp_all add: upt_conv_Cons)

fun lfsr_seq :: "nat \<Rightarrow> bool list \<Rightarrow> bool list" where
  "lfsr_seq 0 R = []"
| "lfsr_seq (Suc n) R = R ! 0 # lfsr_seq n (lfsr_step R)"

lemma nth_lfsr_seq: "t < n \<Longrightarrow> lfsr_seq n R ! t = (lfsr_step ^^ t) R ! 0"
proof (induction n arbitrary: R t)
  case 0
  then show ?case by simp
next
  case (Suc n)
  then show ?case by (cases t) (simp_all del: funpow.simps add: funpow_0 funpow_Suc_right)
qed

lemma fips_round_constant_seq:
  assumes "ir < 24"
  shows "fips_round_constant ir = foldl (\<lambda>RC j. if
      lfsr_seq 168 [True, False, False, False, False, False, False, False] ! (j + 7 * ir)
      then set_bit (2 ^ j - 1) RC else RC) 0 [0..<7]"
  unfolding fips_round_constant_def
  by (rule foldl_cong) (use assms in \<open>auto simp: lfsr_rc_def nth_lfsr_seq\<close>)

text \<open>The register's first 168 output bits, seven for each round.\<close>

definition lfsr_bits :: "bool list" where
  "lfsr_bits =
    [True, False, False, False, False, False, False, False, True, False, True, True, False, False,
     False, True, True, True, True, False, True, False, False, False, False, True, True, True,
     True, True, True, True, True, False, False, True, False, False, False, False, True, False,
     True, False, False, True, True, True, True, True, False, True, False, True, False, True,
     False, True, True, True, False, False, False, False, False, True, True, False, False, False,
     True, False, True, False, True, True, False, False, True, True, False, False, True, False,
     True, True, True, True, True, True, False, True, True, True, True, False, False, True,
     True, False, True, True, True, False, True, True, True, False, False, True, False, True,
     False, True, False, False, True, False, True, False, False, False, True, False, False, True,
     False, True, True, False, True, False, False, False, True, True, False, False, True, True,
     True, False, False, True, True, True, True, False, False, False, True, True, False, True,
     True, False, False, False, False, True, False, False, False, True, False, True, True, True]"

lemma lfsr_seq_code: "lfsr_seq 168 [True, False, False, False, False, False, False, False] = lfsr_bits"
  by code_simp

lemma round_constants_bits:
  "map (\<lambda>ir. foldl (\<lambda>RC j. if lfsr_bits ! (j + 7 * ir) then set_bit (2 ^ j - 1) RC else RC) 0 [0..<7])
     [0..<24] = cRoundConstantsIota"
  by code_simp

lemma round_constants: "ir < 24 \<Longrightarrow> fips_round_constant ir = cRoundConstantsIota ! ir"
  by (simp add: fips_round_constant_seq lfsr_seq_code round_constants_bits [symmetric])

lemma rho_offsets: "map (\<lambda>(y, x). of_nat (rho_offset x y)) loop5x5 = cRotationConstants"
  by code_simp

lemma length_set_cell [simp]: "length (set_cell st i j v) = length st"
  by (simp add: set_cell_def)

lemma cell_set_cell:
  assumes "length st = 25" "i < 5" "j < 5" "i' < 5" "j' < 5"
  shows "cell (set_cell st i j v) i' j' = (if i = i' \<and> j = j' then v else cell st i' j')"
proof -
  have "(5 * i + j) div 5 = i" "(5 * i + j) mod 5 = j" "(5 * i' + j') div 5 = i'" "(5 * i' + j') mod 5 = j'"
    using assms by simp_all
  then have "5 * i + j = 5 * i' + j' \<longleftrightarrow> i = i' \<and> j = j'" by metis
  moreover have "5 * i + j < length st" using assms by simp
  ultimately show ?thesis by (auto simp: cell_def set_cell_def nth_list_update)
qed

lemma state_eqI:
  assumes "length a = 25" "length b = 25"
    and "\<And>i j. i < 5 \<Longrightarrow> j < 5 \<Longrightarrow> cell a i j = cell b i j"
  shows "a = b"
proof (rule nth_equalityI)
  show "length a = length b" using assms by simp
  fix k assume "k < length a"
  then have "cell a (k div 5) (k mod 5) = cell b (k div 5) (k mod 5)" using assms by auto
  then show "a ! k = b ! k" by (simp add: cell_def)
qed

lemma cell_table:
  "i < 5 \<Longrightarrow> j < 5 \<Longrightarrow> cell (map (\<lambda>(x, y). f x y) loop5x5) i j = f i j"
  by (drule less_5_cases, drule less_5_cases) (auto simp: cell_def loop5x5_code)

lemma length_loop5x5 [simp]: "length loop5x5 = 25"
  by (simp add: loop5x5_code)

lemma length_foldl_set_cell:
  "(\<And>st p. length (f st p) = length st) \<Longrightarrow> length (foldl f st ps) = length st"
  by (induction ps arbitrary: st) auto

lemma keccak_lengths [simp]:
  "length (keccak_theta st) = length st" "length (keccak_rho st) = 25"
  "length (keccak_pi temp st) = length st" "length (keccak_chi st) = length st"
  by (simp_all add: keccak_theta_def keccak_rho_def keccak_pi_def keccak_chi_def Let_def
      length_foldl_set_cell split_beta)

text \<open>
  A loop that writes each cell at most once, from that cell's old content, has written every
  cell it visits.
\<close>

lemma cell_foldl_set:
  assumes "distinct (map c ps)" "\<And>p. p \<in> set ps \<Longrightarrow> fst (c p) < 5 \<and> snd (c p) < 5"
    and "length st = 25" "i < 5" "j < 5"
  shows "cell (foldl (\<lambda>st p. set_cell st (fst (c p)) (snd (c p)) (g p (cell st (fst (c p)) (snd (c p))))) st ps) i j
    = (case filter (\<lambda>p. c p = (i, j)) ps of [] \<Rightarrow> cell st i j | q # _ \<Rightarrow> g q (cell st i j))"
  using assms(1,2)
proof (induction ps rule: rev_induct)
  case Nil
  then show ?case by simp
next
  case (snoc p ps)
  let ?f = "\<lambda>st p. set_cell st (fst (c p)) (snd (c p)) (g p (cell st (fst (c p)) (snd (c p))))"
  have len: "length (foldl ?f st ps) = 25" using assms(3) by (simp add: length_foldl_set_cell)
  have IH: "cell (foldl ?f st ps) i j
    = (case filter (\<lambda>p. c p = (i, j)) ps of [] \<Rightarrow> cell st i j | q # _ \<Rightarrow> g q (cell st i j))"
    using snoc by simp
  show ?case
  proof (cases "c p = (i, j)")
    case True
    then have "filter (\<lambda>p. c p = (i, j)) ps = []"
      using snoc.prems(1) by (auto simp: filter_empty_conv image_iff)
    then show ?thesis using True IH len assms(4,5) by (simp add: cell_set_cell)
  next
    case False
    then have "\<not> (fst (c p) = i \<and> snd (c p) = j)" by (metis prod.collapse)
    moreover have "fst (c p) < 5" "snd (c p) < 5" using snoc.prems(2) by auto
    ultimately show ?thesis using False IH len assms(4,5) by (auto simp: cell_set_cell)
  qed
qed

lemma filter_eq_single: "distinct xs \<Longrightarrow> a \<in> set xs \<Longrightarrow> filter (\<lambda>p. p = a) xs = [a]"
  by (induction xs) (auto simp: filter_empty_conv)

lemma loop5x5_set: "distinct loop5x5" "p \<in> set loop5x5 \<longleftrightarrow> fst p < 5 \<and> snd p < 5"
  by (cases p; simp add: loop5x5_def distinct_product)+

lemma filter_loop5x5: "i < 5 \<Longrightarrow> j < 5 \<Longrightarrow> filter (\<lambda>p. p = (i, j)) loop5x5 = [(i, j)]"
  by (rule filter_eq_single) (simp_all add: loop5x5_set)

lemma cell_foldl_own:
  assumes "length st = 25" "i < 5" "j < 5"
  shows "cell (foldl (\<lambda>st (x, y). set_cell st x y (g x y (cell st x y))) st loop5x5) i j
    = g i j (cell st i j)"
  using cell_foldl_set [of id loop5x5 st i j "\<lambda>(x, y). g x y"] assms
  by (auto simp: case_prod_unfold filter_loop5x5 loop5x5_set)

lemma cell_theta:
  assumes "length st = 25" "i < 5" "j < 5"
  shows "cell (keccak_theta st) i j = fips_theta (lanes st) j i"
proof -
  let ?c = "map (\<lambda>x. foldl (\<lambda>c y. c XOR cell st y x) (cell st 0 x) [1..<5]) [0..<5]"
  let ?d = "map (\<lambda>x. ?c ! ((5 + x - 1) mod 5) XOR RotateLeft64 (?c ! ((x + 1) mod 5)) 1) [0..<5]"
  have "cell (keccak_theta st) i j = cell st i j XOR ?d ! j"
    unfolding keccak_theta_def Let_def using cell_foldl_own [OF assms, of "\<lambda>x y v. v XOR ?d ! y"] by simp
  moreover have c: "?c ! x = lanes st x 0 XOR lanes st x 1 XOR lanes st x 2 XOR lanes st x 3 XOR lanes st x 4"
    if "x < 5" for x
    using that by (simp add: upt5(2) lanes_def cell_def ac_simps)
  moreover have "?d ! j = ?c ! ((j + 4) mod 5) XOR word_rotl 1 (?c ! ((j + 1) mod 5))"
    using assms(3) by (simp add: RotateLeft64_rotl add.commute del: map_upt_eqI)
  ultimately show ?thesis
    by (simp add: fips_theta_def Let_def lanes_def cell_def)
qed

lemma word_rotl_0: "word_rotl 0 w = w"
  by (rule bit_word_eqI) (simp add: bit_word_rotl_iff)

lemma cell_rho:
  assumes "i < 5" "j < 5"
  shows "cell (keccak_rho st) i j = word_rotl (rho_offset j i) (cell st i j)"
proof -
  have off: "cell cRotationConstants i j = of_nat (rho_offset j i)"
    unfolding rho_offsets [symmetric] using assms by (rule cell_table)
  have small: "rho_offset j i < 64"
    by (auto simp: rho_offset_def split: list.split)
  have "cell (keccak_rho st) i j = RotateLeft64 (cell st i j) (of_nat (rho_offset j i))"
    unfolding keccak_rho_def using assms by (simp add: cell_table off)
  also have "\<dots> = word_rotl (rho_offset j i) (cell st i j)"
  proof (cases "rho_offset j i = 0")
    case True
    then show ?thesis by (simp add: word_rotl_0)
  next
    case False
    then show ?thesis using small RotateLeft64_rotl [of "of_nat (rho_offset j i)" "cell st i j"]
      by (simp add: unat_of_nat)
  qed
  finally show ?thesis .
qed

lemma pi_index:
  assumes "x < 5" "i < 5" "j < (5::nat)"
  shows "(2 * x + 3 * j) mod 5 = i \<longleftrightarrow> x = (3 * i + j) mod 5"
  using less_5_cases [OF assms(1)] less_5_cases [OF assms(2)] less_5_cases [OF assms(3)]
  by (elim disjE) simp_all

lemma cell_pi:
  assumes "length st = 25" "i < 5" "j < 5"
  shows "cell (keccak_pi temp st) i j = cell temp j ((3 * i + j) mod 5)"
proof -
  let ?c = "\<lambda>(x, y). ((2 * x + 3 * y) mod 5, y) :: nat \<times> nat"
  have inj: "distinct (map ?c loop5x5)" by (simp add: loop5x5_code)
  have e: "?c p = (i, j) \<longleftrightarrow> p = ((3 * i + j) mod 5, j)" if "p \<in> set loop5x5" for p
  proof -
    obtain x y where p: "p = (x, y)" by (cases p)
    have "x < 5" using that p by (simp add: loop5x5_set)
    then have "(2 * x + 3 * j) mod 5 = i \<longleftrightarrow> x = (3 * i + j) mod 5" using assms(2,3) by (rule pi_index)
    then show ?thesis using p by auto
  qed
  have "filter (\<lambda>p. ?c p = (i, j)) loop5x5 = filter (\<lambda>p. p = ((3 * i + j) mod 5, j)) loop5x5"
    by (rule filter_cong) (simp_all only: e)
  also have "\<dots> = [((3 * i + j) mod 5, j)]" using assms(3) by (intro filter_loop5x5) simp_all
  finally show ?thesis
    using cell_foldl_set [of ?c loop5x5 st i j "\<lambda>(x, y) v. cell temp y x"] inj assms
    by (auto simp: keccak_pi_def case_prod_unfold loop5x5_set)
qed

lemma cell_chi:
  assumes "length st = 25" "i < 5" "j < 5"
  shows "cell (keccak_chi st) i j =
    cell st i j XOR (NOT (cell st i ((j + 1) mod 5)) AND cell st i ((j + 2) mod 5))"
  unfolding keccak_chi_def using cell_foldl_own [OF assms, of "\<lambda>x y v. cell st x y XOR
    (NOT (cell st x ((y + 1) mod 5)) AND cell st x ((y + 2) mod 5))"] by simp

lemma length_keccak_round [simp]: "length (keccak_round rc st) = length st"
  by (simp add: keccak_round_def Let_def)

lemma keccak_round_fips:
  assumes st: "length st = 25" and "ir < 24"
  shows "keccak_round (cRoundConstantsIota ! ir) st = flat (fips_keccak_round ir (lanes st))"
proof (rule state_eqI)
  let ?A = "fips_pi (fips_rho (fips_theta (lanes st)))"
  fix i j :: nat assume ij: "i < 5" "j < 5"
  have pi: "cell (keccak_pi (keccak_rho (keccak_theta st)) (keccak_theta st)) i j = ?A j i"
    if "i < 5" "j < 5" for i j
    using that st by (simp add: cell_pi cell_rho cell_theta fips_pi_def fips_rho_def add.commute)
  have chi: "cell (keccak_chi (keccak_pi (keccak_rho (keccak_theta st)) (keccak_theta st))) i j = fips_chi ?A j i"
    if "i < 5" "j < 5" for i j
    using that st by (simp add: cell_chi pi fips_chi_def)
  have "cell (keccak_round (cRoundConstantsIota ! ir) st) i j =
      (if i = 0 \<and> j = 0 then fips_chi ?A 0 0 XOR cRoundConstantsIota ! ir else fips_chi ?A j i)"
    using ij st by (auto simp: keccak_round_def Let_def cell_set_cell chi)
  also have "\<dots> = cell (flat (fips_keccak_round ir (lanes st))) i j"
    using ij assms(2) by (simp add: flat_def cell_table fips_keccak_round_def fips_iota_def round_constants)
  finally show "cell (keccak_round (cRoundConstantsIota ! ir) st) i j
    = cell (flat (fips_keccak_round ir (lanes st))) i j" .
qed (simp_all add: st flat_def)

lemma length_flat [simp]: "length (flat A) = 25"
  by (simp add: flat_def)

lemma fFunction_prefix:
  assumes "length st = 25" "n \<le> 24"
  shows "foldl (\<lambda>st i. keccak_round (cRoundConstantsIota ! i) st) st [0..<n]
       = foldl (\<lambda>st ir. flat (fips_keccak_round ir (lanes st))) st [0..<n]
    \<and> length (foldl (\<lambda>st i. keccak_round (cRoundConstantsIota ! i) st) st [0..<n]) = 25"
  using assms(2)
proof (induction n)
  case 0
  then show ?case using assms(1) by simp
next
  case (Suc n)
  then show ?case
    using keccak_round_fips [of "foldl (\<lambda>st i. keccak_round (cRoundConstantsIota ! i) st) st [0..<n]" n]
    by auto
qed

lemma fFunction_keccak_f: "length st = 25 \<Longrightarrow> fFunction st = keccak_f st"
  using fFunction_prefix [of st 24] by (simp add: fFunction_def keccak_f_def)

section \<open>The in-place code computes the same\<close>

text \<open>
  Before round \<open>r + 1\<close> of a group of four, lane \<open>(x, y)\<close> of the logical state lies in column
  \<open>x\<close> at row \<open>row_of r x y\<close>; the logical state itself is \<open>logical r st\<close>.
\<close>

definition row_of :: "nat \<Rightarrow> nat \<Rightarrow> nat \<Rightarrow> nat" where
  "row_of r x y = (if r = 0 then y else ycord x y r)"

definition logical :: "nat \<Rightarrow> u64 list \<Rightarrow> u64 list" where
  "logical r st = map (\<lambda>(y, x). cell st (row_of r x y) x) loop5x5"

lemma row_of_table:
  "\<forall>r\<in>set [0..<5]. \<forall>x\<in>set [0..<5]. \<forall>y\<in>set [0..<5]. row_of r x y < 5"
  "\<forall>r\<in>set [0..<5]. \<forall>x\<in>set [0..<5]. distinct (map (row_of r x) [0..<5])"
  "\<forall>r\<in>set [0..<4]. \<forall>x\<in>set [0..<5]. \<forall>y\<in>set [0..<5]. row_of (Suc r) x y = row_of r x (ycord x y 1)"
  "\<forall>x\<in>set [0..<5]. \<forall>y\<in>set [0..<5]. row_of 4 x y = y"
  "\<forall>y\<in>set [0..<5]. \<forall>k\<in>set [0..<5]. ycord ((3 * y + k) mod 5) y 1 = k"
  "\<forall>y\<in>set [0..<5]. distinct (map (\<lambda>x. ycord x y 1) [0..<5])"
  by code_simp+

lemma row_of_less: "r \<le> 4 \<Longrightarrow> x < 5 \<Longrightarrow> y < 5 \<Longrightarrow> row_of r x y < 5"
  using row_of_table(1) by simp

lemma row_of_inj: "r \<le> 4 \<Longrightarrow> x < 5 \<Longrightarrow> y < 5 \<Longrightarrow> y' < 5 \<Longrightarrow> row_of r x y = row_of r x y' \<longleftrightarrow> y = y'"
  using row_of_table(2) nth_eq_iff_index_eq [of "map (row_of r x) [0..<5]" y y'] by auto

lemma row_of_Suc: "r < 4 \<Longrightarrow> x < 5 \<Longrightarrow> y < 5 \<Longrightarrow> row_of (Suc r) x y = row_of r x (ycord x y 1)"
  using row_of_table(3) by simp

lemma row_of_4: "x < 5 \<Longrightarrow> y < 5 \<Longrightarrow> row_of 4 x y = y"
  using row_of_table(4) by simp

lemma row_of_ycord: "0 < r \<Longrightarrow> row_of r x y = ycord x y r"
  by (simp add: row_of_def)

lemma ycord_1_less: "ycord x y 1 < 5"
  by (simp add: ycord.simps)

lemma ycord_1_solve:
  assumes "x < 5" "y < 5" "k < 5"
  shows "ycord x y 1 = k \<longleftrightarrow> x = (3 * y + k) mod 5"
proof
  assume "ycord x y 1 = k"
  moreover have "ycord ((3 * y + k) mod 5) y 1 = k" using row_of_table(5) assms by simp
  ultimately show "x = (3 * y + k) mod 5"
    using row_of_table(6) assms nth_eq_iff_index_eq [of "map (\<lambda>x. ycord x y 1) [0..<5]" x "(3 * y + k) mod 5"]
    by auto
next
  assume "x = (3 * y + k) mod 5"
  then show "ycord x y 1 = k" using row_of_table(5) assms by simp
qed

definition chi_row :: "(nat \<Rightarrow> u64) \<Rightarrow> nat \<Rightarrow> u64" where
  "chi_row b j = b j XOR (NOT (b ((j + 1) mod 5)) AND b ((j + 2) mod 5))"

lemma chi_row_cong: "(\<And>k. k < 5 \<Longrightarrow> b k = b' k) \<Longrightarrow> j < 5 \<Longrightarrow> chi_row b j = chi_row b' j"
  by (simp add: chi_row_def)

definition plane_lane :: "nat \<Rightarrow> nat \<Rightarrow> u64 list \<Rightarrow> u64 list \<Rightarrow> nat \<Rightarrow> u64" where
  "plane_lane r y D st k =
     (let x = (3 * y + k) mod 5
      in RotateLeft64 (cell st (row_of r x y) x XOR D ! x) (cell cRotationConstants k x))"

text \<open>The five assignments to \<^verbatim>\<open>B\<close> fill it completely.\<close>

lemma plane_B:
  assumes B: "length B = 5" and y: "y < 5" and r: "0 < r" and k: "k < 5"
  shows "length (fst (inplace_plane r y D (B, st))) = 5"
    and "fst (inplace_plane r y D (B, st)) ! k = plane_lane r y D st k"
proof -
  define v where "v x = (let v = cell st (ycord x y r) x XOR D ! x in
      if x = 0 \<and> y = 0 then v else RotateLeft64 v (cell cRotationConstants (ycord x y 1) x))" for x
  have fst: "fst (inplace_plane r y D (B, st)) = foldl (\<lambda>B x. B[ycord x y 1 := v x]) B [0..<5]"
    by (simp add: inplace_plane_def Let_def v_def)
  have "length (foldl (\<lambda>B x. B[ycord x y 1 := v x]) B xs) = length B" for xs
    by (induction xs arbitrary: B) auto
  then show "length (fst (inplace_plane r y D (B, st))) = 5" using B fst by simp
  have gen: "foldl (\<lambda>B x. B[ycord x y 1 := v x]) B [0..<n] ! k
      = (if (3 * y + k) mod 5 < n then v ((3 * y + k) mod 5) else B ! k)
    \<and> length (foldl (\<lambda>B x. B[ycord x y 1 := v x]) B [0..<n]) = 5" if "n \<le> 5" for n
    using that
  proof (induction n)
    case 0
    then show ?case using B by simp
  next
    case (Suc n)
    have "ycord n y 1 = k \<longleftrightarrow> n = (3 * y + k) mod 5" using Suc.prems y k by (intro ycord_1_solve) simp_all
    then show ?case using Suc k by (auto simp: nth_list_update less_Suc_eq ycord_1_less)
  qed
  have "v ((3 * y + k) mod 5) = plane_lane r y D st k"
  proof -
    let ?x = "(3 * y + k) mod 5"
    have "ycord ?x y 1 = k" using row_of_table(5) y k by simp
    moreover have "cell cRotationConstants 0 0 = 0" by (simp add: cell_def cRotationConstants_def)
    moreover have "k = 0" if "?x = 0" "y = 0" using that k by simp
    ultimately show ?thesis using r by (auto simp: v_def plane_lane_def Let_def row_of_ycord)
  qed
  then show "fst (inplace_plane r y D (B, st)) ! k = plane_lane r y D st k"
    using gen [of 5] fst by simp
qed

lemma cell_updateState:
  assumes st: "length st = 25" and less: "i0 < 5" "i1 < 5" "i2 < 5" "i3 < 5" "i4 < 5"
    and ij: "i < 5" "j < 5"
  shows "cell (updateState [(i0, 0), (i1, 1), (i2, 2), (i3, 3), (i4, 4)] B st) i j =
    (if i = [i0, i1, i2, i3, i4] ! j then chi_row (\<lambda>k. B ! k) j else cell st i j)"
  using less_5_cases [OF ij(2)] st ij(1) less
  unfolding updateState_def chi_row_def Let_def
  by (elim disjE) (simp_all add: cell_set_cell numeral_2_eq_2)

lemma plane_cell:
  assumes B: "length B = 5" and st: "length st = 25" and y: "y < 5" and r: "0 < r" "r \<le> 4"
    and ij: "i < 5" "j < 5"
  shows "cell (snd (inplace_plane r y D (B, st))) i j =
      (if i = row_of r j y then chi_row (plane_lane r y D st) j else cell st i j)"
    and "length (snd (inplace_plane r y D (B, st))) = 25"
proof -
  let ?B = "fst (inplace_plane r y D (B, st))"
  have snd: "snd (inplace_plane r y D (B, st)) =
    updateState [(ycord 0 y r, 0), (ycord 1 y r, 1), (ycord 2 y r, 2), (ycord 3 y r, 3), (ycord 4 y r, 4)] ?B st"
    by (simp add: inplace_plane_def Let_def)
  have less: "ycord x y r < 5" if "x < 5" for x
    using row_of_less [of r x y] that y r by (simp add: row_of_ycord)
  have put: "chi_row (\<lambda>k. ?B ! k) j = chi_row (plane_lane r y D st) j"
    using ij B y r by (intro chi_row_cong plane_B(2))
  show "length (snd (inplace_plane r y D (B, st))) = 25"
    unfolding snd by (simp add: updateState_def Let_def st)
  have "[ycord 0 y r, ycord 1 y r, ycord 2 y r, ycord 3 y r, ycord 4 y r] ! j = ycord j y r"
    using less_5_cases [OF ij(2)] by (elim disjE) simp_all
  then have "cell (snd (inplace_plane r y D (B, st))) i j =
      (if i = ycord j y r then chi_row (\<lambda>k. ?B ! k) j else cell st i j)"
    unfolding snd using st ij less by (subst cell_updateState) simp_all
  then show "cell (snd (inplace_plane r y D (B, st))) i j =
      (if i = row_of r j y then chi_row (plane_lane r y D st) j else cell st i j)"
    using put r by (simp add: row_of_ycord)
qed

text \<open>Planes read and write disjoint cells, so their order does not matter.\<close>

definition planes :: "nat \<Rightarrow> u64 list \<Rightarrow> nat list \<Rightarrow> u64 list \<times> u64 list \<Rightarrow> u64 list \<times> u64 list" where
  "planes r D ys Bst = foldl (\<lambda>Bst y. inplace_plane r y D Bst) Bst ys"

lemma planes_cell:
  assumes B: "length B = 5" and st: "length st = 25" and r: "0 < r" "r \<le> 4"
    and n: "n \<le> 5"
  shows "length (fst (planes r D [0..<n] (B, st))) = 5 \<and> length (snd (planes r D [0..<n] (B, st))) = 25
    \<and> (\<forall>j<5. \<forall>y<5. cell (snd (planes r D [0..<n] (B, st))) (row_of r j y) j =
        (if y < n then chi_row (plane_lane r y D st) j else cell st (row_of r j y) j))"
  using n
proof (induction n)
  case 0
  then show ?case using B st by (simp add: planes_def)
next
  case (Suc n)
  obtain B1 st1 where p: "planes r D [0..<n] (B, st) = (B1, st1)" by (cases "planes r D [0..<n] (B, st)")
  have IH: "length B1 = 5" "length st1 = 25"
    "\<And>j y. j < 5 \<Longrightarrow> y < 5 \<Longrightarrow> cell st1 (row_of r j y) j =
        (if y < n then chi_row (plane_lane r y D st) j else cell st (row_of r j y) j)"
    using Suc p by auto
  have pn: "planes r D [0..<Suc n] (B, st) = inplace_plane r n D (B1, st1)"
    using p by (simp add: planes_def)
  have same: "chi_row (plane_lane r n D st1) j = chi_row (plane_lane r n D st) j" if "j < 5" for j
    using that Suc.prems by (intro chi_row_cong) (simp_all add: plane_lane_def Let_def IH(3))
  have "cell (snd (inplace_plane r n D (B1, st1))) (row_of r j y) j =
      (if y < Suc n then chi_row (plane_lane r y D st) j else cell st (row_of r j y) j)"
    if jy: "j < 5" "y < 5" for j y
  proof -
    have "cell (snd (inplace_plane r n D (B1, st1))) (row_of r j y) j =
      (if row_of r j y = row_of r j n then chi_row (plane_lane r n D st1) j else cell st1 (row_of r j y) j)"
      using jy Suc.prems r IH(1,2) by (intro plane_cell row_of_less) simp_all
    then show ?thesis using jy Suc.prems r IH(3) same by (auto simp: row_of_inj)
  qed
  then show ?case 
    using Suc.prems IH(1,2) r pn plane_B(1) [where k = 0] plane_cell(2) [where i = 0 and j = 0] by simp
qed

lemma cell_logical: "x < 5 \<Longrightarrow> y < 5 \<Longrightarrow> cell (logical r st) y x = cell st (row_of r x y) x"
  by (simp add: logical_def cell_table)

lemma lanes_logical: "x < 5 \<Longrightarrow> y < 5 \<Longrightarrow> lanes (logical r st) x y = cell st (row_of r x y) x"
  using cell_logical [of x y r st] by (simp add: lanes_def cell_def)

lemma length_logical [simp]: "length (logical r st) = 25"
  by (simp add: logical_def)

lemma logical_0: "length st = 25 \<Longrightarrow> logical 0 st = st"
  by (rule state_eqI) (simp_all add: cell_logical row_of_def)

lemma logical_4: "length st = 25 \<Longrightarrow> logical 4 st = st"
  by (rule state_eqI) (simp_all add: cell_logical row_of_4)

text \<open>The column parities do not see the permutation of the rows.\<close>

lemma column_xor:
  assumes "r < 4" "x < 5"
  shows "cell (st :: u64 list) (row_of r x 0) x XOR cell st (row_of r x 1) x XOR cell st (row_of r x 2) x
      XOR cell st (row_of r x 3) x XOR cell st (row_of r x 4) x
    = cell st 0 x XOR cell st 1 x XOR cell st 2 x XOR cell st 3 x XOR cell st 4 x"
proof -
  have "r = 0 \<or> r = 1 \<or> r = 2 \<or> r = 3" using assms(1) by auto
  then show ?thesis using less_5_cases [OF assms(2)]
    by (elim disjE) (simp_all add: row_of_def ycord.simps ac_simps numeral_2_eq_2)
qed

lemma updateInterState_theta:
  assumes r: "r < 4" and x: "x < 5"
  shows "fips_theta (lanes (logical r st)) x y = lanes (logical r st) x y XOR updateInterState st ! x"
proof -
  have col: "lanes (logical r st) x 0 XOR lanes (logical r st) x 1 XOR lanes (logical r st) x 2
      XOR lanes (logical r st) x 3 XOR lanes (logical r st) x 4
    = cell st 0 x XOR cell st 1 x XOR cell st 2 x XOR cell st 3 x XOR cell st 4 x" if "x < 5" for x
    using column_xor [OF r that, of st] that by (simp add: lanes_logical)
  have "updateInterState st ! x =
      (let C = (\<lambda>x. lanes (logical r st) x 0 XOR lanes (logical r st) x 1 XOR lanes (logical r st) x 2
                 XOR lanes (logical r st) x 3 XOR lanes (logical r st) x 4)
       in C ((x + 4) mod 5) XOR word_rotl 1 (C ((x + 1) mod 5)))"
    using less_5_cases [OF x] unfolding Let_def
    by (elim disjE) (simp_all add: col [unfolded One_nat_def numeral_2_eq_2] updateInterState_def Let_def upt5 RotateLeft64_rotl
        numeral_2_eq_2)
  then show ?thesis by (simp add: fips_theta_def)
qed

lemma chi_row_reference:
  assumes L: "length L = 25" and D: "\<And>x y. x < 5 \<Longrightarrow> fips_theta (lanes L) x y = lanes L x y XOR D ! x"
    and i: "i < 5" "j < 5"
  shows "cell (keccak_chi (keccak_pi (keccak_rho (keccak_theta L)) (keccak_theta L))) i j =
    chi_row (\<lambda>k. let x = (3 * i + k) mod 5 in RotateLeft64 (cell L k x XOR D ! x) (cell cRotationConstants k x)) j"
proof -
  have th: "cell (keccak_theta L) k x = cell L k x XOR D ! x" if "k < 5" "x < 5" for k x
    using that L D by (simp add: cell_theta) (simp add: lanes_def cell_def)
  have "cell (keccak_pi (keccak_rho (keccak_theta L)) (keccak_theta L)) i k =
      (let x = (3 * i + k) mod 5 in RotateLeft64 (cell L k x XOR D ! x) (cell cRotationConstants k x))"
    if "k < 5" for k
    using that L i by (simp add: cell_pi keccak_rho_def cell_table th Let_def)
  then show ?thesis using L i by (simp add: cell_chi chi_row_def)
qed

text \<open>One unrolled round, whatever its number: five planes and the round constant.\<close>

definition inplace_round :: "nat \<Rightarrow> u64 \<Rightarrow> u64 list \<times> u64 list \<Rightarrow> u64 list \<times> u64 list" where
  "inplace_round r rc Bst =
     (case planes r (updateInterState (snd Bst)) [0..<5] Bst of
        (B, state) \<Rightarrow> (B, set_cell state 0 0 (cell state 0 0 XOR rc)))"

lemma inplace_rounds:
  "inplace_round1 = inplace_round 1" "inplace_round2 = inplace_round 2"
  "inplace_round3 = inplace_round 3" "inplace_round4 = inplace_round 4"
  by (rule ext; rule ext; simp add: inplace_round_def planes_def upt5 inplace_round1_def
      inplace_round2_def inplace_round3_def inplace_round4_def Let_def)+

lemma inplace_round_logical:
  assumes B: "length B = 5" and st: "length st = 25" and r: "0 < r" "r \<le> 4"
  shows "logical r (snd (inplace_round r rc (B, st))) = keccak_round rc (logical (r - 1) st)"
    and "length (fst (inplace_round r rc (B, st))) = 5" "length (snd (inplace_round r rc (B, st))) = 25"
proof -
  let ?D = "updateInterState st" and ?L = "logical (r - 1) st"
  obtain B1 st1 where p: "planes r ?D [0..<5] (B, st) = (B1, st1)" by (cases "planes r ?D [0..<5] (B, st)")
  note pc = planes_cell [OF B st r, of 5 ?D, unfolded p]
  have len: "length B1 = 5" "length st1 = 25" using pc by simp_all
  have ir: "inplace_round r rc (B, st) = (B1, set_cell st1 0 0 (cell st1 0 0 XOR rc))"
    by (simp add: inplace_round_def p)
  show "length (fst (inplace_round r rc (B, st))) = 5" "length (snd (inplace_round r rc (B, st))) = 25"
    using len by (simp_all add: ir)
  have row0: "row_of r 0 y = 0 \<longleftrightarrow> y = 0" if "y < 5" for y
  proof -
    have "row_of r 0 0 = 0" using r by (cases "r = 1 \<or> r = 2 \<or> r = 3 \<or> r = 4")
        (auto simp: row_of_def ycord.simps)
    then show ?thesis using row_of_inj [of r 0 y 0] that r by simp
  qed
  have ch: "cell st1 (row_of r x y) x =
      cell (keccak_chi (keccak_pi (keccak_rho (keccak_theta ?L)) (keccak_theta ?L))) y x"
    if xy: "x < 5" "y < 5" for x y
  proof -
    have "cell st1 (row_of r x y) x = chi_row (plane_lane r y ?D st) x" using pc xy by simp
    also have "\<dots> = chi_row (\<lambda>k. let x = (3 * y + k) mod 5 in
        RotateLeft64 (cell ?L k x XOR ?D ! x) (cell cRotationConstants k x)) x"
    proof (rule chi_row_cong [OF _ xy(1)])
      fix k :: nat assume k: "k < 5"
      let ?x = "(3 * y + k) mod 5"
      have "row_of r ?x y = row_of (r - 1) ?x (ycord ?x y 1)"
        using row_of_Suc [of "r - 1" ?x y] r xy by simp
      moreover have "ycord ?x y 1 = k" using ycord_1_solve [of ?x y k] xy k by simp
      ultimately show "plane_lane r y ?D st k = (let x = ?x in
          RotateLeft64 (cell ?L k x XOR ?D ! x) (cell cRotationConstants k x))"
        using k by (simp add: plane_lane_def Let_def cell_logical)
    qed
    also have "\<dots> = cell (keccak_chi (keccak_pi (keccak_rho (keccak_theta ?L)) (keccak_theta ?L))) y x"
      using r xy by (intro chi_row_reference [symmetric] updateInterState_theta) simp_all
    finally show ?thesis .
  qed
  show "logical r (snd (inplace_round r rc (B, st))) = keccak_round rc ?L"
  proof (rule state_eqI)
    fix y x :: nat assume xy: "y < 5" "x < 5"
    have "cell (logical r (snd (inplace_round r rc (B, st)))) y x =
      (if row_of r x y = 0 \<and> x = 0 then cell st1 0 0 XOR rc else cell st1 (row_of r x y) x)"
      using xy len r row_of_less [of r x y] by (auto simp: ir cell_logical cell_set_cell)
    also have "\<dots> = (if y = 0 \<and> x = 0 then cell st1 (row_of r 0 0) 0 XOR rc else cell st1 (row_of r x y) x)"
      using row0 [of 0] row0 [of y] xy by auto
    also have "\<dots> = cell (keccak_round rc ?L) y x"
      using xy ch [of 0 0] ch [OF xy(2,1)] by (auto simp: keccak_round_def Let_def cell_set_cell)
    finally show "cell (logical r (snd (inplace_round r rc (B, st)))) y x = cell (keccak_round rc ?L) y x" .
  qed simp_all
qed

lemma inplace_four_rounds:
  assumes B: "length B = 5" and st: "length st = 25"
    and g: "g = inplace_round4 c4 (inplace_round3 c3 (inplace_round2 c2 (inplace_round1 c1 (B, st))))"
  shows "snd g = keccak_round c4 (keccak_round c3 (keccak_round c2 (keccak_round c1 st)))"
    and "length (fst g) = 5" "length (snd g) = 25"
proof -
  obtain B1 s1 where 1: "inplace_round 1 c1 (B, st) = (B1, s1)" by fastforce
  obtain B2 s2 where 2: "inplace_round 2 c2 (B1, s1) = (B2, s2)" by fastforce
  obtain B3 s3 where 3: "inplace_round 3 c3 (B2, s2) = (B3, s3)" by fastforce
  obtain B4 s4 where 4: "inplace_round 4 c4 (B3, s3) = (B4, s4)" by fastforce
  have l1: "logical 1 s1 = keccak_round c1 st" "length B1 = 5" "length s1 = 25"
    using inplace_round_logical [of B st 1 c1] B st 1 by (simp_all add: logical_0)
  have l2: "logical 2 s2 = keccak_round c2 (logical 1 s1)" "length B2 = 5" "length s2 = 25"
    using inplace_round_logical [of B1 s1 2 c2] l1 2 by simp_all
  have l3: "logical 3 s3 = keccak_round c3 (logical 2 s2)" "length B3 = 5" "length s3 = 25"
    using inplace_round_logical [of B2 s2 3 c3] l2 3 by simp_all
  have l4: "logical 4 s4 = keccak_round c4 (logical 3 s3)" "length B4 = 5" "length s4 = 25"
    using inplace_round_logical [of B3 s3 4 c4] l3 4 by simp_all
  have g: "g = (B4, s4)" by (simp only: g inplace_rounds 1 2 3 4)
  show "snd g = keccak_round c4 (keccak_round c3 (keccak_round c2 (keccak_round c1 st)))"
    using g l1(1) l2(1) l3(1) l4 by (simp add: logical_4)
  show "length (fst g) = 5" "length (snd g) = 25" using g l4 by simp_all
qed

lemma fFunction_inplace_reference:
  assumes "length B = 5" "length st = 25"
  shows "fFunction_inplace B st = fFunction st"
proof -
  define four where "four = (\<lambda>Bst i. inplace_round4 (cRoundConstantsIota ! (i + 3))
    (inplace_round3 (cRoundConstantsIota ! (i + 2)) (inplace_round2 (cRoundConstantsIota ! (i + 1))
      (inplace_round1 (cRoundConstantsIota ! i) Bst))))"
  define ref where "ref = (\<lambda>st i. keccak_round (cRoundConstantsIota ! (i + 3))
    (keccak_round (cRoundConstantsIota ! (i + 2)) (keccak_round (cRoundConstantsIota ! (i + 1))
      (keccak_round (cRoundConstantsIota ! i) st))))"
  have "snd (foldl four (B, st) is) = foldl ref st is" for "is"
    using assms
  proof (induction "is" arbitrary: B st)
    case Nil
    then show ?case by simp
  next
    case (Cons i "is")
    obtain B1 s1 where p: "four (B, st) i = (B1, s1)" by fastforce
    note g = inplace_four_rounds [OF Cons.prems p [symmetric, unfolded four_def]]
    have "s1 = ref st i" "length B1 = 5" "length s1 = 25"
      using g by (simp_all add: ref_def)
    then show ?case using Cons.IH p by simp
  qed
  then have "fFunction_inplace B st = foldl ref st [0, 4, 8, 12, 16, 20]"
    unfolding fFunction_inplace_def four_def .
  also have "\<dots> = fFunction st"
  proof -
    have "[0..<24] = [0, 1, 2, 3, 4, 5, 6, 7, 8, 9, 10, 11, 12, 13, 14, 15, 16, 17, 18, 19, 20, 21, 22, 23]"
      by code_simp
    then show ?thesis by (simp add: fFunction_def ref_def numeral_2_eq_2)
  qed
  finally show ?thesis .
qed

section \<open>Properties\<close>

text \<open>
  C3: The reference permutation is Keccak-f[1600] of FIPS 202: its rotation table is the walk
  of section 3.2.2 and its round constants are the output of the shift register of section
  3.2.5.
\<close>
theorem fFunction_is_keccak_f:
  assumes "length st = 25"
  shows "fFunction st = keccak_f st"
  using assms by (rule fFunction_keccak_f)

theorem fFunction_is_keccak_f_witness: "fFunction (replicate 25 0) = keccak_f (replicate 25 0)"
  using fFunction_is_keccak_f [of "replicate 25 0"] by simp

text \<open>
  C4: The in-place code of the Zen builds, which never transposes the state but moves the rows
  of every column with the order-four map \<^verbatim>\<open>ycord\<close>, computes the same permutation, whatever
  its uninitialised array \<^verbatim>\<open>B\<close> held.
\<close>
theorem fFunction_inplace_is_fFunction:
  assumes "length B = 5" "length st = 25"
  shows "fFunction_inplace B st = fFunction st"
  using assms by (rule fFunction_inplace_reference)

theorem fFunction_inplace_is_fFunction_witness:
  "fFunction_inplace [1, 2, 3, 4, 5] (replicate 25 7) = fFunction (replicate 25 7)"
  using fFunction_inplace_is_fFunction [of "[1, 2, 3, 4, 5]" "replicate 25 7"] by simp

end
