(* ===== verification/Sha3.thy ===== *)
theory Sha3 imports Digest_Interface Keccak begin

text \<open>
  SHA-3 and SHAKE as \<^verbatim>\<open>lib/digest/sha3.cc\<close> and \<^verbatim>\<open>lib/include/alcp/digest/sha3.hh\<close> implement
  them: the absorbing buffer, the padding, the squeezing that several \<^verbatim>\<open>shakeSqueeze\<close> calls
  continue, and the absorb and squeeze loops of the in-place kernels
  (\<^verbatim>\<open>lib/digest/sha3_inplace.cc.inc\<close>). The specification is the sponge of FIPS 202.
\<close>

unbundle bit_operations_syntax

section \<open>The code\<close>

text \<open>The instances of the class template, by the names \<^verbatim>\<open>sha3.hh\<close> gives them.\<close>

datatype sha3_variant = Sha3_224 | Sha3_256 | Sha3_384 | Sha3_512 | Shake128 | Shake256

datatype shake_state = STATE_INT | STATE_SQUEEZE

definition is_shake :: "sha3_variant \<Rightarrow> bool" where
  "is_shake v \<longleftrightarrow> v = Shake128 \<or> v = Shake256"

record sha3 = idigest +
  sha3_buffer :: "u8 list"
  sha3_state :: "u64 list"
  m_shake_index :: nat
  m_processing_state :: shake_state

definition Sha3_digest_bits :: "sha3_variant \<Rightarrow> nat" where
  "Sha3_digest_bits v = (case v of Sha3_224 \<Rightarrow> 224 | Sha3_256 \<Rightarrow> 256 | Sha3_384 \<Rightarrow> 384 | Sha3_512 \<Rightarrow> 512
     | Shake128 \<Rightarrow> 128 | Shake256 \<Rightarrow> 256)"

definition Sha3_ctor :: "sha3_variant \<Rightarrow> sha3" where
  "Sha3_ctor v =
     (let chunk_size_bits = 1600 - 2 * Sha3_digest_bits v
      in \<lparr>m_digest_len = Sha3_digest_bits v div 8, m_block_len = chunk_size_bits div 8, m_finished = False,
          m_msg_len = 0, m_idx = 0, sha3_buffer = replicate 168 0, sha3_state = replicate 25 0,
          m_shake_index = 0, m_processing_state = STATE_INT\<rparr>)"

definition Sha3_copy :: "sha3_variant \<Rightarrow> sha3 \<Rightarrow> sha3" where
  "Sha3_copy v src =
     \<lparr>m_digest_len = m_digest_len src, m_block_len = m_block_len src, m_finished = m_finished src,
      m_msg_len = m_msg_len src, m_idx = m_idx src, sha3_buffer = sha3_buffer src,
      sha3_state = sha3_state src,
      m_shake_index = (if is_shake v then m_shake_index src else 0),
      m_processing_state = (if is_shake v then m_processing_state src else STATE_INT)\<rparr>"

definition Sha3_init :: "sha3_variant \<Rightarrow> sha3 \<Rightarrow> sha3" where
  "Sha3_init v s =
     (let s = s\<lparr>m_idx := 0, sha3_state := replicate 25 0, m_finished := False\<rparr>
      in if is_shake v then s\<lparr>m_shake_index := 0, m_processing_state := STATE_INT\<rparr> else s)"

text \<open>The state seen as bytes, \<^verbatim>\<open>(Uint8*)m_state_flat\<close>.\<close>

definition state_bytes :: "u64 list \<Rightarrow> u8 list" where
  "state_bytes st = concat (map (le_bytes 8) st)"

definition absorbChunk :: "u8 list \<Rightarrow> u64 list \<Rightarrow> nat \<Rightarrow> u64 list" where
  "absorbChunk msg stateFlat sz =
     fFunction (foldl (\<lambda>st i. st[i := st ! i XOR le_word (take 8 (drop (8 * i) msg))]) stateFlat [0..<sz])"

text \<open>
  The loop counts \<^verbatim>\<open>msg_size\<close> down by the block length in unsigned arithmetic: \<open>None\<close> is the
  wrap-around that a length which is not a multiple would cause.
\<close>

function Sha3_processChunk :: "nat \<Rightarrow> u8 list \<Rightarrow> nat \<Rightarrow> u64 list \<Rightarrow> u64 list option" where
  "Sha3_processChunk block_len src msg_size st =
     (if msg_size = 0 then Some st
      else if block_len = 0 \<or> msg_size < block_len then None
      else Sha3_processChunk block_len (drop block_len src) (msg_size - block_len)
             (absorbChunk src st (block_len div 8)))"
  by pat_completeness auto
termination
  by (relation "measure (\<lambda>(b, src, n, st). n)") auto

declare Sha3_processChunk.simps [simp del]

definition Sha3_update :: "u8 list option \<Rightarrow> sha3 \<Rightarrow> (alc_error \<times> sha3) option" where
  "Sha3_update pSrc s =
     (case pSrc of
        None \<Rightarrow> Some (ALC_ERROR_INVALID_ARG, s)
      | Some src \<Rightarrow>
          if m_finished s then Some (ALC_ERROR_INVALID_ARG, s)
          else if length src = 0 then Some (ALC_ERROR_NONE, s)
          else
            let to_process = min (length src + m_idx s) (m_block_len s)
            in if to_process < m_block_len s then do {
                 buf \<leftarrow> CopyBlock (sha3_buffer s) (m_idx s) src;
                 Some (ALC_ERROR_NONE, s\<lparr>sha3_buffer := buf, m_idx := m_idx s + length src\<rparr>)
               }
               else do {
                 (s, src, idx) \<leftarrow>
                   (if m_idx s \<noteq> 0 then
                      let to_process = min (length src) (m_block_len s - m_idx s) in do {
                      buf \<leftarrow> CopyBlock (sha3_buffer s) (m_idx s) (take to_process src);
                      let idx = m_idx s + to_process in
                      if idx = m_block_len s then do {
                        st \<leftarrow> Sha3_processChunk (m_block_len s) buf (m_block_len s) (sha3_state s);
                        Some (s\<lparr>sha3_buffer := buf, sha3_state := st\<rparr>, drop to_process src, 0)
                      }
                      else Some (s\<lparr>sha3_buffer := buf\<rparr>, drop to_process src, idx)
                    }
                    else Some (s, src, 0));
                 let num_chunks = length src div m_block_len s; sz = num_chunks * m_block_len s in do {
                 (s, src) \<leftarrow>
                   (if num_chunks \<noteq> 0 then do {
                      st \<leftarrow> Sha3_processChunk (m_block_len s) src sz (sha3_state s);
                      Some (s\<lparr>sha3_state := st\<rparr>, drop sz src)
                    }
                    else Some (s, src));
                 (s, idx) \<leftarrow>
                   (if length src \<noteq> 0 then do {
                      buf \<leftarrow> CopyBlock (sha3_buffer s) idx src;
                      Some (s\<lparr>sha3_buffer := buf\<rparr>, idx + length src)
                    }
                    else Some (s, idx));
                 Some (ALC_ERROR_NONE, s\<lparr>m_idx := idx\<rparr>)
               }})"

text \<open>
  \<^verbatim>\<open>squeezeChunk\<close>: the value is the state, \<^verbatim>\<open>m_shake_index\<close> and the bytes written. A block
  length of zero would make the loop run forever, which is \<open>None\<close>.
\<close>

function squeeze_loop :: "nat \<Rightarrow> u64 list \<Rightarrow> nat \<Rightarrow> (u64 list \<times> nat \<times> u8 list) option" where
  "squeeze_loop block_len st sz =
     (if sz = 0 then Some (st, 0, [])
      else let st = fFunction st in
        if sz \<le> block_len then Some (st, sz, take sz (state_bytes st))
        else if block_len = 0 then None
        else do { (st', idx, out) \<leftarrow> squeeze_loop block_len st (sz - block_len);
                  Some (st', idx, take block_len (state_bytes st) @ out) })"
  by pat_completeness auto
termination
  by (relation "measure (\<lambda>(b, st, n). n)") auto

declare squeeze_loop.simps [simp del]

definition squeezeChunk :: "nat \<Rightarrow> u64 list \<Rightarrow> nat \<Rightarrow> nat \<Rightarrow> (u64 list \<times> nat \<times> u8 list) option" where
  "squeezeChunk block_len st shake_index sz =
     (let rem = block_len - shake_index in
      if sz \<le> rem then Some (st, shake_index + sz, take sz (drop shake_index (state_bytes st)))
      else do { (st', idx, out) \<leftarrow> squeeze_loop block_len st (sz - rem);
                Some (st', idx, take rem (drop shake_index (state_bytes st)) @ out) })"

text \<open>\<open>base\<close> is the address of \<^verbatim>\<open>m_buffer\<close>; \<open>size\<close> the number of bytes to deliver.\<close>

definition processAndSqueeze ::
  "sha3_variant \<Rightarrow> nat \<Rightarrow> nat \<Rightarrow> sha3 \<Rightarrow> (alc_error \<times> sha3 \<times> u8 list) option" where
  "processAndSqueeze v base sz s =
     do { let idx = m_idx s in do {
          rest \<leftarrow> PadBlock 1 (base + idx) (drop idx (sha3_buffer s)) (0 :: u8)
                   (of_nat (m_block_len s) - of_nat idx);
          let buf = take idx (sha3_buffer s) @ rest in do {
          buf \<leftarrow> CopyBlock buf idx [if is_shake v then 0x1f else 0x06];
          buf \<leftarrow> CopyBlock buf (m_block_len s - 1) [buf ! (m_block_len s - 1) OR 0x80];
          st \<leftarrow> Sha3_processChunk (m_block_len s) buf (m_block_len s) (sha3_state s);
          let s = s\<lparr>sha3_buffer := buf, sha3_state := st\<rparr> in
          if is_shake v then do {
            (st, idx, out) \<leftarrow> squeezeChunk (m_block_len s) st (m_shake_index s) sz;
            Some (ALC_ERROR_NONE,
                  s\<lparr>m_processing_state := STATE_SQUEEZE, sha3_state := st, m_shake_index := idx\<rparr>, out)
          }
          else Some (ALC_ERROR_NONE, s, take sz (state_bytes st)) }}}"

definition Sha3_finalize ::
  "sha3_variant \<Rightarrow> nat \<Rightarrow> u8 list option \<Rightarrow> nat \<Rightarrow> sha3 \<Rightarrow> (alc_error \<times> sha3 \<times> u8 list option) option" where
  "Sha3_finalize v base pBuf sz s =
     (if m_finished s then Some (ALC_ERROR_NONE, s, pBuf)
      else if is_shake v \<and> sz = 0 then Some (ALC_ERROR_INVALID_ARG, s, pBuf)
      else if \<not> is_shake v \<and> m_digest_len s \<noteq> sz then Some (ALC_ERROR_INVALID_ARG, s, pBuf)
      else do {
        (err, s, pBuf) \<leftarrow>
          (case pBuf of
             None \<Rightarrow> Some (ALC_ERROR_INVALID_ARG, s, None)
           | Some out \<Rightarrow> do { (err, s, bytes) \<leftarrow> processAndSqueeze v base sz s;
                              out \<leftarrow> CopyBlock out 0 bytes;
                              Some (err, s, Some out) });
        Some (err, s\<lparr>m_idx := 0, m_finished := True\<rparr>, pBuf)
      })"

definition Sha3_shakeSqueeze ::
  "sha3_variant \<Rightarrow> nat \<Rightarrow> u8 list option \<Rightarrow> nat \<Rightarrow> sha3 \<Rightarrow> (alc_error \<times> sha3 \<times> u8 list option) option" where
  "Sha3_shakeSqueeze v base pBuf sz s =
     (if \<not> is_shake v then Some (ALC_ERROR_NOT_PERMITTED, s, pBuf)
      else if m_finished s then Some (ALC_ERROR_NOT_PERMITTED, s, pBuf)
      else case pBuf of
        None \<Rightarrow> Some (ALC_ERROR_INVALID_ARG, s, None)
      | Some out \<Rightarrow>
          if m_processing_state s = STATE_INT then do {
            (err, s, bytes) \<leftarrow> processAndSqueeze v base sz s;
            out \<leftarrow> CopyBlock out 0 bytes;
            Some (err, s, Some out)
          }
          else do {
            (st, idx, bytes) \<leftarrow> squeezeChunk (m_block_len s) (sha3_state s) (m_shake_index s) sz;
            out \<leftarrow> CopyBlock out 0 bytes;
            Some (ALC_ERROR_NONE, s\<lparr>sha3_state := st, m_shake_index := idx\<rparr>, Some out)
          })"

subsection \<open>The loops of the in-place kernels\<close>

text \<open>
  \<^verbatim>\<open>absorbChunk\<close> of \<^verbatim>\<open>sha3_inplace.cc.inc\<close> combines bytes, not words. \<open>B\<close> is the uninitialised
  local array of the permutation.
\<close>

definition absorbChunk_inplace :: "u64 list \<Rightarrow> u8 list \<Rightarrow> nat \<Rightarrow> u64 list \<Rightarrow> u64 list" where
  "absorbChunk_inplace B src chunk_size_u64 state =
     (let chunk_size_u8 = chunk_size_u64 * 8;
          bytes = foldl (\<lambda>st i. st[i := st ! i XOR src ! i]) (state_bytes state) [0..<chunk_size_u8]
      in fFunction_inplace B (le_words 8 25 bytes))"

definition Sha3Update :: "u64 list \<Rightarrow> u64 list \<Rightarrow> u8 list \<Rightarrow> nat \<Rightarrow> nat \<Rightarrow> u64 list" where
  "Sha3Update B state src msg_size chunk_size =
     (let num_chunks = of_nat (msg_size div chunk_size) :: u32; chunk_size_u64 = chunk_size div 8
      in fst (foldl (\<lambda>(st, src) i. (absorbChunk_inplace B src chunk_size_u64 st, drop (8 * chunk_size_u64) src))
               (state, src) [0..<unat num_chunks]))"

function Sha3Finalize_loop :: "u64 list \<Rightarrow> nat \<Rightarrow> u64 list \<Rightarrow> nat \<Rightarrow> (u64 list \<times> nat \<times> u8 list) option" where
  "Sha3Finalize_loop B chunk_size st hash_size =
     (if hash_size = 0 then Some (st, 0, [])
      else let st = fFunction_inplace B st in
        if hash_size \<le> chunk_size then Some (st, hash_size, take hash_size (state_bytes st))
        else if chunk_size = 0 then None
        else do { (st', idx, out) \<leftarrow> Sha3Finalize_loop B chunk_size st (hash_size - chunk_size);
                  Some (st', idx, take chunk_size (state_bytes st) @ out) })"
  by pat_completeness auto
termination
  by (relation "measure (\<lambda>(B, b, st, n). n)") auto

declare Sha3Finalize_loop.simps [simp del]

definition Sha3Finalize :: "u64 list \<Rightarrow> u64 list \<Rightarrow> nat \<Rightarrow> nat \<Rightarrow> nat \<Rightarrow> (u64 list \<times> nat \<times> u8 list) option" where
  "Sha3Finalize B st hash_size chunk_size index =
     (let rem = chunk_size - index in
      if hash_size \<le> rem then Some (st, index + hash_size, take hash_size (drop index (state_bytes st)))
      else do { (st', idx, out) \<leftarrow> Sha3Finalize_loop B chunk_size st (hash_size - rem);
                Some (st', idx, take rem (drop index (state_bytes st)) @ out) })"

section \<open>The sponge of FIPS 202\<close>

text \<open>
  Message bytes, the domain suffix with the first padding bit, zeros, and the last bit: the
  byte form of section B.2, which merges the two when one byte is left.
\<close>

definition sponge_pad :: "u8 \<Rightarrow> nat \<Rightarrow> nat \<Rightarrow> u8 list" where
  "sponge_pad sfx r n =
     (let q = r - n mod r in if q = 1 then [sfx OR 0x80] else [sfx] @ replicate (q - 2) 0 @ [0x80])"

definition sponge_step :: "u64 list \<Rightarrow> u8 list \<Rightarrow> u64 list" where
  "sponge_step st blk =
     keccak_f (map (\<lambda>i. if 8 * i < length blk then st ! i XOR le_word (take 8 (drop (8 * i) blk))
                        else st ! i) [0..<25])"

definition sponge_absorb :: "u8 \<Rightarrow> nat \<Rightarrow> u8 list \<Rightarrow> u64 list" where
  "sponge_absorb sfx r m =
     foldl sponge_step (replicate 25 0) (chunks r (m @ sponge_pad sfx r (length m)))"

text \<open>Byte \<open>n\<close> of the output: the permutation is applied once more for each \<open>r\<close> bytes.\<close>

definition sponge_byte :: "nat \<Rightarrow> u64 list \<Rightarrow> nat \<Rightarrow> u8" where
  "sponge_byte r S n = state_bytes ((keccak_f ^^ (n div r)) S) ! (n mod r)"

definition Sha3_rate :: "sha3_variant \<Rightarrow> nat" where
  "Sha3_rate v = (1600 - 2 * Sha3_digest_bits v) div 8"

definition Sha3_suffix :: "sha3_variant \<Rightarrow> u8" where
  "Sha3_suffix v = (if is_shake v then 0x1f else 0x06)"

text \<open>Bytes \<open>p\<close> to \<open>p + n - 1\<close> of what the variant outputs for \<open>m\<close>.\<close>

definition Sha3_output :: "sha3_variant \<Rightarrow> u8 list \<Rightarrow> nat \<Rightarrow> nat \<Rightarrow> u8 list" where
  "Sha3_output v m p n =
     map (sponge_byte (Sha3_rate v) (sponge_absorb (Sha3_suffix v) (Sha3_rate v) m)) [p..<p + n]"

definition sha3_spec :: "sha3_variant \<Rightarrow> u8 list \<Rightarrow> u8 list" where
  "sha3_spec v m = Sha3_output v m 0 (Sha3_digest_bits v div 8)"

section \<open>Absorbing\<close>

lemma length_state_bytes [simp]: "length (state_bytes st) = 8 * length st"
  using length_concat_le_bytes [of 8 id st] by (simp add: state_bytes_def)

lemma foldl_update_upt:
  "n \<le> length w \<Longrightarrow> foldl (\<lambda>w i. w[i := g i (w ! i)]) w [0..<n] = map (\<lambda>i. g i (w ! i)) [0..<n] @ drop n w"
proof (induction n)
  case 0
  then show ?case by simp
next
  case (Suc n)
  then show ?case
    by (simp add: list_update_append nth_append Cons_nth_drop_Suc [symmetric])
qed

lemma length_keccak_f [simp]: "length st = 25 \<Longrightarrow> length (keccak_f st) = 25"
  using fFunction_prefix [of st 24] by (auto simp: keccak_f_def)

lemma length_sponge_step [simp]: "length (sponge_step st blk) = 25"
  by (simp add: sponge_step_def)

lemma length_foldl_sponge [simp]: "length st = 25 \<Longrightarrow> length (foldl sponge_step st bs) = 25"
  by (induction bs arbitrary: st) auto

lemma sponge_step_words:
  assumes st: "length st = 25" and n: "n \<le> 25" and msg: "8 * n \<le> length msg"
  shows "sponge_step st (take (8 * n) msg) =
    keccak_f (map (\<lambda>i. st ! i XOR le_word (take 8 (drop (8 * i) msg))) [0..<n] @ drop n st)"
proof -
  have "map (\<lambda>i. if 8 * i < length (take (8 * n) msg) then st ! i XOR le_word (take 8 (drop (8 * i) (take (8 * n) msg)))
          else st ! i) [0..<25]
      = map (\<lambda>i. st ! i XOR le_word (take 8 (drop (8 * i) msg))) [0..<n] @ drop n st"
  proof (rule nth_equalityI)
    fix i assume "i < length (map (\<lambda>i. if 8 * i < length (take (8 * n) msg)
        then st ! i XOR le_word (take 8 (drop (8 * i) (take (8 * n) msg))) else st ! i) [0..<25])"
    then have i: "i < 25" by simp
    have "take 8 (drop (8 * i) (take (8 * n) msg)) = take 8 (drop (8 * i) msg)" if "i < n"
      using that by (simp add: drop_take take_take min_def)
    then show "map (\<lambda>i. if 8 * i < length (take (8 * n) msg)
          then st ! i XOR le_word (take 8 (drop (8 * i) (take (8 * n) msg))) else st ! i) [0..<25] ! i
        = (map (\<lambda>i. st ! i XOR le_word (take 8 (drop (8 * i) msg))) [0..<n] @ drop n st) ! i"
      using i st n msg by (simp add: nth_append min_absorb2)
  qed (use st n in simp)
  then show ?thesis by (simp add: sponge_step_def)
qed

lemma absorbChunk_step:
  assumes "length st = 25" "8 dvd r" "r \<le> 200" "r \<le> length msg"
  shows "absorbChunk msg st (r div 8) = sponge_step st (take r msg)"
proof -
  obtain n where r: "r = 8 * n" using assms(2) by (auto elim: dvdE)
  have "absorbChunk msg st n =
      fFunction (map (\<lambda>i. st ! i XOR le_word (take 8 (drop (8 * i) msg))) [0..<n] @ drop n st)"
    using assms r foldl_update_upt [of n st "\<lambda>i v. v XOR le_word (take 8 (drop (8 * i) msg))"]
    by (simp add: absorbChunk_def)
  also have "\<dots> = sponge_step st (take (8 * n) msg)"
    using assms r by (simp add: sponge_step_words fFunction_keccak_f)
  finally show ?thesis using r by simp
qed

lemma Sha3_processChunk_blocks:
  assumes r: "0 < r" "8 dvd r" "r \<le> 200" and "length st = 25" "r * n \<le> length src"
  shows "Sha3_processChunk r src (r * n) st = Some (foldl sponge_step st (chunks r (take (r * n) src)))"
  using assms(4,5)
proof (induction n arbitrary: src st)
  case 0
  then show ?case using r by (simp add: Sha3_processChunk.simps)
next
  case (Suc n)
  have "r \<le> length src" using Suc.prems by simp
  then have "Sha3_processChunk r src (r * Suc n) st =
    Sha3_processChunk r (drop r src) (r * n) (sponge_step st (take r src))"
    using r Suc.prems by (subst Sha3_processChunk.simps) (simp add: absorbChunk_step)
  also have "\<dots> = Some (foldl sponge_step (sponge_step st (take r src)) (chunks r (take (r * n) (drop r src))))"
    using Suc.prems by (intro Suc.IH) simp_all
  also have "\<dots> = Some (foldl sponge_step st (chunks r (take (r * Suc n) src)))"
  proof -
    have "take r (take (r * Suc n) src) = take r src" "drop r (take (r * Suc n) src) = take (r * n) (drop r src)"
      by (simp_all add: min_def drop_take)
    moreover have "r \<le> length (take (r * Suc n) src)" using Suc.prems by simp
    ultimately show ?thesis using foldl_chunks_step [OF r(1), of "take (r * Suc n) src" sponge_step st] by simp
  qed
  finally show ?case .
qed

lemma Sha3_processChunk_dvd:
  assumes "0 < r" "8 dvd r" "r \<le> 200" "length st = 25" "r dvd k" "k \<le> length src"
  shows "Sha3_processChunk r src k st = Some (foldl sponge_step st (chunks r (take k src)))"
proof -
  obtain n where "k = r * n" using assms(5) by (auto elim: dvdE)
  then show ?thesis using assms Sha3_processChunk_blocks [of r st n src] by simp
qed

section \<open>Squeezing\<close>

text \<open>\<open>p\<close> bytes of the output of the state \<open>S\<close> have been delivered.\<close>

definition squeezed :: "nat \<Rightarrow> u64 list \<Rightarrow> nat \<Rightarrow> u64 list \<Rightarrow> nat \<Rightarrow> bool" where
  "squeezed r S p st idx \<longleftrightarrow> (\<exists>j. st = (keccak_f ^^ j) S \<and> p = j * r + idx \<and> idx \<le> r)"

lemma length_keccak_f_iter [simp]: "length S = 25 \<Longrightarrow> length ((keccak_f ^^ j) S) = 25"
  by (induction j) auto

lemma sponge_bytes_block:
  assumes "length S = 25" "r \<le> 200" "idx + n \<le> r"
  shows "take n (drop idx (state_bytes ((keccak_f ^^ j) S))) = map (sponge_byte r S) [j * r + idx..<j * r + idx + n]"
proof (rule nth_equalityI)
  show "length (take n (drop idx (state_bytes ((keccak_f ^^ j) S))))
      = length (map (sponge_byte r S) [j * r + idx..<j * r + idx + n])"
    using assms by simp
  fix t assume "t < length (take n (drop idx (state_bytes ((keccak_f ^^ j) S))))"
  then have t: "t < n" by simp
  then have "(j * r + (idx + t)) div r = j" "(j * r + (idx + t)) mod r = idx + t"
    using assms by simp_all
  then show "take n (drop idx (state_bytes ((keccak_f ^^ j) S))) ! t
      = map (sponge_byte r S) [j * r + idx..<j * r + idx + n] ! t"
    using t assms by (simp add: sponge_byte_def add.assoc)
qed

lemma squeeze_loop_bytes:
  assumes "length S = 25" "0 < r" "r \<le> 200" "0 < n"
  shows "\<exists>st' idx'. squeeze_loop r ((keccak_f ^^ j) S) n
      = Some (st', idx', map (sponge_byte r S) [j * r + r..<j * r + r + n])
    \<and> squeezed r S (j * r + r + n) st' idx'"
  using assms(4)
proof (induction n arbitrary: j rule: less_induct)
  case (less n)
  let ?st = "(keccak_f ^^ Suc j) S"
  have f: "fFunction ((keccak_f ^^ j) S) = ?st" using assms(1) by (simp add: fFunction_keccak_f)
  show ?case
  proof (cases "n \<le> r")
    case True
    then show ?thesis
      using less.prems assms f sponge_bytes_block [of S r 0 n "Suc j"]
      by (subst squeeze_loop.simps) (auto simp: squeezed_def Let_def add.commute intro!: exI [of _ "Suc j"])
  next
    case False
    have "n - r < n" "0 < n - r" using False assms(2) by simp_all
    from less.IH [OF this, of "Suc j"] obtain st' idx'
      where IH: "squeeze_loop r ?st (n - r) = Some (st', idx', map (sponge_byte r S) [Suc j * r + r..<Suc j * r + r + (n - r)])"
        "squeezed r S (Suc j * r + r + (n - r)) st' idx'" by blast
    have out: "take r (state_bytes ?st) = map (sponge_byte r S) [Suc j * r..<Suc j * r + r]"
      using sponge_bytes_block [of S r 0 r "Suc j"] assms by simp
    have "[j * r + r..<j * r + r + n] = [Suc j * r..<Suc j * r + r] @ [Suc j * r + r..<Suc j * r + r + (n - r)]"
    proof -
      have "[Suc j * r..<Suc j * r + r] @ [Suc j * r + r..<Suc j * r + r + (n - r)] = [Suc j * r..<Suc j * r + r + (n - r)]"
        by (rule upt_add_eq_append [symmetric]) simp
      then show ?thesis using False by (simp add: add.commute)
    qed
    then have "squeeze_loop r ((keccak_f ^^ j) S) n = Some (st', idx', map (sponge_byte r S) [j * r + r..<j * r + r + n])"
      using less.prems False assms(2) IH(1) out by (subst squeeze_loop.simps) (simp add: f Let_def)
    moreover have "Suc j * r + r + (n - r) = j * r + r + n" using False by simp
    ultimately show ?thesis using IH(2) by metis
  qed
qed

lemma squeezeChunk_bytes:
  assumes S: "length S = 25" "0 < r" "r \<le> 200" and sq: "squeezed r S p st idx"
  shows "\<exists>st' idx'. squeezeChunk r st idx n = Some (st', idx', map (sponge_byte r S) [p..<p + n])
    \<and> squeezed r S (p + n) st' idx'"
proof -
  obtain j where j: "st = (keccak_f ^^ j) S" "p = j * r + idx" "idx \<le> r"
    using sq by (auto simp: squeezed_def)
  show ?thesis
  proof (cases "n \<le> r - idx")
    case True
    then show ?thesis
      using j S sponge_bytes_block [of S r idx n j]
      by (auto simp: squeezeChunk_def squeezed_def intro!: exI [of _ j])
  next
    case False
    have pos: "0 < n - (r - idx)" using False by simp
    have out: "take (r - idx) (drop idx (state_bytes st)) = map (sponge_byte r S) [p..<j * r + r]"
      using sponge_bytes_block [of S r idx "r - idx" j] S j by simp
    have e: "j * r + r + (n - (r - idx)) = p + n" using j False by simp
    obtain st' idx' where l: "squeeze_loop r st (n - (r - idx)) = Some (st', idx', map (sponge_byte r S) [j * r + r..<p + n])"
      "squeezed r S (p + n) st' idx'"
      using squeeze_loop_bytes [OF S pos, of j] unfolding e j(1) by blast
    have "[p..<p + n] = [p..<j * r + r] @ [j * r + r..<p + n]"
      using j(2,3) e by (metis le_add1 le_add_diff_inverse nat_add_left_cancel_le upt_add_eq_append)
    then show ?thesis using l out False by (auto simp: squeezeChunk_def Let_def)
  qed
qed

section \<open>The streaming interface\<close>

definition Sha3_ok :: "sha3_variant \<Rightarrow> sha3 \<Rightarrow> bool" where
  "Sha3_ok v s \<longleftrightarrow> m_digest_len s = Sha3_digest_bits v div 8 \<and> m_block_len s = Sha3_rate v \<and>
     length (sha3_buffer s) = 168 \<and> length (sha3_state s) = 25 \<and>
     (\<not> is_shake v \<longrightarrow> m_shake_index s = 0 \<and> m_processing_state s = STATE_INT)"

definition Sha3_holds :: "sha3_variant \<Rightarrow> u8 list \<Rightarrow> sha3 \<Rightarrow> bool" where
  "Sha3_holds v m s \<longleftrightarrow>
     Sha3_ok v s \<and> \<not> m_finished s \<and> m_idx s < Sha3_rate v \<and> m_shake_index s = 0 \<and>
     m_processing_state s = STATE_INT \<and>
     absorbs (Sha3_rate v) sponge_step (replicate 25 0) m (sha3_state s) (take (m_idx s) (sha3_buffer s))"

lemma Sha3_rate: "0 < Sha3_rate v" "8 dvd Sha3_rate v" "Sha3_rate v \<le> 168" "Sha3_digest_bits v div 8 \<le> Sha3_rate v"
    "0 < Sha3_digest_bits v div 8"
  by (cases v; simp add: Sha3_rate_def Sha3_digest_bits_def)+

lemma Sha3_ctor_ok: "Sha3_ok v (Sha3_ctor v)"
  by (simp add: Sha3_ok_def Sha3_ctor_def Sha3_rate_def Let_def)

lemma Sha3_holds_init: "Sha3_ok v s \<Longrightarrow> Sha3_holds v [] (Sha3_init v s)"
  using Sha3_rate(1) [of v] by (auto simp: Sha3_ok_def Sha3_holds_def Sha3_init_def Let_def absorbs_init)

lemma Sha3_holds_rest:
  assumes s: "Sha3_holds v m s"
    and a: "absorbs (Sha3_rate v) sponge_step (replicate 25 0) (m @ x) st pend"
    and "length st = 25" "length buf = 168" "take (length pend) buf = pend"
    and s': "s' = s\<lparr>sha3_state := st, sha3_buffer := buf, m_idx := length pend\<rparr>"
  shows "Sha3_holds v (m @ x) s'"
  using assms absorbs_less [OF a] by (simp add: Sha3_holds_def Sha3_ok_def)

lemma Sha3_update_short:
  assumes s: "Sha3_holds v m s" and x: "x \<noteq> []" "m_idx s + length x < Sha3_rate v"
  shows "\<exists>s'. Sha3_update (Some x) s = Some (ALC_ERROR_NONE, s') \<and> Sha3_holds v (m @ x) s'"
proof -
  have "absorbs (Sha3_rate v) sponge_step (replicate 25 0) (m @ x) (sha3_state s) (take (m_idx s) (sha3_buffer s) @ x)"
    using s x Sha3_rate(3) [of v] by (intro absorbs_short) (auto simp: Sha3_holds_def Sha3_ok_def)
  then show ?thesis
    using s x Sha3_rate(3) [of v]
    by (auto simp: Sha3_update_def Sha3_holds_def Sha3_ok_def Let_def add.commute take_write_at_end)
qed

lemma Sha3_update_long:
  assumes s: "Sha3_holds v m s" and x: "Sha3_rate v \<le> m_idx s + length x"
  shows "\<exists>s'. Sha3_update (Some x) s = Some (ALC_ERROR_NONE, s') \<and> Sha3_holds v (m @ x) s'"
proof -
  define i where "i = m_idx s"
  define r where "r = Sha3_rate v"
  note rate = Sha3_rate [of v, folded r_def]
  have i: "i < r" "r \<le> length (sha3_buffer s)" "length (sha3_state s) = 25" "m_finished s = False"
    and pend: "absorbs r sponge_step (replicate 25 0) m (sha3_state s) (take i (sha3_buffer s))"
    and bl: "length (sha3_buffer s) = 168" and blen: "m_block_len s = r"
    using s rate by (auto simp: Sha3_holds_def Sha3_ok_def i_def r_def)
  show ?thesis
  proof (cases "i = 0")
    case True
    define k where "k = length x div r * r"
    define b2 where "b2 = write_at 0 (drop k x) (sha3_buffer s)"
    let ?h = "foldl sponge_step (sha3_state s) (chunks r (take k x))"
    have xr: "r \<le> length x" using x True by (simp add: i_def r_def)
    note w = update_whole [OF pend [unfolded True take_0] i(2) xr k_def b2_def]
    have p: "Sha3_processChunk r x k (sha3_state s) = Some ?h"
      using i rate by (intro Sha3_processChunk_dvd) (simp_all add: k_def)
    have "Sha3_update (Some x) s = Some (ALC_ERROR_NONE,
      s\<lparr>sha3_state := ?h, sha3_buffer := b2, m_idx := length (drop k x)\<rparr>)"
      using i(4) w(3,7,8) p by (cases "drop k x = []")
        (simp_all add: Sha3_update_def blen i_def [symmetric] True w(2,5) k_def [symmetric] Let_def
           del: CopyBlock_Some)
    then show ?thesis using Sha3_holds_rest [where v = v, folded r_def, OF s w(1) _ _ _ refl] i w(9,10) bl by auto
  next
    case False
    define y where "y = drop (r - i) x"
    define k where "k = length y div r * r"
    define b1 where "b1 = write_at i (take (r - i) x) (sha3_buffer s)"
    define b2 where "b2 = write_at 0 (drop k y) b1"
    define h1 where "h1 = sponge_step (sha3_state s) (take i (sha3_buffer s) @ take (r - i) x)"
    let ?h = "foldl sponge_step h1 (chunks r (take k y))"
    have xr: "r \<le> i + length x" using x by (simp add: i_def r_def)
    have "0 < i" using False by simp
    note w = update_fill [OF pend i(1) \<open>0 < i\<close> i(2) xr y_def k_def b1_def b2_def h1_def]
    have lh1: "length h1 = 25" by (simp add: h1_def)
    have p1: "Sha3_processChunk r b1 r (sha3_state s) = Some h1"
      using i w(7-10) rate Sha3_processChunk_dvd [of r "sha3_state s" r b1] by (simp add: h1_def)
    have p2: "Sha3_processChunk r y k h1 = Some ?h"
      using lh1 rate by (intro Sha3_processChunk_dvd) (simp_all add: k_def)
    note upd = Sha3_update_def blen i_def [symmetric] w(2-6) y_def [symmetric] k_def [symmetric] p1
    have "Sha3_update (Some x) s = Some (ALC_ERROR_NONE,
      s\<lparr>sha3_state := ?h, sha3_buffer := b2, m_idx := length (drop k y)\<rparr>)"
    proof (cases "length y div r = 0")
      case True
      then have k: "k = 0" by (simp add: k_def)
      show ?thesis
        using i(4) False True w(14,15) rate(1) unfolding k by (cases "y = []") (simp_all add: upd Let_def del: CopyBlock_Some)
    next
      case F: False
      then have "y \<noteq> []" by auto
      show ?thesis
        using i(4) False F \<open>y \<noteq> []\<close> w(14,15) p2
        by (cases "drop k y = []") (simp_all add: upd Let_def del: CopyBlock_Some)
    qed
    then show ?thesis using Sha3_holds_rest [where v = v, folded r_def, OF s w(1) _ _ _ refl] lh1 w(16,17) bl by auto
  qed
qed

lemma Sha3_update_holds:
  assumes "Sha3_holds v m s"
  shows "\<exists>s'. Sha3_update (Some x) s = Some (ALC_ERROR_NONE, s') \<and> Sha3_holds v (m @ x) s'"
proof (cases "x = []")
  case True
  then show ?thesis using assms by (simp add: Sha3_update_def Sha3_holds_def)
next
  case False
  then show ?thesis
    using Sha3_update_short [OF assms False] Sha3_update_long [OF assms, of x]
    by (cases "m_idx s + length x < Sha3_rate v") auto
qed

text \<open>The padding in the buffer.\<close>

lemma sponge_padded_buffer:
  assumes i: "i = n mod r" "0 < r" and r: "r \<le> length buf"
    and b1: "b1 = take i buf @ write_at 0 (replicate (r - i) 0) (drop i buf)"
    and b2: "b2 = write_at i [sfx] b1" and b3: "b3 = write_at (r - 1) [b2 ! (r - 1) OR 0x80] b2"
  shows "take r b3 = take i buf @ sponge_pad sfx r n"
    and "length b1 = length buf" "length b2 = length buf" "length b3 = length buf"
proof -
  have ir: "i < r" using i by simp
  have t: "take r b1 = take i buf @ replicate (r - i) 0"
    using ir r b1 write_at_0 [of "replicate (r - i) 0" "drop i buf"] by simp
  show l1: "length b1 = length buf" using ir r b1 by simp
  then show l2: "length b2 = length buf" using ir r b2 by simp
  then show "length b3 = length buf" using ir r b3 by simp
  have t2: "take r b2 = take i buf @ sfx # replicate (r - i - 1) 0"
  proof -
    have "take r b2 = write_at i [sfx] (take r b1)"
      using ir r l1 by (simp add: b2 take_write_at_inside)
    then show ?thesis using ir r by (simp add: t write_at_def min_absorb2)
  qed
  have "take r b3 = take (r - 1) b2 @ [b2 ! (r - 1) OR 0x80]"
    using i r l2 by (simp add: b3 take_write_at_end)
  also have "take (r - 1) b2 = take (r - 1) (take r b2)" by simp
  also have "b2 ! (r - 1) = take r b2 ! (r - 1)" using i by simp
  finally have t3: "take r b3 = take (r - 1) (take i buf @ sfx # replicate (r - i - 1) 0)
      @ [(take i buf @ sfx # replicate (r - i - 1) 0) ! (r - 1) OR 0x80]"
    by (simp add: t2)
  show "take r b3 = take i buf @ sponge_pad sfx r n"
  proof (cases "r - i = 1")
    case True
    then have "r - 1 = i" by simp
    then show ?thesis using t3 True i(1) ir r by (simp add: sponge_pad_def nth_append)
  next
    case False
    define k where "k = r - i - 2"
    have k: "r - i - 1 = Suc k" "r - 1 = length (take i buf @ sfx # replicate k 0)"
      using False ir r by (simp_all add: k_def)
    have "take i buf @ sfx # replicate (r - i - 1) 0 = (take i buf @ sfx # replicate k 0) @ [0]"
      unfolding k(1) by (simp add: replicate_append_same)
    moreover have "take (length L) (L @ [0]) @ [(L @ [0]) ! length L OR 0x80] = L @ [0x80]" for L :: "u8 list"
      by simp
    ultimately have "take r b3 = (take i buf @ sfx # replicate k 0) @ [0x80]"
      using t3 k(2) by metis
    then show ?thesis using False i(1) by (simp add: sponge_pad_def Let_def k_def)
  qed
qed

lemma processAndSqueeze_absorbs:
  assumes s: "Sha3_holds v m s"
  defines "S \<equiv> sponge_absorb (Sha3_suffix v) (Sha3_rate v) m"
  shows "\<exists>buf. length buf = 168 \<and> length S = 25 \<and> processAndSqueeze v base n s =
    (let s = s\<lparr>sha3_buffer := buf, sha3_state := S\<rparr> in
     if is_shake v then
       do { (st, idx, out) \<leftarrow> squeezeChunk (Sha3_rate v) S 0 n;
            Some (ALC_ERROR_NONE, s\<lparr>m_processing_state := STATE_SQUEEZE, sha3_state := st, m_shake_index := idx\<rparr>, out) }
     else Some (ALC_ERROR_NONE, s, take n (state_bytes S)))"
proof -
  define r where "r = Sha3_rate v"
  define i where "i = m_idx s"
  define b1 where "b1 = take i (sha3_buffer s) @ write_at 0 (replicate (r - i) 0) (drop i (sha3_buffer s))"
  define b2 where "b2 = write_at i [Sha3_suffix v] b1"
  define b3 where "b3 = write_at (r - 1) [b2 ! (r - 1) OR 0x80] b2"
  note rate = Sha3_rate [of v, folded r_def]
  have st: "i < r" "length (sha3_buffer s) = 168" "length (sha3_state s) = 25" "m_block_len s = r" "m_shake_index s = 0"
    and a: "absorbs r sponge_step (replicate 25 0) m (sha3_state s) (take i (sha3_buffer s))"
    using s by (auto simp: Sha3_holds_def Sha3_ok_def i_def r_def)
  have im: "i = length m mod r" using absorbs_length [OF a] st rate by simp
  have rl: "r \<le> length (sha3_buffer s)" using st rate by simp
  note buf = sponge_padded_buffer [OF im rate(1) rl b1_def b2_def b3_def]
  have c1: "PadBlock 1 (base + i) (drop i (sha3_buffer s)) (0 :: u8) (of_nat r - of_nat i)
    = Some (write_at 0 (replicate (r - i) 0) (drop i (sha3_buffer s)))"
  proof -
    have "of_nat r - of_nat i = (of_nat (r - i) :: u64)" using st(1) by (simp add: of_nat_diff)
    then show ?thesis using PadBlock_bytes_zero [of "r - i" "drop i (sha3_buffer s)" "base + i"] rl rate by simp
  qed
  have c2: "CopyBlock b1 i [Sha3_suffix v] = Some b2" using st buf(2) rate by (simp add: b2_def)
  have c3: "CopyBlock b2 (r - 1) [b2 ! (r - 1) OR 0x80] = Some b3" using st buf(3) rate by (simp add: b3_def)
  have "take r b3 = take i (sha3_buffer s) @ sponge_pad (Sha3_suffix v) r (length m)" using buf(1) .
  moreover have "r dvd length (take i (sha3_buffer s) @ sponge_pad (Sha3_suffix v) r (length m))"
    using buf(1,4) rl by (metis dvd_refl length_take min_absorb2)
  ultimately have S: "foldl sponge_step (sha3_state s) (chunks r (take r b3)) = S"
    using absorbs_closed [OF a] by (simp add: S_def sponge_absorb_def r_def)
  have c4: "Sha3_processChunk r b3 r (sha3_state s) = Some S"
    using Sha3_processChunk_dvd [of r "sha3_state s" r b3] st rate rl buf(4) S by simp
  have sf: "(if is_shake v then 0x1f else 0x06) = Sha3_suffix v" by (simp add: Sha3_suffix_def)
  have lS: "length S = 25" by (simp add: S_def sponge_absorb_def)
  note upd = processAndSqueeze_def Let_def i_def [symmetric] st(4,5) c1 b1_def [symmetric] sf c2 c3 c4
    Option.bind.bind_lunit
  show ?thesis
    unfolding r_def [symmetric]
  proof (intro exI [of _ b3] conjI)
    show "length b3 = 168" using buf(4) st(2) by simp
    show "length S = 25" by (rule lS)
  qed (simp only: upd, simp add: st)
qed

lemma Sha3_output_append: "Sha3_output v m p a @ Sha3_output v m (p + a) b = Sha3_output v m p (a + b)"
proof -
  have "[p..<p + (a + b)] = [p..<p + a] @ [p + a..<p + a + b]"
    by (metis add.assoc le_add1 upt_add_eq_append)
  then show ?thesis by (simp add: Sha3_output_def)
qed

lemma length_Sha3_output [simp]: "length (Sha3_output v m p n) = n"
  by (simp add: Sha3_output_def)

lemma length_sponge_absorb [simp]: "length (sponge_absorb sfx r m) = 25"
  by (simp add: sponge_absorb_def)

definition Sha3_squeezing :: "sha3_variant \<Rightarrow> u8 list \<Rightarrow> nat \<Rightarrow> sha3 \<Rightarrow> bool" where
  "Sha3_squeezing v m p s \<longleftrightarrow>
     Sha3_ok v s \<and> \<not> m_finished s \<and> m_processing_state s = STATE_SQUEEZE \<and>
     squeezed (Sha3_rate v) (sponge_absorb (Sha3_suffix v) (Sha3_rate v) m) p (sha3_state s) (m_shake_index s)"

text \<open>Both uses of \<^verbatim>\<open>squeezeChunk\<close>, on the output of a message.\<close>

lemma squeezed_state_length: "squeezed r S p st idx \<Longrightarrow> length S = 25 \<Longrightarrow> length st = 25"
  by (auto simp: squeezed_def)

lemma squeezeChunk_output:
  assumes "squeezed (Sha3_rate v) (sponge_absorb (Sha3_suffix v) (Sha3_rate v) m) p st idx"
  shows "\<exists>st' idx'. squeezeChunk (Sha3_rate v) st idx n = Some (st', idx', Sha3_output v m p n)
    \<and> squeezed (Sha3_rate v) (sponge_absorb (Sha3_suffix v) (Sha3_rate v) m) (p + n) st' idx'
    \<and> length st' = 25"
  using squeezeChunk_bytes [OF _ _ _ assms, of n] Sha3_rate [of v]
  by (auto simp: Sha3_output_def squeezed_state_length)

lemma processAndSqueeze_output:
  assumes s: "Sha3_holds v m s" and n: "\<not> is_shake v \<Longrightarrow> n \<le> Sha3_rate v"
  shows "\<exists>s'. processAndSqueeze v base n s = Some (ALC_ERROR_NONE, s', Sha3_output v m 0 n)
    \<and> Sha3_ok v s' \<and> \<not> m_finished s' \<and> (is_shake v \<longrightarrow> Sha3_squeezing v m n s')"
proof -
  let ?S = "sponge_absorb (Sha3_suffix v) (Sha3_rate v) m"
  obtain buf where buf: "length buf = 168" and p: "processAndSqueeze v base n s =
    (let s = s\<lparr>sha3_buffer := buf, sha3_state := ?S\<rparr> in
     if is_shake v then
       do { (st, idx, out) \<leftarrow> squeezeChunk (Sha3_rate v) ?S 0 n;
            Some (ALC_ERROR_NONE, s\<lparr>m_processing_state := STATE_SQUEEZE, sha3_state := st, m_shake_index := idx\<rparr>, out) }
     else Some (ALC_ERROR_NONE, s, take n (state_bytes ?S)))"
    using processAndSqueeze_absorbs [OF s, of base n] by blast
  have ok: "Sha3_ok v s" "\<not> m_finished s" using s by (auto simp: Sha3_holds_def)
  show ?thesis
  proof (cases "is_shake v")
    case True
    have "squeezed (Sha3_rate v) ?S 0 ?S 0" by (auto simp: squeezed_def intro: exI [of _ 0])
    from squeezeChunk_output [OF this, of n] obtain st' idx' where
      "squeezeChunk (Sha3_rate v) ?S 0 n = Some (st', idx', Sha3_output v m 0 n)"
      "squeezed (Sha3_rate v) ?S n st' idx'" "length st' = 25" by auto
    then show ?thesis using True ok buf p by (auto simp: Let_def Sha3_ok_def Sha3_squeezing_def)
  next
    case False
    have "take n (state_bytes ?S) = Sha3_output v m 0 n"
      using sponge_bytes_block [of ?S "Sha3_rate v" 0 n 0] n [OF False] Sha3_rate(3) [of v]
      by (simp add: Sha3_output_def)
    then show ?thesis using False ok buf p by (auto simp: Let_def Sha3_ok_def)
  qed
qed

lemma Sha3_finalize_output:
  assumes "Sha3_holds v m s" and "if is_shake v then 0 < n else n = Sha3_digest_bits v div 8"
    and "length out = n"
  shows "\<exists>s'. Sha3_finalize v base (Some out) n s = Some (ALC_ERROR_NONE, s', Some (Sha3_output v m 0 n))
    \<and> Sha3_ok v s' \<and> m_finished s'"
proof -
  have "n \<le> Sha3_rate v" if "\<not> is_shake v" using that assms(2) Sha3_rate(4) [of v] by simp
  from processAndSqueeze_output [OF assms(1) this, of base] obtain s' where
    "processAndSqueeze v base n s = Some (ALC_ERROR_NONE, s', Sha3_output v m 0 n)" "Sha3_ok v s'" by blast
  moreover have "m_digest_len s = Sha3_digest_bits v div 8" "\<not> m_finished s"
    using assms(1) by (auto simp: Sha3_holds_def Sha3_ok_def)
  ultimately show ?thesis
    using assms(2,3) by (auto simp: Sha3_finalize_def Sha3_ok_def write_at_def split: if_splits)
qed

definition Sha3_ops :: "sha3_variant \<Rightarrow> nat \<Rightarrow> sha3 digest_ops" where
  "Sha3_ops v base =
     \<lparr>op_init = Sha3_init v, op_update = Sha3_update,
      op_finalize = (\<lambda>pBuf. Sha3_finalize v base pBuf (case pBuf of None \<Rightarrow> 0 | Some out \<Rightarrow> length out)),
      op_block_len = m_block_len, op_digest_len = m_digest_len\<rparr>"

lemma Sha3_digest: "digest (Sha3_ops v base) (Sha3_ok v) (Sha3_holds v) (sha3_spec v) (Sha3_rate v)
    (Sha3_digest_bits v div 8) lim"
proof unfold_locales
  show "\<exists>s'. op_finalize (Sha3_ops v base) (Some out) s = Some (ALC_ERROR_NONE, s', Some (sha3_spec v m))
      \<and> Sha3_ok v s'" if "Sha3_holds v m s" "length out = Sha3_digest_bits v div 8" for m s out
    using that Sha3_finalize_output [of v m s "length out" out base] Sha3_rate(5) [of v]
    by (cases "is_shake v") (auto simp: Sha3_ops_def sha3_spec_def)
qed (use Sha3_rate [of v] in \<open>auto simp: Sha3_ops_def Sha3_holds_init Sha3_update_holds sha3_spec_def,
      auto simp: Sha3_holds_def Sha3_ok_def\<close>)

interpretation sha3: digest "Sha3_ops v base" "Sha3_ok v" "Sha3_holds v" "sha3_spec v" "Sha3_rate v"
    "Sha3_digest_bits v div 8" lim
  for v base lim by (rule Sha3_digest)

section \<open>The in-place kernels\<close>

lemma state_bytes_word:
  assumes "i < length st"
  shows "le_word (take 8 (drop (8 * i) (state_bytes st))) = st ! i"
proof -
  have "le_words 8 (length st) (state_bytes st) = st"
    unfolding state_bytes_def by (rule le_words_concat) simp
  then show ?thesis using nth_le_words [OF assms, of 8 "state_bytes st"] by metis
qed

lemma absorbChunk_inplace_same:
  assumes "length B = 5" "length st = 25" "n \<le> 25" "8 * n \<le> length src"
  shows "absorbChunk_inplace B src n st = absorbChunk src st n"
proof -
  let ?bytes = "foldl (\<lambda>st i. st[i := st ! i XOR src ! i]) (state_bytes st) [0..<n * 8]"
  have b: "?bytes = map (\<lambda>i. state_bytes st ! i XOR src ! i) [0..<n * 8] @ drop (n * 8) (state_bytes st)"
    using assms by (intro foldl_update_upt) simp
  have lb: "length ?bytes = 200" unfolding b using assms by simp
  have bn: "?bytes ! k = (if k < n * 8 then state_bytes st ! k XOR src ! k else state_bytes st ! k)"
    if "k < 200" for k
    unfolding b using that assms by (simp add: nth_append)
  have "le_words 8 25 ?bytes = map (\<lambda>i. st ! i XOR le_word (take 8 (drop (8 * i) src))) [0..<n] @ drop n st"
  proof (rule nth_equalityI)
    fix i assume "i < length (le_words 8 25 ?bytes :: u64 list)"
    then have i: "i < 25" by simp
    have "le_word (take 8 (drop (8 * i) ?bytes)) =
      (if i < n then st ! i XOR le_word (take 8 (drop (8 * i) src)) else st ! i)"
    proof (rule bit_word_eqI)
      fix k assume "k < LENGTH(64)"
      then have k: "k < 64" "k div 8 < 8" by auto
      then have j: "8 * i + k div 8 < 200" using i by linarith
      have w: "bit (st ! i) k = bit (state_bytes st ! (8 * i + k div 8)) (k mod 8)"
      proof -
        have "k div 8 < 200 - 8 * i" using j by linarith
        then show ?thesis
          using i k assms(2) state_bytes_word [of i st, symmetric] by (simp add: bit_le_word)
      qed
      have "8 * i + k div 8 < n * 8 \<longleftrightarrow> i < n" using k by linarith
      then show "bit (le_word (take 8 (drop (8 * i) ?bytes)) :: u64) k =
        bit (if i < n then st ! i XOR le_word (take 8 (drop (8 * i) src)) else st ! i) k"
        using i k j lb bn [OF j] w assms(4) by (auto simp: bit_le_word bit_xor_iff)
    qed
    then show "le_words 8 25 ?bytes ! i
      = (map (\<lambda>i. st ! i XOR le_word (take 8 (drop (8 * i) src))) [0..<n] @ drop n st) ! i"
      using i assms by (simp add: nth_le_words nth_append)
  qed (use assms in simp)
  then show ?thesis
    using assms foldl_update_upt [of n st "\<lambda>i v. v XOR le_word (take 8 (drop (8 * i) src))"]
    by (simp add: absorbChunk_inplace_def absorbChunk_def fFunction_inplace_reference)
qed

lemma length_absorbChunk [simp]: "length st = 25 \<Longrightarrow> length (absorbChunk src st n) = 25"
proof -
  assume st: "length st = 25"
  have "length (foldl (\<lambda>st i. st[i := st ! i XOR le_word (take 8 (drop (8 * i) src))]) st is) = 25" for "is"
    using st by (induction "is" arbitrary: st) auto
  then show ?thesis by (simp add: absorbChunk_def fFunction_keccak_f)
qed

lemma Sha3Update_blocks:
  assumes B: "length B = 5" and st: "length st = 25"
    and r: "0 < r" "8 dvd r" "r \<le> 200" "r * n \<le> length src" "n < 2 ^ 32"
  shows "Sha3_processChunk r src (r * n) st = Some (Sha3Update B st src (r * n) r)"
proof -
  obtain q where q: "r = 8 * q" using r(2) by (auto elim: dvdE)
  let ?f = "\<lambda>(st, src) i. (absorbChunk_inplace B src (r div 8) st, drop (8 * (r div 8)) src)"
  have "Sha3_processChunk r src (r * k) st = Some (fst (foldl ?f (st, src) [0..<k]))" if "r * k \<le> length src" for k
    using that st
  proof (induction k arbitrary: st src)
    case 0
    then show ?case by (simp add: Sha3_processChunk.simps)
  next
    case (Suc k)
    have "r \<le> length src" using Suc.prems by simp
    then have step: "absorbChunk_inplace B src (r div 8) st = absorbChunk src st (r div 8)"
      using B Suc.prems r(3) q by (intro absorbChunk_inplace_same) simp_all
    have shift: "foldl ?f p [Suc 0..<Suc k] = foldl ?f p [0..<k]" for p
    proof -
      have "[Suc 0..<Suc k] = map Suc [0..<k]" by (simp add: map_Suc_upt)
      then show ?thesis by (simp add: foldl_map case_prod_unfold del: upt_Suc)
    qed
    have "Sha3_processChunk r src (r * Suc k) st
        = Sha3_processChunk r (drop r src) (r * k) (absorbChunk src st (r div 8))"
      using r(1) by (subst Sha3_processChunk.simps) simp
    also have "\<dots> = Some (fst (foldl ?f (absorbChunk src st (r div 8), drop r src) [0..<k]))"
      using Suc.prems by (intro Suc.IH) simp_all
    also have "\<dots> = Some (fst (foldl ?f (st, src) [0..<Suc k]))"
      using step q shift by (simp add: upt_conv_Cons del: upt_Suc)
    finally show ?case .
  qed
  moreover have "unat (of_nat (r * n div r) :: u32) = n" using r(1,5) by (simp add: unat_of_nat)
  ultimately show ?thesis using r(4) by (simp add: Sha3Update_def Let_def)
qed

lemma length_fFunction [simp]: "length st = 25 \<Longrightarrow> length (fFunction st) = 25"
  by (simp add: fFunction_keccak_f)

lemma Sha3Finalize_loop_same:
  assumes "length B = 5" "length st = 25"
  shows "Sha3Finalize_loop B r st n = squeeze_loop r st n"
  using assms(2)
proof (induction n arbitrary: st rule: less_induct)
  case (less n)
  have IH: "0 < r \<Longrightarrow> 0 < n \<Longrightarrow> Sha3Finalize_loop B r (fFunction st) (n - r) = squeeze_loop r (fFunction st) (n - r)"
    using less by simp
  show ?case
    using IH less.prems assms(1)
    by (subst Sha3Finalize_loop.simps, subst squeeze_loop.simps)
      (simp add: fFunction_inplace_reference Let_def)
qed

section \<open>Properties\<close>

text \<open>
  C5: SHA3-224/256/384/512 compute the hash of FIPS 202 for every message in whatever pieces it
  arrives; \<^verbatim>\<open>init\<close>, the updates and \<^verbatim>\<open>finalize\<close> return no error and stay within the 168-byte
  buffer. For SHAKE the same call delivers the first \<open>n\<close> bytes of the output stream, with
  \<open>n\<close> the default output length.
\<close>
theorem Sha3_computes_hash:
  assumes "Sha3_ok v s" "length out = Sha3_digest_bits v div 8"
  shows "\<exists>s'. hash_message (Sha3_ops v base) xs out s
              = Some (ALC_ERROR_NONE, s', Some (sha3_spec v (concat xs))) \<and> Sha3_ok v s'"
  using sha3.message_hash [OF assms(1) le_refl assms(2)] .

theorem Sha3_computes_hash_witness:
  "\<exists>s'. hash_message (Sha3_ops Sha3_256 64) [[1, 2], replicate 300 3] (replicate 32 0) (Sha3_ctor Sha3_256)
        = Some (ALC_ERROR_NONE, s', Some (sha3_spec Sha3_256 ([1, 2] @ replicate 300 3))) \<and> Sha3_ok Sha3_256 s'"
  using Sha3_computes_hash [of Sha3_256 "Sha3_ctor Sha3_256" "replicate 32 0" 64 "[[1, 2], replicate 300 3]"]
  by (simp add: Sha3_ctor_ok Sha3_digest_bits_def)

text \<open>C6: 
  SHAKE output can be taken in pieces. After \<open>m\<close> was absorbed, the first \<^verbatim>\<open>shakeSqueeze\<close>
  pads and delivers the first bytes, and every later call continues where the previous one
  stopped, across block boundaries: the pieces are consecutive parts of one output stream.
\<close>
theorem shakeSqueeze_continues:
  assumes "is_shake v" "length out = n"
    and "Sha3_holds v m s \<and> p = 0 \<or> Sha3_squeezing v m p s"
  shows "\<exists>s'. Sha3_shakeSqueeze v base (Some out) n s
      = Some (ALC_ERROR_NONE, s', Some (Sha3_output v m p n)) \<and> Sha3_squeezing v m (p + n) s'"
  using assms(3)
proof
  assume h: "Sha3_holds v m s \<and> p = 0"
  then have "\<not> m_finished s" "m_processing_state s = STATE_INT" by (auto simp: Sha3_holds_def)
  then show ?thesis
    using assms(1,2) h processAndSqueeze_output [of v m s n base]
    by (auto simp: Sha3_shakeSqueeze_def write_at_def)
next
  assume h: "Sha3_squeezing v m p s"
  then have "\<not> m_finished s" "m_processing_state s = STATE_SQUEEZE" "Sha3_ok v s" "m_block_len s = Sha3_rate v"
    by (auto simp: Sha3_squeezing_def Sha3_ok_def)
  then show ?thesis
    using assms(1,2) h squeezeChunk_output [of v m p "sha3_state s" "m_shake_index s" n]
    by (auto simp: Sha3_shakeSqueeze_def Sha3_squeezing_def Sha3_ok_def write_at_def)
qed

theorem shakeSqueeze_continues_witness:
  "\<exists>s'. Sha3_shakeSqueeze Shake128 64 (Some (replicate 200 0)) 200 (Sha3_init Shake128 (Sha3_ctor Shake128))
      = Some (ALC_ERROR_NONE, s', Some (Sha3_output Shake128 [] 0 200)) \<and> Sha3_squeezing Shake128 [] 200 s'"
  using shakeSqueeze_continues [of Shake128 "replicate 200 0" 200 "[]" "Sha3_init Shake128 (Sha3_ctor Shake128)" 0 64]
  by (simp add: is_shake_def Sha3_holds_init Sha3_ctor_ok)

text \<open>
  The absorb and squeeze routines of the in-place kernels, which combine bytes instead of
  words, agree with the reference routines on every multiple of the block length below 2^32
  blocks and on every output length.
\<close>
theorem inplace_kernels_equal_reference:
  assumes "length B = 5" "length st = 25" "0 < r" "8 dvd r" "r \<le> 200" "r * n \<le> length src" "n < 2 ^ 32"
  shows "Sha3_processChunk r src (r * n) st = Some (Sha3Update B st src (r * n) r)
    \<and> Sha3Finalize B st k r idx = squeezeChunk r st idx k"
  using Sha3Update_blocks [OF assms] assms(1,2)
  by (simp add: Sha3Finalize_def squeezeChunk_def Sha3Finalize_loop_same Let_def)

theorem inplace_kernels_equal_reference_witness:
  "Sha3_processChunk 136 (replicate 272 9) (136 * 2) (replicate 25 0)
     = Some (Sha3Update (replicate 5 3) (replicate 25 0) (replicate 272 9) (136 * 2) 136)
   \<and> Sha3Finalize (replicate 5 3) (replicate 25 0) 500 136 20 = squeezeChunk 136 (replicate 25 0) 20 500"
  by (rule inplace_kernels_equal_reference) simp_all

text \<open>
  What the SHA-3 object refuses: input after \<^verbatim>\<open>finalize\<close>, a null source, an output length
  that is not the digest length (zero for SHAKE), squeezing a fixed-length digest or a finished
  object. None of these changes the object; a null output pointer of the right length is
  rejected too but finishes the object.
\<close>
theorem Sha3_rejects:
  "Sha3_update None s = Some (ALC_ERROR_INVALID_ARG, s)
   \<and> (m_finished s \<longrightarrow>
        Sha3_update (Some x) s = Some (ALC_ERROR_INVALID_ARG, s)
        \<and> Sha3_finalize v base pBuf n s = Some (ALC_ERROR_NONE, s, pBuf))
   \<and> (\<not> m_finished s \<and> (if is_shake v then n = 0 else n \<noteq> m_digest_len s) \<longrightarrow>
        Sha3_finalize v base pBuf n s = Some (ALC_ERROR_INVALID_ARG, s, pBuf))
   \<and> (m_finished s \<or> \<not> is_shake v \<longrightarrow>
        Sha3_shakeSqueeze v base pBuf n s = Some (ALC_ERROR_NOT_PERMITTED, s, pBuf))
   \<and> (\<not> m_finished s \<and> (if is_shake v then n \<noteq> 0 else n = m_digest_len s) \<longrightarrow>
        Sha3_finalize v base None n s = Some (ALC_ERROR_INVALID_ARG, s\<lparr>m_idx := 0, m_finished := True\<rparr>, None))"
proof (intro conjI impI)
  show "Sha3_update None s = Some (ALC_ERROR_INVALID_ARG, s)" by (simp add: Sha3_update_def)
next
  assume "m_finished s"
  then show "Sha3_update (Some x) s = Some (ALC_ERROR_INVALID_ARG, s)"
    "Sha3_finalize v base pBuf n s = Some (ALC_ERROR_NONE, s, pBuf)"
    by (simp_all add: Sha3_update_def Sha3_finalize_def)
next
  assume "\<not> m_finished s \<and> (if is_shake v then n = 0 else n \<noteq> m_digest_len s)"
  then show "Sha3_finalize v base pBuf n s = Some (ALC_ERROR_INVALID_ARG, s, pBuf)"
    by (cases "is_shake v") (simp_all add: Sha3_finalize_def)
next
  assume "m_finished s \<or> \<not> is_shake v"
  then show "Sha3_shakeSqueeze v base pBuf n s = Some (ALC_ERROR_NOT_PERMITTED, s, pBuf)"
    by (cases "is_shake v") (simp_all add: Sha3_shakeSqueeze_def)
next
  assume "\<not> m_finished s \<and> (if is_shake v then n \<noteq> 0 else n = m_digest_len s)"
  then show "Sha3_finalize v base None n s
      = Some (ALC_ERROR_INVALID_ARG, s\<lparr>m_idx := 0, m_finished := True\<rparr>, None)"
    by (cases "is_shake v") (simp_all add: Sha3_finalize_def)
qed

theorem Sha3_rejects_witness:
  "Sha3_shakeSqueeze Sha3_256 64 None 32 (Sha3_ctor Sha3_256)
     = Some (ALC_ERROR_NOT_PERMITTED, Sha3_ctor Sha3_256, None)
   \<and> Sha3_finalize Sha3_256 64 None 32 (Sha3_ctor Sha3_256)
     = Some (ALC_ERROR_INVALID_ARG, (Sha3_ctor Sha3_256)\<lparr>m_idx := 0, m_finished := True\<rparr>, None)"
proof -
  have "\<not> m_finished (Sha3_ctor Sha3_256)" "\<not> is_shake Sha3_256" "m_digest_len (Sha3_ctor Sha3_256) = 32"
    by (simp_all add: is_shake_def Sha3_ctor_def Sha3_digest_bits_def Let_def)
  then show ?thesis
    using Sha3_rejects [where v = Sha3_256 and base = 64 and s = "Sha3_ctor Sha3_256" and n = 32 and pBuf = None]
    by simp
qed

end
