(* ===== verification/Hmac.thy ===== *)
theory Hmac imports Sha256 Sha512 Sha3 begin

text \<open>
  HMAC as \<^verbatim>\<open>lib/mac/hmac.cc\<close> builds it on the digest interface, on the build without the AVX2
  pad routine. The operations are generic in the table of virtual functions; the lemmas are
  proved once under the digest contract and instantiated with the three SHA families. The
  specification is RFC 2104. The key is a memory and a length: \<^verbatim>\<open>Hmac::init\<close> takes the length as a
  \<^verbatim>\<open>Uint32\<close>, and the C interface (\<^verbatim>\<open>hmac_build.hh\<close>) hands it one of 64 bits, which loses its upper
  half. \<open>None\<close> is undefined behaviour: a null digest pointer, a read past the key, or a write
  outside the 144-byte key blocks and the 64-byte hash buffer.
\<close>

unbundle bit_operations_syntax

section \<open>The code\<close>

abbreviation cMaxHashSize :: nat where "cMaxHashSize \<equiv> 64"
abbreviation cMaxInternalBlockLength :: nat where "cMaxInternalBlockLength \<equiv> 144"

text \<open>
  \<^verbatim>\<open>m_pDigest\<close> points to an object of the caller that nothing else uses while the HMAC is
  running, so the record holds the object itself.
\<close>

record 'd hmac =
  m_input_block_length :: nat
  m_output_hash_size :: nat
  m_finalized :: bool
  m_isInit :: bool
  m_pDigest :: "'d option"
  m_pK0_xor_opad :: "u8 list"
  m_pK0_xor_ipad :: "u8 list"

definition Hmac_ctor :: "'d hmac" where
  "Hmac_ctor = \<lparr>m_input_block_length = 0, m_output_hash_size = 0, m_finalized = False, m_isInit = False,
     m_pDigest = None, m_pK0_xor_opad = replicate 144 0, m_pK0_xor_ipad = replicate 144 0\<rparr>"

text \<open>\<^verbatim>\<open>setDigest\<close> supplies the pointer the copy constructor leaves null.\<close>

definition Hmac_copy :: "'d hmac \<Rightarrow> 'd hmac" where
  "Hmac_copy src =
     \<lparr>m_input_block_length = m_input_block_length src, m_output_hash_size = m_output_hash_size src,
      m_finalized = m_finalized src, m_isInit = m_isInit src, m_pDigest = None,
      m_pK0_xor_opad = m_pK0_xor_opad src, m_pK0_xor_ipad = m_pK0_xor_ipad src\<rparr>"

definition Hmac_setDigest :: "'d \<Rightarrow> 'd hmac \<Rightarrow> 'd hmac" where
  "Hmac_setDigest dg s = s\<lparr>m_pDigest := Some dg\<rparr>"

definition Hmac_getHashSize :: "'d hmac \<Rightarrow> nat" where
  "Hmac_getHashSize s = m_output_hash_size s"

text \<open>
  \<^verbatim>\<open>getK0\<close>: the error, the key block and the digest object after the call. The result of the
  digest's \<^verbatim>\<open>finalize\<close> is dropped by the source, which tests the old \<^verbatim>\<open>err\<close>.
\<close>

definition getK0 ::
  "'d digest_ops \<Rightarrow> u8 list \<Rightarrow> u32 \<Rightarrow> u8 list \<Rightarrow> 'd \<Rightarrow> nat \<Rightarrow> nat \<Rightarrow> (alc_error \<times> u8 list \<times> 'd) option" where
  "getK0 V pKey keylen pK0 pDigest input_block_length output_hash_size =
     (let n = unat keylen; key = take n pKey in
      if length pKey < n then None
      else if n \<le> input_block_length then do {
        pK0 \<leftarrow> CopyBlock pK0 0 key;
        Some (ALC_ERROR_NONE, pK0, pDigest)
      }
      else do {
        (err, dg) \<leftarrow> op_update V (Some key) (op_init V pDigest);
        if alcp_is_error err then Some (err, pK0, dg)
        else if output_hash_size > length pK0 then None
        else do {
          (ignored, dg, out) \<leftarrow> op_finalize V (Some (take output_hash_size pK0)) dg;
          pK0 \<leftarrow> CopyBlock pK0 0 (case out of None \<Rightarrow> [] | Some out \<Rightarrow> out);
          Some (err, pK0, op_init V dg)
        }
      })"

text \<open>The reference branch of \<^verbatim>\<open>getK0XorPad\<close>: whole 64-bit words. The value is ipad, opad.\<close>

definition getK0XorPad :: "nat \<Rightarrow> u8 list \<Rightarrow> u8 list \<Rightarrow> u8 list \<Rightarrow> (u8 list \<times> u8 list) option" where
  "getK0XorPad input_block_length pK0 ipad opad =
     (let n = input_block_length div 8; ws = le_words 8 n pK0 :: u64 list;
          pad = (\<lambda>c. concat (map (\<lambda>w. le_bytes 8 (w XOR c)) ws)) in
      if 8 * n > length pK0 then None
      else do {
        ipad \<leftarrow> CopyBlock ipad 0 (pad 0x3636363636363636);
        opad \<leftarrow> CopyBlock opad 0 (pad 0x5c5c5c5c5c5c5c5c);
        Some (ipad, opad)
      })"

definition Hmac_init ::
  "'d digest_ops \<Rightarrow> u8 list option \<Rightarrow> u32 \<Rightarrow> 'd option \<Rightarrow> 'd hmac \<Rightarrow> (alc_error \<times> 'd hmac) option" where
  "Hmac_init V key keylen dg s =
     (case (key, dg) of
        (Some k, Some d) \<Rightarrow>
          let d = op_init V d;
              s = s\<lparr>m_pDigest := Some d, m_input_block_length := op_block_len V d,
                    m_output_hash_size := op_digest_len V d, m_finalized := False\<rparr> in do {
          (err, pK0, d) \<leftarrow> getK0 V k keylen (replicate cMaxInternalBlockLength 0) d
                            (m_input_block_length s) (m_output_hash_size s);
          let s = s\<lparr>m_pDigest := Some d\<rparr> in
          if err \<noteq> ALC_ERROR_NONE then Some (err, s)
          else do {
            (ipad, opad) \<leftarrow> getK0XorPad (m_input_block_length s) pK0 (m_pK0_xor_ipad s) (m_pK0_xor_opad s);
            let s = s\<lparr>m_pK0_xor_ipad := ipad, m_pK0_xor_opad := opad\<rparr> in do {
            (err, d) \<leftarrow> op_update V (Some (take (m_input_block_length s) ipad)) d;
            let s = s\<lparr>m_pDigest := Some d\<rparr> in
            if alcp_is_error err then Some (err, s) else Some (err, s\<lparr>m_isInit := True\<rparr>)
          }}}
      | _ \<Rightarrow> Some (ALC_ERROR_INVALID_ARG, s))"

text \<open>\<^verbatim>\<open>__hmac_wrapperInit\<close> passes its 64-bit size on; \<open>dg\<close> is the digest object it has just made.\<close>

definition hmac_wrapperInit ::
  "'d digest_ops \<Rightarrow> u8 list option \<Rightarrow> u64 \<Rightarrow> 'd option \<Rightarrow> 'd hmac \<Rightarrow> (alc_error \<times> 'd hmac) option" where
  "hmac_wrapperInit V key size_in dg s = Hmac_init V key (ucast size_in) dg s"

definition Hmac_update ::
  "'d digest_ops \<Rightarrow> u8 list option \<Rightarrow> 'd hmac \<Rightarrow> (alc_error \<times> 'd hmac) option" where
  "Hmac_update V buff s =
     (if m_finalized s then Some (ALC_ERROR_BAD_STATE, s)
      else if \<not> m_isInit s then Some (ALC_ERROR_BAD_STATE, s)
      else case buff of
        None \<Rightarrow> Some (ALC_ERROR_NONE, s)
      | Some x \<Rightarrow>
          if length x = 0 then Some (ALC_ERROR_NONE, s)
          else do {
            d \<leftarrow> m_pDigest s;
            (err, d) \<leftarrow> op_update V (Some x) d;
            Some (err, s\<lparr>m_pDigest := Some d\<rparr>)
          })"

text \<open>
  The caller's buffer comes back with the bytes the call wrote; only \<^verbatim>\<open>size_to_copy\<close> bytes of it
  are handed to the digest.
\<close>

definition Hmac_finalize ::
  "'d digest_ops \<Rightarrow> u8 list option \<Rightarrow> 'd hmac \<Rightarrow> (alc_error \<times> 'd hmac \<times> u8 list option) option" where
  "Hmac_finalize V buff s =
     (if m_finalized s then Some (ALC_ERROR_BAD_STATE, s, buff)
      else if \<not> m_isInit s then Some (ALC_ERROR_BAD_STATE, s, buff)
      else if m_output_hash_size s > cMaxHashSize then None
      else do {
        d \<leftarrow> m_pDigest s;
        (err, d, temp) \<leftarrow> op_finalize V (Some (replicate (m_output_hash_size s) 0)) d;
        if alcp_is_error err then Some (err, s\<lparr>m_pDigest := Some d\<rparr>, buff)
        else do {
          (err, d) \<leftarrow> op_update V (Some (take (m_input_block_length s) (m_pK0_xor_opad s))) (op_init V d);
          if alcp_is_error err then Some (err, s\<lparr>m_pDigest := Some d\<rparr>, buff)
          else do {
            (err, d) \<leftarrow> op_update V temp d;
            if alcp_is_error err then Some (err, s\<lparr>m_pDigest := Some d\<rparr>, buff)
            else
              let n = (case buff of None \<Rightarrow> 0 | Some out \<Rightarrow> length out);
                  size_to_copy = (if n \<le> m_output_hash_size s then n else m_output_hash_size s) in do {
              (err, d, out) \<leftarrow> op_finalize V (map_option (take size_to_copy) buff) d;
              let buff = (case (buff, out) of
                            (Some b, Some written) \<Rightarrow> Some (written @ drop size_to_copy b) | _ \<Rightarrow> buff);
                  s = s\<lparr>m_pDigest := Some d\<rparr> in
              if alcp_is_error err then Some (err, s, buff)
              else Some (err, s\<lparr>m_finalized := True\<rparr>, buff)
            }
          }
        }
      })"

definition Hmac_reset :: "'d digest_ops \<Rightarrow> 'd hmac \<Rightarrow> (alc_error \<times> 'd hmac) option" where
  "Hmac_reset V s =
     do { d \<leftarrow> m_pDigest s;
          (err, d) \<leftarrow> op_update V (Some (take (m_input_block_length s) (m_pK0_xor_ipad s))) (op_init V d);
          let s = s\<lparr>m_pDigest := Some d\<rparr> in
          if alcp_is_error err then Some (err, s) else Some (err, s\<lparr>m_finalized := False\<rparr>) }"

section \<open>RFC 2104\<close>

definition hmac_key :: "(u8 list \<Rightarrow> u8 list) \<Rightarrow> nat \<Rightarrow> u8 list \<Rightarrow> u8 list" where
  "hmac_key H B key = (let k = if length key \<le> B then key else H key in k @ replicate (B - length k) 0)"

definition hmac_spec :: "(u8 list \<Rightarrow> u8 list) \<Rightarrow> nat \<Rightarrow> u8 list \<Rightarrow> u8 list \<Rightarrow> u8 list" where
  "hmac_spec H B key m =
     H (map (\<lambda>b. b XOR 0x5c) (hmac_key H B key) @ H (map (\<lambda>b. b XOR 0x36) (hmac_key H B key) @ m))"

text \<open>
  Complete uses through the C interface: the whole key with its length, message pieces, tag; and
  the same key again after \<^verbatim>\<open>reset\<close>. \<open>used_key\<close> is the part of the key that is read.
\<close>

definition used_key :: "u8 list \<Rightarrow> u8 list" where
  "used_key key = (if length key < 2 ^ 32 then key else take (length key mod 2 ^ 32) key)"

definition hmac_message ::
  "'d digest_ops \<Rightarrow> u8 list \<Rightarrow> u8 list list \<Rightarrow> u8 list \<Rightarrow> 'd \<Rightarrow> 'd hmac \<Rightarrow> (alc_error \<times> 'd hmac \<times> u8 list option) option" where
  "hmac_message V key xs out dg s =
     do { (err, s) \<leftarrow> hmac_wrapperInit V (Some key) (of_nat (length key)) (Some dg) s;
          if alcp_is_error err then Some (err, s, Some out)
          else do { (err, s) \<leftarrow> feed (Hmac_update V) xs s;
                    if alcp_is_error err then Some (err, s, Some out) else Hmac_finalize V (Some out) s } }"

definition hmac_again ::
  "'d digest_ops \<Rightarrow> u8 list list \<Rightarrow> u8 list \<Rightarrow> 'd hmac \<Rightarrow> (alc_error \<times> 'd hmac \<times> u8 list option) option" where
  "hmac_again V xs out s =
     do { (err, s) \<leftarrow> Hmac_reset V s;
          if alcp_is_error err then Some (err, s, Some out)
          else do { (err, s) \<leftarrow> feed (Hmac_update V) xs s;
                    if alcp_is_error err then Some (err, s, Some out) else Hmac_finalize V (Some out) s } }"

section \<open>The key pads\<close>

text \<open>Combining 64-bit words with a repeated byte is combining every byte with it.\<close>

lemma le_bytes_xor: "le_bytes n (w XOR c) = map2 (XOR) (le_bytes n w) (le_bytes n (c :: 'a::len word))"
  by (rule nth_equalityI)
    (auto simp: nth_le_bytes intro!: bit_word_eqI simp: bit_simps)

lemma map2_replicate: "length xs = n \<Longrightarrow> map2 f xs (replicate n c) = map (\<lambda>x. f x c) xs"
  by (rule nth_equalityI) simp_all

lemma pad_words:
  assumes c: "le_bytes 8 (c :: u64) = replicate 8 b" and "8 * n \<le> length bs"
  shows "concat (map (\<lambda>w. le_bytes 8 (w XOR c)) (le_words 8 n bs)) = map (\<lambda>x. x XOR b) (take (8 * n) bs)"
  using assms(2)
proof (induction n arbitrary: bs)
  case 0
  then show ?case by simp
next
  case (Suc n)
  have "length (take 8 bs) = 8" using Suc.prems by simp
  then have "le_bytes 8 (le_word (take 8 bs) XOR c) = map (\<lambda>x. x XOR b) (take 8 bs)"
    by (simp add: le_bytes_xor le_bytes_le_word c map2_replicate)
  moreover have "take (8 * Suc n) bs = take 8 bs @ take (8 * n) (drop 8 bs)"
    using take_add [of 8 "8 * n" bs] by simp
  ultimately show ?case using Suc by simp
qed

lemma getK0XorPad_bytes:
  assumes B: "8 dvd B" "B \<le> length K0" and len: "length ipad = 144" "length opad = 144" "B \<le> 144"
  shows "getK0XorPad B K0 ipad opad =
    Some (write_at 0 (map (\<lambda>b. b XOR 0x36) (take B K0)) ipad,
          write_at 0 (map (\<lambda>b. b XOR 0x5c) (take B K0)) opad)"
proof -
  obtain n where n: "B = 8 * n" using B(1) by (auto elim: dvdE)
  have "le_bytes 8 (0x3636363636363636 :: u64) = replicate 8 0x36"
    "le_bytes 8 (0x5c5c5c5c5c5c5c5c :: u64) = replicate 8 0x5c"
    by code_simp+
  then show ?thesis
    using n B(2) len by (simp add: getK0XorPad_def Let_def pad_words)
qed

section \<open>HMAC on a digest\<close>

text \<open>
  What HMAC needs beyond the digest contract: the object fits the buffers of the class, and
  a wrong output size is refused.
\<close>

locale hmac_digest = digest +
  assumes block_fits: "8 dvd B" "B \<le> cMaxInternalBlockLength" "L \<le> cMaxHashSize"
    and blocks_allowed: "B + L \<le> lim" and keys_allowed: "2 ^ 32 \<le> lim"
    and finalize_wrong_size:
      "holds m s \<Longrightarrow> length m \<le> lim \<Longrightarrow> length out \<noteq> L \<Longrightarrow>
       \<exists>s'. op_finalize V (Some out) s = Some (ALC_ERROR_INVALID_ARG, s', Some out)"
begin

definition ipad_block :: "u8 list \<Rightarrow> u8 list" where
  "ipad_block key = map (\<lambda>b. b XOR 0x36) (hmac_key H B key)"

definition opad_block :: "u8 list \<Rightarrow> u8 list" where
  "opad_block key = map (\<lambda>b. b XOR 0x5c) (hmac_key H B key)"

text \<open>An initialised object: the pads of the key and the lengths of the digest are in place.\<close>

definition keyed :: "u8 list \<Rightarrow> 'a hmac \<Rightarrow> bool" where
  "keyed key s \<longleftrightarrow>
     m_isInit s \<and> m_input_block_length s = B \<and> m_output_hash_size s = L \<and>
     length (m_pK0_xor_ipad s) = 144 \<and> length (m_pK0_xor_opad s) = 144 \<and>
     take B (m_pK0_xor_ipad s) = ipad_block key \<and> take B (m_pK0_xor_opad s) = opad_block key \<and>
     (\<exists>d. m_pDigest s = Some d \<and> ok d)"

definition authenticating :: "u8 list \<Rightarrow> u8 list \<Rightarrow> 'a hmac \<Rightarrow> bool" where
  "authenticating key m s \<longleftrightarrow>
     keyed key s \<and> \<not> m_finalized s \<and> (\<exists>d. m_pDigest s = Some d \<and> holds (ipad_block key @ m) d)"

lemma length_hmac_key [simp]: "length (hmac_key H B key) = B"
  using sizes length_H by (simp add: hmac_key_def Let_def)

lemma length_pads [simp]: "length (ipad_block key) = B" "length (opad_block key) = B"
  by (simp_all add: ipad_block_def opad_block_def)

lemma hmac_spec_pads: "hmac_spec H B key m = H (opad_block key @ H (ipad_block key @ m))"
  by (simp add: hmac_spec_def ipad_block_def opad_block_def)

lemma getK0_key:
  assumes d: "ok d" and n: "unat n \<le> length key" and k: "k = take (unat n) key"
  shows "\<exists>K0 d'. getK0 V key n (replicate 144 0) d B L = Some (ALC_ERROR_NONE, K0, d')
    \<and> length K0 = 144 \<and> take B K0 = hmac_key H B k \<and> ok d' \<and> (holds [] d \<longrightarrow> holds [] d')"
proof (cases "unat n \<le> B")
  case True
  then have "take B (write_at 0 k (replicate 144 0)) = hmac_key H B k"
    using block_fits(2) n k by (simp add: hmac_key_def Let_def write_at_def min_def)
  then show ?thesis
    using True d block_fits(2) n k by (simp add: getK0_def Let_def)
next
  case False
  have key: "length k \<le> lim"
    using keys_allowed unsigned_less [of n, where ?'a = nat] n k by simp
  obtain d1 where d1: "op_update V (Some k) (op_init V d) = Some (ALC_ERROR_NONE, d1)" "holds k d1"
    using update_holds [OF init_holds [OF d]] by fastforce
  have L: "L \<le> 144" using sizes block_fits by linarith
  then obtain d2 where d2: "op_finalize V (Some (take L (replicate 144 0))) d1 = Some (ALC_ERROR_NONE, d2, Some (H k))" "ok d2"
    using finalize_hash [OF d1(2) key, of "take L (replicate 144 0)"] by auto
  have "take B (write_at 0 (H k) (replicate 144 0)) = hmac_key H B k"
    using False block_fits(2) sizes length_H [of k] L n k
    by (simp add: hmac_key_def Let_def write_at_def min_def)
  then show ?thesis
    using False d1 d2 L length_H [of k] init_holds [OF d2(2)] holds_ok n k by (auto simp: getK0_def Let_def)
qed

lemma init_authenticates:
  assumes d: "ok d" and n: "unat n \<le> length mem" and key: "key = take (unat n) mem"
    and s: "length (m_pK0_xor_ipad s) = 144" "length (m_pK0_xor_opad s) = 144"
  shows "\<exists>s'. Hmac_init V (Some mem) n (Some d) s = Some (ALC_ERROR_NONE, s') \<and> authenticating key [] s'"
proof -
  have d0: "ok (op_init V d)" "holds [] (op_init V d)" using init_holds [OF d] holds_ok by blast+
  obtain K0 d1 where k: "getK0 V mem n (replicate 144 0) (op_init V d) B L = Some (ALC_ERROR_NONE, K0, d1)"
    "length K0 = 144" "take B K0 = hmac_key H B key" "holds [] d1"
    using getK0_key [OF d0(1) n key] d0(2) by blast
  let ?i = "write_at 0 (ipad_block key) (m_pK0_xor_ipad s)"
  let ?o = "write_at 0 (opad_block key) (m_pK0_xor_opad s)"
  have pads: "getK0XorPad B K0 (m_pK0_xor_ipad s) (m_pK0_xor_opad s) = Some (?i, ?o)"
    using getK0XorPad_bytes [of B K0 "m_pK0_xor_ipad s" "m_pK0_xor_opad s"] block_fits k(2,3) s
    by (simp add: ipad_block_def opad_block_def)
  have t: "take B ?i = ipad_block key" "take B ?o = opad_block key"
    using s block_fits write_at_0 [of "ipad_block key" "m_pK0_xor_ipad s"]
      write_at_0 [of "opad_block key" "m_pK0_xor_opad s"] by simp_all
  obtain d2 where d2: "op_update V (Some (ipad_block key)) d1 = Some (ALC_ERROR_NONE, d2)" "holds (ipad_block key) d2"
    using update_holds [OF k(4), of "ipad_block key"] by auto
  have "Hmac_init V (Some mem) n (Some d) s = Some (ALC_ERROR_NONE,
    s\<lparr>m_pDigest := Some d2, m_input_block_length := B, m_output_hash_size := L, m_finalized := False,
      m_pK0_xor_ipad := ?i, m_pK0_xor_opad := ?o, m_isInit := True\<rparr>)"
    using k(1) pads d2(1) lens [OF d0(1)] t by (simp add: Hmac_init_def Let_def)
  then show ?thesis
    using d2(2) t s block_fits holds_ok [OF d2(2)] by (simp add: authenticating_def keyed_def)
qed

text \<open>Through the C interface only \<open>used_key\<close> is read.\<close>

lemma wrapperInit_authenticates:
  assumes "ok d" "length key < 2 ^ 64"
    and "length (m_pK0_xor_ipad s) = 144" "length (m_pK0_xor_opad s) = 144"
  shows "\<exists>s'. hmac_wrapperInit V (Some key) (of_nat (length key)) (Some d) s = Some (ALC_ERROR_NONE, s')
    \<and> authenticating (used_key key) [] s'"
proof -
  have n: "unat (ucast (of_nat (length key) :: u64) :: u32) = length key mod 2 ^ 32"
    using assms(2) by (simp add: unsigned_ucast_eq unsigned_of_nat take_bit_nat_def)
  show ?thesis unfolding hmac_wrapperInit_def
    by (rule init_authenticates [OF assms(1) _ _ assms(3,4)]) (simp_all add: n used_key_def)
qed

lemma update_authenticates:
  assumes "authenticating key m s"
  shows "\<exists>s'. Hmac_update V (Some x) s = Some (ALC_ERROR_NONE, s') \<and> authenticating key (m @ x) s'"
proof (cases "x = []")
  case True
  then show ?thesis using assms by (simp add: Hmac_update_def authenticating_def keyed_def)
next
  case False
  obtain d where d: "m_pDigest s = Some d" "holds (ipad_block key @ m) d"
    using assms by (auto simp: authenticating_def)
  obtain d1 where "op_update V (Some x) d = Some (ALC_ERROR_NONE, d1)" "holds (ipad_block key @ m @ x) d1"
    using update_holds [OF d(2), of x] by auto
  then show ?thesis
    using False d assms holds_ok by (auto simp: Hmac_update_def authenticating_def keyed_def)
qed

lemma finalize_mac:
  assumes s: "authenticating key m s" and m: "B + length m \<le> lim" and out: "L \<le> length out"
  shows "\<exists>s'. Hmac_finalize V (Some out) s
      = Some (ALC_ERROR_NONE, s', Some (hmac_spec H B key m @ drop L out))
    \<and> keyed key s' \<and> m_finalized s'"
proof -
  obtain d where d: "m_pDigest s = Some d" "holds (ipad_block key @ m) d"
    using s by (auto simp: authenticating_def)
  obtain d1 where d1: "op_finalize V (Some (replicate L 0)) d = Some (ALC_ERROR_NONE, d1, Some (H (ipad_block key @ m)))" "ok d1"
    using finalize_hash [OF d(2), of "replicate L 0"] m by auto
  obtain d2 where d2: "op_update V (Some (opad_block key)) (op_init V d1) = Some (ALC_ERROR_NONE, d2)" "holds (opad_block key) d2"
    using update_holds [OF init_holds [OF d1(2)], of "opad_block key"] by auto
  obtain d3 where d3: "op_update V (Some (H (ipad_block key @ m))) d2 = Some (ALC_ERROR_NONE, d3)"
    "holds (opad_block key @ H (ipad_block key @ m)) d3"
    using update_holds [OF d2(2)] by blast
  obtain d4 where d4: "op_finalize V (Some (take L out)) d3
      = Some (ALC_ERROR_NONE, d4, Some (H (opad_block key @ H (ipad_block key @ m))))" "ok d4"
    using finalize_hash [OF d3(2), of "take L out"] blocks_allowed length_H out by (auto simp: min_absorb2)
  show ?thesis
    using s d(1) d1(1) d2(1) d3(1) d4 block_fits(3) out
    by (auto simp: Hmac_finalize_def Let_def authenticating_def keyed_def hmac_spec_pads)
qed

lemma finalize_truncated:
  assumes s: "authenticating key m s" and m: "B + length m \<le> lim" and out: "length out < L"
  shows "\<exists>s'. Hmac_finalize V (Some out) s = Some (ALC_ERROR_INVALID_ARG, s', Some out) \<and> \<not> m_finalized s'"
proof -
  obtain d where d: "m_pDigest s = Some d" "holds (ipad_block key @ m) d"
    using s by (auto simp: authenticating_def)
  obtain d1 where d1: "op_finalize V (Some (replicate L 0)) d = Some (ALC_ERROR_NONE, d1, Some (H (ipad_block key @ m)))" "ok d1"
    using finalize_hash [OF d(2), of "replicate L 0"] m by auto
  obtain d2 where d2: "op_update V (Some (opad_block key)) (op_init V d1) = Some (ALC_ERROR_NONE, d2)" "holds (opad_block key) d2"
    using update_holds [OF init_holds [OF d1(2)], of "opad_block key"] by auto
  obtain d3 where d3: "op_update V (Some (H (ipad_block key @ m))) d2 = Some (ALC_ERROR_NONE, d3)"
    "holds (opad_block key @ H (ipad_block key @ m)) d3"
    using update_holds [OF d2(2)] by blast
  obtain d4 where d4: "op_finalize V (Some out) d3 = Some (ALC_ERROR_INVALID_ARG, d4, Some out)"
    using finalize_wrong_size [OF d3(2), of out] blocks_allowed length_H out by auto
  show ?thesis
    using s d(1) d1(1) d2(1) d3(1) d4 block_fits(3) out
    by (auto simp: Hmac_finalize_def Let_def authenticating_def keyed_def alcp_is_error_def)
qed

lemma reset_authenticates:
  assumes "keyed key s"
  shows "\<exists>s'. Hmac_reset V s = Some (ALC_ERROR_NONE, s') \<and> authenticating key [] s'"
proof -
  obtain d where d: "m_pDigest s = Some d" "ok d" using assms by (auto simp: keyed_def)
  obtain d1 where "op_update V (Some (ipad_block key)) (op_init V d) = Some (ALC_ERROR_NONE, d1)" "holds (ipad_block key) d1"
    using update_holds [OF init_holds [OF d(2)], of "ipad_block key"] by auto
  then show ?thesis
    using assms d(1) holds_ok by (auto simp: Hmac_reset_def keyed_def authenticating_def Let_def)
qed

end

sublocale hmac_digest \<subseteq> mac: stream "Hmac_update V" "authenticating key" for key
  by unfold_locales (rule update_authenticates)

context hmac_digest begin

lemma message_mac:
  assumes "ok d" "length key < 2 ^ 64" "length (m_pK0_xor_ipad s) = 144" "length (m_pK0_xor_opad s) = 144"
    and "B + length (concat xs) \<le> lim" "L \<le> length out"
  shows "\<exists>s'. hmac_message V key xs out d s
      = Some (ALC_ERROR_NONE, s', Some (hmac_spec H B (used_key key) (concat xs) @ drop L out))
    \<and> keyed (used_key key) s' \<and> m_finalized s'"
proof -
  obtain s1 where s1: "hmac_wrapperInit V (Some key) (of_nat (length key)) (Some d) s = Some (ALC_ERROR_NONE, s1)"
    "authenticating (used_key key) [] s1"
    using wrapperInit_authenticates [OF assms(1-4)] by blast
  obtain s2 where s2: "feed (Hmac_update V) xs s1 = Some (ALC_ERROR_NONE, s2)" "authenticating (used_key key) (concat xs) s2"
    using mac.feed_taken [OF s1(2), of xs] by auto
  show ?thesis using s1(1) s2(1) finalize_mac [OF s2(2) assms(5,6)] by (auto simp: hmac_message_def)
qed

lemma again_mac:
  assumes "keyed key s" "B + length (concat xs) \<le> lim" "L \<le> length out"
  shows "\<exists>s'. hmac_again V xs out s
      = Some (ALC_ERROR_NONE, s', Some (hmac_spec H B key (concat xs) @ drop L out))
    \<and> keyed key s' \<and> m_finalized s'"
proof -
  obtain s1 where s1: "Hmac_reset V s = Some (ALC_ERROR_NONE, s1)" "authenticating key [] s1"
    using reset_authenticates [OF assms(1)] by blast
  obtain s2 where s2: "feed (Hmac_update V) xs s1 = Some (ALC_ERROR_NONE, s2)" "authenticating key (concat xs) s2"
    using mac.feed_taken [OF s1(2), of xs] by auto
  show ?thesis using s1(1) s2(1) finalize_mac [OF s2(2) assms(2,3)] by (auto simp: hmac_again_def)
qed

text \<open>Two messages under one key, the second after \<^verbatim>\<open>reset\<close>.\<close>

lemma message_mac_twice:
  assumes "ok d" "length key < 2 ^ 64" "length (m_pK0_xor_ipad s) = 144" "length (m_pK0_xor_opad s) = 144"
    and "B + length (concat xs) \<le> lim" "B + length (concat ys) \<le> lim" "L \<le> length out"
  shows "\<exists>s1 s2. hmac_message V key xs out d s
      = Some (ALC_ERROR_NONE, s1, Some (hmac_spec H B (used_key key) (concat xs) @ drop L out))
    \<and> hmac_again V ys out s1
      = Some (ALC_ERROR_NONE, s2, Some (hmac_spec H B (used_key key) (concat ys) @ drop L out))"
  using message_mac [OF assms(1-5,7)] again_mac [OF _ assms(6,7)] by blast

lemma message_truncated:
  assumes "ok d" "length key < 2 ^ 64" "length (m_pK0_xor_ipad s) = 144" "length (m_pK0_xor_opad s) = 144"
    and "B + length (concat xs) \<le> lim" "length out < L"
  shows "\<exists>s'. hmac_message V key xs out d s = Some (ALC_ERROR_INVALID_ARG, s', Some out) \<and> \<not> m_finalized s'"
proof -
  obtain s1 where s1: "hmac_wrapperInit V (Some key) (of_nat (length key)) (Some d) s = Some (ALC_ERROR_NONE, s1)"
    "authenticating (used_key key) [] s1"
    using wrapperInit_authenticates [OF assms(1-4)] by blast
  obtain s2 where s2: "feed (Hmac_update V) xs s1 = Some (ALC_ERROR_NONE, s2)" "authenticating (used_key key) (concat xs) s2"
    using mac.feed_taken [OF s1(2), of xs] by auto
  show ?thesis using s1(1) s2(1) finalize_truncated [OF s2(2) assms(5,6)] by (auto simp: hmac_message_def)
qed

end

section \<open>The instances\<close>

lemma Sha2_hmac:
  assumes d: "d = 224 \<or> d = 256"
  shows "hmac_digest (Sha2_ops d base) (Sha2_ok d) (Sha2_holds d) (sha256_spec d) 64 (d div 8) (2 ^ 61 - 1)"
proof (intro hmac_digest.intro hmac_digest_axioms.intro)
  show "digest (Sha2_ops d base) (Sha2_ok d) (Sha2_holds d) (sha256_spec d) 64 (d div 8) (2 ^ 61 - 1)"
    using d by (rule Sha2_digest)
qed (use d in \<open>auto simp: Sha2_ops_def Sha2_finalize_def Sha2_holds_def\<close>)

lemma Sha2_512_hmac:
  assumes d: "d \<in> {224, 256, 384, 512}" and base: "8 dvd base"
  shows "hmac_digest (Sha2_512_ops d base) (Sha2_512_ok d) (Sha2_512_holds d) (sha512_spec d) 128 (d div 8)
    (2 ^ 61 - 1)"
proof (intro hmac_digest.intro hmac_digest_axioms.intro)
  show "digest (Sha2_512_ops d base) (Sha2_512_ok d) (Sha2_512_holds d) (sha512_spec d) 128 (d div 8) (2 ^ 61 - 1)"
    using d base by (rule Sha2_512_digest)
  show "\<exists>s'. op_finalize (Sha2_512_ops d base) (Some out) s = Some (ALC_ERROR_INVALID_ARG, s', Some out)"
    if "Sha2_512_holds d m s" "length m \<le> 2 ^ 61 - 1" "length out \<noteq> d div 8" for m s out
    using that Sha2_512_finalize_closes [of d m s base "Some out"] base
    by (auto simp: Sha2_512_ops_def Let_def)
qed (use d in auto)

lemma Sha3_hmac:
  assumes v: "\<not> is_shake v"
  shows "hmac_digest (Sha3_ops v base) (Sha3_ok v) (Sha3_holds v) (sha3_spec v) (Sha3_rate v)
    (Sha3_digest_bits v div 8) (2 ^ 61 - 1)"
proof (intro hmac_digest.intro hmac_digest_axioms.intro)
  show "digest (Sha3_ops v base) (Sha3_ok v) (Sha3_holds v) (sha3_spec v) (Sha3_rate v)
      (Sha3_digest_bits v div 8) (2 ^ 61 - 1)" by (rule Sha3_digest)
  show "\<exists>s'. op_finalize (Sha3_ops v base) (Some out) s = Some (ALC_ERROR_INVALID_ARG, s', Some out)"
    if "Sha3_holds v m s" "length m \<le> 2 ^ 61 - 1" "length out \<noteq> Sha3_digest_bits v div 8" for m s out
    using that v by (auto simp: Sha3_ops_def Sha3_finalize_def Sha3_holds_def Sha3_ok_def)
  show "Sha3_rate v \<le> cMaxInternalBlockLength" "Sha3_digest_bits v div 8 \<le> cMaxHashSize" "8 dvd Sha3_rate v"
    "Sha3_rate v + Sha3_digest_bits v div 8 \<le> 2 ^ 61 - 1"
    using v by (cases v; simp add: is_shake_def Sha3_rate_def Sha3_digest_bits_def)+
qed simp

interpretation hmac_sha256: hmac_digest "Sha2_ops 256 base" "Sha2_ok 256" "Sha2_holds 256" "sha256_spec 256"
    64 32 "2 ^ 61 - 1"
  for base using Sha2_hmac [of 256 base] by simp

interpretation hmac_sha512: hmac_digest "Sha2_512_ops 512 (64 * line)" "Sha2_512_ok 512" "Sha2_512_holds 512"
    "sha512_spec 512" 128 64 "2 ^ 61 - 1"
  for line using Sha2_512_hmac [of 512 "64 * line"] by simp

interpretation hmac_sha3_256: hmac_digest "Sha3_ops Sha3_256 base" "Sha3_ok Sha3_256" "Sha3_holds Sha3_256"
    "sha3_spec Sha3_256" "Sha3_rate Sha3_256" "Sha3_digest_bits Sha3_256 div 8" "2 ^ 61 - 1"
  for base by (rule Sha3_hmac) (simp add: is_shake_def)

section \<open>Properties\<close>

text \<open>
  C7: HMAC over SHA-224/256 is RFC 2104 for every key below 2^32 bytes, short or longer than a block,
  and for every message in any pieces. A longer key is cut to its length modulo 2^32, since the
  64-bit length of the C interface becomes a \<^verbatim>\<open>Uint32\<close>: the tag is then that of the cut key.
  The output buffer may be longer than the tag, its rest is kept; and after \<^verbatim>\<open>reset\<close> the same
  object computes the tag of another message under the same key.
\<close>
theorem Hmac_Sha2:
  assumes "d = 224 \<or> d = 256" "Sha2_ok d dg" "length key < 2 ^ 64" "length (concat xs) < 2 ^ 61 - 64"
    and "length (concat ys) < 2 ^ 61 - 64" "d div 8 \<le> length out"
  shows "let k = (if length key < 2 ^ 32 then key else take (length key mod 2 ^ 32) key) in
    \<exists>s1 s2. hmac_message (Sha2_ops d base) key xs out dg Hmac_ctor
      = Some (ALC_ERROR_NONE, s1, Some (hmac_spec (sha256_spec d) 64 k (concat xs) @ drop (d div 8) out))
    \<and> hmac_again (Sha2_ops d base) ys out s1
      = Some (ALC_ERROR_NONE, s2, Some (hmac_spec (sha256_spec d) 64 k (concat ys) @ drop (d div 8) out))"
  using hmac_digest.message_mac_twice [OF Sha2_hmac [OF assms(1)] assms(2), of key Hmac_ctor xs ys out base] assms
  by (simp add: Hmac_ctor_def used_key_def Let_def)

theorem Hmac_Sha2_witness:
  "\<exists>s1 s2. hmac_message (Sha2_ops 256 0) (replicate 100 7) [[1], [2, 3]] (replicate 40 0) (Sha2_ctor 256) Hmac_ctor
      = Some (ALC_ERROR_NONE, s1,
          Some (hmac_spec (sha256_spec 256) 64 (replicate 100 7) [1, 2, 3] @ replicate 8 0))
    \<and> hmac_again (Sha2_ops 256 0) [] (replicate 40 0) s1
      = Some (ALC_ERROR_NONE, s2, Some (hmac_spec (sha256_spec 256) 64 (replicate 100 7) [] @ replicate 8 0))"
  using Hmac_Sha2 [of 256 "Sha2_ctor 256" "replicate 100 7" "[[1], [2, 3]]" "[]" "replicate 40 0" 0]
  by (simp add: Sha2_ok_def Sha2_ctor_def Let_def)

text \<open>
  HMAC over SHA-384, SHA-512, SHA-512/224 and SHA-512/256 is RFC 2104, with the same
  reuse after \<^verbatim>\<open>reset\<close>.
\<close>
theorem Hmac_Sha2_512:
  assumes "d \<in> {224, 256, 384, 512}" "64 dvd base" "Sha2_512_ok d dg" "length key < 2 ^ 64"
    and "length (concat xs) < 2 ^ 61 - 128" "length (concat ys) < 2 ^ 61 - 128" "d div 8 \<le> length out"
  shows "let k = (if length key < 2 ^ 32 then key else take (length key mod 2 ^ 32) key) in
    \<exists>s1 s2. hmac_message (Sha2_512_ops d base) key xs out dg Hmac_ctor
      = Some (ALC_ERROR_NONE, s1, Some (hmac_spec (sha512_spec d) 128 k (concat xs) @ drop (d div 8) out))
    \<and> hmac_again (Sha2_512_ops d base) ys out s1
      = Some (ALC_ERROR_NONE, s2, Some (hmac_spec (sha512_spec d) 128 k (concat ys) @ drop (d div 8) out))"
proof -
  have "8 dvd base" using assms(2) dvd_trans [of 8 64 base] by simp
  then show ?thesis
    using hmac_digest.message_mac_twice [OF Sha2_512_hmac [OF assms(1)] assms(3), of base key Hmac_ctor xs ys out] assms
    by (simp add: Hmac_ctor_def used_key_def Let_def)
qed

theorem Hmac_Sha2_512_witness:
  "\<exists>s1 s2. hmac_message (Sha2_512_ops 384 64) [1, 2] [replicate 300 1] (replicate 48 0) (Sha2_512_ctor 384) Hmac_ctor
      = Some (ALC_ERROR_NONE, s1, Some (hmac_spec (sha512_spec 384) 128 [1, 2] (replicate 300 1)))
    \<and> hmac_again (Sha2_512_ops 384 64) [[5]] (replicate 48 0) s1
      = Some (ALC_ERROR_NONE, s2, Some (hmac_spec (sha512_spec 384) 128 [1, 2] [5]))"
  using Hmac_Sha2_512 [of 384 64 "Sha2_512_ctor 384" "[1, 2]" "[replicate 300 1]" "[[5]]" "replicate 48 0"]
  by (simp add: Sha2_512_ok_def Sha2_512_ctor_def Let_def)

text \<open>
  C8: HMAC over SHA3-224/256/384/512 is RFC 2104 with the sponge rate as block length (up to
  the 144 bytes the class reserves), for every key below 2^32 bytes; a longer one is cut to its
  length modulo 2^32 as in the property above.
\<close>
theorem Hmac_Sha3:
  assumes "\<not> is_shake v" "Sha3_ok v dg" "length key < 2 ^ 64" "length (concat xs) < 2 ^ 61 - 144"
    and "length (concat ys) < 2 ^ 61 - 144" "Sha3_digest_bits v div 8 \<le> length out"
  shows "let k = (if length key < 2 ^ 32 then key else take (length key mod 2 ^ 32) key) in
    \<exists>s1 s2. hmac_message (Sha3_ops v base) key xs out dg Hmac_ctor
      = Some (ALC_ERROR_NONE, s1,
          Some (hmac_spec (sha3_spec v) (Sha3_rate v) k (concat xs) @ drop (Sha3_digest_bits v div 8) out))
    \<and> hmac_again (Sha3_ops v base) ys out s1
      = Some (ALC_ERROR_NONE, s2,
          Some (hmac_spec (sha3_spec v) (Sha3_rate v) k (concat ys) @ drop (Sha3_digest_bits v div 8) out))"
proof -
  have "Sha3_rate v \<le> 144"
    using assms(1) by (cases v) (simp_all add: is_shake_def Sha3_rate_def Sha3_digest_bits_def)
  then show ?thesis
    using hmac_digest.message_mac_twice [OF Sha3_hmac [OF assms(1)] assms(2), of key Hmac_ctor xs ys out base] assms
    by (simp add: Hmac_ctor_def used_key_def Let_def)
qed

theorem Hmac_Sha3_witness:
  "\<exists>s1 s2. hmac_message (Sha3_ops Sha3_512 0) [9] [[1, 2]] (replicate 64 0) (Sha3_ctor Sha3_512) Hmac_ctor
      = Some (ALC_ERROR_NONE, s1, Some (hmac_spec (sha3_spec Sha3_512) (Sha3_rate Sha3_512) [9] [1, 2]))
    \<and> hmac_again (Sha3_ops Sha3_512 0) [] (replicate 64 0) s1
      = Some (ALC_ERROR_NONE, s2, Some (hmac_spec (sha3_spec Sha3_512) (Sha3_rate Sha3_512) [9] []))"
  using Hmac_Sha3 [of Sha3_512 "Sha3_ctor Sha3_512" "[9]" "[[1, 2]]" "[]" "replicate 64 0" 0]
  by (simp add: Sha3_ctor_ok is_shake_def Sha3_digest_bits_def Let_def)

text \<open>
  A tag shorter than the digest cannot be taken from SHA-2: \<^verbatim>\<open>Hmac::finalize\<close> passes the
  smaller size to the digest, which refuses it. The call returns
  \<^verbatim>\<open>ALC_ERROR_INVALID_ARG\<close>, writes nothing, and does not mark the object as finalized although
  the message has been consumed.
\<close>
theorem Hmac_truncation_refused:
  assumes "d = 224 \<or> d = 256" "Sha2_ok d dg" "length key < 2 ^ 64" "length (concat xs) < 2 ^ 61 - 64"
    and "length out < d div 8"
  shows "\<exists>s'. hmac_message (Sha2_ops d base) key xs out dg Hmac_ctor = Some (ALC_ERROR_INVALID_ARG, s', Some out)
    \<and> \<not> m_finalized s'"
  using hmac_digest.message_truncated [OF Sha2_hmac [OF assms(1)] assms(2), of key Hmac_ctor xs out base] assms
  by (simp add: Hmac_ctor_def)

theorem Hmac_truncation_refused_witness:
  "\<exists>s'. hmac_message (Sha2_ops 256 0) [1] [[2]] (replicate 16 0) (Sha2_ctor 256) Hmac_ctor
      = Some (ALC_ERROR_INVALID_ARG, s', Some (replicate 16 0)) \<and> \<not> m_finalized s'"
  using Hmac_truncation_refused [of 256 "Sha2_ctor 256" "[1]" "[[2]]" "replicate 16 0" 0]
  by (simp add: Sha2_ok_def Sha2_ctor_def Let_def)

text \<open>
  The state machine of the class: before \<^verbatim>\<open>init\<close> and after \<^verbatim>\<open>finalize\<close> both \<^verbatim>\<open>update\<close> and
  \<^verbatim>\<open>finalize\<close> return \<^verbatim>\<open>ALC_ERROR_BAD_STATE\<close> and change nothing, whatever the digest; a null key
  or digest is refused; an empty or null update is a no-op on a running object.
\<close>
theorem Hmac_state_errors:
  "(\<not> m_isInit s \<or> m_finalized s \<longrightarrow>
      Hmac_update V x s = Some (ALC_ERROR_BAD_STATE, s)
      \<and> Hmac_finalize V buf s = Some (ALC_ERROR_BAD_STATE, s, buf))
   \<and> Hmac_init V None n dg s = Some (ALC_ERROR_INVALID_ARG, s)
   \<and> Hmac_init V key n None s = Some (ALC_ERROR_INVALID_ARG, s)
   \<and> (m_isInit s \<and> \<not> m_finalized s \<longrightarrow>
      Hmac_update V None s = Some (ALC_ERROR_NONE, s) \<and> Hmac_update V (Some []) s = Some (ALC_ERROR_NONE, s))"
  by (auto simp: Hmac_update_def Hmac_finalize_def Hmac_init_def split: option.split)

theorem Hmac_state_errors_witness:
  "Hmac_update (Sha2_ops 256 0) (Some [1]) (Hmac_ctor :: sha2 hmac) = Some (ALC_ERROR_BAD_STATE, Hmac_ctor)
   \<and> Hmac_update (Sha2_ops 256 0) None ((Hmac_ctor :: sha2 hmac)\<lparr>m_isInit := True\<rparr>)
     = Some (ALC_ERROR_NONE, Hmac_ctor\<lparr>m_isInit := True\<rparr>)"
  using Hmac_state_errors [where V = "Sha2_ops 256 0" and s = "Hmac_ctor :: sha2 hmac" and x = "Some [1]"]
    Hmac_state_errors [where V = "Sha2_ops 256 0" and s = "(Hmac_ctor :: sha2 hmac)\<lparr>m_isInit := True\<rparr>"]
  by (simp add: Hmac_ctor_def)

end
