(* ===== verification/Drbg.thy ===== *)
theory Drbg imports Bytes "HOL-Library.Monad_Syntax" begin

text \<open>
  The part every random bit generator shares, \<^verbatim>\<open>lib/rng/drbg.cc\<close>, on two interfaces: the
  entropy source (\<^verbatim>\<open>IRng\<close>) and the generator's own virtual functions. The source built from
  the caller's buffers is the one of \<^verbatim>\<open>lib/rng/drbg_builder.cc\<close>. \<open>None\<close> is undefined behaviour.
\<close>

section \<open>The interfaces\<close>

text \<open>\<open>randomize\<close> gets the buffer to fill and returns it as the call leaves it.\<close>

record 'e rng_ops =
  rng_randomize :: "u8 list \<Rightarrow> 'e \<Rightarrow> (alc_error \<times> u8 list \<times> 'e) option"
  rng_setPredictionResistance :: "bool \<Rightarrow> 'e \<Rightarrow> 'e"

text \<open>Additional input is a pointer: \<open>None\<close> is null, with the length zero.\<close>

record 'i drbg_ops =
  do_instantiate :: "u8 list \<Rightarrow> u8 list \<Rightarrow> u8 list \<Rightarrow> 'i \<Rightarrow> 'i option"
  do_generate :: "u8 list option \<Rightarrow> nat \<Rightarrow> 'i \<Rightarrow> (u8 list \<times> 'i) option"
  do_internalReseed :: "u8 list \<Rightarrow> u8 list option \<Rightarrow> 'i \<Rightarrow> 'i option"

definition ptr_bytes :: "u8 list option \<Rightarrow> u8 list" where
  "ptr_bytes p = (case p of None \<Rightarrow> [] | Some x \<Rightarrow> x)"

section \<open>The generator object\<close>

record ('e, 'i) drbg =
  m_entropy_in :: "'e option"
  m_prediction_resistance :: bool
  m_entropy_len :: nat
  m_nonce_len :: nat
  drbg_impl :: 'i

definition Drbg_ctor :: "'i \<Rightarrow> ('e, 'i) drbg" where
  "Drbg_ctor impl = \<lparr>m_entropy_in = None, m_prediction_resistance = False, m_entropy_len = 0, m_nonce_len = 0,
     drbg_impl = impl\<rparr>"

definition setEntropyLen :: "nat \<Rightarrow> ('e, 'i) drbg \<Rightarrow> ('e, 'i) drbg" where
  "setEntropyLen n s = s\<lparr>m_entropy_len := n\<rparr>"

definition setNonceLen :: "nat \<Rightarrow> ('e, 'i) drbg \<Rightarrow> ('e, 'i) drbg" where
  "setNonceLen n s = s\<lparr>m_nonce_len := n\<rparr>"

text \<open>One request to the source for a zeroed vector; a null source is only dereferenced here.\<close>

definition draw :: "'e rng_ops \<Rightarrow> nat \<Rightarrow> ('e, 'i) drbg \<Rightarrow> (alc_error \<times> u8 list \<times> ('e, 'i) drbg) option" where
  "draw R n s = do {
     e \<leftarrow> m_entropy_in s;
     (err, bytes, e) \<leftarrow> rng_randomize R (replicate n 0) e;
     Some (err, bytes, s\<lparr>m_entropy_in := Some e\<rparr>)
   }"

definition Drbg_initialize ::
  "'e rng_ops \<Rightarrow> 'i drbg_ops \<Rightarrow> u8 list \<Rightarrow> ('e, 'i) drbg \<Rightarrow> (alc_error \<times> ('e, 'i) drbg) option" where
  "Drbg_initialize R D personalization s = do {
     (err, entropy, s) \<leftarrow> (if m_entropy_len s \<noteq> 0 then draw R (m_entropy_len s) s else Some (ALC_ERROR_NONE, [], s));
     if alcp_is_error err then Some (err, s)
     else do {
       (err, nonce, s) \<leftarrow> (if m_nonce_len s \<noteq> 0 then draw R (m_nonce_len s) s else Some (err, [], s));
       if alcp_is_error err then Some (err, s)
       else do {
         impl \<leftarrow> do_instantiate D entropy nonce personalization (drbg_impl s);
         Some (err, s\<lparr>drbg_impl := impl\<rparr>)
       }
     }
   }"

text \<open>The value is the error, the bytes written to the output, and the object.\<close>

definition Drbg_randomize ::
  "'e rng_ops \<Rightarrow> 'i drbg_ops \<Rightarrow> nat \<Rightarrow> u8 list option \<Rightarrow> ('e, 'i) drbg \<Rightarrow> (alc_error \<times> u8 list \<times> ('e, 'i) drbg) option" where
  "Drbg_randomize R D cOutputLength additional s = do {
     (err, s) \<leftarrow>
       (if m_prediction_resistance s then do {
          (err, entropy, s) \<leftarrow> draw R 128 s;
          if alcp_is_error err then Some (err, s)
          else do {
            impl \<leftarrow> do_internalReseed D entropy additional (drbg_impl s);
            Some (err, s\<lparr>drbg_impl := impl\<rparr>)
          }
        }
        else Some (ALC_ERROR_NONE, s));
     if alcp_is_error err then Some (err, [], s)
     else do {
       (out, impl) \<leftarrow> do_generate D additional cOutputLength (drbg_impl s);
       Some (err, out, s\<lparr>drbg_impl := impl\<rparr>)
     }
   }"

text \<open>The overload on a vector passes null for an empty one; the two shorter forms use it.\<close>

definition Drbg_randomize_vector ::
  "'e rng_ops \<Rightarrow> 'i drbg_ops \<Rightarrow> nat \<Rightarrow> u8 list \<Rightarrow> ('e, 'i) drbg \<Rightarrow> (alc_error \<times> u8 list \<times> ('e, 'i) drbg) option" where
  "Drbg_randomize_vector R D n additional s = Drbg_randomize R D n (if additional = [] then None else Some additional) s"

definition Drbg_readRandom ::
  "'e rng_ops \<Rightarrow> 'i drbg_ops \<Rightarrow> nat \<Rightarrow> ('e, 'i) drbg \<Rightarrow> (alc_error \<times> u8 list \<times> ('e, 'i) drbg) option" where
  "Drbg_readRandom R D n s = Drbg_randomize_vector R D n [] s"

definition Drbg_setRng :: "'e option \<Rightarrow> ('e, 'i) drbg \<Rightarrow> alc_error \<times> ('e, 'i) drbg" where
  "Drbg_setRng entropyIn s =
     (case entropyIn of None \<Rightarrow> (ALC_ERROR_INVALID_ARG, s) | Some e \<Rightarrow> (ALC_ERROR_NONE, s\<lparr>m_entropy_in := Some e\<rparr>))"

definition Drbg_setPredictionResistance :: "'e rng_ops \<Rightarrow> bool \<Rightarrow> ('e, 'i) drbg \<Rightarrow> alc_error \<times> ('e, 'i) drbg" where
  "Drbg_setPredictionResistance R val s =
     (let s = s\<lparr>m_prediction_resistance := val\<rparr>
      in case m_entropy_in s of
           None \<Rightarrow> (ALC_ERROR_NO_ENTROPY, s)
         | Some e \<Rightarrow> (ALC_ERROR_NONE, s\<lparr>m_entropy_in := Some (rng_setPredictionResistance R val e)\<rparr>))"

section \<open>The source of the caller's bytes\<close>

record custom_rng =
  cr_entropy :: "u8 list"
  cr_nonce :: "u8 list"
  m_call_count :: nat

text \<open>The first call copies from the entropy, the second from the nonce; later ones print and report success.\<close>

definition CustomRng_randomize :: "u8 list \<Rightarrow> custom_rng \<Rightarrow> (alc_error \<times> u8 list \<times> custom_rng) option" where
  "CustomRng_randomize buf s =
     (let n = length buf in
      if m_call_count s = 0 then
        (if n \<le> length (cr_entropy s) then Some (ALC_ERROR_NONE, take n (cr_entropy s), s\<lparr>m_call_count := 1\<rparr>) else None)
      else if m_call_count s = 1 then
        (if n \<le> length (cr_nonce s) then Some (ALC_ERROR_NONE, take n (cr_nonce s), s\<lparr>m_call_count := 2\<rparr>) else None)
      else Some (ALC_ERROR_NONE, buf, s))"

definition CustomRng_ops :: "custom_rng rng_ops" where
  "CustomRng_ops = \<lparr>rng_randomize = CustomRng_randomize, rng_setPredictionResistance = (\<lambda>_ s. s)\<rparr>"

definition CustomRng_reset :: "custom_rng \<Rightarrow> custom_rng" where
  "CustomRng_reset s = s\<lparr>m_call_count := 0, cr_entropy := [], cr_nonce := []\<rparr>"

text \<open>\<^verbatim>\<open>DrbgBuilder::build\<close> for a custom source: the check of the lengths, the source and the two lengths.\<close>

definition build_custom ::
  "u8 list option \<Rightarrow> u8 list \<Rightarrow> nat \<Rightarrow> nat \<Rightarrow> 'i \<Rightarrow> alc_error + (custom_rng, 'i) drbg" where
  "build_custom entropy nonce max_entropy_len max_nonce_len impl =
     (case entropy of
        None \<Rightarrow> Inl ALC_ERROR_INVALID_ARG
      | Some e \<Rightarrow>
          if length nonce \<noteq> max_nonce_len \<and> length e \<noteq> max_entropy_len then Inl ALC_ERROR_INVALID_ARG
          else
            let irng = \<lparr>cr_entropy = e, cr_nonce = nonce, m_call_count = 0\<rparr>;
                (err, s) = Drbg_setRng (Some irng) (Drbg_ctor impl)
            in if alcp_is_error err then Inl err
               else Inr (setNonceLen max_nonce_len (setEntropyLen max_entropy_len s)))"

section \<open>What a generator promises\<close>

text \<open>
  \<open>models a i\<close> says that the implementation \<open>i\<close> is in the working state \<open>a\<close> of the standard, whose
  three functions are \<open>s_inst\<close>, \<open>s_gen\<close> and \<open>s_reseed\<close>; \<open>idle\<close> is an implementation that can be
  instantiated, \<open>admits\<close> the seeds it is promised for, and \<open>fits\<close> and \<open>rfits\<close> bound the inputs of
  \<open>generate\<close> and of a reseed.
\<close>

locale drbg_core =
  fixes D :: "'i drbg_ops"
    and idle :: "'i \<Rightarrow> bool"
    and models :: "'a \<Rightarrow> 'i \<Rightarrow> bool"
    and s_inst :: "u8 list \<Rightarrow> u8 list \<Rightarrow> u8 list \<Rightarrow> 'a"
    and s_gen :: "u8 list \<Rightarrow> nat \<Rightarrow> 'a \<Rightarrow> u8 list \<times> 'a"
    and s_reseed :: "u8 list \<Rightarrow> u8 list \<Rightarrow> 'a \<Rightarrow> 'a"
    and admits :: "u8 list \<Rightarrow> u8 list \<Rightarrow> u8 list \<Rightarrow> bool"
    and fits :: "nat \<Rightarrow> bool"
    and rfits :: "nat \<Rightarrow> bool"
  assumes instantiate_models:
      "idle i \<Longrightarrow> admits e n q \<Longrightarrow>
       \<exists>i'. do_instantiate D e n q i = Some i' \<and> models (s_inst e n q) i'"
    and generate_models:
      "models a i \<Longrightarrow> fits (length (ptr_bytes p)) \<Longrightarrow>
       \<exists>i'. do_generate D p k i = Some (fst (s_gen (ptr_bytes p) k a), i') \<and> models (snd (s_gen (ptr_bytes p) k a)) i'"
    and reseed_models:
      "models a i \<Longrightarrow> rfits (length e + length (ptr_bytes p)) \<Longrightarrow>
       \<exists>i'. do_internalReseed D e p i = Some i' \<and> models (s_reseed e (ptr_bytes p) a) i'"
begin

lemma initialize_models:
  assumes "idle (drbg_impl s)" "admits e n p" "length e = m_entropy_len s" "length n = m_nonce_len s"
    "0 < length e" "0 < length n" "m_entropy_in s = Some r0"
    "rng_randomize R (replicate (m_entropy_len s) 0) r0 = Some (ALC_ERROR_NONE, e, r1)"
    "rng_randomize R (replicate (m_nonce_len s) 0) r1 = Some (ALC_ERROR_NONE, n, r2)"
  shows "\<exists>i. Drbg_initialize R D p s = Some (ALC_ERROR_NONE, s\<lparr>m_entropy_in := Some r2, drbg_impl := i\<rparr>) \<and>
    models (s_inst e n p) i"
  using instantiate_models [OF assms(1,2)] assms(3-)
  by (auto simp: Drbg_initialize_def draw_def)

end

section \<open>A life of requests\<close>

text \<open>Requests one after the other, each with its additional input and length; the outputs.\<close>

fun drbg_run ::
  "'e rng_ops \<Rightarrow> 'i drbg_ops \<Rightarrow> (u8 list option \<times> nat) list \<Rightarrow> ('e, 'i) drbg \<Rightarrow> (alc_error \<times> u8 list list \<times> ('e, 'i) drbg) option"
where
  "drbg_run R D [] s = Some (ALC_ERROR_NONE, [], s)"
| "drbg_run R D ((p, k) # qs) s = do {
     (err, out, s) \<leftarrow> Drbg_randomize R D k p s;
     if alcp_is_error err then Some (err, [], s)
     else do { (err, outs, s) \<leftarrow> drbg_run R D qs s; Some (err, out # outs, s) }
   }"

text \<open>What the source delivers, call by call.\<close>

fun supplies :: "'e rng_ops \<Rightarrow> 'e \<Rightarrow> u8 list list \<Rightarrow> bool" where
  "supplies R r [] = True"
| "supplies R r (e # es) =
     (case rng_randomize R (replicate (length e) 0) r of
        Some (ALC_ERROR_NONE, e', r') \<Rightarrow> e' = e \<and> supplies R r' es
      | _ \<Rightarrow> False)"

text \<open>A source that hands out the parts of a list, for concrete runs.\<close>

definition list_rng :: "u8 list list rng_ops" where
  "list_rng = \<lparr>rng_randomize = (\<lambda>buf parts. case parts of [] \<Rightarrow> None | e # es \<Rightarrow> Some (ALC_ERROR_NONE, e, es)),
     rng_setPredictionResistance = (\<lambda>_ parts. parts)\<rparr>"

lemma list_rng_supplies: "supplies list_rng es es"
  by (induction es) (simp_all add: list_rng_def)

text \<open>
  What the calls of \<^verbatim>\<open>drbg.cc\<close> deliver, in terms of the generator's two functions: with entropy in
  \<open>es\<close> every request is a reseed and a \<open>generate\<close>, and both get the additional input.
\<close>

fun drbg_outputs ::
  "(u8 list \<Rightarrow> nat \<Rightarrow> 'a \<Rightarrow> u8 list \<times> 'a) \<Rightarrow> (u8 list \<Rightarrow> u8 list \<Rightarrow> 'a \<Rightarrow> 'a) \<Rightarrow> u8 list list \<Rightarrow>
   (u8 list option \<times> nat) list \<Rightarrow> 'a \<Rightarrow> u8 list list" where
  "drbg_outputs gen reseed es [] a = []"
| "drbg_outputs gen reseed [] ((p, k) # qs) a =
     (let (out, a) = gen (ptr_bytes p) k a in out # drbg_outputs gen reseed [] qs a)"
| "drbg_outputs gen reseed (e # es) ((p, k) # qs) a =
     (let (out, a) = gen (ptr_bytes p) k (reseed e (ptr_bytes p) a) in out # drbg_outputs gen reseed es qs a)"

section \<open>NIST SP 800-90A\<close>

text \<open>
  The generate function of section 9.3.1, request after request, with the limits of table 2 in
  bytes and the reseed counter \<open>c\<close>. With prediction resistance the additional input goes into the
  reseed, which sets the counter to one, and \<open>generate\<close> gets the null string (step 7.4). \<open>None\<close> is
  a request that the standard refuses or for which it demands a reseed first.
\<close>

definition std_limits :: "u8 list \<Rightarrow> nat \<Rightarrow> bool" where
  "std_limits additional k \<longleftrightarrow> k \<le> 2 ^ 16 \<and> length additional \<le> 2 ^ 32"

fun std_run ::
  "(u8 list \<Rightarrow> nat \<Rightarrow> 'a \<Rightarrow> u8 list \<times> 'a) \<Rightarrow> (u8 list \<Rightarrow> u8 list \<Rightarrow> 'a \<Rightarrow> 'a) \<Rightarrow> u8 list list \<Rightarrow>
   (u8 list option \<times> nat) list \<Rightarrow> nat \<Rightarrow> 'a \<Rightarrow> u8 list list option" where
  "std_run gen reseed es [] c a = Some []"
| "std_run gen reseed [] ((p, k) # qs) c a =
     (if \<not> std_limits (ptr_bytes p) k \<or> 2 ^ 48 < c then None
      else let (out, a) = gen (ptr_bytes p) k a in map_option ((#) out) (std_run gen reseed [] qs (c + 1) a))"
| "std_run gen reseed (e # es) ((p, k) # qs) c a =
     (if \<not> std_limits (ptr_bytes p) k then None
      else let (out, a) = gen [] k (reseed e (ptr_bytes p) a) in map_option ((#) out) (std_run gen reseed es qs 2 a))"

text \<open>Without additional input under prediction resistance, and inside the limits, the two agree.\<close>

lemma std_run_outputs:
  assumes "\<forall>(p, k)\<in>set qs. std_limits (ptr_bytes p) k \<and> (es \<noteq> [] \<longrightarrow> ptr_bytes p = [])"
    "0 < c" "c + length qs \<le> 2 ^ 48 + 1" "es = [] \<or> length es = length qs"
  shows "std_run gen reseed es qs c a = Some (drbg_outputs gen reseed es qs a)"
  using assms
proof (induction gen reseed es qs a arbitrary: c rule: drbg_outputs.induct)
  case (2 gen reseed p k qs a)
  have "std_run gen reseed [] qs (c + 1) (snd (gen (ptr_bytes p) k a))
      = Some (drbg_outputs gen reseed [] qs (snd (gen (ptr_bytes p) k a)))"
    using 2(1) [OF refl, of _ "snd (gen (ptr_bytes p) k a)" "c + 1"] 2(2-) by (cases "gen (ptr_bytes p) k a") auto
  then show ?case using 2(2-) by (simp add: case_prod_beta Let_def)
next
  case (3 gen reseed e es p k qs a)
  let ?g = "gen [] k (reseed e [] a)"
  have p: "ptr_bytes p = []" using 3(2) by auto
  have "std_run gen reseed es qs 2 (snd ?g) = Some (drbg_outputs gen reseed es qs (snd ?g))"
    using 3(1) [OF refl, of _ "snd ?g" 2] 3(2-) p by (cases ?g) auto
  then show ?case using 3(2-) p by (simp add: case_prod_beta Let_def)
qed simp

section \<open>Runs of the code\<close>

lemma supplies_Cons:
  "supplies R r (e # es) \<longleftrightarrow>
   (\<exists>r'. rng_randomize R (replicate (length e) 0) r = Some (ALC_ERROR_NONE, e, r') \<and> supplies R r' es)"
  by (auto split: option.splits alc_error.splits)

context drbg_core begin

lemma run_models:
  assumes "models a (drbg_impl s)" "\<forall>(p, k)\<in>set qs. fits (length (ptr_bytes p)) \<and> (m_prediction_resistance s \<longrightarrow> rfits (128 + length (ptr_bytes p)))"
    "if m_prediction_resistance s
     then length es = length qs \<and> (\<forall>e\<in>set es. length e = 128) \<and> (\<exists>r. m_entropy_in s = Some r \<and> supplies R r es)
     else es = []"
  shows "\<exists>s'. drbg_run R D qs s = Some (ALC_ERROR_NONE, drbg_outputs s_gen s_reseed es qs a, s')"
  using assms
proof (induction qs arbitrary: a s es)
  case (Cons q qs)
  obtain p k where q: "q = (p, k)" by (cases q)
  have f: "m_prediction_resistance s \<Longrightarrow> rfits (128 + length (ptr_bytes p))" "fits (length (ptr_bytes p))"
    using Cons.prems(2) q by auto
  show ?case
  proof (cases "m_prediction_resistance s")
    case True
    then obtain e es' r where es: "es = e # es'" "length e = 128" "m_entropy_in s = Some r" "supplies R r (e # es')"
      "length es' = length qs" "\<forall>e\<in>set es'. length e = 128"
      using Cons.prems(3) by (cases es) auto
    obtain r' where r': "rng_randomize R (replicate 128 0) r = Some (ALC_ERROR_NONE, e, r')" "supplies R r' es'"
      using es(2,4) unfolding supplies_Cons by auto
    obtain i1 where i1: "do_internalReseed D e p (drbg_impl s) = Some i1" "models (s_reseed e (ptr_bytes p) a) i1"
      using reseed_models [OF Cons.prems(1), of e p] f True es(2) by auto
    let ?g = "s_gen (ptr_bytes p) k (s_reseed e (ptr_bytes p) a)"
    obtain i2 where i2: "do_generate D p k i1 = Some (fst ?g, i2)" "models (snd ?g) i2"
      using generate_models [OF i1(2) f(2)] by blast
    let ?s = "s\<lparr>m_entropy_in := Some r', drbg_impl := i2\<rparr>"
    have "\<exists>s'. drbg_run R D qs ?s = Some (ALC_ERROR_NONE, drbg_outputs s_gen s_reseed es' qs (snd ?g), s')"
      by (rule Cons.IH) (use i2 Cons.prems(2) True es r' in auto)
    then show ?thesis
      using True es r' i1 i2 by (auto simp: q Drbg_randomize_def draw_def case_prod_beta Let_def)
  next
    case False
    let ?g = "s_gen (ptr_bytes p) k a"
    obtain i2 where i2: "do_generate D p k (drbg_impl s) = Some (fst ?g, i2)" "models (snd ?g) i2"
      using generate_models [OF Cons.prems(1) f(2)] by blast
    have "\<exists>s'. drbg_run R D qs (s\<lparr>drbg_impl := i2\<rparr>) = Some (ALC_ERROR_NONE, drbg_outputs s_gen s_reseed [] qs (snd ?g), s')"
      by (rule Cons.IH) (use i2 Cons.prems(2) False in auto)
    then show ?thesis
      using False i2 Cons.prems(3) by (auto simp: q Drbg_randomize_def case_prod_beta Let_def)
  qed
qed simp

text \<open>From the built object on.\<close>

lemma initialize_run:
  assumes "idle (drbg_impl s)" "admits e n q" "m_entropy_len s = length e" "m_nonce_len s = length n"
    "0 < length e" "0 < length n" "m_entropy_in s = Some r" "supplies R r (e # n # es)"
    "if m_prediction_resistance s then length es = length qs \<and> (\<forall>e\<in>set es. length e = 128) else es = []"
    "\<forall>(p, k)\<in>set qs. fits (length (ptr_bytes p)) \<and> (m_prediction_resistance s \<longrightarrow> rfits (128 + length (ptr_bytes p)))"
  shows "\<exists>s1 s2. Drbg_initialize R D q s = Some (ALC_ERROR_NONE, s1) \<and>
     drbg_run R D qs s1 = Some (ALC_ERROR_NONE, drbg_outputs s_gen s_reseed es qs (s_inst e n q), s2)"
proof -
  obtain r1 r2 where r: "rng_randomize R (replicate (length e) 0) r = Some (ALC_ERROR_NONE, e, r1)"
    "rng_randomize R (replicate (length n) 0) r1 = Some (ALC_ERROR_NONE, n, r2)" "supplies R r2 es"
    using assms(8) unfolding supplies_Cons by auto
  obtain i where i: "Drbg_initialize R D q s = Some (ALC_ERROR_NONE, s\<lparr>m_entropy_in := Some r2, drbg_impl := i\<rparr>)"
    "models (s_inst e n q) i"
    using initialize_models [OF assms(1,2) assms(3,4) [symmetric] assms(5-7) r(1) [folded assms(3)] r(2) [folded assms(4)]] by blast
  have "\<exists>s2. drbg_run R D qs (s\<lparr>m_entropy_in := Some r2, drbg_impl := i\<rparr>)
      = Some (ALC_ERROR_NONE, drbg_outputs s_gen s_reseed es qs (s_inst e n q), s2)"
    by (rule run_models) (use i(2) assms(9,10) r(3) in \<open>auto split: if_splits\<close>)
  then show ?thesis using i(1) by blast
qed

end

section \<open>Properties\<close>

text \<open>A source that fails stops \<open>initialize\<close> and \<open>randomize\<close> with its error: nothing is written to
  the output and the working state of the generator stays, whatever generator it is.
\<close>

theorem Drbg_source_error:
  assumes "m_entropy_in s = Some r0" "alcp_is_error err"
  shows "(m_entropy_len s \<noteq> 0 \<and> rng_randomize R (replicate (m_entropy_len s) 0) r0 = Some (err, e, r1) \<longrightarrow>
           Drbg_initialize R D p s = Some (err, s\<lparr>m_entropy_in := Some r1\<rparr>)) \<and>
    (m_prediction_resistance s \<and> rng_randomize R (replicate 128 0) r0 = Some (err, e, r1) \<longrightarrow>
           Drbg_randomize R D k add s = Some (err, [], s\<lparr>m_entropy_in := Some r1\<rparr>)) \<and>
    (\<not> m_prediction_resistance s \<longrightarrow> Drbg_randomize R D k add s
       = do { (out, impl) \<leftarrow> do_generate D add k (drbg_impl s); Some (ALC_ERROR_NONE, out, s\<lparr>drbg_impl := impl\<rparr>) })"
  using assms by (auto simp: Drbg_randomize_def Drbg_initialize_def draw_def)

definition failing_source :: "unit rng_ops" where
  "failing_source = \<lparr>rng_randomize = (\<lambda>b e. Some (ALC_ERROR_NO_ENTROPY, b, e)), rng_setPredictionResistance = (\<lambda>_ e. e)\<rparr>"

definition idle_generator :: "unit drbg_ops" where
  "idle_generator = \<lparr>do_instantiate = (\<lambda>_ _ _ i. Some i), do_generate = (\<lambda>_ n i. Some (replicate n 0, i)),
     do_internalReseed = (\<lambda>_ _ i. Some i)\<rparr>"

theorem Drbg_source_error_witness:
  "let s = \<lparr>m_entropy_in = Some (), m_prediction_resistance = True, m_entropy_len = 4, m_nonce_len = 0, drbg_impl = ()\<rparr>
   in Drbg_randomize failing_source idle_generator 8 None s = Some (ALC_ERROR_NO_ENTROPY, [], s) \<and>
      Drbg_initialize failing_source idle_generator [] s = Some (ALC_ERROR_NO_ENTROPY, s)"
  using Drbg_source_error [of "\<lparr>m_entropy_in = Some (), m_prediction_resistance = True, m_entropy_len = 4,
      m_nonce_len = 0, drbg_impl = ()\<rparr>" "()" ALC_ERROR_NO_ENTROPY failing_source "replicate 4 0" "()" idle_generator "[]" 8 None]
   Drbg_source_error [of "\<lparr>m_entropy_in = Some (), m_prediction_resistance = True, m_entropy_len = 4,
      m_nonce_len = 0, drbg_impl = ()\<rparr>" "()" ALC_ERROR_NO_ENTROPY failing_source "replicate 128 0" "()" idle_generator "[]" 8 None]
  by (simp add: alcp_is_error_def failing_source_def Let_def)

text \<open>A custom source whose two lengths are those of the generator hands exactly its bytes to
  \<open>instantiate\<close>. The builder refuses only when both lengths differ: with one of them right and
  the other too short the generator is built, and its first use reads past the caller's bytes.
\<close>

theorem build_custom_lengths:
  assumes "0 < max_entropy" "0 < max_nonce"
  shows "(length e = max_entropy \<and> length n = max_nonce \<longrightarrow>
      (\<exists>s. build_custom (Some e) n max_entropy max_nonce impl = Inr s \<and>
         Drbg_initialize CustomRng_ops D p s = do { i \<leftarrow> do_instantiate D e n p impl;
           Some (ALC_ERROR_NONE, s\<lparr>m_entropy_in := Some \<lparr>cr_entropy = e, cr_nonce = n, m_call_count = 2\<rparr>, drbg_impl := i\<rparr>) })) \<and>
    (length e \<noteq> max_entropy \<and> length n \<noteq> max_nonce \<longrightarrow>
      build_custom (Some e) n max_entropy max_nonce impl = Inl ALC_ERROR_INVALID_ARG) \<and>
    (length e < max_entropy \<and> length n = max_nonce \<or> length e = max_entropy \<and> length n < max_nonce \<longrightarrow>
      (\<exists>s. build_custom (Some e) n max_entropy max_nonce impl = Inr s \<and> Drbg_initialize CustomRng_ops D p s = None))"
  using assms
  by (auto simp: build_custom_def Drbg_setRng_def setNonceLen_def setEntropyLen_def Drbg_ctor_def Drbg_initialize_def
      draw_def CustomRng_ops_def CustomRng_randomize_def Let_def)

theorem build_custom_lengths_witness:
  "\<exists>s. build_custom (Some [1, 2]) [3] 48 1 () = Inr s \<and> Drbg_initialize CustomRng_ops idle_generator [] s = None"
  using build_custom_lengths [of 48 1 "[1, 2]" "[3]" "()" idle_generator "[]"] by simp

text \<open>After its two requests a custom source reports success and writes nothing, so a generator with
  prediction resistance reseeds from 128 zero bytes: its output no longer depends on any entropy
  but that of the instantiation.
\<close>

theorem CustomRng_exhausted:
  assumes "m_prediction_resistance s" "m_entropy_in s = Some r" "2 \<le> m_call_count r"
  shows "Drbg_randomize CustomRng_ops D k add s = do {
     i \<leftarrow> do_internalReseed D (replicate 128 0) add (drbg_impl s);
     (out, i) \<leftarrow> do_generate D add k i;
     Some (ALC_ERROR_NONE, out, s\<lparr>drbg_impl := i\<rparr>) }"
proof -
  have e: "s\<lparr>m_entropy_in := Some r, drbg_impl := i\<rparr> = s\<lparr>drbg_impl := i\<rparr>" for i using assms(2) by (cases s) simp
  show ?thesis
    using assms by (simp add: Drbg_randomize_def draw_def CustomRng_ops_def CustomRng_randomize_def Let_def e)
qed

theorem CustomRng_exhausted_witness:
  "let s = \<lparr>m_entropy_in = Some \<lparr>cr_entropy = [1], cr_nonce = [2], m_call_count = 2\<rparr>, m_prediction_resistance = True,
       m_entropy_len = 1, m_nonce_len = 1, drbg_impl = ()\<rparr>
   in Drbg_randomize CustomRng_ops idle_generator 3 None s = Some (ALC_ERROR_NONE, [0, 0, 0], s)"
  using CustomRng_exhausted [of "\<lparr>m_entropy_in = Some \<lparr>cr_entropy = [1], cr_nonce = [2], m_call_count = 2\<rparr>,
       m_prediction_resistance = True, m_entropy_len = 1, m_nonce_len = 1, drbg_impl = ()\<rparr>"
       "\<lparr>cr_entropy = [1], cr_nonce = [2], m_call_count = 2\<rparr>" idle_generator 3 None]
  by (simp add: Let_def idle_generator_def numeral_3_eq_3)

end
