(* ===== verification/Hmac_Drbg.thy ===== *)
theory Hmac_Drbg imports Hmac Drbg begin

text \<open>
  HMAC-DRBG, \<^verbatim>\<open>lib/rng/drbg_hmac.cc\<close>, on the HMAC object of \<open>Hmac\<close> and any digest, against
  section 10.1.2 of NIST SP 800-90A. The errors of the HMAC calls are dropped by the source.
\<close>

section \<open>NIST SP 800-90A\<close>

text \<open>The state is the pair of the key and the value; \<open>hm\<close> is HMAC.\<close>

definition hd_update :: "(u8 list \<Rightarrow> u8 list \<Rightarrow> u8 list) \<Rightarrow> u8 list \<Rightarrow> u8 list \<times> u8 list \<Rightarrow> u8 list \<times> u8 list" where
  "hd_update hm provided = (\<lambda>(K, V).
     let K = hm K (V @ [0x00] @ provided); V = hm K V
     in if provided = [] then (K, V)
        else let K = hm K (V @ [0x01] @ provided); V = hm K V in (K, V))"

definition hd_instantiate ::
  "(u8 list \<Rightarrow> u8 list \<Rightarrow> u8 list) \<Rightarrow> nat \<Rightarrow> u8 list \<Rightarrow> u8 list \<Rightarrow> u8 list \<Rightarrow> u8 list \<times> u8 list" where
  "hd_instantiate hm L entropy nonce personalization =
     hd_update hm (entropy @ nonce @ personalization) (replicate L 0x00, replicate L 0x01)"

definition hd_reseed ::
  "(u8 list \<Rightarrow> u8 list \<Rightarrow> u8 list) \<Rightarrow> u8 list \<Rightarrow> u8 list \<Rightarrow> u8 list \<times> u8 list \<Rightarrow> u8 list \<times> u8 list" where
  "hd_reseed hm entropy additional = hd_update hm (entropy @ additional)"

text \<open>The values after one, two, \<open>n\<close> steps, put together.\<close>

fun hd_stream :: "(u8 list \<Rightarrow> u8 list \<Rightarrow> u8 list) \<Rightarrow> u8 list \<Rightarrow> u8 list \<Rightarrow> nat \<Rightarrow> u8 list \<times> u8 list" where
  "hd_stream hm K V 0 = ([], V)"
| "hd_stream hm K V (Suc n) = (let V = hm K V; (rest, V') = hd_stream hm K V n in (V @ rest, V'))"

definition hd_generate ::
  "(u8 list \<Rightarrow> u8 list \<Rightarrow> u8 list) \<Rightarrow> nat \<Rightarrow> u8 list \<Rightarrow> nat \<Rightarrow> u8 list \<times> u8 list \<Rightarrow> u8 list \<times> u8 list \<times> u8 list" where
  "hd_generate hm L additional n st =
     (let (K, V) = (if additional = [] then st else hd_update hm additional st);
          (temp, V) = hd_stream hm K V ((n + L - 1) div L)
      in (take n temp, hd_update hm additional (K, V)))"

section \<open>The code\<close>

text \<open>The digest object is shared with the HMAC object, which leaves it in \<open>m_pDigest\<close>.\<close>

record 'd hmac_drbg =
  hd_digest :: "'d option"
  hd_v :: "u8 list"
  hd_key :: "u8 list"
  hd_hmac :: "'d hmac"

definition HmacDrbg_ctor :: "'d hmac_drbg" where
  "HmacDrbg_ctor = \<lparr>hd_digest = None, hd_v = [], hd_key = [], hd_hmac = Hmac_ctor\<rparr>"

definition HmacDrbg_setDigest :: "'d digest_ops \<Rightarrow> 'd \<Rightarrow> 'd hmac_drbg \<Rightarrow> 'd hmac_drbg" where
  "HmacDrbg_setDigest V d s =
     s\<lparr>hd_digest := Some d, hd_v := replicate (op_digest_len V d) 0, hd_key := replicate (op_digest_len V d) 0\<rparr>"

definition feed_opt :: "'d digest_ops \<Rightarrow> u8 list option \<Rightarrow> 'd hmac \<Rightarrow> 'd hmac option" where
  "feed_opt V p h =
     (case p of None \<Rightarrow> Some h
      | Some x \<Rightarrow> if length x = 0 then Some h else do { (_, h) \<leftarrow> Hmac_update V (Some x) h; Some h })"

text \<open>The assertion on the output length is a \<open>None\<close>: without it the HMAC writes past the buffer.\<close>

definition HMAC_Wrapper ::
  "'d digest_ops \<Rightarrow> u8 list \<Rightarrow> u8 list option \<Rightarrow> u8 list option \<Rightarrow> u8 list \<Rightarrow> 'd hmac_drbg \<Rightarrow>
   (u8 list \<times> 'd hmac_drbg) option" where
  "HMAC_Wrapper V cIn1 cIn2 cIn3 out s =
     do { d \<leftarrow> hd_digest s;
          (_, h) \<leftarrow> Hmac_init V (Some (hd_key s)) (of_nat (length (hd_key s))) (Some d) (hd_hmac s);
          (_, h) \<leftarrow> Hmac_update V (Some cIn1) h;
          h \<leftarrow> feed_opt V cIn2 h;
          h \<leftarrow> feed_opt V cIn3 h;
          d \<leftarrow> m_pDigest h;
          let n = op_digest_len V d in
          if length out < n then None
          else do {
            (_, h, written) \<leftarrow> Hmac_finalize V (Some (take n out)) h;
            Some (ptr_bytes written @ drop n out, s\<lparr>hd_hmac := h, hd_digest := m_pDigest h\<rparr>)
          } }"

definition HmacDrbg_update :: "'d digest_ops \<Rightarrow> u8 list option \<Rightarrow> 'd hmac_drbg \<Rightarrow> 'd hmac_drbg option" where
  "HmacDrbg_update V provided s =
     do { (k, s) \<leftarrow> HMAC_Wrapper V (hd_v s) (Some [0x00]) provided (hd_key s) s;
          let s = s\<lparr>hd_key := k\<rparr> in do {
          (v, s) \<leftarrow> HMAC_Wrapper V (hd_v s) None None (hd_v s) s;
          let s = s\<lparr>hd_v := v\<rparr> in
          if length (ptr_bytes provided) = 0 then Some s
          else do {
            (k, s) \<leftarrow> HMAC_Wrapper V (hd_v s) (Some [0x01]) provided (hd_key s) s;
            let s = s\<lparr>hd_key := k\<rparr> in do {
            (v, s) \<leftarrow> HMAC_Wrapper V (hd_v s) None None (hd_v s) s;
            Some (s\<lparr>hd_v := v\<rparr>)
          }}}}"

definition HmacDrbg_instantiate ::
  "'d digest_ops \<Rightarrow> u8 list \<Rightarrow> u8 list \<Rightarrow> u8 list \<Rightarrow> 'd hmac_drbg \<Rightarrow> 'd hmac_drbg option" where
  "HmacDrbg_instantiate V cEntropyInput cNonce cPersonalizationString s =
     (let seed_material = cEntropyInput @ cNonce @ cPersonalizationString;
          s = s\<lparr>hd_key := replicate (length (hd_key s)) 0, hd_v := replicate (length (hd_v s)) 1\<rparr>
      in HmacDrbg_update V (Some seed_material) s)"

fun hd_blocks :: "'d digest_ops \<Rightarrow> nat \<Rightarrow> 'd hmac_drbg \<Rightarrow> (u8 list \<times> 'd hmac_drbg) option" where
  "hd_blocks V 0 s = Some ([], s)"
| "hd_blocks V (Suc n) s =
     do { (v, s) \<leftarrow> HMAC_Wrapper V (hd_v s) None None (hd_v s) s;
          (rest, s) \<leftarrow> hd_blocks V n (s\<lparr>hd_v := v\<rparr>);
          Some (v @ rest, s) }"

text \<open>The last, partial block.\<close>

definition hd_tail :: "'d digest_ops \<Rightarrow> u8 list \<Rightarrow> nat \<Rightarrow> 'd hmac_drbg \<Rightarrow> (u8 list \<times> 'd hmac_drbg) option" where
  "hd_tail V out remaining s =
     (if remaining \<noteq> 0 then do {
        (v, s) \<leftarrow> HMAC_Wrapper V (hd_v s) None None (hd_v s) s;
        Some (out @ take remaining v, s\<lparr>hd_v := v\<rparr>)
      }
      else Some (out, s))"

definition HmacDrbg_generate ::
  "'d digest_ops \<Rightarrow> u8 list option \<Rightarrow> nat \<Rightarrow> 'd hmac_drbg \<Rightarrow> (u8 list \<times> 'd hmac_drbg) option" where
  "HmacDrbg_generate V additional cOutputLen s =
     do { s \<leftarrow> (if length (ptr_bytes additional) \<noteq> 0 then HmacDrbg_update V additional s else Some s);
          if length (hd_v s) = 0 then None
          else
            let blocks = cOutputLen div length (hd_v s) in do {
            (out, s) \<leftarrow> hd_blocks V blocks s;
            (out, s) \<leftarrow> hd_tail V out (cOutputLen - blocks * length (hd_v s)) s;
            s \<leftarrow> HmacDrbg_update V additional s;
            Some (out, s)
          } }"

text \<open>The additional input is copied without a test of its pointer; a null one has no bytes to copy.\<close>

definition HmacDrbg_internalReseed ::
  "'d digest_ops \<Rightarrow> u8 list \<Rightarrow> u8 list option \<Rightarrow> 'd hmac_drbg \<Rightarrow> 'd hmac_drbg option" where
  "HmacDrbg_internalReseed V cEntropyInput additional s =
     HmacDrbg_update V (Some (cEntropyInput @ ptr_bytes additional)) s"

definition HmacDrbg_ops :: "'d digest_ops \<Rightarrow> 'd hmac_drbg drbg_ops" where
  "HmacDrbg_ops V = \<lparr>do_instantiate = HmacDrbg_instantiate V, do_generate = HmacDrbg_generate V,
     do_internalReseed = HmacDrbg_internalReseed V\<rparr>"

section \<open>On any digest\<close>

context hmac_digest begin

definition drbg_ok :: "'a hmac_drbg \<Rightarrow> bool" where
  "drbg_ok s \<longleftrightarrow> (\<exists>d. hd_digest s = Some d \<and> ok d) \<and>
     length (m_pK0_xor_ipad (hd_hmac s)) = 144 \<and> length (m_pK0_xor_opad (hd_hmac s)) = 144 \<and>
     length (hd_key s) = L \<and> length (hd_v s) = L"

definition drbg_models :: "u8 list \<times> u8 list \<Rightarrow> 'a hmac_drbg \<Rightarrow> bool" where
  "drbg_models st s \<longleftrightarrow> drbg_ok s \<and> st = (hd_key s, hd_v s)"

lemma feed_opt_authenticates:
  "authenticating key m h \<Longrightarrow> \<exists>h'. feed_opt V p h = Some h' \<and> authenticating key (m @ ptr_bytes p) h'"
  using update_authenticates [of key m h "ptr_bytes p"]
  by (cases p) (auto simp: feed_opt_def ptr_bytes_def)

lemma length_hmac_spec [simp]: "length (hmac_spec H B key m) = L"
  by (simp add: hmac_spec_def length_H)

lemma HMAC_Wrapper_spec:
  assumes s: "drbg_ok s" and len: "B + length x + length (ptr_bytes p) + length (ptr_bytes q) \<le> lim" and out: "length out = L"
  shows "\<exists>s'. HMAC_Wrapper V x p q out s = Some (hmac_spec H B (hd_key s) (x @ ptr_bytes p @ ptr_bytes q), s') \<and>
    drbg_ok s' \<and> hd_key s' = hd_key s \<and> hd_v s' = hd_v s"
proof -
  obtain d where d: "hd_digest s = Some d" "ok d" using s by (auto simp: drbg_ok_def)
  have k: "unat (of_nat (length (hd_key s)) :: u32) = length (hd_key s)"
    using s block_fits(3) by (simp add: drbg_ok_def unsigned_of_nat take_bit_nat_eq_self)
  obtain h1 where h1: "Hmac_init V (Some (hd_key s)) (of_nat (length (hd_key s))) (Some d) (hd_hmac s) = Some (ALC_ERROR_NONE, h1)"
    "authenticating (hd_key s) [] h1"
    using init_authenticates [OF d(2) eq_imp_le [OF k], of "hd_key s" "hd_hmac s"] s k by (auto simp: drbg_ok_def)
  obtain h2 where h2: "Hmac_update V (Some x) h1 = Some (ALC_ERROR_NONE, h2)" "authenticating (hd_key s) x h2"
    using update_authenticates [OF h1(2), of x] by auto
  obtain h3 where h3: "feed_opt V p h2 = Some h3" "authenticating (hd_key s) (x @ ptr_bytes p) h3"
    using feed_opt_authenticates [OF h2(2)] by blast
  obtain h4 where h4: "feed_opt V q h3 = Some h4" "authenticating (hd_key s) (x @ ptr_bytes p @ ptr_bytes q) h4"
    using feed_opt_authenticates [OF h3(2), of q] by auto
  obtain d4 where d4: "m_pDigest h4 = Some d4" "ok d4" using h4(2) by (auto simp: authenticating_def keyed_def)
  obtain h5 where h5: "Hmac_finalize V (Some out) h4
      = Some (ALC_ERROR_NONE, h5, Some (hmac_spec H B (hd_key s) (x @ ptr_bytes p @ ptr_bytes q)))" "keyed (hd_key s) h5"
    using finalize_mac [OF h4(2), of out] len out by (auto simp: add.assoc)
  show ?thesis
    using s d(1) h1(1) h2(1) h3(1) h4(1) d4 h5 lens(2) [OF d4(2)] out
    by (auto simp: HMAC_Wrapper_def drbg_ok_def keyed_def ptr_bytes_def)
qed

abbreviation hm :: "u8 list \<Rightarrow> u8 list \<Rightarrow> u8 list" where "hm \<equiv> hmac_spec H B"

text \<open>One HMAC of the value, and one of the value with a byte and data.\<close>

lemma wrapper_v:
  assumes "drbg_ok s"
  shows "\<exists>s'. HMAC_Wrapper V (hd_v s) None None (hd_v s) s = Some (hm (hd_key s) (hd_v s), s') \<and>
    drbg_ok (s'\<lparr>hd_v := hm (hd_key s) (hd_v s)\<rparr>) \<and> hd_key s' = hd_key s"
  using HMAC_Wrapper_spec [OF assms, of "hd_v s" None None "hd_v s"] assms blocks_allowed
  by (auto simp: drbg_ok_def ptr_bytes_def)

lemma wrapper_k:
  assumes "drbg_ok s" "B + L + 1 + length (ptr_bytes p) \<le> lim"
  shows "\<exists>s'. HMAC_Wrapper V (hd_v s) (Some [c]) p (hd_key s) s = Some (hm (hd_key s) (hd_v s @ [c] @ ptr_bytes p), s') \<and>
    drbg_ok (s'\<lparr>hd_key := hm (hd_key s) (hd_v s @ [c] @ ptr_bytes p)\<rparr>) \<and> hd_v s' = hd_v s"
  using HMAC_Wrapper_spec [OF assms(1), of "hd_v s" "Some [c]" p "hd_key s"] assms
  by (auto simp: drbg_ok_def ptr_bytes_def)

lemma update_models:
  assumes m: "drbg_models st s" and len: "B + L + 1 + length (ptr_bytes p) \<le> lim"
  shows "\<exists>s'. HmacDrbg_update V p s = Some s' \<and> drbg_models (hd_update hm (ptr_bytes p) st) s'"
proof -
  have s: "drbg_ok s" "st = (hd_key s, hd_v s)" using m by (simp_all add: drbg_models_def)
  let ?k1 = "hm (hd_key s) (hd_v s @ [0] @ ptr_bytes p)"
  obtain s1 where s1: "HMAC_Wrapper V (hd_v s) (Some [0]) p (hd_key s) s = Some (?k1, s1)"
    "drbg_ok (s1\<lparr>hd_key := ?k1\<rparr>)" "hd_v s1 = hd_v s" using wrapper_k [OF s(1) len] by blast
  let ?v1 = "hm ?k1 (hd_v s)"
  obtain s2 where s2: "HMAC_Wrapper V (hd_v s) None None (hd_v s) (s1\<lparr>hd_key := ?k1\<rparr>) = Some (?v1, s2)"
    "drbg_ok (s2\<lparr>hd_v := ?v1\<rparr>)" "hd_key s2 = ?k1" using wrapper_v [OF s1(2)] s1(3) by auto
  show ?thesis
  proof (cases "ptr_bytes p = []")
    case True
    then show ?thesis using s s1 s2 by (simp add: HmacDrbg_update_def drbg_models_def hd_update_def Let_def)
  next
    case False
    let ?k2 = "hm ?k1 (?v1 @ [1] @ ptr_bytes p)"
    obtain s3 where s3: "HMAC_Wrapper V ?v1 (Some [1]) p ?k1 (s2\<lparr>hd_v := ?v1\<rparr>) = Some (?k2, s3)"
      "drbg_ok (s3\<lparr>hd_key := ?k2\<rparr>)" "hd_v s3 = ?v1" using wrapper_k [OF s2(2) len, of 1] s2(3) by auto
    let ?v2 = "hm ?k2 ?v1"
    obtain s4 where s4: "HMAC_Wrapper V ?v1 None None ?v1 (s3\<lparr>hd_key := ?k2\<rparr>) = Some (?v2, s4)"
      "drbg_ok (s4\<lparr>hd_v := ?v2\<rparr>)" "hd_key s4 = ?k2" using wrapper_v [OF s3(2)] s3(3) by auto
    show ?thesis using False s s1 s2 s3 s4 by (simp add: HmacDrbg_update_def drbg_models_def hd_update_def Let_def)
  qed
qed

lemma blocks_models:
  "drbg_models (K, v) s \<Longrightarrow> \<exists>s'. hd_blocks V n s = Some (fst (hd_stream hm K v n), s') \<and>
     drbg_models (K, snd (hd_stream hm K v n)) s'"
proof (induction n arbitrary: s v)
  case (Suc n)
  have s: "drbg_ok s" "K = hd_key s" "v = hd_v s" using Suc.prems by (simp_all add: drbg_models_def)
  let ?v1 = "hm K v"
  obtain s1 where s1: "HMAC_Wrapper V v None None v s = Some (?v1, s1)" "drbg_ok (s1\<lparr>hd_v := ?v1\<rparr>)" "hd_key s1 = K"
    using wrapper_v [OF s(1)] s by auto
  then have "drbg_models (K, ?v1) (s1\<lparr>hd_v := ?v1\<rparr>)" by (simp add: drbg_models_def)
  from Suc.IH [OF this] show ?case using s1(1) s by (auto simp: Let_def split: prod.splits)
qed simp

lemma length_hd_stream: "length (fst (hd_stream hm K v n)) = n * L"
  by (induction n arbitrary: v) (simp_all add: Let_def case_prod_beta)

lemma hd_stream_Suc:
  "hd_stream hm K v (Suc n) = (fst (hd_stream hm K v n) @ hm K (snd (hd_stream hm K v n)), hm K (snd (hd_stream hm K v n)))"
proof (induction n arbitrary: v)
  case (Suc n)
  show ?case using Suc [of "hm K v"] by (simp add: Let_def case_prod_beta)
qed (simp add: Let_def)

lemma block_count: "0 < L \<Longrightarrow> r < L \<Longrightarrow> (b * L + r + L - 1) div L = (if r = 0 then b else Suc b)"
proof -
  assume l: "0 < L" "r < L"
  show ?thesis
  proof (cases r)
    case 0
    then have e: "b * L + r + L - 1 = b * L + (L - 1)" using l by simp
    have "(b * L + (L - 1)) div L = b + (L - 1) div L" using l by (intro div_mult_self3) simp
    then show ?thesis unfolding e using l 0 by simp
  next
    case (Suc k)
    then have e: "b * L + r + L - 1 = Suc b * L + k" by simp
    have "(Suc b * L + k) div L = Suc b + k div L" using l by (intro div_mult_self3) simp
    then show ?thesis unfolding e using l Suc by simp
  qed
qed

lemma generate_models:
  assumes m: "drbg_models st s" and len: "B + L + 1 + length (ptr_bytes p) \<le> lim"
  shows "\<exists>s'. HmacDrbg_generate V p n s = Some (fst (hd_generate hm L (ptr_bytes p) n st), s') \<and>
     drbg_models (snd (hd_generate hm L (ptr_bytes p) n st)) s'"
proof -
  let ?st = "if ptr_bytes p = [] then st else hd_update hm (ptr_bytes p) st"
  obtain K v where kv: "?st = (K, v)" by (cases ?st)
  obtain s1 where s1: "(if length (ptr_bytes p) \<noteq> 0 then HmacDrbg_update V p s else Some s) = Some s1" "drbg_models (K, v) s1"
    using m update_models [OF m len] kv by (cases "ptr_bytes p = []") auto
  let ?b = "n div L" and ?r = "n - n div L * L"
  have r: "?r < L" "n = ?b * L + ?r" using sizes by (simp_all add: minus_div_mult_eq_mod)
  obtain s2 where s2: "hd_blocks V ?b s1 = Some (fst (hd_stream hm K v ?b), s2)" "drbg_models (K, snd (hd_stream hm K v ?b)) s2"
    using blocks_models [OF s1(2)] by blast
  have l: "length (hd_v s1) = L" "length (hd_v s2) = L" using s1(2) s2(2) by (simp_all add: drbg_models_def drbg_ok_def)
  let ?m = "(n + L - 1) div L"
  have m': "?m = (if ?r = 0 then ?b else Suc ?b)" using block_count [OF sizes(1) r(1), of ?b] r(2) by simp
  obtain s3 where s3: "hd_tail V (fst (hd_stream hm K v ?b)) ?r s2 = Some (take n (fst (hd_stream hm K v ?m)), s3)"
    "drbg_models (K, snd (hd_stream hm K v ?m)) s3"
  proof (cases "?r = 0")
    case True
    then have "?b * L = n" using r(2) by linarith
    then have "length (fst (hd_stream hm K v ?m)) = n" using m' True by (simp add: length_hd_stream)
    then show thesis using that [of s2] True s2(2) m' by (simp add: hd_tail_def)
  next
    case False
    have ok: "drbg_ok s2" "hd_key s2 = K" "hd_v s2 = snd (hd_stream hm K v ?b)" using s2(2) by (auto simp: drbg_models_def)
    let ?v = "hm K (snd (hd_stream hm K v ?b))"
    obtain s3 where s3: "HMAC_Wrapper V (hd_v s2) None None (hd_v s2) s2 = Some (?v, s3)" "drbg_ok (s3\<lparr>hd_v := ?v\<rparr>)" "hd_key s3 = K"
      using wrapper_v [OF ok(1)] ok by auto
    have m: "?m = Suc ?b" using m' False by simp
    have t: "take n (fst (hd_stream hm K v ?m)) = fst (hd_stream hm K v ?b) @ take ?r ?v"
      unfolding m using r(2) by (simp add: hd_stream_Suc length_hd_stream del: hd_stream.simps)
    have x: "snd (hd_stream hm K v ?m) = ?v" unfolding m by (simp add: hd_stream_Suc del: hd_stream.simps)
    show thesis
      by (rule that [of "s3\<lparr>hd_v := ?v\<rparr>"], unfold t x) (use False s3 in \<open>simp_all add: drbg_models_def hd_tail_def\<close>)
  qed
  obtain s4 where "HmacDrbg_update V p s3 = Some s4" "drbg_models (hd_update hm (ptr_bytes p) (K, snd (hd_stream hm K v ?m))) s4"
    using update_models [OF s3(2) len] by blast
  moreover have "hd_v s1 \<noteq> []" using l(1) sizes(1) by auto
  ultimately show ?thesis
    using s1(1) s2(1) s3(1) l kv
    by (simp add: HmacDrbg_generate_def hd_generate_def case_prod_beta Let_def)
qed

text \<open>The state that \<open>setDigest\<close> leaves behind.\<close>

lemma setDigest_ok:
  "ok d \<Longrightarrow> length (m_pK0_xor_ipad (hd_hmac s)) = 144 \<Longrightarrow> length (m_pK0_xor_opad (hd_hmac s)) = 144 \<Longrightarrow>
   drbg_ok (HmacDrbg_setDigest V d s)"
  by (simp add: drbg_ok_def HmacDrbg_setDigest_def lens)

lemma hmac_drbg_core:
  "drbg_core (HmacDrbg_ops V) drbg_ok drbg_models (hd_instantiate hm L) (hd_generate hm L) (hd_reseed hm)
     (\<lambda>e n q. B + L + 1 + (length e + length n + length q) \<le> lim) (\<lambda>n. B + L + 1 + n \<le> lim) (\<lambda>n. B + L + 1 + n \<le> lim)"
proof (rule drbg_core.intro)
  fix i and e n q :: "u8 list"
  assume i: "drbg_ok i" and len: "B + L + 1 + (length e + length n + length q) \<le> lim"
  let ?i = "i\<lparr>hd_key := replicate (length (hd_key i)) 0, hd_v := replicate (length (hd_v i)) 1\<rparr>"
  have "drbg_models (replicate L 0, replicate L 1) ?i" using i by (simp add: drbg_models_def drbg_ok_def)
  from update_models [OF this, of "Some (e @ n @ q)"] len
  show "\<exists>i'. do_instantiate (HmacDrbg_ops V) e n q i = Some i' \<and> drbg_models (hd_instantiate hm L e n q) i'"
    by (simp add: HmacDrbg_ops_def HmacDrbg_instantiate_def hd_instantiate_def ptr_bytes_def add.assoc)
next
  fix a i p k
  assume "drbg_models a i" "B + L + 1 + length (ptr_bytes p) \<le> lim"
  then show "\<exists>i'. do_generate (HmacDrbg_ops V) p k i = Some (fst (hd_generate hm L (ptr_bytes p) k a), i') \<and>
      drbg_models (snd (hd_generate hm L (ptr_bytes p) k a)) i'"
    using generate_models by (simp add: HmacDrbg_ops_def)
next
  fix a i p and e :: "u8 list"
  assume "drbg_models a i" "B + L + 1 + (length e + length (ptr_bytes p)) \<le> lim"
  then show "\<exists>i'. do_internalReseed (HmacDrbg_ops V) e p i = Some i' \<and> drbg_models (hd_reseed hm e (ptr_bytes p) a) i'"
    using update_models [of a i "Some (e @ ptr_bytes p)"]
    by (simp add: HmacDrbg_ops_def HmacDrbg_internalReseed_def hd_reseed_def ptr_bytes_def)
qed

end

sublocale hmac_digest \<subseteq> drbg: drbg_core "HmacDrbg_ops V" drbg_ok drbg_models "hd_instantiate hm L" "hd_generate hm L" "hd_reseed hm"
    "\<lambda>e n q. B + L + 1 + (length e + length n + length q) \<le> lim" "\<lambda>n. B + L + 1 + n \<le> lim" "\<lambda>n. B + L + 1 + n \<le> lim"
  by (rule hmac_drbg_core)

context hmac_digest begin

text \<open>A generator built on a well-formed digest, from the first call on.\<close>

lemma built_run:
  assumes "ok d" "B + L + 1 + (length e + length n + length q) \<le> lim" "0 < length e" "0 < length n"
    "supplies R r (e # n # es)" "if pr then length es = length qs \<and> (\<forall>e\<in>set es. length e = 128) else es = []"
    "\<forall>(p, k)\<in>set qs. B + L + 1 + (128 + length (ptr_bytes p)) \<le> lim"
  shows "\<exists>s1 s2. Drbg_initialize R (HmacDrbg_ops V) q
       \<lparr>m_entropy_in = Some r, m_prediction_resistance = pr, m_entropy_len = length e, m_nonce_len = length n,
        drbg_impl = HmacDrbg_setDigest V d HmacDrbg_ctor\<rparr> = Some (ALC_ERROR_NONE, s1) \<and>
     drbg_run R (HmacDrbg_ops V) qs s1
       = Some (ALC_ERROR_NONE, drbg_outputs (hd_generate hm L) (hd_reseed hm) es qs (hd_instantiate hm L e n q), s2)"
  using assms setDigest_ok [OF assms(1), of HmacDrbg_ctor]
  by (intro drbg.initialize_run [where r = r]) (auto simp: HmacDrbg_ctor_def Hmac_ctor_def)

text \<open>The built object is in the all-zero working state.\<close>

lemma uninstantiated_generate:
  assumes "ok d" "B + L + 1 + length (ptr_bytes p) \<le> lim"
  shows "\<exists>s'. do_generate (HmacDrbg_ops V) p k (HmacDrbg_setDigest V d HmacDrbg_ctor)
     = Some (fst (hd_generate hm L (ptr_bytes p) k (replicate L 0, replicate L 0)), s')"
proof -
  have "drbg_models (replicate L 0, replicate L 0) (HmacDrbg_setDigest V d HmacDrbg_ctor)"
    using assms(1) setDigest_ok [OF assms(1), of HmacDrbg_ctor] lens(2) [OF assms(1)]
    by (simp add: drbg_models_def HmacDrbg_setDigest_def HmacDrbg_ctor_def Hmac_ctor_def)
  from generate_models [OF this assms(2), of k] show ?thesis by (auto simp: HmacDrbg_ops_def)
qed

end

section \<open>Properties\<close>

text \<open>C24:
  HMAC-DRBG over SHA-224 or SHA-256, from the built object on: \<open>initialize\<close> with the entropy and
  nonce the source supplies and any sequence of requests succeed and return \<open>outs\<close>. These are the
  outputs of NIST SP 800-90A (section 9.3.1 over 10.1.2) for up to 2^48 requests inside the
  standard's limits of 2^16 output bytes and 2^32 bytes of additional input, without prediction
  resistance, or with it and no additional input. The code checks neither the limits nor a reseed
  counter: beyond them it goes on with the same functions. And with prediction resistance it
  passes the additional input to the reseed and again to \<open>generate\<close>, where the standard has null.
\<close>

theorem HmacDrbg_Sha2_computes:
  assumes "dg = 224 \<or> dg = 256" "Sha2_ok dg d" "0 < length e" "0 < length n" "length e + length n + length q < 2 ^ 60"
    "supplies R r (e # n # es)" "if pr then length es = length qs \<and> (\<forall>e\<in>set es. length e = 128) else es = []"
    "\<forall>(p, k)\<in>set qs. length (ptr_bytes p) < 2 ^ 60"
  shows "let hm = hmac_spec (sha256_spec dg) 64; L = dg div 8; D = HmacDrbg_ops (Sha2_ops dg base);
       gen = hd_generate hm L; reseed = hd_reseed hm; st = hd_instantiate hm L e n q in
     \<exists>s1 s2 outs. Drbg_initialize R D q
       \<lparr>m_entropy_in = Some r, m_prediction_resistance = pr, m_entropy_len = length e, m_nonce_len = length n,
        drbg_impl = HmacDrbg_setDigest (Sha2_ops dg base) d HmacDrbg_ctor\<rparr> = Some (ALC_ERROR_NONE, s1) \<and>
     drbg_run R D qs s1 = Some (ALC_ERROR_NONE, outs, s2) \<and> outs = drbg_outputs gen reseed es qs st \<and>
     (length qs \<le> 2 ^ 48 \<and> (\<forall>(p, k)\<in>set qs. std_limits (ptr_bytes p) k \<and> (pr \<longrightarrow> ptr_bytes p = []))
       \<longrightarrow> std_run gen reseed es qs 1 st = Some outs)"
proof -
  let ?hm = "hmac_spec (sha256_spec dg) 64"
  let ?st = "hd_instantiate ?hm (dg div 8) e n q"
  have std: "std_run (hd_generate ?hm (dg div 8)) (hd_reseed ?hm) es qs 1 ?st
      = Some (drbg_outputs (hd_generate ?hm (dg div 8)) (hd_reseed ?hm) es qs ?st)"
    if "length qs \<le> 2 ^ 48" "\<forall>(p, k)\<in>set qs. std_limits (ptr_bytes p) k \<and> (pr \<longrightarrow> ptr_bytes p = [])"
    by (rule std_run_outputs) (use that assms(7) in \<open>auto split: if_splits\<close>)
  show ?thesis
    using hmac_digest.built_run [OF Sha2_hmac [OF assms(1)] assms(2), of e n q R r es pr qs base] assms std
    unfolding Let_def by (fastforce split: if_splits)
qed

theorem HmacDrbg_Sha2_computes_witness:
  "let gen = hd_generate (hmac_spec (sha256_spec 256) 64) 32; reseed = hd_reseed (hmac_spec (sha256_spec 256) 64);
     es = [replicate 128 5, replicate 128 6]; qs = [(None, 40), (Some [], 5)] in
   \<exists>s1 s2 outs. Drbg_initialize list_rng (HmacDrbg_ops (Sha2_ops 256 0)) [9]
       \<lparr>m_entropy_in = Some (replicate 32 1 # replicate 16 2 # es),
        m_prediction_resistance = True, m_entropy_len = 32, m_nonce_len = 16,
        drbg_impl = HmacDrbg_setDigest (Sha2_ops 256 0) (Sha2_ctor 256) HmacDrbg_ctor\<rparr> = Some (ALC_ERROR_NONE, s1) \<and>
     drbg_run list_rng (HmacDrbg_ops (Sha2_ops 256 0)) qs s1 = Some (ALC_ERROR_NONE, outs, s2) \<and>
     std_run gen reseed es qs 1
       (hd_instantiate (hmac_spec (sha256_spec 256) 64) 32 (replicate 32 1) (replicate 16 2) [9]) = Some outs"
  using HmacDrbg_Sha2_computes [of 256 "Sha2_ctor 256" "replicate 32 1" "replicate 16 2" "[9]" list_rng
      "replicate 32 1 # replicate 16 2 # [replicate 128 5, replicate 128 6]" "[replicate 128 5, replicate 128 6]" True
      "[(None, 40), (Some [], 5)]" 0]
  by (simp add: Sha2_ok_def Sha2_ctor_def list_rng_supplies ptr_bytes_def std_limits_def Let_def
    del: std_run.simps drbg_run.simps drbg_outputs.simps supplies.simps) blast

text \<open>A generator that was built and never instantiated answers: \<open>randomize\<close> reports success, and
  its output is that of the standard's \<open>generate\<close> from the all-zero key and value, whatever the
  source holds.
\<close>

theorem HmacDrbg_uninstantiated:
  assumes "dg = 224 \<or> dg = 256" "Sha2_ok dg d" "length (ptr_bytes p) < 2 ^ 60" "\<not> m_prediction_resistance s"
    "drbg_impl s = HmacDrbg_setDigest (Sha2_ops dg base) d HmacDrbg_ctor"
  shows "\<exists>s'. Drbg_randomize R (HmacDrbg_ops (Sha2_ops dg base)) k p s
     = Some (ALC_ERROR_NONE, fst (hd_generate (hmac_spec (sha256_spec dg) 64) (dg div 8) (ptr_bytes p) k
         (replicate (dg div 8) 0, replicate (dg div 8) 0)), s')"
  using hmac_digest.uninstantiated_generate [OF Sha2_hmac [OF assms(1)] assms(2), of p base k] assms
  by (auto simp: Drbg_randomize_def)

theorem HmacDrbg_uninstantiated_witness:
  "\<exists>s'. Drbg_randomize CustomRng_ops (HmacDrbg_ops (Sha2_ops 256 0)) 32 None
       (Drbg_ctor (HmacDrbg_setDigest (Sha2_ops 256 0) (Sha2_ctor 256) HmacDrbg_ctor))
     = Some (ALC_ERROR_NONE, fst (hd_generate (hmac_spec (sha256_spec 256) 64) 32 [] 32 (replicate 32 0, replicate 32 0)), s')"
  using HmacDrbg_uninstantiated [of 256 "Sha2_ctor 256" None
      "Drbg_ctor (HmacDrbg_setDigest (Sha2_ops 256 0) (Sha2_ctor 256) HmacDrbg_ctor)" 0 CustomRng_ops 32]
  by (simp add: Drbg_ctor_def Sha2_ok_def Sha2_ctor_def ptr_bytes_def)

end
