(* ===== verification/Ctr_Drbg.thy ===== *)
theory Ctr_Drbg imports Aesni Drbg begin

text \<open>
  CTR-DRBG: \<^verbatim>\<open>lib/rng/drbg_ctr.cc\<close> and its kernels in \<^verbatim>\<open>lib/arch/avx2/drbg_ctr_avx2.cc\<close>, against
  section 10.2.1 of NIST SP 800-90A with a counter of 64 bits. \<open>zen\<close> says which key expansion the
  machine uses. \<open>None\<close> is a failed assertion, an access outside an array or the exception of a key
  length that is not one of AES.
\<close>

unbundle bit_operations_syntax

section \<open>NIST SP 800-90A\<close>

text \<open>The block cipher, by the length of its key in bytes.\<close>

definition aes_E :: "nat \<Rightarrow> u8 list \<Rightarrow> u8 list \<Rightarrow> u8 list" where
  "aes_E klen K = (let nk = klen div 4; nr = nk + 6 in aes_cipher S_enc nr (key_expansion S_enc nk nr K))"

text \<open>The rightmost 64 bits count.\<close>

definition cd_inc :: "u8 list \<Rightarrow> u8 list" where
  "cd_inc v = take 8 v @ be_bytes 8 (be_word (drop 8 v) + 1 :: u64)"

fun cd_blocks :: "(u8 list \<Rightarrow> u8 list) \<Rightarrow> nat \<Rightarrow> u8 list \<Rightarrow> u8 list \<times> u8 list" where
  "cd_blocks E 0 v = ([], v)"
| "cd_blocks E (Suc n) v = (let v = cd_inc v; (rest, v') = cd_blocks E n v in (E v @ rest, v'))"

definition cd_update :: "nat \<Rightarrow> u8 list \<Rightarrow> u8 list \<times> u8 list \<Rightarrow> u8 list \<times> u8 list" where
  "cd_update klen provided = (\<lambda>(K, V).
     let seedlen = klen + 16;
         temp = take seedlen (fst (cd_blocks (aes_E klen K) ((seedlen + 15) div 16) V));
         temp = xor_bytes temp provided
     in (take klen temp, drop klen temp))"

definition cd_bcc :: "(u8 list \<Rightarrow> u8 list) \<Rightarrow> u8 list \<Rightarrow> u8 list" where
  "cd_bcc E data = foldl (\<lambda>c i. E (xor_bytes c (blk i data))) (replicate 16 0) [0..<length data div 16]"

fun df_stream :: "(u8 list \<Rightarrow> u8 list) \<Rightarrow> nat \<Rightarrow> u8 list \<Rightarrow> u8 list" where
  "df_stream E 0 x = []"
| "df_stream E (Suc n) x = (let x = E x in x @ df_stream E n x)"

definition df_string :: "u8 list \<Rightarrow> nat \<Rightarrow> u8 list" where
  "df_string inp n =
     be_bytes 4 (of_nat (length inp) :: u32) @ be_bytes 4 (of_nat n :: u32) @ inp @ [0x80] @
     replicate ((16 - (length inp + 9) mod 16) mod 16) 0"

definition cd_df :: "nat \<Rightarrow> u8 list \<Rightarrow> nat \<Rightarrow> u8 list" where
  "cd_df klen inp n =
     (let E0 = aes_E klen (map of_nat [0..<klen]);
          temp = concat (map (\<lambda>i. cd_bcc E0 (be_bytes 4 (of_nat i :: u32) @ replicate 12 0 @ df_string inp n))
                   [0..<(klen + 31) div 16]);
          X = take 16 (drop klen temp)
      in take n (df_stream (aes_E klen (take klen temp)) ((n + 15) div 16) X))"

definition cd_instantiate :: "nat \<Rightarrow> bool \<Rightarrow> u8 list \<Rightarrow> u8 list \<Rightarrow> u8 list \<Rightarrow> u8 list \<times> u8 list" where
  "cd_instantiate klen df entropy nonce personalization =
     (let seedlen = klen + 16;
          seed = (if df then cd_df klen (entropy @ nonce @ personalization) seedlen
                  else xor_bytes entropy (personalization @ replicate (seedlen - length personalization) 0))
      in cd_update klen seed (replicate klen 0, replicate 16 0))"

definition cd_generate :: "nat \<Rightarrow> bool \<Rightarrow> u8 list \<Rightarrow> nat \<Rightarrow> u8 list \<times> u8 list \<Rightarrow> u8 list \<times> u8 list \<times> u8 list" where
  "cd_generate klen df additional n st =
     (let seedlen = klen + 16;
          add = (if additional = [] then replicate seedlen 0
                 else if df then cd_df klen additional seedlen
                 else additional @ replicate (seedlen - length additional) 0);
          (K, V) = (if additional = [] then st else cd_update klen add st);
          (temp, V) = cd_blocks (aes_E klen K) ((n + 15) div 16) V
      in (take n temp, cd_update klen add (K, V)))"

section \<open>The kernels\<close>

text \<open>\<^verbatim>\<open>EncryptAes::setKey\<close> on a new object.\<close>

definition EncryptAes_setKey :: "bool \<Rightarrow> u8 list \<Rightarrow> nat \<Rightarrow> rijndael option" where
  "EncryptAes_setKey zen key len =
     (if zen then Rijndael_setKey_aesni else Rijndael_setKey) (Some key) len Rijndael_ctor"

text \<open>The sum of two registers is taken in the two halves, without a carry between them.\<close>

definition IncrementValue :: "m128 \<Rightarrow> m128" where
  "IncrementValue regValue =
     (let r = mm_shuffle_epi8 regValue reverse_mask;
          r = mm_add_epi64 r (1 # replicate 15 0)
      in mm_shuffle_epi8 r reverse_mask)"

definition CalculateXor :: "u8 list \<Rightarrow> u8 list \<Rightarrow> u8 list" where
  "CalculateXor pA pcB =
     (let n = length pA div 16
      in concat (map (\<lambda>i. mm_xor_si128 (blk i pA) (blk i pcB)) [0..<n]) @
         map (\<lambda>i. pA ! i XOR pcB ! i) [16 * n..<length pA])"

text \<open>The loop that fills \<open>temp\<close>.\<close>

function ctr_fill :: "u8 list \<Rightarrow> nat \<Rightarrow> nat \<Rightarrow> nat \<Rightarrow> m128 \<Rightarrow> u8 list \<Rightarrow> m128 \<times> u8 list" where
  "ctr_fill p_key rounds cSeedLength temp_size reg_value temp =
     (if temp_size < cSeedLength then
        let reg_value = IncrementValue reg_value
        in ctr_fill p_key rounds cSeedLength (temp_size + 16) reg_value (temp @ AesEncrypt reg_value p_key rounds)
      else (reg_value, temp))"
  by pat_completeness auto
termination by (relation "measure (\<lambda>(p_key, rounds, n, t, v, temp). n - t)") auto

declare ctr_fill.simps [simp del]

definition CtrDrbgUpdate :: "bool \<Rightarrow> u8 list \<Rightarrow> u8 list \<Rightarrow> nat \<Rightarrow> u8 list \<Rightarrow> (u8 list \<times> u8 list) option" where
  "CtrDrbgUpdate zen pProvidedData pKey cKeyLen pValue =
     (let cSeedLength = cKeyLen + 16 in do {
        aes \<leftarrow> EncryptAes_setKey zen (take cKeyLen pKey) (cKeyLen * 8);
        let (v, temp) = ctr_fill (m_round_key_enc aes) (m_nrounds aes) cSeedLength 0 pValue [];
            temp = take cSeedLength temp in
        if length pProvidedData \<noteq> cSeedLength then None
        else
          let temp = CalculateXor temp pProvidedData in
          Some (write_at 0 (take cKeyLen temp) pKey, take 16 (drop (cSeedLength - 16) temp))
      })"

definition BCC :: "bool \<Rightarrow> u8 list \<Rightarrow> nat \<Rightarrow> u8 list \<Rightarrow> u8 list option" where
  "BCC zen pcKey cKeyLength pcData =
     (if length pcData mod 16 \<noteq> 0 then None
      else do {
        aes \<leftarrow> EncryptAes_setKey zen (take cKeyLength pcKey) (cKeyLength * 8);
        Some (foldl (\<lambda>c i. AesEncrypt (mm_xor_si128 (blk i pcData) c) (m_round_key_enc aes) (m_nrounds aes))
                (replicate 16 0) [0..<length pcData div 16])
      })"

text \<open>The four bytes of an \<^verbatim>\<open>Int32\<close>, stored from the highest.\<close>

definition int32_bytes :: "u32 \<Rightarrow> u8 list" where
  "int32_bytes c = map (\<lambda>i. ucast (drop_bit (8 * i) (c AND push_bit (8 * i) 0xff))) (rev [0..<4])"

definition big_key :: "u8 list" where
  "big_key = [0x00, 0x01, 0x02, 0x03, 0x04, 0x05, 0x06, 0x07, 0x08, 0x09, 0x0a, 0x0b, 0x0c, 0x0d, 0x0e, 0x0f,
              0x10, 0x11, 0x12, 0x13, 0x14, 0x15, 0x16, 0x17, 0x18, 0x19, 0x1a, 0x1b, 0x1c, 0x1d, 0x1e, 0x1f]"

definition df_S :: "u8 list \<Rightarrow> nat \<Rightarrow> u8 list" where
  "df_S inp n =
     (let cL = length inp;
          s_size = 4 + 4 + cL + 1;
          s_size = (if s_size mod 16 \<noteq> 0 then s_size + (16 - s_size mod 16) else s_size);
          S = replicate s_size 0;
          S = write_at 0 (int32_bytes (of_nat cL)) S;
          S = write_at 4 (int32_bytes (of_nat n)) S;
          S = write_at 8 inp S
      in write_at (8 + cL) [0x80] S)"

function df_fill :: "bool \<Rightarrow> nat \<Rightarrow> u8 list \<Rightarrow> nat \<Rightarrow> u32 \<Rightarrow> u8 list \<Rightarrow> u8 list option" where
  "df_fill zen cKeyLen S temp_size i temp =
     (if temp_size < cKeyLen + 16 then do {
        out \<leftarrow> BCC zen big_key cKeyLen (write_at 0 (int32_bytes i) (replicate 16 0) @ S);
        df_fill zen cKeyLen S (temp_size + 16) (i + 1) (temp @ out)
      }
      else Some temp)"
  by pat_completeness auto
termination by (relation "measure (\<lambda>(zen, n, S, t, i, temp). n + 16 - t)") auto

declare df_fill.simps [simp del]

text \<open>Whole blocks, then the part of one that is left.\<close>

fun df_output :: "u8 list \<Rightarrow> nat \<Rightarrow> nat \<Rightarrow> m128 \<Rightarrow> u8 list" where
  "df_output p_key rounds remaining x_reg =
     (if 16 \<le> remaining then
        let x_reg = AesEncrypt x_reg p_key rounds in x_reg @ df_output p_key rounds (remaining - 16) x_reg
      else if 0 < remaining then take remaining (AesEncrypt x_reg p_key rounds) else [])"

declare df_output.simps [simp del]

text \<open>An input whose byte count is not an \<^verbatim>\<open>Int32\<close> is out of range.\<close>

definition BlockCipherDf :: "bool \<Rightarrow> u8 list \<Rightarrow> nat \<Rightarrow> nat \<Rightarrow> u8 list option" where
  "BlockCipherDf zen inp cNoOfBytesToReturn cKeyLen =
     (if 2 ^ 31 \<le> length inp then None
      else do {
        temp \<leftarrow> df_fill zen cKeyLen (df_S inp cNoOfBytesToReturn) 0 0 [];
        aes \<leftarrow> EncryptAes_setKey zen (take cKeyLen temp) (cKeyLen * 8);
        Some (df_output (m_round_key_enc aes) (m_nrounds aes) cNoOfBytesToReturn (take 16 (drop cKeyLen temp)))
      })"

fun ctr_output :: "u8 list \<Rightarrow> nat \<Rightarrow> nat \<Rightarrow> m128 \<Rightarrow> u8 list \<times> m128" where
  "ctr_output p_key rounds remaining reg_value =
     (if 16 \<le> remaining then
        let reg_value = IncrementValue reg_value;
            (rest, v) = ctr_output p_key rounds (remaining - 16) reg_value
        in (AesEncrypt reg_value p_key rounds @ rest, v)
      else if 0 < remaining then
        let reg_value = IncrementValue reg_value
        in (take remaining (AesEncrypt reg_value p_key rounds), reg_value)
      else ([], reg_value))"

declare ctr_output.simps [simp del]

text \<open>The additional input is copied into 384 bytes on the stack, whatever its length.\<close>

definition DrbgCtrGenerate ::
  "bool \<Rightarrow> u8 list option \<Rightarrow> nat \<Rightarrow> u8 list \<Rightarrow> nat \<Rightarrow> u8 list \<Rightarrow> bool \<Rightarrow> (u8 list \<times> u8 list \<times> u8 list) option" where
  "DrbgCtrGenerate zen pcAdditionalInput cOutputLen pKey cKeyLen pValue cUseDf =
     (let cSeedLength = cKeyLen + 16; add = ptr_bytes pcAdditionalInput; bits = replicate 384 0 in do {
        (bits, pKey, pValue) \<leftarrow>
          (if length add \<noteq> 0 then do {
             bits \<leftarrow> (if cUseDf then do {
                        df \<leftarrow> BlockCipherDf zen add cSeedLength cKeyLen;
                        CopyBlock bits 0 df
                      }
                      else CopyBlock bits 0 add);
             (pKey, pValue) \<leftarrow> CtrDrbgUpdate zen (take cSeedLength bits) pKey cKeyLen pValue;
             Some (bits, pKey, pValue)
           }
           else Some (bits, pKey, pValue));
        aes \<leftarrow> EncryptAes_setKey zen (take cKeyLen pKey) (cKeyLen * 8);
        let (out, pValue) = ctr_output (m_round_key_enc aes) (m_nrounds aes) cOutputLen pValue in do {
        (pKey, pValue) \<leftarrow> CtrDrbgUpdate zen (take cSeedLength bits) pKey cKeyLen pValue;
        Some (out, pKey, pValue)
      }})"

section \<open>The object\<close>

record ctr_drbg =
  cd_v :: "u8 list"
  cd_key :: "u8 list"
  cd_keySize :: nat
  cd_seedlength :: nat
  cd_use_df :: bool

definition CtrDrbg_ctor :: ctr_drbg where
  "CtrDrbg_ctor = \<lparr>cd_v = replicate 16 0, cd_key = replicate 32 0, cd_keySize = 0, cd_seedlength = 0, cd_use_df = False\<rparr>"

definition CtrDrbg_setKeySize :: "nat \<Rightarrow> ctr_drbg \<Rightarrow> ctr_drbg" where
  "CtrDrbg_setKeySize keySize s = s\<lparr>cd_keySize := keySize, cd_seedlength := 16 + keySize\<rparr>"

definition CtrDrbg_setUseDerivationFunction :: "bool \<Rightarrow> ctr_drbg \<Rightarrow> ctr_drbg" where
  "CtrDrbg_setUseDerivationFunction b s = s\<lparr>cd_use_df := b\<rparr>"

definition CtrDrbg_update :: "bool \<Rightarrow> u8 list \<Rightarrow> ctr_drbg \<Rightarrow> ctr_drbg option" where
  "CtrDrbg_update zen provided s = do {
     (k, v) \<leftarrow> CtrDrbgUpdate zen provided (cd_key s) (cd_keySize s) (cd_v s);
     Some (s\<lparr>cd_key := k, cd_v := v\<rparr>)
   }"

text \<open>Without a derivation function the entropy is combined in place, byte for byte of the entropy.\<close>

definition CtrDrbg_instantiate :: "bool \<Rightarrow> u8 list \<Rightarrow> u8 list \<Rightarrow> u8 list \<Rightarrow> ctr_drbg \<Rightarrow> ctr_drbg option" where
  "CtrDrbg_instantiate zen cEntropyInput cNonce cPersonalizationString s =
     (if length (cd_key s) < cd_keySize s then None
      else
        let s = s\<lparr>cd_key := write_at 0 (replicate (cd_keySize s) 0) (cd_key s), cd_v := replicate 16 0\<rparr> in
        if \<not> cd_use_df s then
          let provided = replicate (cd_seedlength s + length cPersonalizationString) 0 in
          if cd_seedlength s < length cPersonalizationString then Some s
          else
            let provided = write_at 0 cPersonalizationString provided in
            if length provided < length cEntropyInput then None
            else
              let provided = write_at 0 (map2 (XOR) cEntropyInput (take (length cEntropyInput) provided)) provided in
              CtrDrbg_update zen (take (cd_seedlength s) provided) s
        else do {
          df_output \<leftarrow> BlockCipherDf zen (cEntropyInput @ cNonce @ cPersonalizationString) (cd_seedlength s) (cd_keySize s);
          CtrDrbg_update zen df_output s
        })"

definition CtrDrbg_internalReseed :: "u8 list \<Rightarrow> u8 list option \<Rightarrow> ctr_drbg \<Rightarrow> ctr_drbg option" where
  "CtrDrbg_internalReseed cEntropyInput cAdditionalInput s = Some s"

definition CtrDrbg_generate :: "bool \<Rightarrow> u8 list option \<Rightarrow> nat \<Rightarrow> ctr_drbg \<Rightarrow> (u8 list \<times> ctr_drbg) option" where
  "CtrDrbg_generate zen cAdditionalInput cOutputLen s = do {
     (out, k, v) \<leftarrow> DrbgCtrGenerate zen cAdditionalInput cOutputLen (cd_key s) (cd_keySize s) (cd_v s) (cd_use_df s);
     Some (out, s\<lparr>cd_key := k, cd_v := v\<rparr>)
   }"

definition CtrDrbg_ops :: "bool \<Rightarrow> ctr_drbg drbg_ops" where
  "CtrDrbg_ops zen = \<lparr>do_instantiate = CtrDrbg_instantiate zen, do_generate = CtrDrbg_generate zen,
     do_internalReseed = CtrDrbg_internalReseed\<rparr>"

text \<open>\<^verbatim>\<open>CtrDrbgBuilder::build\<close>; the key size is not checked.\<close>

definition CtrDrbgBuilder_build :: "nat \<Rightarrow> bool \<Rightarrow> ctr_drbg" where
  "CtrDrbgBuilder_build di_keysize use_df =
     CtrDrbg_setUseDerivationFunction use_df (CtrDrbg_setKeySize (di_keysize div 8) CtrDrbg_ctor)"

section \<open>The kernels compute the standard's functions\<close>

lemma IncrementValue_inc:
  assumes "length v = 16"
  shows "IncrementValue v = cd_inc v"
proof -
  have r: "take 8 (rev v) = rev (drop 8 v)" "drop 8 (rev v) = rev (take 8 v)"
    using assms by (simp_all add: take_rev drop_rev)
  have 1: "le_word (take 8 (1 # replicate 15 0)) = (1 :: u64)" "le_word (drop 8 (1 # replicate 15 0)) = (0 :: u64)"
    by code_simp+
  have "le_bytes 8 (le_word (rev (take 8 v)) :: u64) = rev (take 8 v)" using assms by (intro le_bytes_le_word) simp_all
  then have "mm_add_epi64 (rev v) (1 # replicate 15 0) = rev (cd_inc v)"
    unfolding mm_add_epi64_def 1 r by (simp add: cd_inc_def be_bytes_def be_word_def)
  moreover have "length (cd_inc v) = 16" using assms by (simp add: cd_inc_def)
  ultimately show ?thesis using assms by (simp add: IncrementValue_def mm_shuffle_reverse Let_def)
qed

lemma length_cd_inc [simp]: "length v = 16 \<Longrightarrow> length (cd_inc v) = 16"
  by (simp add: cd_inc_def)

lemma CalculateXor_bytes:
  assumes "length a = length b"
  shows "CalculateXor a b = xor_bytes a b"
proof -
  have blocks: "16 * n \<le> length a \<Longrightarrow> concat (map (\<lambda>i. mm_xor_si128 (blk i a) (blk i b)) [0..<n]) = take (16 * n) (xor_bytes a b)" for n
  proof (induction n)
    case (Suc n)
    have "take (16 * Suc n) (xor_bytes a b) = take (16 * n) (xor_bytes a b) @ blk n (xor_bytes a b)"
      using take_add [of "16 * n" 16 "xor_bytes a b"] by (simp add: blk_def add.commute)
    moreover have "blk n (xor_bytes a b) = xor_bytes (blk n a) (blk n b)"
      by (simp add: blk_def xor_bytes_def take_map drop_map take_zip drop_zip)
    ultimately show ?case using Suc by (simp add: mm_xor_si128_def)
  qed simp
  have "map (\<lambda>i. a ! i XOR b ! i) [m..<length a] = drop m (xor_bytes a b)" for m
    using assms by (intro nth_equalityI) (simp_all add: xor_bytes_def)
  then show ?thesis using blocks [of "length a div 16"] by (simp add: CalculateXor_def Let_def)
qed

lemma int32_bytes_be: "int32_bytes c = be_bytes 4 c"
proof -
  have m: "(0xff :: u32) = mask 8" by (simp add: mask_eq_exp_minus_1)
  show ?thesis unfolding int32_bytes_def m
    by (auto simp: be_bytes_def le_bytes_def rev_map bit_simps intro!: bit_word_eqI)
qed

text \<open>The keys of a new \<^verbatim>\<open>EncryptAes\<close> compute the cipher.\<close>

abbreviation aes_klen :: "nat \<Rightarrow> bool" where
  "aes_klen klen \<equiv> klen \<in> {16, 24, 32}"

lemma EncryptAes_keys:
  assumes "aes_klen klen" "length key = klen"
  shows "\<exists>aes. EncryptAes_setKey zen key (klen * 8) = Some aes \<and>
    keys_compute (aes_E klen key) (m_round_key_enc aes) (m_nrounds aes)"
proof -
  obtain nk where nk: "klen = 4 * nk" "nk \<in> {4, 6, 8}" using assms(1) by fastforce
  have p: "aes_params (klen * 8) nk (nk + 6)" using nk by (auto simp: aes_params_def)
  have l: "length key = 4 * nk" "length (m_round_key_enc Rijndael_ctor) = 512" "length (m_round_key_dec Rijndael_ctor) = 512"
    using assms nk by (simp_all add: Rijndael_ctor_def)
  obtain aes where "EncryptAes_setKey zen key (klen * 8) = Some aes" and k: "keyed nk (nk + 6) key aes"
    using setKey_keyed [OF p l] setKey_aesni_keyed [OF p l] by (cases zen) (auto simp: EncryptAes_setKey_def)
  moreover have "keys_compute (aes_E klen key) (m_round_key_enc aes) (nk + 6)"
    using keyed_computes [OF k] nk by (auto simp: aes_E_def [abs_def] Let_def)
  moreover have "m_nrounds aes = nk + 6" using k by (simp add: keyed_def)
  ultimately show ?thesis by simp
qed

lemma block_count16: "0 < m \<Longrightarrow> (m + 15) div 16 = Suc ((m - 16 + 15) div 16)" for m :: nat
proof (cases "16 \<le> m")
  case True
  then show ?thesis using le_Suc_ex [OF True] by auto
next
  case False
  then have "m - 16 = 0" by simp
  moreover assume "0 < m"
  then have "(m + 15) div 16 = 1" using False by (intro div_nat_eqI) simp_all
  ultimately show ?thesis by simp
qed

lemma ctr_fill_blocks:
  assumes "keys_compute E keys nr" "length v = 16"
  shows "ctr_fill keys nr s t v temp
    = (snd (cd_blocks E ((s - t + 15) div 16) v), temp @ fst (cd_blocks E ((s - t + 15) div 16) v))"
  using assms
proof (induction keys nr s t v temp rule: ctr_fill.induct)
  case (1 p_key rounds s t v temp)
  show ?case
  proof (cases "t < s")
    case True
    have n: "(s - t + 15) div 16 = Suc ((s - (t + 16) + 15) div 16)" using block_count16 [of "s - t"] True by simp
    have "length (cd_inc v) = 16" "IncrementValue v = cd_inc v" using "1.prems" by (simp_all add: IncrementValue_inc)
    then show ?thesis
      using "1.IH" [OF True refl] "1.prems" True n keys_computeD(1) [OF "1.prems"(1)]
      by (subst ctr_fill.simps) (simp add: Let_def case_prod_beta)
  qed (simp add: ctr_fill.simps)
qed

lemma length_cd_blocks:
  "keys_compute E keys nr \<Longrightarrow> length v = 16 \<Longrightarrow>
   length (fst (cd_blocks E n v)) = 16 * n \<and> length (snd (cd_blocks E n v)) = 16"
  by (induction n arbitrary: v) (simp_all add: Let_def case_prod_beta keys_computeD(3))

lemma ctr_output_blocks:
  assumes "keys_compute E keys nr" "length v = 16"
  shows "ctr_output keys nr n v
    = (take n (fst (cd_blocks E ((n + 15) div 16) v)), snd (cd_blocks E ((n + 15) div 16) v))"
  using assms
proof (induction keys nr n v rule: ctr_output.induct)
  case (1 keys nr n v)
  have c: "length (cd_inc v) = 16" "IncrementValue v = cd_inc v" using 1(3) by (simp_all add: IncrementValue_inc)
  have e: "AesEncrypt (cd_inc v) keys nr = E (cd_inc v)" "length (E (cd_inc v)) = 16"
    using keys_computeD [OF 1(2) c(1)] by simp_all
  consider "16 \<le> n" | "0 < n" "n < 16" | "n = 0" by linarith
  then show ?case
  proof cases
    case 1
    have n: "(n + 15) div 16 = Suc ((n - 16 + 15) div 16)" using block_count16 [of n] 1 by simp
    have IH: "ctr_output keys nr (n - 16) (cd_inc v) = (take (n - 16) (fst (cd_blocks E ((n - 16 + 15) div 16) (cd_inc v))),
        snd (cd_blocks E ((n - 16 + 15) div 16) (cd_inc v)))"
      using "1.IH" [OF 1 refl] "1.prems" c by simp
    show ?thesis using 1 e by (subst ctr_output.simps) (simp add: Let_def case_prod_beta IH n c)
  next
    case 2
    then have n: "(n + 15) div 16 = Suc 0" by (intro div_nat_eqI) simp_all
    show ?thesis using 2 e by (subst ctr_output.simps) (simp add: n c Let_def)
  next
    case 3
    then show ?thesis by (simp add: ctr_output.simps)
  qed
qed

lemma df_output_stream:
  assumes "keys_compute E keys nr" "length x = 16"
  shows "df_output keys nr n x = take n (df_stream E ((n + 15) div 16) x)"
  using assms
proof (induction keys nr n x rule: df_output.induct)
  case (1 keys nr n x)
  have e: "AesEncrypt x keys nr = E x" "length (E x) = 16"
    using keys_computeD [OF "1.prems"] by simp_all
  consider "16 \<le> n" | "0 < n" "n < 16" | "n = 0" by linarith
  then show ?case
  proof cases
    case 1
    have n: "(n + 15) div 16 = Suc ((n - 16 + 15) div 16)" using block_count16 [of n] 1 by simp
    have IH: "df_output keys nr (n - 16) (E x) = take (n - 16) (df_stream E ((n - 16 + 15) div 16) (E x))"
      using "1.IH" [OF 1 refl] "1.prems" e by simp
    show ?thesis using 1 e by (subst df_output.simps) (simp add: Let_def IH n)
  next
    case 2
    then have n: "(n + 15) div 16 = Suc 0" by (intro div_nat_eqI) simp_all
    show ?thesis using 2 e by (subst df_output.simps) (simp add: n Let_def)
  next
    case 3
    then show ?thesis by (simp add: df_output.simps)
  qed
qed

lemma length_df_stream: "keys_compute E keys nr \<Longrightarrow> length x = 16 \<Longrightarrow> length (df_stream E n x) = 16 * n"
  by (induction n arbitrary: x) (simp_all add: Let_def keys_computeD(3))

lemma CtrDrbgUpdate_spec:
  assumes "aes_klen klen" "klen \<le> length key" "length v = 16" "length data = klen + 16"
  shows "\<exists>k'. CtrDrbgUpdate zen data key klen v = Some (k', snd (cd_update klen data (take klen key, v))) \<and>
    take klen k' = fst (cd_update klen data (take klen key, v)) \<and> length k' = length key \<and>
    length (snd (cd_update klen data (take klen key, v))) = 16"
proof -
  have k: "length (take klen key) = klen" using assms(2) by simp
  obtain aes where aes: "EncryptAes_setKey zen (take klen key) (klen * 8) = Some aes"
    "keys_compute (aes_E klen (take klen key)) (m_round_key_enc aes) (m_nrounds aes)"
    using EncryptAes_keys [OF assms(1) k] by blast
  let ?t = "fst (cd_blocks (aes_E klen (take klen key)) ((31 + klen) div 16) v)"
  have f: "snd (ctr_fill (m_round_key_enc aes) (m_nrounds aes) (klen + 16) 0 v []) = ?t"
    using ctr_fill_blocks [OF aes(2) assms(3), of "klen + 16" 0 "[]"] by (simp add: add.commute)
  have "length ?t = 16 * ((31 + klen) div 16)" using length_cd_blocks [OF aes(2) assms(3)] by simp
  then have lt: "length (take (klen + 16) ?t) = klen + 16" using assms(1) by auto
  define x where "x = xor_bytes (take (klen + 16) ?t) data"
  have x: "length x = klen + 16" "CalculateXor (take (klen + 16) ?t) data = x"
    using lt assms(4) by (simp_all add: x_def CalculateXor_bytes)
  have c: "cd_update klen data (take klen key, v) = (take klen x, drop klen x)"
    by (simp add: cd_update_def x_def Let_def add.commute)
  have "CtrDrbgUpdate zen data key klen v = Some (write_at 0 (take klen x) key, drop klen x)"
    using aes(1) assms(4) x f by (simp add: CtrDrbgUpdate_def case_prod_beta)
  then show ?thesis using assms(2) x by (simp add: c write_at_def)
qed

lemma BCC_spec:
  assumes "aes_klen klen" "klen \<le> length key" "length data mod 16 = 0"
  shows "BCC zen key klen data = Some (cd_bcc (aes_E klen (take klen key)) data) \<and>
    length (cd_bcc (aes_E klen (take klen key)) data) = 16"
proof -
  have k: "length (take klen key) = klen" using assms(2) by simp
  obtain aes where aes: "EncryptAes_setKey zen (take klen key) (klen * 8) = Some aes"
    "keys_compute (aes_E klen (take klen key)) (m_round_key_enc aes) (m_nrounds aes)"
    using EncryptAes_keys [OF assms(1) k] by blast
  have "n \<le> length data div 16 \<Longrightarrow>
      foldl (\<lambda>c i. AesEncrypt (mm_xor_si128 (blk i data) c) (m_round_key_enc aes) (m_nrounds aes)) (replicate 16 0) [0..<n]
      = foldl (\<lambda>c i. aes_E klen (take klen key) (xor_bytes c (blk i data))) (replicate 16 0) [0..<n] \<and>
      length (foldl (\<lambda>c i. aes_E klen (take klen key) (xor_bytes c (blk i data))) (replicate 16 0) [0..<n]) = 16" for n
  proof (induction n)
    case (Suc n)
    have b: "length (blk n data) = 16" using Suc.prems by (simp add: blk_def)
    have x: "mm_xor_si128 (blk n data) c = xor_bytes c (blk n data)" for c
      by (simp add: mm_xor_si128_def xor_bytes_commute)
    show ?case using Suc b keys_computeD [OF aes(2)] by (simp add: x)
  qed simp
  from this [OF order_refl] show ?thesis using assms(3) aes(1) by (simp add: BCC_def cd_bcc_def)
qed

lemma df_S_string: "df_S inp n = df_string inp n" "length (df_string inp n) mod 16 = 0"
proof -
  define p where "p = (16 - (length inp + 9) mod 16) mod 16"
  have s: "(if (4 + 4 + length inp + 1) mod 16 \<noteq> 0
      then 4 + 4 + length inp + 1 + (16 - (4 + 4 + length inp + 1) mod 16) else 4 + 4 + length inp + 1)
    = 9 + length inp + p"
  proof (cases "(length inp + 9) mod 16 = 0")
    case False
    then have "16 - (length inp + 9) mod 16 < 16" by linarith
    then show ?thesis using False by (simp add: p_def add.commute)
  qed (simp add: p_def add.commute)
  have r: "replicate (9 + length inp + p) (0 :: u8) = replicate 4 0 @ replicate 4 0 @ replicate (length inp) 0 @ [0] @ replicate p 0"
    by (simp add: replicate_add [symmetric] flip: replicate_Suc replicate_append_same)
  have w: "length a = 4 \<Longrightarrow> write_at 0 a (replicate 4 0 @ y) = a @ y"
    "length a = 4 \<Longrightarrow> length b = 4 \<Longrightarrow> write_at 4 b (a @ replicate 4 0 @ y) = a @ b @ y"
    "length a = 4 \<Longrightarrow> length b = 4 \<Longrightarrow> write_at 8 inp (a @ b @ replicate (length inp) 0 @ y) = a @ b @ inp @ y"
    "length a = 4 \<Longrightarrow> length b = 4 \<Longrightarrow> write_at (8 + length inp) [z] (a @ b @ inp @ [0] @ y) = a @ b @ inp @ [z] @ y"
    for a b y :: "u8 list" and z
    by (simp_all add: write_at_def)
  show "df_S inp n = df_string inp n"
    unfolding df_S_def Let_def s r df_string_def p_def [symmetric] int32_bytes_be
    by (simp only: w length_be_bytes)
  have "length (df_string inp n) = length inp + 9 + p" by (simp add: df_string_def p_def)
  moreover have "(m + (16 - m mod 16) mod 16) mod 16 = 0" for m :: nat
  proof -
    have "(m + (16 - m mod 16) mod 16) mod 16 = (m mod 16 + (16 - m mod 16)) mod 16"
      by (simp only: mod_add_left_eq mod_add_right_eq)
    also have "m mod 16 + (16 - m mod 16) = 16" by simp
    finally show ?thesis by simp
  qed
  ultimately show "length (df_string inp n) mod 16 = 0" unfolding p_def by simp
qed

lemma big_key_prefix:
  "take 16 big_key = map of_nat [0..<16]" "take 24 big_key = map of_nat [0..<24]" "take 32 big_key = map of_nat [0..<32]"
  by code_simp+

lemma df_fill_bcc:
  assumes "aes_klen klen" "length S mod 16 = 0"
  shows "df_fill zen klen S t i temp = Some (temp @ concat (map (\<lambda>j. cd_bcc (aes_E klen (take klen big_key))
      (be_bytes 4 (i + of_nat j :: u32) @ replicate 12 0 @ S)) [0..<(klen + 16 - t + 15) div 16]))"
  using assms
proof (induction zen klen S t i temp rule: df_fill.induct)
  case (1 zen klen S t i temp)
  let ?f = "\<lambda>i. cd_bcc (aes_E klen (take klen big_key)) (be_bytes 4 i @ replicate 12 0 @ S)"
  show ?case
  proof (cases "t < klen + 16")
    case True
    let ?m = "(klen + 16 - (t + 16) + 15) div 16"
    have n: "(klen + 16 - t + 15) div 16 = Suc ?m" using block_count16 [of "klen + 16 - t"] True by simp
    have d: "write_at 0 (int32_bytes i) (replicate 16 0) @ S = be_bytes 4 i @ replicate 12 0 @ S"
      by (simp add: int32_bytes_be write_at_def)
    have k: "klen \<le> length big_key" using "1.prems"(1) by (auto simp: big_key_def)
    have b: "BCC zen big_key klen (write_at 0 (int32_bytes i) (replicate 16 0) @ S) = Some (?f i)"
      using BCC_spec [OF "1.prems"(1) k, of "be_bytes 4 i @ replicate 12 0 @ S" zen] "1.prems"(2) unfolding d by simp
    have "df_fill zen klen S (t + 16) (i + 1) (temp @ ?f i)
        = Some ((temp @ ?f i) @ concat (map (\<lambda>j. ?f (i + 1 + of_nat j)) [0..<?m]))"
      by (rule "1.IH" [OF True b "1.prems"])
    moreover have "concat (map (\<lambda>j. ?f (i + of_nat j)) [0..<Suc ?m])
        = ?f i @ concat (map (\<lambda>j. ?f (i + 1 + of_nat j)) [0..<?m])"
    proof -
      have u: "[0..<Suc ?m] = 0 # map Suc [0..<?m]" by (simp add: upt_conv_Cons map_Suc_upt del: upt_Suc)
      show ?thesis unfolding u by (simp add: comp_def add.assoc)
    qed
    ultimately show ?thesis using True b by (subst df_fill.simps) (simp only: n if_True bind.bind_lunit append_assoc)
  next
    case False
    then have "(klen + 16 - t + 15) div 16 = 0" by simp
    then show ?thesis using False by (simp add: df_fill.simps)
  qed
qed

lemma BlockCipherDf_spec:
  assumes "aes_klen klen" "length inp < 2 ^ 31"
  shows "BlockCipherDf zen inp n klen = Some (cd_df klen inp n) \<and> length (cd_df klen inp n) = n"
proof -
  let ?E0 = "aes_E klen (map of_nat [0..<klen])"
  let ?temp = "concat (map (\<lambda>i. cd_bcc ?E0 (be_bytes 4 (of_nat i :: u32) @ replicate 12 0 @ df_string inp n)) [0..<(klen + 31) div 16])"
  have big: "take klen big_key = map of_nat [0..<klen]" using assms(1) big_key_prefix by auto
  have k: "klen \<le> length big_key" using assms(1) by (auto simp: big_key_def)
  have f: "df_fill zen klen (df_S inp n) 0 0 [] = Some ?temp"
    using df_fill_bcc [OF assms(1) df_S_string(2), of zen inp n 0 0 "[]"] by (simp add: df_S_string(1) big add.commute)
  have "length (cd_bcc ?E0 (be_bytes 4 (of_nat i :: u32) @ replicate 12 0 @ df_string inp n)) = 16" for i
    using BCC_spec [OF assms(1) k, of "be_bytes 4 (of_nat i :: u32) @ replicate 12 0 @ df_string inp n"] df_S_string(2) [of inp n]
    by (simp add: big)
  then have "length ?temp = 16 * ((klen + 31) div 16)"
    using length_concat_const [of "map (\<lambda>i. cd_bcc ?E0 (be_bytes 4 (of_nat i :: u32) @ replicate 12 0 @ df_string inp n)) [0..<(klen + 31) div 16]" 16]
    by auto
  then have lt: "klen + 16 \<le> length ?temp" using assms(1) by auto
  then have l: "length (take klen ?temp) = klen" "length (take 16 (drop klen ?temp)) = 16" by simp_all
  obtain aes where aes: "EncryptAes_setKey zen (take klen ?temp) (klen * 8) = Some aes"
    "keys_compute (aes_E klen (take klen ?temp)) (m_round_key_enc aes) (m_nrounds aes)"
    using EncryptAes_keys [OF assms(1) l(1)] by blast
  have o: "df_output (m_round_key_enc aes) (m_nrounds aes) n (take 16 (drop klen ?temp)) = cd_df klen inp n"
    using df_output_stream [OF aes(2) l(2), of n] by (simp add: cd_df_def Let_def)
  have "n \<le> 16 * ((n + 15) div 16)" using div_mult_mod_eq [of "n + 15" 16] mod_less_divisor [of 16 "n + 15"] by linarith
  then have "length (cd_df klen inp n) = n"
    using length_df_stream [OF aes(2) l(2), of "(n + 15) div 16"] by (simp add: cd_df_def Let_def)
  then show ?thesis using assms(2) f aes(1) o by (simp add: BlockCipherDf_def)
qed

section \<open>The object holds the working state\<close>

definition cd_ok :: "nat \<Rightarrow> bool \<Rightarrow> ctr_drbg \<Rightarrow> bool" where
  "cd_ok klen df s \<longleftrightarrow> aes_klen klen \<and> cd_keySize s = klen \<and> cd_seedlength s = klen + 16 \<and> cd_use_df s = df \<and>
     length (cd_key s) = 32 \<and> length (cd_v s) = 16"

definition cd_models :: "nat \<Rightarrow> bool \<Rightarrow> u8 list \<times> u8 list \<Rightarrow> ctr_drbg \<Rightarrow> bool" where
  "cd_models klen df st s \<longleftrightarrow> cd_ok klen df s \<and> st = (take klen (cd_key s), cd_v s)"

text \<open>The lengths the standard allows.\<close>

definition cd_admits :: "nat \<Rightarrow> bool \<Rightarrow> u8 list \<Rightarrow> u8 list \<Rightarrow> u8 list \<Rightarrow> bool" where
  "cd_admits klen df e n q \<longleftrightarrow>
     (if df then length e + length n + length q < 2 ^ 31 else length e = klen + 16 \<and> length q \<le> klen + 16)"

definition cd_fits :: "nat \<Rightarrow> bool \<Rightarrow> nat \<Rightarrow> bool" where
  "cd_fits klen df n \<longleftrightarrow> (if df then n < 2 ^ 31 else n \<le> klen + 16)"

lemma cd_update_models:
  assumes "cd_models klen df st s" "length data = klen + 16"
  shows "\<exists>k v. CtrDrbgUpdate zen data (cd_key s) klen (cd_v s) = Some (k, v) \<and>
    cd_models klen df (cd_update klen data st) (s\<lparr>cd_key := k, cd_v := v\<rparr>)"
proof -
  have s: "aes_klen klen" "klen \<le> length (cd_key s)" "length (cd_v s) = 16" "cd_ok klen df s" "st = (take klen (cd_key s), cd_v s)"
    using assms(1) by (auto simp: cd_models_def cd_ok_def)
  obtain k' where k': "CtrDrbgUpdate zen data (cd_key s) klen (cd_v s) = Some (k', snd (cd_update klen data st))"
    "take klen k' = fst (cd_update klen data st)" "length k' = length (cd_key s)" "length (snd (cd_update klen data st)) = 16"
    using CtrDrbgUpdate_spec [OF s(1-3) assms(2), of zen] unfolding s(5) by blast
  then have "cd_models klen df (cd_update klen data st) (s\<lparr>cd_key := k', cd_v := snd (cd_update klen data st)\<rparr>)"
    using s(4) by (simp add: cd_models_def cd_ok_def prod_eq_iff)
  then show ?thesis using k'(1) by blast
qed

lemma ctr_instantiate_models:
  assumes i: "cd_ok klen df s" and a: "cd_admits klen df e n q"
  shows "\<exists>s'. CtrDrbg_instantiate zen e n q s = Some s' \<and> cd_models klen df (cd_instantiate klen df e n q) s'"
proof -
  let ?s = "s\<lparr>cd_key := write_at 0 (replicate klen 0) (cd_key s), cd_v := replicate 16 0\<rparr>"
  have k: "aes_klen klen" "klen \<le> 32" "cd_keySize s = klen" "cd_seedlength s = klen + 16" "length (cd_key s) = 32" "cd_use_df s = df"
    using i by (auto simp: cd_ok_def)
  have m: "cd_models klen df (replicate klen 0, replicate 16 0) ?s"
    using i k(2) write_at_0 [of "replicate klen 0" "cd_key s"] by (simp add: cd_models_def cd_ok_def)
  show ?thesis
  proof (cases df)
    case True
    have b: "BlockCipherDf zen (e @ n @ q) (klen + 16) klen = Some (cd_df klen (e @ n @ q) (klen + 16))"
      "length (cd_df klen (e @ n @ q) (klen + 16)) = klen + 16"
      using BlockCipherDf_spec [OF k(1), of "e @ n @ q" zen "klen + 16"] a True by (simp_all add: cd_admits_def)
    from cd_update_models [OF m b(2), of zen] show ?thesis
      using k True b(1) by (auto simp: CtrDrbg_instantiate_def CtrDrbg_update_def cd_instantiate_def Let_def)
  next
    case False
    have l: "length e = klen + 16" "length q \<le> klen + 16" using a False by (simp_all add: cd_admits_def)
    define provided where "provided = write_at 0 q (replicate (klen + 16 + length q) 0)"
    define x where "x = xor_bytes e (q @ replicate (klen + 16 - length q) 0)"
    have p: "provided = q @ replicate (klen + 16) 0" by (simp add: provided_def write_at_def)
    have t: "take (klen + 16) provided = q @ replicate (klen + 16 - length q) 0" using l(2) by (simp add: p min_def)
    have x: "length x = klen + 16" "map2 (XOR) e (take (length e) provided) = x"
      using l by (simp_all add: x_def xor_bytes_def t)
    have w: "take (klen + 16) (write_at 0 x provided) = x" using x(1) by (simp add: write_at_def)
    from cd_update_models [OF m x(1), of zen] show ?thesis
      using k False l x(2) w p
      by (auto simp: CtrDrbg_instantiate_def CtrDrbg_update_def cd_instantiate_def Let_def provided_def [symmetric] x_def [symmetric])
  qed
qed

lemma ctr_generate_models:
  assumes m: "cd_models klen df st s" and f: "cd_fits klen df (length (ptr_bytes p))"
  shows "\<exists>s'. CtrDrbg_generate zen p n s = Some (fst (cd_generate klen df (ptr_bytes p) n st), s') \<and>
    cd_models klen df (snd (cd_generate klen df (ptr_bytes p) n st)) s'"
proof -
  have k: "aes_klen klen" "klen \<le> 32" "cd_keySize s = klen" "cd_use_df s = df" "length (cd_key s) = 32"
    using m by (auto simp: cd_models_def cd_ok_def)
  define a where "a = ptr_bytes p"
  define add where "add = (if a = [] then replicate (klen + 16) 0 else if df then cd_df klen a (klen + 16)
                 else a @ replicate (klen + 16 - length a) 0)"
  define st1 where "st1 = (if a = [] then st else cd_update klen add st)"
  obtain bits where bits: "take (klen + 16) bits = add"
    "(if a = [] then Some (replicate 384 0)
      else if df then do { df \<leftarrow> BlockCipherDf zen a (klen + 16) klen; CopyBlock (replicate 384 0) 0 df }
      else CopyBlock (replicate 384 0) 0 a) = Some bits"
  proof (cases "a = []")
    case True
    then show thesis using that [of "replicate 384 0"] k(2) by (simp add: add_def min_def)
  next
    case False
    show thesis
    proof (cases df)
      case True
      have b: "BlockCipherDf zen a (klen + 16) klen = Some (cd_df klen a (klen + 16))" "length (cd_df klen a (klen + 16)) = klen + 16"
        using BlockCipherDf_spec [OF k(1), of a zen "klen + 16"] f True by (simp_all add: cd_fits_def a_def)
      show thesis
        using that [of "write_at 0 (cd_df klen a (klen + 16)) (replicate 384 0)"] b False True k(2)
        by (simp add: add_def write_at_def)
    next
      case noDf: False
      have "length a \<le> klen + 16" using f noDf by (simp add: cd_fits_def a_def)
      then show thesis
        using that [of "write_at 0 a (replicate 384 0)"] noDf False k(2) by (simp add: add_def write_at_def min_def)
    qed
  qed
  have la: "length add = klen + 16"
    using f BlockCipherDf_spec [OF k(1), of a zen "klen + 16"] by (auto simp: add_def cd_fits_def a_def)
  obtain k1 v1 where kv1: "(if a = [] then Some (cd_key s, cd_v s) else CtrDrbgUpdate zen add (cd_key s) klen (cd_v s)) = Some (k1, v1)"
    "cd_models klen df st1 (s\<lparr>cd_key := k1, cd_v := v1\<rparr>)"
    using cd_update_models [OF m la, of zen] m by (cases "a = []") (auto simp: st1_def)
  have l1: "length (take klen k1) = klen" "length v1 = 16" "st1 = (take klen k1, v1)"
    using kv1(2) k(2) by (simp_all add: cd_models_def cd_ok_def)
  obtain aes where aes: "EncryptAes_setKey zen (take klen k1) (klen * 8) = Some aes"
    "keys_compute (aes_E klen (take klen k1)) (m_round_key_enc aes) (m_nrounds aes)"
    using EncryptAes_keys [OF k(1) l1(1)] by blast
  let ?b = "cd_blocks (aes_E klen (take klen k1)) ((n + 15) div 16) v1"
  have o: "ctr_output (m_round_key_enc aes) (m_nrounds aes) n v1 = (take n (fst ?b), snd ?b)"
    by (rule ctr_output_blocks [OF aes(2) l1(2)])
  have m2: "cd_models klen df (take klen k1, snd ?b) (s\<lparr>cd_key := k1, cd_v := snd ?b\<rparr>)"
    using kv1(2) length_cd_blocks [OF aes(2) l1(2)] by (simp add: cd_models_def cd_ok_def)
  obtain k2 v2 where kv2: "CtrDrbgUpdate zen add k1 klen (snd ?b) = Some (k2, v2)"
    "cd_models klen df (cd_update klen add (take klen k1, snd ?b)) (s\<lparr>cd_key := k2, cd_v := v2\<rparr>)"
    using cd_update_models [OF m2 la, of zen] by auto
  have g: "cd_generate klen df a n st = (take n (fst ?b), cd_update klen add (take klen k1, snd ?b))"
    unfolding cd_generate_def Let_def add_def [symmetric] st1_def [symmetric] l1(3) by (simp add: case_prod_beta)
  have "CtrDrbg_generate zen p n s = Some (take n (fst ?b), s\<lparr>cd_key := k2, cd_v := v2\<rparr>)"
    using bits kv1(1) aes(1) o kv2(1) k(3,4)
    by (cases "a = []") (auto simp: CtrDrbg_generate_def DrbgCtrGenerate_def Let_def a_def [symmetric] split: if_splits)
  then show ?thesis using kv2(2) g by (simp add: a_def [symmetric])
qed

interpretation ctr_drbg: drbg_core "CtrDrbg_ops zen" "cd_ok klen df" "cd_models klen df" "cd_instantiate klen df"
    "cd_generate klen df" "\<lambda>_ _ st. st" "cd_admits klen df" "cd_fits klen df" "\<lambda>_. True" for zen klen df
  by unfold_locales
    (auto simp: CtrDrbg_ops_def CtrDrbg_internalReseed_def intro: ctr_instantiate_models ctr_generate_models)

lemma built_ok:
  "di_keysize \<in> {128, 192, 256} \<Longrightarrow> cd_ok (di_keysize div 8) df (CtrDrbgBuilder_build di_keysize df)"
  by (auto simp: cd_ok_def CtrDrbgBuilder_build_def CtrDrbg_setUseDerivationFunction_def CtrDrbg_setKeySize_def CtrDrbg_ctor_def)

section \<open>Properties\<close>

text \<open>C25:
  CTR-DRBG over AES-128, 192 and 256, with and without the derivation function, is the generator
  of NIST SP 800-90A with a counter of 64 bits, except that reseeding changes nothing: from the
  built object on, \<open>initialize\<close> and any sequence of requests give the output of the standard's
  functions (each request is \<open>generate\<close> with its additional input), and the entropy drawn for
  prediction resistance is not used.
\<close>

theorem CtrDrbg_computes:
  assumes "di_keysize \<in> {128, 192, 256}" "klen = di_keysize div 8" "cd_admits klen df e n q" "0 < length e" "0 < length n"
    "supplies R r (e # n # es)" "if pr then length es = length qs \<and> (\<forall>e\<in>set es. length e = 128) else es = []"
    "\<forall>(p, k)\<in>set qs. cd_fits klen df (length (ptr_bytes p))"
  shows "\<exists>s1 s2. Drbg_initialize R (CtrDrbg_ops zen) q
       \<lparr>m_entropy_in = Some r, m_prediction_resistance = pr, m_entropy_len = length e, m_nonce_len = length n,
        drbg_impl = CtrDrbgBuilder_build di_keysize df\<rparr> = Some (ALC_ERROR_NONE, s1) \<and>
     drbg_run R (CtrDrbg_ops zen) qs s1
       = Some (ALC_ERROR_NONE, drbg_outputs (cd_generate klen df) (\<lambda>_ _ st. st) es qs (cd_instantiate klen df e n q), s2)"
  using assms built_ok [OF assms(1), of df]
  by (intro ctr_drbg.initialize_run [where r = r]) auto

theorem CtrDrbg_computes_witness:
  "\<exists>s1 s2. Drbg_initialize CustomRng_ops (CtrDrbg_ops True) [9]
       \<lparr>m_entropy_in = Some \<lparr>cr_entropy = replicate 48 1, cr_nonce = replicate 8 2, m_call_count = 0\<rparr>,
        m_prediction_resistance = False, m_entropy_len = 48, m_nonce_len = 8,
        drbg_impl = CtrDrbgBuilder_build 256 False\<rparr> = Some (ALC_ERROR_NONE, s1) \<and>
     drbg_run CustomRng_ops (CtrDrbg_ops True) [(None, 40), (Some [1], 5)] s1
       = Some (ALC_ERROR_NONE, drbg_outputs (cd_generate 32 False) (\<lambda>_ _ st. st) [] [(None, 40), (Some [1], 5)]
           (cd_instantiate 32 False (replicate 48 1) (replicate 8 2) [9]), s2)"
  using CtrDrbg_computes [of 256 32 False "replicate 48 1" "replicate 8 2" "[9]" CustomRng_ops
      "\<lparr>cr_entropy = replicate 48 1, cr_nonce = replicate 8 2, m_call_count = 0\<rparr>" "[]" False "[(None, 40), (Some [1], 5)]" True]
  by (simp add: cd_admits_def cd_fits_def CustomRng_ops_def CustomRng_randomize_def ptr_bytes_def Let_def)

text \<open>Prediction resistance has no effect on CTR-DRBG: whatever bytes the source delivers for the
  reseed, the request returns the output it returns without prediction resistance, with success.
\<close>

theorem CtrDrbg_reseed_ineffective:
  assumes "m_prediction_resistance s" "m_entropy_in s = Some r0"
    "rng_randomize R (replicate 128 0) r0 = Some (ALC_ERROR_NONE, e, r1)"
  shows "map_option (\<lambda>(err, out, s'). (err, out, drbg_impl s')) (Drbg_randomize R (CtrDrbg_ops zen) k p s)
    = map_option (\<lambda>(err, out, s'). (err, out, drbg_impl s'))
        (Drbg_randomize R (CtrDrbg_ops zen) k p (s\<lparr>m_prediction_resistance := False\<rparr>))"
  using assms
  by (cases "do_generate (CtrDrbg_ops zen) p k (drbg_impl s)")
    (auto simp: Drbg_randomize_def draw_def CtrDrbg_ops_def CtrDrbg_internalReseed_def)

theorem CtrDrbg_reseed_ineffective_witness:
  "let s = \<lparr>m_entropy_in = Some \<lparr>cr_entropy = replicate 128 7, cr_nonce = [], m_call_count = 0\<rparr>, m_prediction_resistance = True,
        m_entropy_len = 0, m_nonce_len = 0, drbg_impl = CtrDrbgBuilder_build 128 True\<rparr>
   in map_option (\<lambda>(err, out, s'). (err, out, drbg_impl s')) (Drbg_randomize CustomRng_ops (CtrDrbg_ops True) 16 None s)
    = map_option (\<lambda>(err, out, s'). (err, out, drbg_impl s'))
        (Drbg_randomize CustomRng_ops (CtrDrbg_ops True) 16 None (s\<lparr>m_prediction_resistance := False\<rparr>))"
  unfolding Let_def
  by (rule CtrDrbg_reseed_ineffective [where e = "replicate 128 7" and
        ?r0.0 = "\<lparr>cr_entropy = replicate 128 7, cr_nonce = [], m_call_count = 0\<rparr>" and ?r1.0 = "\<lparr>cr_entropy = replicate 128 7, cr_nonce = [], m_call_count = 1\<rparr>"])
    (simp_all add: CustomRng_ops_def CustomRng_randomize_def)

text \<open>C26:
  Without the derivation function a personalization string longer than the seed makes
  \<open>instantiate\<close> give up after it has zeroed the key and the value, and \<open>initialize\<close> reports
  success: every output is then that of the standard's \<open>generate\<close> from the all-zero state, the
  same for any entropy.
\<close>

theorem CtrDrbg_long_personalization:
  assumes "di_keysize \<in> {128, 192, 256}" "klen = di_keysize div 8" "klen + 16 < length q" "0 < length e" "0 < length n"
    "supplies R r [e, n]" "length (ptr_bytes p) \<le> klen + 16"
  shows "\<exists>s1 s2. Drbg_initialize R (CtrDrbg_ops zen) q
       \<lparr>m_entropy_in = Some r, m_prediction_resistance = False, m_entropy_len = length e, m_nonce_len = length n,
        drbg_impl = CtrDrbgBuilder_build di_keysize False\<rparr> = Some (ALC_ERROR_NONE, s1) \<and>
     Drbg_randomize R (CtrDrbg_ops zen) k p s1
       = Some (ALC_ERROR_NONE, fst (cd_generate klen False (ptr_bytes p) k (replicate klen 0, replicate 16 0)), s2)"
proof -
  obtain r1 r2 where r: "rng_randomize R (replicate (length e) 0) r = Some (ALC_ERROR_NONE, e, r1)"
    "rng_randomize R (replicate (length n) 0) r1 = Some (ALC_ERROR_NONE, n, r2)"
    using assms(6) unfolding supplies_Cons by auto
  define i where "i = CtrDrbgBuilder_build di_keysize False"
  let ?i = "i\<lparr>cd_key := write_at 0 (replicate klen 0) (cd_key i), cd_v := replicate 16 0\<rparr>"
  have ok: "cd_ok klen False i" using built_ok [OF assms(1)] assms(2) by (simp add: i_def)
  then have k: "klen \<le> 32" "cd_keySize i = klen" "cd_seedlength i = klen + 16" "length (cd_key i) = 32" "\<not> cd_use_df i"
    by (auto simp: cd_ok_def)
  have ins: "CtrDrbg_instantiate zen e n q i = Some ?i"
    using k assms(3) by (simp add: CtrDrbg_instantiate_def Let_def)
  have "cd_models klen False (replicate klen 0, replicate 16 0) ?i"
    using ok k write_at_0 [of "replicate klen 0" "cd_key i"] by (simp add: cd_models_def cd_ok_def)
  from ctr_generate_models [OF this, of p zen k] assms(7)
  obtain i2 where g: "CtrDrbg_generate zen p k ?i
      = Some (fst (cd_generate klen False (ptr_bytes p) k (replicate klen 0, replicate 16 0)), i2)"
    by (auto simp: cd_fits_def)
  show ?thesis
    using assms(4,5) r ins g
    by (auto simp: Drbg_initialize_def draw_def CtrDrbg_ops_def Drbg_randomize_def i_def [symmetric])
qed

theorem CtrDrbg_long_personalization_witness:
  "\<exists>s1 s2. Drbg_initialize CustomRng_ops (CtrDrbg_ops True) (replicate 40 3)
       \<lparr>m_entropy_in = Some \<lparr>cr_entropy = replicate 32 1, cr_nonce = [2], m_call_count = 0\<rparr>, m_prediction_resistance = False,
        m_entropy_len = 32, m_nonce_len = 1, drbg_impl = CtrDrbgBuilder_build 128 False\<rparr> = Some (ALC_ERROR_NONE, s1) \<and>
     Drbg_randomize CustomRng_ops (CtrDrbg_ops True) 64 None s1
       = Some (ALC_ERROR_NONE, fst (cd_generate 16 False [] 64 (replicate 16 0, replicate 16 0)), s2)"
  using CtrDrbg_long_personalization [of 128 16 "replicate 40 3" "replicate 32 1" "[2]" CustomRng_ops
      "\<lparr>cr_entropy = replicate 32 1, cr_nonce = [2], m_call_count = 0\<rparr>" None True 64]
  by (simp add: CustomRng_ops_def CustomRng_randomize_def ptr_bytes_def Let_def)

text \<open>Without the derivation function the additional input is copied into 384 bytes on the stack
  unchecked: a longer one overflows them, and one that fits but is longer than the seed counts
  only with its beginning.
\<close>

theorem CtrDrbg_additional_input_bounds:
  assumes "klen \<in> {16, 24, 32}"
  shows "(384 < length a \<longrightarrow> DrbgCtrGenerate zen (Some a) n key klen v False = None) \<and>
    (klen + 16 < length a \<and> length a \<le> 384 \<longrightarrow>
       DrbgCtrGenerate zen (Some a) n key klen v False = DrbgCtrGenerate zen (Some (take (klen + 16) a)) n key klen v False)"
proof -
  have t: "take (klen + 16) (write_at 0 a (replicate 384 0)) = take (klen + 16) a"
    "take (klen + 16) (write_at 0 (take (klen + 16) a) (replicate 384 0)) = take (klen + 16) a"
    if "klen + 16 < length a" "length a \<le> 384"
    using that by (simp_all add: write_at_def)
  show ?thesis
    using t assms by (auto simp: DrbgCtrGenerate_def CopyBlock_def ptr_bytes_def Let_def)
qed

theorem CtrDrbg_additional_input_bounds_witness:
  "DrbgCtrGenerate True (Some (replicate 400 1)) 8 (replicate 32 0) 16 (replicate 16 0) False = None \<and>
   DrbgCtrGenerate True (Some (replicate 300 1)) 8 (replicate 32 0) 16 (replicate 16 0) False
   = DrbgCtrGenerate True (Some (replicate 32 1)) 8 (replicate 32 0) 16 (replicate 16 0) False"
  using CtrDrbg_additional_input_bounds [of 16 "replicate 400 1" True 8 "replicate 32 0" "replicate 16 0"]
    CtrDrbg_additional_input_bounds [of 16 "replicate 300 1" True 8 "replicate 32 0" "replicate 16 0"]
  by simp

end
