(* ===== verification/Aes_Modes.thy ===== *)
theory Aes_Modes imports Aesni begin

text \<open>
  The confidentiality modes of NIST SP 800-38A as steps on blocks, and the kernels of CBC, CFB and
  OFB in \<^verbatim>\<open>arch/avx2\<close>. A kernel returns the bytes it writes from the start of the output, and
  the bytes of the IV. \<open>multi\<close> is the build option \<^verbatim>\<open>AES_MULTI_UPDATE\<close> (for OFB:
  \<^verbatim>\<open>OFB_MULTI_UPDATE\<close>), under which a kernel stores the chaining value back.
\<close>

unbundle bit_operations_syntax

section \<open>The modes of NIST SP 800-38A\<close>

text \<open>A step takes a block and the chaining value to a block and the next chaining value.\<close>

type_synonym mode_step = "u8 list \<Rightarrow> u8 list \<Rightarrow> u8 list \<times> u8 list"

definition cbc_enc :: "(u8 list \<Rightarrow> u8 list) \<Rightarrow> mode_step" where
  "cbc_enc E p v = (let c = E (xor_bytes p v) in (c, c))"

definition cbc_dec :: "(u8 list \<Rightarrow> u8 list) \<Rightarrow> mode_step" where
  "cbc_dec D c v = (xor_bytes (D c) v, c)"

definition cfb_enc :: "(u8 list \<Rightarrow> u8 list) \<Rightarrow> mode_step" where
  "cfb_enc E p v = (let c = xor_bytes (E v) p in (c, c))"

definition cfb_dec :: "(u8 list \<Rightarrow> u8 list) \<Rightarrow> mode_step" where
  "cfb_dec E c v = (xor_bytes (E v) c, c)"

definition ofb_crypt :: "(u8 list \<Rightarrow> u8 list) \<Rightarrow> mode_step" where
  "ofb_crypt E p v = (let v = E v in (xor_bytes p v, v))"

text \<open>Whole blocks, then what is left of one, through a block padded with zeros.\<close>

fun mode_blocks :: "('b list \<Rightarrow> 's \<Rightarrow> 'b list \<times> 's) \<Rightarrow> nat \<Rightarrow> 'b list \<Rightarrow> 's \<Rightarrow> 'b list \<times> 's" where
  "mode_blocks f 0 xs s = ([], s)"
| "mode_blocks f (Suc n) xs s =
     (let (c, s) = f (take 16 xs) s; (cs, s) = mode_blocks f n (drop 16 xs) s in (c @ cs, s))"

definition mode_bytes :: "(u8 list \<Rightarrow> 's \<Rightarrow> u8 list \<times> 's) \<Rightarrow> u8 list \<Rightarrow> 's \<Rightarrow> u8 list \<times> 's" where
  "mode_bytes f xs s =
     (let n = length xs div 16; r = length xs mod 16; (out, s) = mode_blocks f n xs s
      in if r = 0 then (out, s)
         else let (c, s) = f (drop (16 * n) xs @ replicate (16 - r) 0) s in (out @ take r c, s))"

text \<open>Counter mode: the key stream of the counter blocks \<open>v i\<close>.\<close>

definition ctr_stream :: "(u8 list \<Rightarrow> u8 list) \<Rightarrow> (nat \<Rightarrow> u8 list) \<Rightarrow> u8 list \<Rightarrow> u8 list" where
  "ctr_stream E v m = xor_bytes m (concat (map (\<lambda>i. E (v i)) [0..<(length m + 15) div 16]))"

text \<open>The rightmost 64 bits of the IV count, modulo \<open>2 ^ 64\<close>.\<close>

definition ctr_block :: "u8 list \<Rightarrow> nat \<Rightarrow> u8 list" where
  "ctr_block iv i = take 8 iv @ be_bytes 8 (be_word (drop 8 iv) + of_nat i :: u64)"

section \<open>Loops over blocks\<close>

text \<open>
  \<^verbatim>\<open>for (; blocks >= n; blocks -= n)\<close> with a body that reads \<open>n\<close> blocks and writes \<open>n\<close>. The
  result is the output, the blocks that are left, the rest of the input and the chaining value.
\<close>

function kloop :: "nat \<Rightarrow> (u8 list \<Rightarrow> 's \<Rightarrow> u8 list \<times> 's) \<Rightarrow> nat \<Rightarrow> u8 list \<Rightarrow> 's \<Rightarrow> u8 list \<times> nat \<times> u8 list \<times> 's" where
  "kloop n body blocks p_in s =
     (if 0 < n \<and> n \<le> blocks then
        let (out, s) = body p_in s;
            (rest, r) = kloop n body (blocks - n) (drop (16 * n) p_in) s
        in (out @ rest, r)
      else ([], blocks, p_in, s))"
  by pat_completeness auto
termination by (relation "measure (\<lambda>(n, body, blocks, p, s). blocks)") auto

declare kloop.simps [simp del]

text \<open>A body run once, for \<^verbatim>\<open>if (blocks >= n)\<close>.\<close>

definition konce :: "nat \<Rightarrow> (u8 list \<Rightarrow> 's \<Rightarrow> u8 list \<times> 's) \<Rightarrow> nat \<Rightarrow> u8 list \<Rightarrow> 's \<Rightarrow> u8 list \<times> nat \<times> u8 list \<times> 's" where
  "konce n body blocks p_in s =
     (if n \<le> blocks then let (out, s) = body p_in s in (out, blocks - n, drop (16 * n) p_in, s)
      else ([], blocks, p_in, s))"

text \<open>The blocks a body loads.\<close>

definition blks :: "nat \<Rightarrow> u8 list \<Rightarrow> m128 list" where
  "blks n p_in = map (\<lambda>i. blk i p_in) [0..<n]"

section \<open>CBC\<close>

definition cbc_enc_body :: "u8 list \<Rightarrow> nat \<Rightarrow> u8 list \<Rightarrow> m128 \<Rightarrow> u8 list \<times> m128" where
  "cbc_enc_body pKey nRounds p_in b1 =
     (let a1 = take 16 p_in; b1 = mm_xor_si128 a1 b1; b1 = AesEncrypt b1 pKey nRounds in (b1, b1))"

definition EncryptCbc :: "bool \<Rightarrow> u8 list \<Rightarrow> u8 list \<Rightarrow> nat \<Rightarrow> u8 list \<Rightarrow> u8 list \<times> u8 list" where
  "EncryptCbc multi pPlainText pKey nRounds pIv =
     (let len = length pPlainText; blocks = len div 16; res = len mod 16;
          (out, _, p_in, b1) = kloop 1 (cbc_enc_body pKey nRounds) blocks pPlainText pIv;
          (out, b1) = (if res \<noteq> 0 then
                         let a1 = write_at 0 (take res p_in) (replicate 16 0);
                             b1 = mm_xor_si128 a1 b1;
                             b1 = AesEncrypt b1 pKey nRounds
                         in (out @ take res b1, b1)
                       else (out, b1))
      in (out, if multi then b1 else pIv))"

text \<open>Eight, four, two blocks and one at a time; each is masked with the input before it.\<close>

definition cbc_dec_body :: "nat \<Rightarrow> u8 list \<Rightarrow> nat \<Rightarrow> u8 list \<Rightarrow> m128 \<Rightarrow> u8 list \<times> m128" where
  "cbc_dec_body n pKey nRounds p_in b1 =
     (let input = blks n p_in;
          a = AesDecrypt_blocks input pKey nRounds
      in (concat (map2 mm_xor_si128 a (b1 # butlast input)), last input))"

definition DecryptCbc :: "bool \<Rightarrow> u8 list \<Rightarrow> u8 list \<Rightarrow> nat \<Rightarrow> u8 list \<Rightarrow> u8 list \<times> u8 list" where
  "DecryptCbc multi pCipherText pKey nRounds pIv =
     (let blocks = length pCipherText div 16;
          (out8, blocks, p_in, b1) = kloop 8 (cbc_dec_body 8 pKey nRounds) blocks pCipherText pIv;
          (out4, blocks, p_in, b1) = kloop 4 (cbc_dec_body 4 pKey nRounds) blocks p_in b1;
          (out2, blocks, p_in, b1) = kloop 2 (cbc_dec_body 2 pKey nRounds) blocks p_in b1;
          (out1, blocks, p_in, b1) = kloop 1 (cbc_dec_body 1 pKey nRounds) blocks p_in b1
      in (out8 @ out4 @ out2 @ out1, if multi then b1 else pIv))"

section \<open>CFB\<close>

text \<open>The inner loop over the blocks of one turn.\<close>

fun cfb_enc_body :: "nat \<Rightarrow> u8 list \<Rightarrow> nat \<Rightarrow> u8 list \<Rightarrow> m128 \<Rightarrow> u8 list \<times> m128" where
  "cfb_enc_body 0 pKey nRounds p_src tmpblk = ([], tmpblk)"
| "cfb_enc_body (Suc n) pKey nRounds p_src tmpblk =
     (let srcblk = take 16 p_src; tmpblk = AesEncrypt tmpblk pKey nRounds; tmpblk = mm_xor_si128 tmpblk srcblk;
          (out, tmpblk') = cfb_enc_body n pKey nRounds (drop 16 p_src) tmpblk
      in (tmpblk @ out, tmpblk'))"

definition EncryptCfb :: "bool \<Rightarrow> u8 list \<Rightarrow> u8 list \<Rightarrow> nat \<Rightarrow> u8 list \<Rightarrow> u8 list \<times> u8 list" where
  "EncryptCfb multi pSrc pKey nRounds pIv =
     (let len = length pSrc; blocks = len div 16; res = len mod 16;
          (out4, blocks, p_src, iv) = kloop 4 (cfb_enc_body 4 pKey nRounds) blocks pSrc pIv;
          (out2, blocks, p_src, iv) = konce 2 (cfb_enc_body 2 pKey nRounds) blocks p_src iv;
          (out1, blocks, p_src, iv) = konce 1 (cfb_enc_body 1 pKey nRounds) blocks p_src iv;
          (out, iv) = (if res \<noteq> 0 then
                         let srcblk = write_at 0 (take res p_src) (replicate 16 0);
                             tmpblk = mm_xor_si128 (AesEncrypt iv pKey nRounds) srcblk
                         in (take res tmpblk, tmpblk)
                       else ([], iv))
      in (out4 @ out2 @ out1 @ out, if multi then iv else pIv))"

definition cfb_dec_body :: "nat \<Rightarrow> u8 list \<Rightarrow> nat \<Rightarrow> u8 list \<Rightarrow> m128 \<Rightarrow> u8 list \<times> m128" where
  "cfb_dec_body n pKey nRounds p_src iv =
     (let src = blks n p_src;
          blks = AesEncrypt_blocks (iv # butlast src) pKey nRounds
      in (concat (map2 mm_xor_si128 blks src), last src))"

text \<open>
  The IV to store back is read again from the last whole block of the source, after the output
  has been written: \<open>in_place\<close> is the output being the source.
\<close>

definition DecryptCfb :: "bool \<Rightarrow> bool \<Rightarrow> u8 list \<Rightarrow> u8 list \<Rightarrow> nat \<Rightarrow> u8 list \<Rightarrow> u8 list \<times> u8 list" where
  "DecryptCfb multi in_place pSrc pKey nRounds pIv =
     (let len = length pSrc; blocks = len div 16; res = len mod 16;
          (out4, blocks, p_src, iv) = kloop 4 (cfb_dec_body 4 pKey nRounds) blocks pSrc pIv;
          (out2, blocks, p_src, iv) = konce 2 (cfb_dec_body 2 pKey nRounds) blocks p_src iv;
          (out1, blocks, p_src, iv) = konce 1 (cfb_dec_body 1 pKey nRounds) blocks p_src iv;
          out = (if res \<noteq> 0 then
                   let srcblk = write_at 0 (take res p_src) (replicate 16 0)
                   in take res (mm_xor_si128 (AesEncrypt iv pKey nRounds) srcblk)
                 else []);
          out = out4 @ out2 @ out1 @ out;
          source = (if in_place then out else pSrc)
      in (out, if multi \<and> 16 \<le> len then blk (len div 16 - 1) source else pIv))"

section \<open>OFB\<close>

text \<open>All round keys in registers, and a block through them.\<close>

definition alcp_load_key_xmm :: "u8 list \<Rightarrow> m128 list" where
  "alcp_load_key_xmm pkey = map (\<lambda>i. blk i pkey) [0..<15]"

definition AesEncryptNoLoad :: "m128 list \<Rightarrow> m128 \<Rightarrow> m128" where
  "AesEncryptNoLoad keys a =
     mm_aesenclast_si128 (foldl mm_aesenc_si128 (mm_xor_si128 a (hd keys)) (butlast (tl keys))) (last keys)"

definition ofb_body :: "m128 list \<Rightarrow> u8 list \<Rightarrow> m128 \<Rightarrow> u8 list \<times> m128" where
  "ofb_body keys p_in b1 =
     (let a1 = take 16 p_in; b1 = AesEncryptNoLoad keys b1 in (mm_xor_si128 a1 b1, b1))"

text \<open>The bytes of the last, partial block are copied out as they were copied in.\<close>

definition crypt_ofb :: "bool \<Rightarrow> u8 list \<Rightarrow> u8 list \<Rightarrow> nat \<Rightarrow> u8 list \<Rightarrow> u8 list \<times> u8 list" where
  "crypt_ofb ofb_multi pInputText pKey nRounds pIv =
     (let len = length pInputText; blocks = len div 16; res = len mod 16;
          keys = take (if nRounds = 10 then 11 else if nRounds = 12 then 13 else 15) (alcp_load_key_xmm pKey);
          (out, _, p_in, b1) = kloop 1 (ofb_body keys) blocks pInputText pIv;
          (out, b1) = (if res \<noteq> 0 then
                         let a1 = write_at 0 (take res p_in) (replicate 16 0);
                             b1 = AesEncryptNoLoad keys b1
                         in (out @ take res a1, b1)
                       else (out, b1))
      in (out, if ofb_multi then b1 else pIv))"

text \<open>The variant that loads the keys in each round, compiled but not called.\<close>

definition ofb_experimental_body :: "u8 list \<Rightarrow> nat \<Rightarrow> u8 list \<Rightarrow> m128 \<Rightarrow> u8 list \<times> m128" where
  "ofb_experimental_body pKey nRounds p_in b1 =
     (let a1 = take 16 p_in; b1 = AesEncrypt b1 pKey nRounds in (mm_xor_si128 a1 b1, b1))"

definition cryptOfb_experimental :: "u8 list \<Rightarrow> u8 list \<Rightarrow> nat \<Rightarrow> u8 list \<Rightarrow> u8 list" where
  "cryptOfb_experimental pInputText pKey nRounds pIv =
     (let len = length pInputText; blocks = len div 16; res = len mod 16;
          (out, _, p_in, b1) = kloop 1 (ofb_experimental_body pKey nRounds) blocks pInputText pIv
      in if res \<noteq> 0 then
           let a1 = write_at 0 (take res p_in) (replicate 16 0);
               b1 = AesEncrypt b1 pKey nRounds;
               a1 = mm_xor_si128 a1 b1
           in out @ take res a1
         else out)"

section \<open>A chain of loops runs the step over all blocks\<close>

lemma mode_blocks_add:
  "mode_blocks f (a + b) xs s
   = (let (o1, s1) = mode_blocks f a xs s; (o2, s2) = mode_blocks f b (drop (16 * a) xs) s1 in (o1 @ o2, s2))"
  by (induction a arbitrary: xs s) (auto simp: Let_def add.commute [of _ "16 :: nat"] split: prod.splits)

lemma mode_blocks_take: "mode_blocks f n (take (16 * n) xs) s = mode_blocks f n xs s"
  by (induction n arbitrary: xs s) (simp_all add: Let_def drop_take split_def)

text \<open>A body does \<open>n\<close> steps; its state is seen through \<open>g\<close>.\<close>

definition batch :: "('t \<Rightarrow> 's) \<Rightarrow> ('t \<Rightarrow> bool) \<Rightarrow> (u8 list \<Rightarrow> 't \<Rightarrow> u8 list \<times> 't) \<Rightarrow> nat \<Rightarrow> (u8 list \<Rightarrow> 's \<Rightarrow> u8 list \<times> 's) \<Rightarrow> bool" where
  "batch g P f n body \<longleftrightarrow> 0 < n \<and> (\<forall>xs s. 16 * n \<le> length xs \<and> P s \<longrightarrow>
     P (snd (mode_blocks f n xs s)) \<and> body xs (g s) = apsnd g (mode_blocks f n xs s))"

text \<open>\<open>b\<close> of \<open>N\<close> blocks are left.\<close>

definition kprog :: "('t \<Rightarrow> 's) \<Rightarrow> ('t \<Rightarrow> bool) \<Rightarrow> (u8 list \<Rightarrow> 't \<Rightarrow> u8 list \<times> 't) \<Rightarrow> nat \<Rightarrow> u8 list \<Rightarrow> 't \<Rightarrow>
    u8 list \<Rightarrow> nat \<Rightarrow> u8 list \<Rightarrow> 's \<Rightarrow> bool" where
  "kprog g P f N xs s out b p st \<longleftrightarrow> b \<le> N \<and> 16 * N \<le> length xs \<and> p = drop (16 * (N - b)) xs \<and>
     (out, st) = apsnd g (mode_blocks f (N - b) xs s) \<and> P (snd (mode_blocks f (N - b) xs s))"

lemma kprog_start: "16 * N \<le> length xs \<Longrightarrow> P s \<Longrightarrow> kprog g P f N xs s [] N xs (g s)"
  by (simp add: kprog_def)

lemma kprog_body:
  assumes "kprog g P f N xs s out b p st" "batch g P f n body" "n \<le> b" "body p st = (o', st')"
  shows "kprog g P f N xs s (out @ o') (b - n) (drop (16 * n) p) st'"
proof -
  have N: "N - (b - n) = (N - b) + n" using assms(1,3) by (auto simp: kprog_def)
  obtain t where t: "mode_blocks f (N - b) xs s = (out, t)" "st = g t" "P t" "p = drop (16 * (N - b)) xs"
    using assms(1) by (auto simp: kprog_def apsnd_def map_prod_def split: prod.splits)
  have "16 * n \<le> length p" using assms(1,3) by (auto simp: kprog_def)
  then have "P (snd (mode_blocks f n p t))" "(o', st') = apsnd g (mode_blocks f n p t)"
    using assms(2,4) t(2,3) by (auto simp: batch_def)
  then have "(out @ o', st') = apsnd g (mode_blocks f (N - b + n) xs s) \<and> P (snd (mode_blocks f (N - b + n) xs s))"
    using t by (auto simp add: mode_blocks_add Let_def split: prod.splits)
  moreover have "drop (16 * n) p = drop (16 * (N - b + n)) xs" using t(4) by (simp add: algebra_simps)
  ultimately show ?thesis using assms(1) unfolding kprog_def N by auto
qed

lemma kprog_kloop:
  assumes "kprog g P f N xs s out b p st" "batch g P f n body" "kloop n body b p st = (o', b', p', st')"
  shows "kprog g P f N xs s (out @ o') b' p' st'" "b' = b mod n"
proof -
  have "kprog g P f N xs s (out @ o') b' p' st' \<and> b' = b mod n"
    using assms(1,3)
  proof (induction b arbitrary: out p st o' rule: less_induct)
    case (less b)
    have n: "0 < n" using assms(2) by (simp add: batch_def)
    show ?case
    proof (cases "n \<le> b")
      case True
      obtain o1 st1 where 1: "body p st = (o1, st1)" by fastforce
      obtain r where r: "kloop n body (b - n) (drop (16 * n) p) st1 = (r, b', p', st')" "o' = o1 @ r"
        using less.prems(2) n True 1 kloop.simps [of n body b p st] by (auto split: prod.splits)
      show ?thesis
        using less.IH [OF _ kprog_body [OF less.prems(1) assms(2) True 1] r(1)] r(2) n True
        by (auto simp: le_mod_geq)
    next
      case False
      then show ?thesis using less.prems n kloop.simps [of n body b p st] by auto
    qed
  qed
  then show "kprog g P f N xs s (out @ o') b' p' st'" "b' = b mod n" by (rule conjunct1, rule conjunct2)
qed

lemma kprog_konce:
  assumes "kprog g P f N xs s out b p st" "batch g P f n body" "b < 2 * n" "konce n body b p st = (o', b', p', st')"
  shows "kprog g P f N xs s (out @ o') b' p' st'" "b' = b mod n"
proof -
  have "kprog g P f N xs s (out @ o') b' p' st' \<and> b' = b mod n"
  proof (cases "n \<le> b")
    case True
    then show ?thesis
      using assms kprog_body [OF assms(1,2) True] by (auto simp: konce_def le_mod_geq split: prod.splits)
  qed (use assms in \<open>auto simp: konce_def\<close>)
  then show "kprog g P f N xs s (out @ o') b' p' st'" "b' = b mod n" by (rule conjunct1, rule conjunct2)
qed

lemma kprog_done:
  "kprog g P f N xs s out 0 p st \<Longrightarrow> \<exists>t. mode_blocks f N xs s = (out, t) \<and> st = g t \<and> P t \<and> p = drop (16 * N) xs"
  by (auto simp: kprog_def apsnd_def map_prod_def split: prod.splits)

section \<open>CBC, CFB and OFB\<close>

abbreviation is_block :: "u8 list \<Rightarrow> bool" where
  "is_block v \<equiv> length v = 16"

definition keys_decrypt :: "(u8 list \<Rightarrow> u8 list) \<Rightarrow> u8 list \<Rightarrow> nat \<Rightarrow> bool" where
  "keys_decrypt D keys nr \<longleftrightarrow> (\<forall>bs. (\<forall>b\<in>set bs. is_block b) \<longrightarrow> AesDecrypt_blocks bs keys nr = map D bs) \<and>
     (\<forall>b. is_block b \<longrightarrow> is_block (D b))"

lemma pad_partial:
  "length m = 16 * n + r \<Longrightarrow> r < 16 \<Longrightarrow>
   write_at 0 (take r (drop (16 * n) m)) (replicate 16 0) = drop (16 * n) m @ replicate (16 - r) 0"
  by (simp add: write_at_def)

lemma blks_0 [simp]: "blks 0 xs = []"
  by (simp add: blks_def)

lemma blks_Suc [simp]: "blks (Suc n) xs = take 16 xs # blks n (drop 16 xs)"
proof -
  have "blks (Suc n) xs = blk 0 xs # map (\<lambda>i. blk (Suc i) xs) [0..<n]"
    by (simp add: blks_def upt_conv_Cons map_Suc_upt [symmetric] del: upt_Suc)
  then show ?thesis by (simp add: blks_def blk_def add.commute)
qed

lemma length_blks [simp]: "length (blks n xs) = n"
  by (simp add: blks_def)

lemma blks_blocks: "16 * n \<le> length xs \<Longrightarrow> b \<in> set (blks n xs) \<Longrightarrow> is_block b"
  by (auto simp: blks_def length_blk)

lemma mode_blocks_prev:
  assumes "\<And>c v. f c v = (h c v, c)"
  shows "mode_blocks f n xs v = (concat (map2 h (blks n xs) (v # butlast (blks n xs))), last (v # blks n xs))"
proof (induction n arbitrary: xs v)
  case (Suc n)
  then show ?case
    using Suc [of "drop 16 xs" "take 16 xs"] assms by (cases n) simp_all
qed simp

lemma mode_blocks_keeps:
  assumes "\<And>c v. is_block c \<Longrightarrow> P v \<Longrightarrow> P (snd (f c v))"
  shows "16 * n \<le> length xs \<Longrightarrow> P v \<Longrightarrow> P (snd (mode_blocks f n xs v))"
proof (induction n arbitrary: xs v)
  case (Suc n)
  obtain c s where f: "f (take 16 xs) v = (c, s)" by fastforce
  have "P s" using Suc.prems assms [of "take 16 xs" v] f by simp
  then show ?case using Suc.IH [of "drop 16 xs" s] Suc.prems f by (auto split: prod.splits)
qed simp

lemma length_mode_blocks:
  assumes "\<And>c v. is_block c \<Longrightarrow> P v \<Longrightarrow> is_block (fst (f c v)) \<and> P (snd (f c v))"
  shows "16 * n \<le> length xs \<Longrightarrow> P v \<Longrightarrow> length (fst (mode_blocks f n xs v)) = 16 * n"
proof (induction n arbitrary: xs v)
  case (Suc n)
  obtain c s where f: "f (take 16 xs) v = (c, s)" by fastforce
  have "is_block c" "P s" using Suc.prems assms [of "take 16 xs" v] f by simp_all
  then show ?case using Suc.IH [of "drop 16 xs" s] Suc.prems f by (auto split: prod.splits)
qed simp

lemma map2_blocks: "length as = length bs \<Longrightarrow> map2 f (map g as) bs = map2 (\<lambda>b a. f (g a) b) bs as"
  by (rule nth_equalityI) simp_all

lemma cbc_enc_batch: "keys_compute E pk nr \<Longrightarrow> batch id is_block (cbc_enc E) 1 (cbc_enc_body pk nr)"
  by (auto simp: batch_def cbc_enc_body_def cbc_enc_def mm_xor_si128_def Let_def keys_computeD)

lemma cbc_dec_batch:
  assumes D: "keys_decrypt D pk nr" and n: "0 < n"
  shows "batch id is_block (cbc_dec D) n (cbc_dec_body n pk nr)"
proof -
  have "cbc_dec_body n pk nr xs v = mode_blocks (cbc_dec D) n xs v" if "16 * n \<le> length xs" for xs v
  proof -
    have "AesDecrypt_blocks (blks n xs) pk nr = map D (blks n xs)"
      using D blks_blocks [OF that] by (simp add: keys_decrypt_def)
    moreover have "blks n xs \<noteq> []" using n by (metis length_blks length_greater_0_conv)
    ultimately show ?thesis
      unfolding mode_blocks_prev [where f = "cbc_dec D" and h = "\<lambda>c v. xor_bytes (D c) v", OF cbc_dec_def]
      by (simp add: cbc_dec_body_def Let_def mm_xor_si128_def zip_map1 split_def comp_def)
  qed
  moreover have "is_block (snd (mode_blocks (cbc_dec D) n xs v))" if "16 * n \<le> length xs" "is_block v" for xs v
    using that by (rule mode_blocks_keeps [rotated]) (simp add: cbc_dec_def)
  ultimately show ?thesis using n by (simp add: batch_def)
qed

lemma cfb_enc_body_blocks:
  "keys_compute E pk nr \<Longrightarrow> 16 * n \<le> length xs \<Longrightarrow> is_block v \<Longrightarrow> cfb_enc_body n pk nr xs v = mode_blocks (cfb_enc E) n xs v"
  by (induction n arbitrary: xs v) (auto simp: cfb_enc_def mm_xor_si128_def Let_def keys_computeD split: prod.splits)

lemma cfb_enc_batch:
  assumes E: "keys_compute E pk nr" and n: "0 < n"
  shows "batch id is_block (cfb_enc E) n (cfb_enc_body n pk nr)"
proof -
  have "is_block (snd (mode_blocks (cfb_enc E) n xs v))" if "16 * n \<le> length xs" "is_block v" for xs v
    using that by (rule mode_blocks_keeps [rotated]) (simp add: cfb_enc_def Let_def keys_computeD [OF E])
  then show ?thesis using n cfb_enc_body_blocks [OF E] by (simp add: batch_def)
qed

lemma cfb_dec_batch:
  assumes E: "keys_compute E pk nr" and nr: "0 < nr" and n: "0 < n"
  shows "batch id is_block (cfb_dec E) n (cfb_dec_body n pk nr)"
proof -
  have "cfb_dec_body n pk nr xs v = mode_blocks (cfb_dec E) n xs v" if l: "16 * n \<le> length xs" "is_block v" for xs v
  proof -
    let ?vs = "v # butlast (blks n xs)"
    have "\<forall>b\<in>set ?vs. is_block b" using blks_blocks [OF l(1)] l(2) by (auto dest: in_set_butlastD)
    then have "AesEncrypt_blocks ?vs pk nr = map E ?vs"
      unfolding AesEncrypt_blocks_map [OF nr] using E by (intro map_cong refl) (auto simp: keys_computeD)
    moreover have "blks n xs \<noteq> []" using n by (metis length_blks length_greater_0_conv)
    moreover have "map2 xor_bytes (map E ?vs) (blks n xs) = map2 (\<lambda>c v. xor_bytes (E v) c) (blks n xs) ?vs"
      using n by (intro map2_blocks) simp
    ultimately show ?thesis
      unfolding mode_blocks_prev [where f = "cfb_dec E" and h = "\<lambda>c v. xor_bytes (E v) c", OF cfb_dec_def]
      by (simp add: cfb_dec_body_def Let_def mm_xor_si128_def [abs_def] del: list.map(2))
  qed
  moreover have "is_block (snd (mode_blocks (cfb_dec E) n xs v))" if "16 * n \<le> length xs" "is_block v" for xs v
    using that by (rule mode_blocks_keeps [rotated]) (simp add: cfb_dec_def)
  ultimately show ?thesis using n by (simp add: batch_def)
qed

text \<open>The whole functions.\<close>

lemma mode_bytes_tail:
  assumes "mode_blocks f (length m div 16) m v = (out, s)"
  shows "mode_bytes f m v =
    (if length m mod 16 = 0 then (out, s)
     else let (c, s) = f (write_at 0 (take (length m mod 16) (drop (16 * (length m div 16)) m)) (replicate 16 0)) s
          in (out @ take (length m mod 16) c, s))"
  using assms pad_partial [of m "length m div 16" "length m mod 16"] by (simp add: mode_bytes_def Let_def)

lemma whole_blocks16: "16 * (length m div 16) \<le> length m"
  by simp

lemma single_loop:
  assumes B: "batch id is_block f 1 body" and v: "is_block v"
    and k: "kloop 1 body (length m div 16) m v = (out, b, p, s)"
  shows "mode_blocks f (length m div 16) m v = (out, s) \<and> is_block s \<and> p = drop (16 * (length m div 16)) m"
proof -
  have "kprog id is_block f (length m div 16) m v [] (length m div 16) m v"
    using kprog_start [where g = id and P = is_block, OF whole_blocks16 v] by simp
  from kprog_kloop [OF this B k] have "kprog id is_block f (length m div 16) m v out 0 p s" by simp
  from kprog_done [OF this] show ?thesis by auto
qed

lemma EncryptCbc_modes:
  assumes E: "keys_compute E pk nr" and v: "is_block v"
  shows "EncryptCbc multi m pk nr v = (let (out, s) = mode_bytes (cbc_enc E) m v in (out, if multi then s else v))"
proof -
  obtain out b p s where k: "kloop 1 (cbc_enc_body pk nr) (length m div 16) m v = (out, b, p, s)"
    by (metis prod_cases4)
  note d = single_loop [OF cbc_enc_batch [OF E] v k]
  show ?thesis
    using k d E
    by (simp add: EncryptCbc_def mode_bytes_tail [OF conjunct1 [OF d]] Let_def cbc_enc_def mm_xor_si128_def keys_computeD)
qed

lemma div_chain4: "n mod 4 mod 2 mod 1 = (0 :: nat)" "n mod 8 mod 4 mod 2 mod 1 = (0 :: nat)"
  by simp_all

lemma DecryptCbc_modes:
  assumes D: "keys_decrypt D pk nr" and v: "is_block v"
  shows "DecryptCbc multi m pk nr v
    = (let (out, s) = mode_blocks (cbc_dec D) (length m div 16) m v in (out, if multi then s else v))"
proof -
  let ?N = "length m div 16" and ?K = "\<lambda>n. kloop n (cbc_dec_body n pk nr)"
  obtain o8 b8 p8 s8 where 8: "?K 8 ?N m v = (o8, b8, p8, s8)" by (metis prod_cases4)
  obtain o4 b4 p4 s4 where 4: "?K 4 b8 p8 s8 = (o4, b4, p4, s4)" by (metis prod_cases4)
  obtain o2 b2 p2 s2 where 2: "?K 2 b4 p4 s4 = (o2, b2, p2, s2)" by (metis prod_cases4)
  obtain o1 b1 p1 s1 where 1: "?K 1 b2 p2 s2 = (o1, b1, p1, s1)" by (metis prod_cases4)
  note B = cbc_dec_batch [OF D]
  have "kprog id is_block (cbc_dec D) ?N m v [] ?N m v"
    using kprog_start [where g = id and P = is_block, OF whole_blocks16 v] by simp
  from kprog_kloop [OF this B 8] kprog_kloop [OF kprog_kloop(1) [OF this B 8] B 4]
  have 5: "kprog id is_block (cbc_dec D) ?N m v (o8 @ o4) b4 p4 s4" by simp
  from kprog_kloop [OF kprog_kloop(1) [OF 5 B 2] B 1]
  have "kprog id is_block (cbc_dec D) ?N m v (o8 @ o4 @ o2 @ o1) 0 p1 s1" by simp
  from kprog_done [OF this] show ?thesis
    using 8 4 2 1 by (auto simp: DecryptCbc_def Let_def)
qed

text \<open>The loops of CFB: four blocks at a time, then two, then one.\<close>

lemma cfb_chain:
  assumes B: "\<And>n. 0 < n \<Longrightarrow> batch id is_block f n (B n)" and v: "is_block v"
    and 4: "kloop 4 (B 4) (length m div 16) m v = (o4, b4, p4, s4)" and 2: "konce 2 (B 2) b4 p4 s4 = (o2, b2, p2, s2)"
    and 1: "konce 1 (B 1) b2 p2 s2 = (o1, b1, p1, s1)"
  shows "mode_blocks f (length m div 16) m v = (o4 @ o2 @ o1, s1) \<and> is_block s1 \<and> p1 = drop (16 * (length m div 16)) m"
proof -
  have "kprog id is_block f (length m div 16) m v [] (length m div 16) m v"
    using kprog_start [where g = id and P = is_block, OF whole_blocks16 v] by simp
  note k4 = kprog_kloop [OF this B 4, simplified]
  have "b4 < 2 * 2" using k4(2) by simp
  note k2 = kprog_konce [OF k4(1) B this 2, simplified]
  have "b2 < 2 * 1" using k2(2) by simp
  note k1 = kprog_konce [OF k2(1) B this 1]
  have "kprog id is_block f (length m div 16) m v (o4 @ o2 @ o1) 0 p1 s1" using k1 by simp
  from kprog_done [OF this] show ?thesis by auto
qed

lemma EncryptCfb_modes:
  assumes E: "keys_compute E pk nr" and v: "is_block v"
  shows "EncryptCfb multi m pk nr v = (let (out, s) = mode_bytes (cfb_enc E) m v in (out, if multi then s else v))"
proof -
  let ?N = "length m div 16" and ?B = "\<lambda>n. cfb_enc_body n pk nr"
  obtain o4 b4 p4 s4 where 4: "kloop 4 (?B 4) ?N m v = (o4, b4, p4, s4)" by (metis prod_cases4)
  obtain o2 b2 p2 s2 where 2: "konce 2 (?B 2) b4 p4 s4 = (o2, b2, p2, s2)" by (metis prod_cases4)
  obtain o1 b1 p1 s1 where 1: "konce 1 (?B 1) b2 p2 s2 = (o1, b1, p1, s1)" by (metis prod_cases4)
  note d = cfb_chain [OF cfb_enc_batch [OF E] v 4 2 1]
  show ?thesis
    using 4 2 1 d E
    by (simp add: EncryptCfb_def mode_bytes_tail [OF conjunct1 [OF d]] Let_def cfb_enc_def mm_xor_si128_def keys_computeD)
qed

lemma DecryptCfb_modes:
  assumes E: "keys_compute E pk nr" and nr: "0 < nr" and v: "is_block v"
  shows "DecryptCfb multi in_place m pk nr v = (let out = fst (mode_bytes (cfb_dec E) m v) in
    (out, if multi \<and> 16 \<le> length m then blk (length m div 16 - 1) (if in_place then out else m) else v))"
proof -
  let ?N = "length m div 16" and ?B = "\<lambda>n. cfb_dec_body n pk nr"
  obtain o4 b4 p4 s4 where 4: "kloop 4 (?B 4) ?N m v = (o4, b4, p4, s4)" by (metis prod_cases4)
  obtain o2 b2 p2 s2 where 2: "konce 2 (?B 2) b4 p4 s4 = (o2, b2, p2, s2)" by (metis prod_cases4)
  obtain o1 b1 p1 s1 where 1: "konce 1 (?B 1) b2 p2 s2 = (o1, b1, p1, s1)" by (metis prod_cases4)
  note d = cfb_chain [OF cfb_dec_batch [OF E nr] v 4 2 1]
  show ?thesis
    using 4 2 1 d E
    by (simp add: DecryptCfb_def mode_bytes_tail [OF conjunct1 [OF d]] Let_def cfb_dec_def mm_xor_si128_def keys_computeD)
qed

lemma AesEncryptNoLoad_keys:
  assumes "0 < nr" "nr \<le> 14"
  shows "AesEncryptNoLoad (take (Suc nr) (alcp_load_key_xmm pk)) b = AesEncrypt b pk nr"
proof -
  have "take (Suc nr) (alcp_load_key_xmm pk) = map (\<lambda>i. blk i pk) [0..<Suc nr]"
    using assms by (simp add: alcp_load_key_xmm_def take_map del: upt_Suc)
  also have "\<dots> = blk 0 pk # map (\<lambda>i. blk i pk) [1..<nr] @ [blk nr pk]"
    using assms by (simp add: upt_rec [of 0])
  finally show ?thesis
    using assms by (simp add: AesEncryptNoLoad_def AesEncrypt_fold mm_xor_si128_def foldl_map)
qed

lemma ofb_keys:
  assumes "keys_compute E pk nr" "nr \<in> {10, 12, 14}"
  shows "is_block b \<Longrightarrow>
    AesEncryptNoLoad (take (if nr = 10 then 11 else if nr = 12 then 13 else 15) (alcp_load_key_xmm pk)) b = E b"
  using AesEncryptNoLoad_keys [of nr pk b] assms by (auto simp: keys_computeD)

lemma crypt_ofb_modes:
  assumes E: "keys_compute E pk nr" and nr: "nr \<in> {10, 12, 14}" and v: "is_block v"
  shows "crypt_ofb multi m pk nr v = (let n = length m div 16; (out, s) = mode_blocks (ofb_crypt E) n m v
     in (out @ drop (16 * n) m, if multi then if length m mod 16 = 0 then s else E s else v))"
proof -
  define keys where "keys = take (if nr = 10 then 11 else if nr = 12 then 13 else 15) (alcp_load_key_xmm pk)"
  have K: "is_block b \<Longrightarrow> AesEncryptNoLoad keys b = E b" for b using ofb_keys [OF E nr] by (simp add: keys_def)
  obtain out b p s where k: "kloop 1 (ofb_body keys) (length m div 16) m v = (out, b, p, s)"
    by (metis prod_cases4)
  have B: "batch id is_block (ofb_crypt E) 1 (ofb_body keys)"
    using E by (auto simp: batch_def ofb_body_def ofb_crypt_def mm_xor_si128_def Let_def K keys_computeD)
  note d = single_loop [OF B v k]
  have "length p = length m mod 16" using d by (simp add: minus_mult_div_eq_mod)
  then have "take (length m mod 16) (write_at 0 (take (length m mod 16) p) (replicate 16 0)) = p"
    using write_at_0 [of p "replicate 16 0"] by simp
  moreover have "length m mod 16 = 0 \<Longrightarrow> p = []" using \<open>length p = length m mod 16\<close> by simp
  ultimately show ?thesis
    using k d K by (auto simp: crypt_ofb_def Let_def keys_def [symmetric])
qed

lemma cryptOfb_experimental_modes:
  assumes E: "keys_compute E pk nr" and v: "is_block v"
  shows "cryptOfb_experimental m pk nr v = fst (mode_bytes (ofb_crypt E) m v)"
proof -
  obtain out b p s where k: "kloop 1 (ofb_experimental_body pk nr) (length m div 16) m v = (out, b, p, s)"
    by (metis prod_cases4)
  have B: "batch id is_block (ofb_crypt E) 1 (ofb_experimental_body pk nr)"
    using E by (auto simp: batch_def ofb_experimental_body_def ofb_crypt_def mm_xor_si128_def Let_def keys_computeD)
  note d = single_loop [OF B v k]
  show ?thesis
    using k d E
    by (simp add: cryptOfb_experimental_def mode_bytes_tail [OF conjunct1 [OF d]] Let_def ofb_crypt_def mm_xor_si128_def keys_computeD)
qed

section \<open>Keys\<close>

text \<open>The object has expanded \<open>key\<close> on a machine with AES-NI.\<close>

definition aes_keyed :: "u8 list \<Rightarrow> nat \<Rightarrow> nat \<Rightarrow> rijndael \<Rightarrow> bool" where
  "aes_keyed key nk nr r \<longleftrightarrow> (\<exists>len s. (len, nk, nr) \<in> {(128, 4, 10), (192, 6, 12), (256, 8, 14)} \<and> length key = 4 * nk \<and>
     length (m_round_key_enc s) = 512 \<and> length (m_round_key_dec s) = 512 \<and> Rijndael_setKey_aesni (Some key) len s = Some r)"

abbreviation aes :: "u8 list \<Rightarrow> nat \<Rightarrow> nat \<Rightarrow> u8 list \<Rightarrow> u8 list" where
  "aes key nk nr \<equiv> aes_cipher S_enc nr (key_expansion S_enc nk nr key)"

lemma aes_keyedD:
  assumes "aes_keyed key nk nr r"
  shows "keys_compute (aes key nk nr) (m_round_key_enc r) nr" "nr \<in> {10, 12, 14}"
    and "\<exists>D. keys_decrypt D (m_round_key_dec r) nr \<and> (\<forall>b. is_block b \<longrightarrow> D (aes key nk nr b) = b)"
proof -
  obtain len s where p: "aes_params len nk nr" and k: "length key = 4 * nk" "length (m_round_key_enc s) = 512"
    "length (m_round_key_dec s) = 512" "Rijndael_setKey_aesni (Some key) len s = Some r"
    using assms by (auto simp: aes_keyed_def aes_params_def)
  have keyed: "keyed nk nr key r" using setKey_aesni_keyed [OF p k(1-3)] k(4) by auto
  have nr: "0 < nr" "16 * nr + 16 \<le> 512" using p by (auto simp: aes_params_def)
  show E: "keys_compute (aes key nk nr) (m_round_key_enc r) nr" by (rule keyed_computes [OF keyed nr])
  show "nr \<in> {10, 12, 14}" using p by (auto simp: aes_params_def)
  let ?D = "\<lambda>b. AesDecrypt b (m_round_key_dec r) nr"
  have l: "length (m_round_key_dec r) = 512" using keyed by (simp add: keyed_def)
  have map: "AesDecrypt_blocks bs (m_round_key_dec r) nr = map ?D bs" if "\<forall>b\<in>set bs. is_block b" for bs
    using AesDecrypt_blocks_map [of nr "m_round_key_dec r" bs] nr l that by simp
  have "is_block (?D b)" if "is_block b" for b
  proof -
    have "length (hd (AesDecrypt_blocks [b] (m_round_key_dec r) nr)) = 16"
      using nr l by (simp add: AesDecrypt_blocks_def aesni_rounds_first mm_aesdeclast_si128_def inv_shift_rows_def length_blk Let_def)
    then show ?thesis using map [of "[b]"] that by simp
  qed
  moreover have "?D (aes key nk nr b) = b" if "is_block b" for b
    using AesDecrypt_encryptBlock [OF keyed nr that] keys_computeD [OF E that] by simp
  ultimately show "\<exists>D. keys_decrypt D (m_round_key_dec r) nr \<and> (\<forall>b. is_block b \<longrightarrow> D (aes key nk nr b) = b)"
    using map by (intro exI [of _ ?D]) (simp add: keys_decrypt_def)
qed

lemma aes_keyed_bits: "aes_keyed key nk nr r \<Longrightarrow> 32 * nk = 32 * (nr - 6)"
  by (auto simp: aes_keyed_def)

lemma aes_keyed_ex:
  assumes "(len :: nat, nk, nr) \<in> {(128, 4, 10), (192, 6, 12), (256, 8, 14)}" "length key = 4 * nk"
  shows "\<exists>r. aes_keyed key nk nr r"
proof -
  have l: "length (m_round_key_enc Rijndael_ctor) = 512" "length (m_round_key_dec Rijndael_ctor) = 512"
    by (simp_all add: Rijndael_ctor_def)
  have "aes_params len nk nr" using assms(1) by (simp add: aes_params_def)
  from setKey_aesni_keyed [OF this assms(2) l] obtain r where "Rijndael_setKey_aesni (Some key) len Rijndael_ctor = Some r" by blast
  then show ?thesis using assms l unfolding aes_keyed_def by blast
qed

lemma aes_keyed_example: "\<exists>r. aes_keyed (replicate 16 7) 4 10 r" "\<exists>r. aes_keyed (replicate 32 7) 8 14 r"
  using aes_keyed_ex [of 128 4 10] aes_keyed_ex [of 256 8 14] by auto

text \<open>A step that undoes another.\<close>

definition undoes :: "mode_step \<Rightarrow> mode_step \<Rightarrow> bool" where
  "undoes g f \<longleftrightarrow> (\<forall>p v. is_block p \<and> is_block v \<longrightarrow>
     is_block (fst (f p v)) \<and> is_block (snd (f p v)) \<and> g (fst (f p v)) v = (p, snd (f p v)))"

lemma mode_blocks_undo:
  assumes u: "undoes g f"
  shows "16 * n \<le> length m \<Longrightarrow> is_block v \<Longrightarrow>
    mode_blocks g n (fst (mode_blocks f n m v) @ x) v = (take (16 * n) m, snd (mode_blocks f n m v))"
proof (induction n arbitrary: m v x)
  case (Suc n)
  obtain c s where f: "f (take 16 m) v = (c, s)" by fastforce
  have "is_block c" "is_block s" "g c v = (take 16 m, s)"
    using u [unfolded undoes_def, rule_format, of "take 16 m" v] Suc.prems f by simp_all
  then show ?case
    using Suc.IH [of "drop 16 m" s x] Suc.prems f by (auto simp: take_add [of 16 "16 * n" m, simplified] split: prod.splits)
qed simp

lemma undoes_modes:
  assumes E: "keys_compute E pk nr" and D: "keys_decrypt D dk nr" "\<forall>b. is_block b \<longrightarrow> D (E b) = b"
  shows "undoes (cbc_dec D) (cbc_enc E)" "undoes (cfb_dec E) (cfb_enc E)" "undoes (ofb_crypt E) (ofb_crypt E)"
  using D(2) keys_computeD(3) [OF E]
  by (auto simp: undoes_def cbc_dec_def cbc_enc_def cfb_dec_def cfb_enc_def ofb_crypt_def Let_def xor_bytes_self
      xor_bytes_commute [of "E _"])

lemma undoes_length:
  assumes "undoes g f" "is_block v" "16 * n \<le> length m"
  shows "length (fst (mode_blocks f n m v)) = 16 * n" "is_block (snd (mode_blocks f n m v))"
  using assms
  by (auto intro!: length_mode_blocks [where P = is_block] mode_blocks_keeps [where P = is_block] simp: undoes_def)

lemma mode_bytes_undo:
  assumes u: "undoes g f" and v: "is_block v"
    and g: "\<And>c d v n. take n c = take n d \<Longrightarrow> take n (fst (g c v)) = take n (fst (g d v))"
  shows "fst (mode_bytes g (fst (mode_bytes f m v)) v) = m" "length (fst (mode_bytes f m v)) = length m"
proof -
  define n r where nr: "n = length m div 16" "r = length m mod 16"
  have m: "length m = 16 * n + r" "r < 16" by (simp_all add: nr)
  obtain out s where o: "mode_blocks f n m v = (out, s)" by fastforce
  have l: "length out = 16 * n" "is_block s" using undoes_length [OF u v, of n m] m o by simp_all
  have undo: "mode_blocks g n (out @ x) v = (take (16 * n) m, s)" for x
    using mode_blocks_undo [OF u _ v, of n m x] m o by simp
  let ?p = "drop (16 * n) m @ replicate (16 - r) 0"
  obtain c s' where c: "f ?p s = (c, s')" by fastforce
  have "is_block ?p" using m by simp
  then have gc: "g c s = (?p, s')" "is_block c"
    using u [unfolded undoes_def, rule_format, of ?p s] l c by simp_all
  have enc: "fst (mode_bytes f m v) = (if r = 0 then out else out @ take r c)"
    using o c by (simp add: mode_bytes_def nr [symmetric] split_def)
  then show len: "length (fst (mode_bytes f m v)) = length m" using l m gc by simp
  have d: "length (fst (mode_bytes f m v)) div 16 = n" "length (fst (mode_bytes f m v)) mod 16 = r"
    unfolding len by (simp_all add: nr)
  show "fst (mode_bytes g (fst (mode_bytes f m v)) v) = m"
  proof (cases "r = 0")
    case True
    then show ?thesis using undo [of "[]"] m d enc by (simp add: mode_bytes_def [of g])
  next
    case False
    have "take r (fst (g (take r c @ replicate (16 - r) 0) s)) = take r ?p"
      using g [of r "take r c @ replicate (16 - r) 0" c s] gc m by simp
    then show ?thesis
      using False undo [of "take r c"] m d enc l
      by (simp add: mode_bytes_def [of g] split_def)
  qed
qed

text \<open>A chaining value that is the cipher text block.\<close>

lemma mode_blocks_chain:
  assumes u: "undoes g f" and v: "is_block v" and n: "16 * n \<le> length m" "0 < n" and c: "\<And>p v. snd (f p v) = fst (f p v)"
  shows "blk (n - 1) (fst (mode_blocks f n m v)) = snd (mode_blocks f n m v)"
proof -
  obtain k where k: "n = k + 1" using n(2) by (metis Suc_eq_plus1 gr0_conv_Suc)
  obtain o1 s1 where 1: "mode_blocks f k m v = (o1, s1)" by fastforce
  have l: "length o1 = 16 * k" "is_block s1" using undoes_length [OF u v, of k m] n(1) k 1 by simp_all
  obtain o2 s2 where 2: "f (take 16 (drop (16 * k) m)) s1 = (o2, s2)" by fastforce
  have "is_block o2" "s2 = o2"
    using u [unfolded undoes_def, rule_format, of "take 16 (drop (16 * k) m)" s1] c [of "take 16 (drop (16 * k) m)" s1] 2 l(2) n(1) k by simp_all
  moreover have "mode_blocks f n m v = (o1 @ o2, s2)" unfolding k mode_blocks_add by (simp add: 1 2)
  ultimately show ?thesis using l(1) k by (simp add: blk_def)
qed

lemma cfb_ofb_prefix:
  "take n c = take n d \<Longrightarrow> take n (fst (cfb_dec E c v)) = take n (fst (cfb_dec E d v))"
  "take n c = take n d \<Longrightarrow> take n (fst (ofb_crypt E c v)) = take n (fst (ofb_crypt E d v))"
  by (simp_all add: cfb_dec_def ofb_crypt_def Let_def xor_bytes_def take_map take_zip)

section \<open>Properties\<close>

lemma Cfb_decrypts:
  assumes "aes_keyed key nk nr r" "length iv = 16"
  shows "fst (DecryptCfb multi in_place (fst (EncryptCfb multi m (m_round_key_enc r) nr iv)) (m_round_key_enc r) nr iv) = m"
proof -
  obtain D where D: "keys_decrypt D (m_round_key_dec r) nr" "\<forall>b. is_block b \<longrightarrow> D (aes key nk nr b) = b"
    using aes_keyedD(3) [OF assms(1)] by blast
  note E = aes_keyedD(1) [OF assms(1)]
  have nr: "0 < nr" using aes_keyedD(2) [OF assms(1)] by auto
  show ?thesis
    using mode_bytes_undo [OF undoes_modes(2) [OF E D] assms(2) cfb_ofb_prefix(1)]
    by (simp add: EncryptCfb_modes [OF E assms(2)] DecryptCfb_modes [OF E nr assms(2)] split_def Let_def)
qed

text \<open>C27:
  CBC is the mode of NIST SP 800-38A over AES, with a last partial block padded by zeros and
  cut; decryption gives the whole blocks of the message back and nothing of a partial one. The
  IV to go on with is the same on both sides for whole blocks.
\<close>

theorem Cbc_roundtrip:
  assumes "aes_keyed key nk nr r" "length iv = 16"
  shows "EncryptCbc multi m (m_round_key_enc r) nr iv
      = (let (c, v) = mode_bytes (cbc_enc (aes key nk nr)) m iv in (c, if multi then v else iv)) \<and>
    DecryptCbc multi (fst (EncryptCbc multi m (m_round_key_enc r) nr iv)) (m_round_key_dec r) nr iv
      = (take (16 * (length m div 16)) m,
         snd (EncryptCbc multi (take (16 * (length m div 16)) m) (m_round_key_enc r) nr iv))"
proof -
  obtain D where D: "keys_decrypt D (m_round_key_dec r) nr" "\<forall>b. is_block b \<longrightarrow> D (aes key nk nr b) = b"
    using aes_keyedD(3) [OF assms(1)] by blast
  note E = aes_keyedD(1) [OF assms(1)]
  note u = undoes_modes(1) [OF E D]
  let ?n = "length m div 16" and ?f = "cbc_enc (aes key nk nr)" and ?g = "cbc_dec D"
  obtain out s where o: "mode_blocks ?f ?n m iv = (out, s)" by fastforce
  obtain x where x: "fst (mode_bytes ?f m iv) = out @ x" "length x = length m mod 16"
    using o undoes_length [OF u assms(2), of ?n m] keys_computeD(3) [OF E]
    by (fastforce simp: mode_bytes_def Let_def cbc_enc_def split: if_splits)
  have "mode_blocks ?g ?n (out @ x) iv = (take (16 * ?n) m, s)"
    using mode_blocks_undo [OF u _ assms(2), of ?n m x] o by simp
  moreover have "length (out @ x) div 16 = ?n" using x(2) undoes_length [OF u assms(2), of ?n m] o by simp
  moreover have "mode_blocks ?f ?n (take (16 * ?n) m) iv = (out, s)" by (simp add: mode_blocks_take o)
  ultimately show ?thesis
    using o x(1) by (simp add: EncryptCbc_modes [OF E assms(2)] DecryptCbc_modes [OF D(1) assms(2)] split_def mode_bytes_def)
qed

theorem Cbc_roundtrip_witness:
  "\<exists>r. aes_keyed (replicate 16 7) 4 10 r \<and> EncryptCbc True (replicate 40 1) (m_round_key_enc r) 10 (replicate 16 3)
      = mode_bytes (cbc_enc (aes (replicate 16 7) 4 10)) (replicate 40 1) (replicate 16 3) \<and>
    fst (DecryptCbc True (fst (EncryptCbc True (replicate 40 1) (m_round_key_enc r) 10 (replicate 16 3)))
      (m_round_key_dec r) 10 (replicate 16 3)) = replicate 32 1"
proof -
  obtain r where r: "aes_keyed (replicate 16 7) 4 10 r" using aes_keyed_example(1) by blast
  show ?thesis using r Cbc_roundtrip [OF r, of "replicate 16 3" True "replicate 40 1"] by (auto simp: split_def)
qed

text \<open>C28:
  CFB is the mode of NIST SP 800-38A over AES, and decryption gives back a message of any
  length, whether or not the buffers are the same.
\<close>

theorem Cfb_roundtrip:
  assumes "aes_keyed key nk nr r" "length iv = 16"
  shows "EncryptCfb multi m (m_round_key_enc r) nr iv
      = (let (c, v) = mode_bytes (cfb_enc (aes key nk nr)) m iv in (c, if multi then v else iv)) \<and>
    fst (DecryptCfb multi in_place (fst (EncryptCfb multi m (m_round_key_enc r) nr iv)) (m_round_key_enc r) nr iv) = m"
  using Cfb_decrypts [OF assms] by (simp add: EncryptCfb_modes [OF aes_keyedD(1) [OF assms(1)] assms(2)])

theorem Cfb_roundtrip_witness:
  "\<exists>r. aes_keyed (replicate 32 7) 8 14 r \<and> fst (DecryptCfb True True
      (fst (EncryptCfb True (replicate 41 1) (m_round_key_enc r) 14 (replicate 16 3))) (m_round_key_enc r) 14 (replicate 16 3))
    = replicate 41 1"
proof -
  obtain r where r: "aes_keyed (replicate 32 7) 8 14 r" using aes_keyed_example(2) by blast
  show ?thesis using r Cfb_roundtrip [OF r, of "replicate 16 3" True "replicate 41 1" True] by auto
qed

text \<open>
  With \<^verbatim>\<open>AES_MULTI_UPDATE\<close> decryption stores the last cipher text block as the IV to go on
  with when the buffers differ, as encryption does; decrypting in place it stores the last
  block of the plain text, so the next update is decrypted with a wrong chaining value.
\<close>

theorem DecryptCfb_in_place_iv:
  assumes "aes_keyed key nk nr r" "length iv = 16" "16 dvd length m" "m \<noteq> []"
  shows "let (c, v) = EncryptCfb True m (m_round_key_enc r) nr iv
     in snd (DecryptCfb True False c (m_round_key_enc r) nr iv) = v \<and>
        snd (DecryptCfb True True c (m_round_key_enc r) nr iv) = drop (length m - 16) m"
proof -
  obtain D where D: "keys_decrypt D (m_round_key_dec r) nr" "\<forall>b. is_block b \<longrightarrow> D (aes key nk nr b) = b"
    using aes_keyedD(3) [OF assms(1)] by blast
  note E = aes_keyedD(1) [OF assms(1)]
  have nr: "0 < nr" using aes_keyedD(2) [OF assms(1)] by auto
  let ?n = "length m div 16" and ?f = "cfb_enc (aes key nk nr)"
  have m: "length m mod 16 = 0" "0 < ?n" "16 \<le> length m" "16 * ?n = length m"
  proof -
    obtain k where k: "length m = 16 * k" using assms(3) by (elim dvdE)
    then have "k \<noteq> 0" using assms(4) by (cases "k = 0") simp_all
    then show "length m mod 16 = 0" "0 < ?n" "16 \<le> length m" "16 * ?n = length m" using k by simp_all
  qed
  note u = undoes_modes(2) [OF E D]
  have "blk (?n - 1) (fst (mode_blocks ?f ?n m iv)) = snd (mode_blocks ?f ?n m iv)"
    using m by (intro mode_blocks_chain [OF u assms(2)]) (auto simp: cfb_enc_def Let_def)
  moreover have "blk (?n - 1) m = drop (length m - 16) m"
    using m by (simp add: blk_def right_diff_distrib')
  moreover note mode_bytes_undo [OF u assms(2) cfb_ofb_prefix(1), of m]
  moreover have "mode_bytes ?f m iv = mode_blocks ?f ?n m iv" using m by (simp add: mode_bytes_def split_def)
  ultimately show ?thesis
    using m(3) by (simp add: EncryptCfb_modes [OF E assms(2)] DecryptCfb_modes [OF E nr assms(2)] split_def Let_def)
qed

theorem DecryptCfb_in_place_iv_witness:
  "\<exists>r. aes_keyed (replicate 32 7) 8 14 r \<and> snd (DecryptCfb True True
      (fst (EncryptCfb True (replicate 48 1) (m_round_key_enc r) 14 (replicate 16 3))) (m_round_key_enc r) 14 (replicate 16 3))
    = replicate 16 1"
proof -
  obtain r where r: "aes_keyed (replicate 32 7) 8 14 r" using aes_keyed_example(2) by blast
  have "16 dvd length (replicate 48 (1 :: u8))" by simp
  then show ?thesis using r DecryptCfb_in_place_iv [OF r, of "replicate 16 3" "replicate 48 1"] by (auto simp: split_def Let_def)
qed

text \<open>C29:
  OFB encrypts the whole blocks as NIST SP 800-38A does and leaves the bytes after them as
  they are: what follows the last whole block goes out in clear. The variant the library does
  not call masks them.
\<close>

theorem crypt_ofb_leaks_tail:
  assumes "aes_keyed key nk nr r" "length iv = 16"
  shows "let n = length m div 16 in
    fst (crypt_ofb multi m (m_round_key_enc r) nr iv)
      = fst (mode_blocks (ofb_crypt (aes key nk nr)) n m iv) @ drop (16 * n) m \<and>
    cryptOfb_experimental m (m_round_key_enc r) nr iv = fst (mode_bytes (ofb_crypt (aes key nk nr)) m iv) \<and>
    cryptOfb_experimental (cryptOfb_experimental m (m_round_key_enc r) nr iv) (m_round_key_enc r) nr iv = m"
proof -
  obtain D where D: "keys_decrypt D (m_round_key_dec r) nr" "\<forall>b. is_block b \<longrightarrow> D (aes key nk nr b) = b"
    using aes_keyedD(3) [OF assms(1)] by blast
  note E = aes_keyedD(1) [OF assms(1)]
  show ?thesis
    using mode_bytes_undo(1) [OF undoes_modes(3) [OF E D] assms(2) cfb_ofb_prefix(2)]
    by (simp add: crypt_ofb_modes [OF E aes_keyedD(2) [OF assms(1)] assms(2)] cryptOfb_experimental_modes [OF E assms(2)] split_def Let_def)
qed

theorem crypt_ofb_leaks_tail_witness:
  "\<exists>r. aes_keyed (replicate 16 7) 4 10 r \<and>
    drop 16 (fst (crypt_ofb False (replicate 30 5) (m_round_key_enc r) 10 (replicate 16 3))) = replicate 14 5"
proof -
  obtain r where r: "aes_keyed (replicate 16 7) 4 10 r" using aes_keyed_example(1) by blast
  show ?thesis
    using r crypt_ofb_leaks_tail [OF r, of "replicate 16 3" "replicate 30 5" False] aes_keyedD(1) [OF r]
    by (auto simp: Let_def ofb_crypt_def keys_computeD split_def intro!: exI [of _ r])
qed

end
