(* ===== verification/Vaes.thy ===== *)
theory Vaes imports Aes_Modes begin

text \<open>
  The block functions on registers of two and four blocks, \<^verbatim>\<open>arch/zen3/vaes.hh\<close> and
  \<^verbatim>\<open>arch/zen4/vaes_avx512_core.hh\<close>. A register is the list of its 128-bit lanes; the
  instructions used work lane by lane, and a function on several registers is one on all
  their lanes.
\<close>

unbundle bit_operations_syntax

text \<open>Two rounds a turn with the keys broadcast to the lanes; \<open>rd\<close> is the instruction of a round.\<close>

fun vaes_turns :: "(m128 \<Rightarrow> m128 \<Rightarrow> m128) \<Rightarrow> nat \<Rightarrow> u8 list \<Rightarrow> m128 \<times> m128 \<Rightarrow> m128 list \<Rightarrow> (m128 \<times> m128) \<times> m128 list" where
  "vaes_turns rd 0 pKey rkeys bs = (rkeys, bs)"
| "vaes_turns rd (Suc n) pKey (rkey0, rkey1) bs =
     (let bs = map (\<lambda>b. rd b rkey1) bs; rkey1 = blk 2 pKey;
          bs = map (\<lambda>b. rd b rkey0) bs; rkey0 = blk 3 pKey
      in vaes_turns rd n (drop 32 pKey) (rkey0, rkey1) bs)"

definition vaes_AesEncrypt :: "u8 list \<Rightarrow> nat \<Rightarrow> m128 list \<Rightarrow> m128 list" where
  "vaes_AesEncrypt pKey nRounds bs =
     (let rkey0 = blk 0 pKey; rkey1 = blk 1 pKey;
          bs = map (\<lambda>b. mm_xor_si128 b rkey0) bs;
          rkey0 = blk 2 pKey;
          ((rkey0, rkey1), bs) = vaes_turns mm_aesenc_si128 ((nRounds - 1) div 2) (drop 16 pKey) (rkey0, rkey1) bs;
          bs = map (\<lambda>b. mm_aesenc_si128 b rkey1) bs
      in map (\<lambda>b. mm_aesenclast_si128 b rkey0) bs)"

definition vaes_AesDecrypt :: "u8 list \<Rightarrow> nat \<Rightarrow> m128 list \<Rightarrow> m128 list" where
  "vaes_AesDecrypt pKey nRounds bs =
     (let rkey0 = blk 0 pKey; rkey1 = blk 1 pKey;
          bs = map (\<lambda>b. mm_xor_si128 b rkey0) bs;
          rkey0 = blk 2 pKey;
          ((rkey0, rkey1), bs) = vaes_turns mm_aesdec_si128 ((nRounds - 1) div 2) (drop 16 pKey) (rkey0, rkey1) bs;
          bs = map (\<lambda>b. mm_aesdec_si128 b rkey1) bs
      in map (\<lambda>b. mm_aesdeclast_si128 b rkey0) bs)"

text \<open>All round keys in registers.\<close>

definition alcp_load_key_zmm :: "nat \<Rightarrow> u8 list \<Rightarrow> m128 list" where
  "alcp_load_key_zmm nRounds pkey = map (\<lambda>i. blk i pkey) [0..<nRounds + 1]"

definition vaes512_AesEncryptNoLoad :: "m128 list \<Rightarrow> m128 list \<Rightarrow> m128 list" where
  "vaes512_AesEncryptNoLoad keys bs =
     map (\<lambda>a. mm_aesenclast_si128 (foldl mm_aesenc_si128 (mm_xor_si128 a (hd keys)) (butlast (tl keys))) (last keys)) bs"

definition vaes512_AesDecryptNoLoad :: "m128 list \<Rightarrow> m128 list \<Rightarrow> m128 list" where
  "vaes512_AesDecryptNoLoad keys bs =
     map (\<lambda>a. mm_aesdeclast_si128 (foldl mm_aesdec_si128 (mm_xor_si128 a (hd keys)) (butlast (tl keys))) (last keys)) bs"

section \<open>They are the functions of one block on every lane\<close>

lemma vaes_turns_fold:
  "vaes_turns rd n (drop (16 * a) pk) (blk (a + 1) pk, blk a pk) bs
    = ((blk (a + 2 * n + 1) pk, blk (a + 2 * n) pk), map (\<lambda>b. foldl (\<lambda>st r. rd st (blk r pk)) b [a..<a + 2 * n]) bs)"
proof (induction n arbitrary: a bs)
  case (Suc n)
  have u: "[a..<a + 2 * Suc n] = a # (a + 1) # [a + 2..<a + 2 + 2 * n]" by (simp add: upt_conv_Cons)
  have b: "blk 2 (drop (16 * a) pk) = blk (a + 2) pk" "blk 3 (drop (16 * a) pk) = blk (a + 2 + 1) pk"
    "drop 32 (drop (16 * a) pk) = drop (16 * (a + 2)) pk" by (simp_all add: blk_def algebra_simps)
  show ?case
    unfolding vaes_turns.simps Let_def b u foldl_Cons
    unfolding Suc.IH [of "a + 2"] by (simp add: comp_def)
qed simp

lemma vaes_rounds:
  assumes "even nr" "0 < nr"
  obtains q where "nr = 2 * Suc q" "[Suc 0..<Suc (Suc (2 * q))] = [Suc 0..<Suc (2 * q)] @ [Suc (2 * q)]"
proof -
  obtain q where q: "nr = 2 * Suc q" using assms by (metis evenE not0_implies_Suc mult_0_right neq0_conv)
  show ?thesis by (rule that [OF q]) simp
qed

lemma vaes_AesEncrypt_blocks:
  assumes "even nr" "0 < nr"
  shows "vaes_AesEncrypt pk nr bs = map (\<lambda>b. AesEncrypt b pk nr) bs"
proof -
  obtain q where q: "nr = 2 * Suc q" "[Suc 0..<Suc (Suc (2 * q))] = [Suc 0..<Suc (2 * q)] @ [Suc (2 * q)]" using assms by (rule vaes_rounds)
  show ?thesis
    using vaes_turns_fold [of mm_aesenc_si128 q 1 pk] assms(2)
    by (simp add: vaes_AesEncrypt_def AesEncrypt_fold mm_xor_si128_def comp_def Let_def q blk_def del: upt_Suc)
qed

lemma AesDecrypt_blocks_fold:
  "0 < nr \<Longrightarrow> AesDecrypt_blocks bs pk nr = map (\<lambda>b. mm_aesdeclast_si128
     (foldl (\<lambda>st r. mm_aesdec_si128 st (blk r pk)) (xor_bytes b (blk 0 pk)) [1..<nr]) (blk nr pk)) bs"
  by (simp add: AesDecrypt_blocks_def aesni_rounds_first mm_xor_si128_def blk_def)

lemma vaes_AesDecrypt_blocks:
  assumes "even nr" "0 < nr"
  shows "vaes_AesDecrypt pk nr bs = AesDecrypt_blocks bs pk nr"
proof -
  obtain q where q: "nr = 2 * Suc q" "[Suc 0..<Suc (Suc (2 * q))] = [Suc 0..<Suc (2 * q)] @ [Suc (2 * q)]" using assms by (rule vaes_rounds)
  show ?thesis
    using vaes_turns_fold [of mm_aesdec_si128 q 1 pk] assms(2)
    by (simp add: vaes_AesDecrypt_def AesDecrypt_blocks_fold mm_xor_si128_def comp_def Let_def q blk_def del: upt_Suc)
qed

lemma load_key_zmm:
  assumes "0 < nr"
  shows "hd (alcp_load_key_zmm nr pk) = blk 0 pk" "last (alcp_load_key_zmm nr pk) = blk nr pk"
    "butlast (tl (alcp_load_key_zmm nr pk)) = map (\<lambda>i. blk i pk) [1..<nr]"
proof -
  have "alcp_load_key_zmm nr pk = blk 0 pk # map (\<lambda>i. blk i pk) [1..<nr] @ [blk nr pk]"
    using assms by (simp add: alcp_load_key_zmm_def upt_rec [of 0])
  then show "hd (alcp_load_key_zmm nr pk) = blk 0 pk" "last (alcp_load_key_zmm nr pk) = blk nr pk"
    "butlast (tl (alcp_load_key_zmm nr pk)) = map (\<lambda>i. blk i pk) [1..<nr]" by simp_all
qed

lemma vaes512_AesEncryptNoLoad_blocks:
  "0 < nr \<Longrightarrow> vaes512_AesEncryptNoLoad (alcp_load_key_zmm nr pk) bs = map (\<lambda>b. AesEncrypt b pk nr) bs"
  by (simp add: vaes512_AesEncryptNoLoad_def load_key_zmm AesEncrypt_fold mm_xor_si128_def foldl_map)

lemma vaes512_AesDecryptNoLoad_blocks:
  "0 < nr \<Longrightarrow> vaes512_AesDecryptNoLoad (alcp_load_key_zmm nr pk) bs = AesDecrypt_blocks bs pk nr"
  by (simp add: vaes512_AesDecryptNoLoad_def load_key_zmm AesDecrypt_blocks_fold mm_xor_si128_def foldl_map)

lemma zen4_enc:
  assumes "keys_compute E pk nr" "0 < nr" "\<forall>b\<in>set bs. is_block b"
  shows "vaes512_AesEncryptNoLoad (alcp_load_key_zmm nr pk) bs = map E bs"
  using assms by (simp add: vaes512_AesEncryptNoLoad_blocks keys_computeD)

lemma zen3_enc:
  assumes "keys_compute E pk nr" "even nr" "0 < nr" "\<forall>b\<in>set bs. is_block b"
  shows "vaes_AesEncrypt pk nr bs = map E bs"
  using assms by (simp add: vaes_AesEncrypt_blocks keys_computeD)

end
