(* ===== verification/Aes_Ctr.thy ===== *)
theory Aes_Ctr imports Vaes begin

text \<open>
  Counter mode on registers of one, two and four blocks. A register is the list of its 128-bit
  lanes; every instruction used works lane by lane. The first two kernels are the template
  \<^verbatim>\<open>ctrBlk\<close> of \<^verbatim>\<open>cipher/aes_ctr.hh\<close> with \<open>f\<close> lanes.
\<close>

unbundle bit_operations_syntax

section \<open>Registers\<close>

type_synonym reg = "m128 list"

definition mm_add_epi32 :: "m128 \<Rightarrow> m128 \<Rightarrow> m128" where
  "mm_add_epi32 x y = concat (map (\<lambda>i. le_bytes 4 (le_word (dword x i) + le_word (dword y i) :: u32)) [0..<4])"

definition alcp_add_epi64 :: "reg \<Rightarrow> reg \<Rightarrow> reg" where
  "alcp_add_epi64 a b = map2 mm_add_epi64 a b"

text \<open>\<^verbatim>\<open>set_epi32(0, n, 0, 0)\<close>, a lane that counts; the steps of the loops and the step of the low lane.\<close>

definition set_ctr :: "nat \<Rightarrow> m128" where
  "set_ctr n = replicate 8 0 @ le_bytes 4 (of_nat n :: u32) @ replicate 4 0"

definition ctr_step :: "nat \<Rightarrow> nat \<Rightarrow> reg" where
  "ctr_step f k = replicate f (set_ctr (f * k))"

definition one_lo :: "nat \<Rightarrow> reg" where
  "one_lo f = set_ctr 1 # replicate (f - 1) (replicate 16 0)"

section \<open>The start of the counters\<close>

definition swap_ctr_128 :: "u8 list" where
  "swap_ctr_128 = [0, 1, 2, 3, 7, 6, 5, 4, 15, 14, 13, 12, 11, 10, 9, 8]"

definition swap_ctr :: "u8 list" where
  "swap_ctr = [0, 1, 2, 3, 4, 5, 6, 7, 15, 14, 13, 12, 11, 10, 9, 8]"

definition ctrInit_128 :: "u8 list \<Rightarrow> reg" where
  "ctrInit_128 pIv = [mm_shuffle_epi8 pIv swap_ctr_128]"

text \<open>The upper lanes are moved on by an addition of 32-bit words.\<close>

definition ctrInit_256 :: "u8 list \<Rightarrow> reg" where
  "ctrInit_256 pIv =
     (let c1 = replicate 2 (mm_shuffle_epi8 pIv swap_ctr); onehi = [replicate 16 0, set_ctr 1]
      in map2 mm_add_epi32 c1 onehi)"

definition ctrInitx :: "u8 list \<Rightarrow> reg" where
  "ctrInitx pIv =
     (let c1 = replicate 4 (mm_shuffle_epi8 pIv swap_ctr); onehi = [replicate 16 0, set_ctr 1, set_ctr 2, set_ctr 3]
      in map2 mm_add_epi32 c1 onehi)"

section \<open>The kernels\<close>

text \<open>\<open>n\<close> registers at a time; \<open>enc\<close> encrypts the lanes.\<close>

definition ctr_body :: "(m128 list \<Rightarrow> m128 list) \<Rightarrow> nat \<Rightarrow> u8 list \<Rightarrow> nat \<Rightarrow> u8 list \<Rightarrow> reg \<Rightarrow> u8 list \<times> reg" where
  "ctr_body enc f swap n p_in c1 =
     (let cs = map (\<lambda>k. if k = 0 then c1 else alcp_add_epi64 c1 (ctr_step f k)) [0..<n];
          b = enc (map (\<lambda>c. mm_shuffle_epi8 c swap) (concat cs));
          a = blks (n * f) p_in
      in (concat (map2 mm_xor_si128 b a), alcp_add_epi64 c1 (ctr_step f n)))"

text \<open>The low lane alone: loads and stores half a register.\<close>

definition ctr_low_body :: "(m128 list \<Rightarrow> m128 list) \<Rightarrow> nat \<Rightarrow> u8 list \<Rightarrow> u8 list \<Rightarrow> reg \<Rightarrow> u8 list \<times> reg" where
  "ctr_low_body enc f swap p_in c1 =
     (let b1 = enc (map (\<lambda>c. mm_shuffle_epi8 c swap) c1)
      in (mm_xor_si128 (hd b1) (take 16 p_in), alcp_add_epi64 c1 (one_lo f)))"

definition ctrBlk :: "(m128 list \<Rightarrow> m128 list) \<Rightarrow> nat \<Rightarrow> u8 list \<Rightarrow> reg \<Rightarrow> bool \<Rightarrow> u8 list \<Rightarrow> u8 list \<Rightarrow> u8 list \<times> u8 list" where
  "ctrBlk enc f swap c1 multi p_in_x pIv =
     (let blocks = length p_in_x div 16; res = length p_in_x mod 16;
          (o4, blocks, p_in, c1) = kloop (4 * f) (ctr_body enc f swap 4) blocks p_in_x c1;
          (o2, blocks, p_in, c1) = kloop (2 * f) (ctr_body enc f swap 2) blocks p_in c1;
          (o1, blocks, p_in, c1) = kloop f (ctr_body enc f swap 1) blocks p_in c1;
          (o0, blocks, p_in, c1) = kloop 1 (ctr_low_body enc f swap) blocks p_in c1;
          (out, c1) = (if res \<noteq> 0 then
                         let (a1, c1) = ctr_low_body enc f swap (write_at 0 (take res p_in) (replicate 16 0)) c1
                         in (take res a1, c1)
                       else ([], c1))
      in (o4 @ o2 @ o1 @ o0 @ out, if multi then mm_shuffle_epi8 (hd c1) swap else pIv))"

definition ctrProcessAvx2 :: "bool \<Rightarrow> u8 list \<Rightarrow> u8 list \<Rightarrow> u8 list \<Rightarrow> nat \<Rightarrow> u8 list \<times> u8 list" where
  "ctrProcessAvx2 multi p_in_x pkey128 pIv nRounds =
     ctrBlk (\<lambda>bs. AesEncrypt_blocks bs pkey128 nRounds) 1 swap_ctr_128 (ctrInit_128 pIv) multi p_in_x pIv"

definition CryptCtr_zen :: "bool \<Rightarrow> u8 list \<Rightarrow> u8 list \<Rightarrow> nat \<Rightarrow> u8 list \<Rightarrow> u8 list \<times> u8 list" where
  "CryptCtr_zen multi pInputText pKey nRounds pIv = ctrProcessAvx2 multi pInputText pKey pIv nRounds"

definition ctrProcessAvx256 :: "bool \<Rightarrow> u8 list \<Rightarrow> u8 list \<Rightarrow> u8 list \<Rightarrow> nat \<Rightarrow> u8 list \<times> u8 list" where
  "ctrProcessAvx256 multi p_in_x pkey128 pIv nRounds =
     ctrBlk (vaes_AesEncrypt pkey128 nRounds) 2 swap_ctr (ctrInit_256 pIv) multi p_in_x pIv"

definition CryptCtr_zen3 :: "bool \<Rightarrow> u8 list \<Rightarrow> u8 list \<Rightarrow> nat \<Rightarrow> u8 list \<Rightarrow> u8 list \<times> u8 list" where
  "CryptCtr_zen3 multi pInputText pKey nRounds pIv = ctrProcessAvx256 multi pInputText pKey pIv nRounds"

text \<open>On 512 bits the blocks that do not fill a register and the partial one go through one masked register. The
  code has this three times, for the three numbers of round keys.\<close>

definition ctrBlk_zen4 :: "bool \<Rightarrow> u8 list \<Rightarrow> u8 list \<Rightarrow> nat \<Rightarrow> u8 list \<Rightarrow> u8 list \<times> u8 list" where
  "ctrBlk_zen4 multi p_in_x pKey nRounds pIv =
     (let blocks = length p_in_x div 16; res = length p_in_x mod 16;
          enc = vaes512_AesEncryptNoLoad (alcp_load_key_zmm nRounds pKey);
          c1 = ctrInitx pIv;
          (o4, blocks, p_in, c1) = kloop 16 (ctr_body enc 4 swap_ctr 4) blocks p_in_x c1;
          (o2, blocks, p_in, c1) = kloop 8 (ctr_body enc 4 swap_ctr 2) blocks p_in c1;
          (o1, blocks, p_in, c1) = kloop 4 (ctr_body enc 4 swap_ctr 1) blocks p_in c1;
          (out, c1) = (if res \<noteq> 0 \<or> blocks \<noteq> 0 then
                         let n = 16 * blocks + res;
                             a1 = write_at 0 (take n p_in) (replicate 64 0);
                             b1 = enc (map (\<lambda>c. mm_shuffle_epi8 c swap_ctr) c1);
                             a1 = concat (map2 mm_xor_si128 b1 (blks 4 a1));
                             c1 = ((\<lambda>c. alcp_add_epi64 c (one_lo 4)) ^^ (blocks + (if res \<noteq> 0 then 1 else 0))) c1
                         in (take n a1, c1)
                       else ([], c1))
      in (o4 @ o2 @ o1 @ out, if multi then mm_shuffle_epi8 (hd c1) swap_ctr else pIv))"

definition ctrBlk128 :: "bool \<Rightarrow> u8 list \<Rightarrow> u8 list \<Rightarrow> u8 list \<Rightarrow> u8 list \<times> u8 list" where
  "ctrBlk128 multi p_in_x pkey128 pIv = ctrBlk_zen4 multi p_in_x pkey128 10 pIv"

definition ctrBlk192 :: "bool \<Rightarrow> u8 list \<Rightarrow> u8 list \<Rightarrow> u8 list \<Rightarrow> u8 list \<times> u8 list" where
  "ctrBlk192 multi p_in_x pkey128 pIv = ctrBlk_zen4 multi p_in_x pkey128 12 pIv"

definition ctrBlk256 :: "bool \<Rightarrow> u8 list \<Rightarrow> u8 list \<Rightarrow> u8 list \<Rightarrow> u8 list \<times> u8 list" where
  "ctrBlk256 multi p_in_x pkey128 pIv = ctrBlk_zen4 multi p_in_x pkey128 14 pIv"

text \<open>The specialisation for a key of \<open>keyLen\<close> bits; the argument with the rounds is not used.\<close>

definition CryptCtr_zen4 :: "nat \<Rightarrow> bool \<Rightarrow> u8 list \<Rightarrow> u8 list \<Rightarrow> nat \<Rightarrow> u8 list \<Rightarrow> u8 list \<times> u8 list" where
  "CryptCtr_zen4 keyLen multi p_in_x pKey nRounds pIv =
     (if keyLen = 192 then ctrBlk192 multi p_in_x pKey pIv
      else if keyLen = 256 then ctrBlk256 multi p_in_x pKey pIv else ctrBlk128 multi p_in_x pKey pIv)"

lemma CryptCtr_zen4_rounds:
  "nr \<in> {10, 12, 14} \<Longrightarrow> keyLen = 32 * (nr - 6) \<Longrightarrow> CryptCtr_zen4 keyLen multi m pk nr iv = ctrBlk_zen4 multi m pk nr iv"
  by (auto simp: CryptCtr_zen4_def ctrBlk128_def ctrBlk192_def ctrBlk256_def)

section \<open>The lanes count\<close>

text \<open>A lane: eight bytes that stay and a counter of 64 bits.\<close>

abbreviation lane :: "u8 list \<Rightarrow> u64 \<Rightarrow> m128" where
  "lane pre c \<equiv> pre @ le_bytes 8 c"

lemma le_word_append_zeros: "le_word (bs @ replicate n 0) = (le_word bs :: 'a::len word)"
  by (rule bit_word_eqI) (auto simp: bit_le_word nth_append)

lemma le_word_ucast:
  assumes "8 * length bs \<le> LENGTH('b::len)"
  shows "ucast (le_word bs :: 'b word) = (le_word bs :: 'a::len word)"
  using assms by (intro bit_word_eqI) (auto simp: bit_simps bit_le_word)

lemma le_word_set_ctr:
  assumes "n < 2 ^ 32"
  shows "le_word (le_bytes 4 (of_nat n :: u32) @ replicate 4 0) = (of_nat n :: u64)"
proof -
  have "le_word (le_bytes 4 (of_nat n :: u32)) = (ucast (le_word (le_bytes 4 (of_nat n :: u32)) :: u32) :: u64)"
    by (rule le_word_ucast [symmetric]) simp
  also have "\<dots> = ucast (of_nat n :: u32)" by (simp add: le_word_le_bytes)
  also have "\<dots> = (of_nat n :: u64)"
    using assms by (simp add: word_unat_eq_iff unsigned_ucast_eq unsigned_of_nat take_bit_nat_eq_self)
  finally show ?thesis by (simp add: le_word_append_zeros)
qed

lemma mm_add_epi64_lane:
  assumes "length pre = 8" "n < 2 ^ 32"
  shows "mm_add_epi64 (lane pre c) (set_ctr n) = lane pre (c + of_nat n)"
  using assms le_word_append_zeros [of "[]" 8, where 'a = 64]
  by (simp add: mm_add_epi64_def set_ctr_def le_word_set_ctr le_bytes_le_word le_word_le_bytes)

text \<open>What a shuffle does to the lanes of an IV.\<close>

definition ctr_swap :: "u8 list \<Rightarrow> u8 list \<Rightarrow> u8 list \<Rightarrow> bool" where
  "ctr_swap swap iv pre \<longleftrightarrow> length pre = 8 \<and> mm_shuffle_epi8 iv swap = lane pre (be_word (drop 8 iv)) \<and>
     (\<forall>c. mm_shuffle_epi8 (lane pre c) swap = take 8 iv @ be_bytes 8 c)"

lemma list16:
  assumes "length v = 16"
  obtains a b c d e f g h i j k l m n p q where "v = [a, b, c, d, e, f, g, h, i, j, k, l, m, n, p, q]"
  using assms by (auto simp: numeral_eq_Suc length_Suc_conv)

lemma ctr_swaps:
  assumes "length iv = 16"
  shows "ctr_swap swap_ctr_128 iv (take 4 iv @ rev (take 4 (drop 4 iv)))" "ctr_swap swap_ctr iv (take 8 iv)"
proof -
  obtain a b c d e f g h i j k l m n p q where iv: "iv = [a, b, c, d, e, f, g, h, i, j, k, l, m, n, p, q]"
    using assms by (rule list16)
  have le: "le_bytes 8 (be_word (drop 8 iv) :: u64) = rev (drop 8 iv)"
    using assms by (simp add: be_word_def le_bytes_le_word)
  show "ctr_swap swap_ctr_128 iv (take 4 iv @ rev (take 4 (drop 4 iv)))"
    using le by (simp add: ctr_swap_def iv mm_shuffle_epi8_def swap_ctr_128_def be_bytes_def le_bytes_8)
  show "ctr_swap swap_ctr iv (take 8 iv)"
    using le by (simp add: ctr_swap_def iv mm_shuffle_epi8_def swap_ctr_def be_bytes_def le_bytes_8)
qed

text \<open>A register whose lanes are consecutive counters.\<close>

definition ctr_reg :: "u8 list \<Rightarrow> u64 \<Rightarrow> nat \<Rightarrow> nat \<Rightarrow> reg" where
  "ctr_reg pre c0 f k = map (\<lambda>j. lane pre (c0 + of_nat (k + j))) [0..<f]"

lemma ctr_reg_step:
  "length pre = 8 \<Longrightarrow> f * n < 2 ^ 32 \<Longrightarrow>
   alcp_add_epi64 (ctr_reg pre c0 f k) (ctr_step f n) = ctr_reg pre c0 f (k + f * n)"
  by (rule nth_equalityI) (auto simp: alcp_add_epi64_def ctr_reg_def ctr_step_def mm_add_epi64_lane algebra_simps)

lemma concat_ctr_regs:
  "concat (map (\<lambda>i. ctr_reg pre c0 f (k + f * i)) [0..<n]) = ctr_reg pre c0 (n * f) k"
proof (induction n)
  case (Suc n)
  have "ctr_reg pre c0 (Suc n * f) k = ctr_reg pre c0 (n * f) k @ ctr_reg pre c0 f (k + f * n)"
    by (rule nth_equalityI) (auto simp: ctr_reg_def nth_append algebra_simps)
  then show ?case using Suc by simp
qed (simp add: ctr_reg_def)

text \<open>Counter mode as a step, whose state is the number of blocks done.\<close>

definition ctr_crypt :: "(u8 list \<Rightarrow> u8 list) \<Rightarrow> (nat \<Rightarrow> u8 list) \<Rightarrow> u8 list \<Rightarrow> nat \<Rightarrow> u8 list \<times> nat" where
  "ctr_crypt E v p k = (xor_bytes (E (v k)) p, k + 1)"

lemma mode_blocks_ctr:
  "mode_blocks (ctr_crypt E v) n xs k
   = (concat (map2 xor_bytes (map (\<lambda>i. E (v (k + i))) [0..<n]) (blks n xs)), k + n)"
proof (induction n arbitrary: xs k)
  case (Suc n)
  have "map (\<lambda>i. E (v (k + i))) [0..<Suc n] = E (v k) # map (\<lambda>i. E (v (Suc k + i))) [0..<n]"
    by (simp add: upt_conv_Cons map_Suc_upt [symmetric] del: upt_Suc)
  then show ?case using Suc.IH [of "drop 16 xs" "Suc k"] by (simp add: ctr_crypt_def del: upt_Suc)
qed simp

lemma ctr_batch:
  assumes sw: "ctr_swap swap iv pre" and iv: "is_block iv" and n: "0 < n" "0 < f" "f * n < 2 ^ 32"
    and E: "\<And>bs. \<forall>b\<in>set bs. is_block b \<Longrightarrow> enc bs = map E bs"
  shows "batch (ctr_reg pre (be_word (drop 8 iv)) f) (\<lambda>_. True) (ctr_crypt E (ctr_block iv)) (n * f) (ctr_body enc f swap n)"
proof -
  let ?c = "be_word (drop 8 iv) :: u64"
  have pre: "length pre = 8" using sw by (simp add: ctr_swap_def)
  have "ctr_body enc f swap n xs (ctr_reg pre ?c f k)
    = apsnd (ctr_reg pre ?c f) (mode_blocks (ctr_crypt E (ctr_block iv)) (n * f) xs k)" for xs k
  proof -
    have r: "(if i = 0 then ctr_reg pre ?c f k else alcp_add_epi64 (ctr_reg pre ?c f k) (ctr_step f i))
        = ctr_reg pre ?c f (k + f * i)" if "i < n" for i
      using that n pre le_less_trans [of "f * i" "f * n" "2 ^ 32"] by (auto intro!: ctr_reg_step)
    have "concat (map (\<lambda>i. if i = 0 then ctr_reg pre ?c f k
          else alcp_add_epi64 (ctr_reg pre ?c f k) (ctr_step f i)) [0..<n]) = ctr_reg pre ?c (n * f) k"
      unfolding concat_ctr_regs [symmetric] by (intro arg_cong [where f = concat] map_cong refl r) simp
    moreover have "map (\<lambda>c. mm_shuffle_epi8 c swap) (ctr_reg pre ?c (n * f) k) = map (\<lambda>i. ctr_block iv (k + i)) [0..<n * f]"
      using sw by (simp add: ctr_reg_def ctr_swap_def ctr_block_def)
    moreover have "enc (map (\<lambda>i. ctr_block iv (k + i)) [0..<n * f]) = map (\<lambda>i. E (ctr_block iv (k + i))) [0..<n * f]"
      using iv by (subst E) (auto simp: ctr_block_def)
    ultimately show ?thesis
      using ctr_reg_step [OF pre n(3)] by (simp add: ctr_body_def mode_blocks_ctr mm_xor_si128_def [abs_def] mult.commute)
  qed
  then show ?thesis using n by (simp add: batch_def)
qed

text \<open>The loop on the low lane leaves the other lanes as they are.\<close>

lemma mm_add_epi64_zero: "is_block b \<Longrightarrow> mm_add_epi64 b (replicate 16 0) = b"
  using le_word_append_zeros [of "[]" 8, where 'a = 64] by (simp add: mm_add_epi64_def le_bytes_le_word)

lemma alcp_add_zero:
  "\<forall>b\<in>set bs. is_block b \<Longrightarrow> alcp_add_epi64 bs (replicate (length bs) (replicate 16 0)) = bs"
  by (induction bs) (simp_all add: alcp_add_epi64_def mm_add_epi64_zero)

lemma ctr_low_batch:
  assumes sw: "ctr_swap swap iv pre" and iv: "is_block iv" and swap: "length swap = 16"
    and rest: "\<forall>b\<in>set rest. is_block b" and E: "\<And>bs. \<forall>b\<in>set bs. is_block b \<Longrightarrow> enc bs = map E bs"
  shows "batch (\<lambda>k. lane pre (be_word (drop 8 iv) + of_nat k) # rest) (\<lambda>_. True) (ctr_crypt E (ctr_block iv)) 1
    (ctr_low_body enc (Suc (length rest)) swap)"
proof -
  let ?c = "be_word (drop 8 iv) :: u64"
  have pre: "length pre = 8" using sw by (simp add: ctr_swap_def)
  have one: "alcp_add_epi64 (lane pre (?c + of_nat k) # rest) (one_lo (Suc (length rest))) = lane pre (?c + of_nat (Suc k)) # rest" for k
    using alcp_add_zero [OF rest] mm_add_epi64_lane [OF pre, of 1 "?c + of_nat k"]
    by (simp add: one_lo_def alcp_add_epi64_def algebra_simps)
  have "hd (enc (map (\<lambda>c. mm_shuffle_epi8 c swap) (lane pre (?c + of_nat k) # rest))) = E (ctr_block iv k)" for k
    using sw swap iv by (subst E) (auto simp: ctr_swap_def ctr_block_def mm_shuffle_epi8_def)
  then show ?thesis using one by (simp add: batch_def ctr_low_body_def ctr_crypt_def mm_xor_si128_def)
qed

lemma xor_bytes_append2:
  "xor_bytes m (a @ b) = xor_bytes (take (length a) m) a @ xor_bytes (drop (length a) m) b"
  by (simp add: xor_bytes_def zip_append2)

text \<open>A key stream over blocks padded with zeros.\<close>

lemma xor_blocks:
  assumes "\<forall>k\<in>set ks. is_block k" "length m + z = 16 * length ks"
  shows "take (length m) (concat (map2 xor_bytes ks (blks (length ks) (m @ replicate z 0)))) = xor_bytes m (concat ks)"
  using assms
proof (induction ks arbitrary: m z)
  case (Cons k ks)
  have k: "is_block k" using Cons.prems by simp
  show ?case
  proof (cases "16 \<le> length m")
    case True
    then show ?thesis
      using Cons.IH [of "drop 16 m" z] Cons.prems k
      by (simp add: xor_bytes_append2 [of m] take_append xor_bytes_commute [of k])
  next
    case False
    then have "take (length m) (xor_bytes k (m @ replicate (16 - length m) 0)) = xor_bytes m k"
      using k by (intro nth_equalityI) (simp_all add: xor_bytes_def nth_append ac_simps)
    moreover have "16 - length m \<le> z" using False Cons.prems by simp
    ultimately show ?thesis
      using False k Cons.prems by (simp add: xor_bytes_append2 [of m] take_append xor_bytes_def [of "[]"] min_def)
  qed
qed (simp add: xor_bytes_def)

lemma ctr_stream_any:
  assumes "\<And>i. is_block (v i)" "\<And>b. is_block b \<Longrightarrow> is_block (E b)" "length m \<le> 16 * n"
  shows "ctr_stream E v m = xor_bytes m (concat (map (\<lambda>i. E (v i)) [0..<n]))"
proof -
  let ?n = "(length m + 15) div 16"
  have n: "?n + (n - ?n) = n" and m: "length m \<le> 16 * ?n" using assms(3) by auto
  have "[0..<n] = [0..<?n] @ [?n..<n]" using upt_add_eq_append [of 0 ?n "n - ?n"] n by simp
  moreover have "length (concat (map (\<lambda>i. E (v i)) [0..<?n])) = 16 * ?n"
    using assms(1,2) by (simp add: length_concat comp_def sum_list_triv)
  ultimately show ?thesis
    using m by (simp add: ctr_stream_def xor_bytes_append2 xor_bytes_def [of "[]"])
qed

lemma ctr_finish:
  assumes v: "\<And>i. is_block (v i)" and E: "\<And>b. is_block b \<Longrightarrow> is_block (E b)" and n: "16 * n \<le> length m"
    and j: "length m + z = 16 * (n + j)"
  shows "fst (mode_blocks (ctr_crypt E v) n m 0) @
      take (length m - 16 * n) (concat (map2 xor_bytes (map (\<lambda>i. E (v (n + i))) [0..<j]) (blks j (drop (16 * n) m @ replicate z 0))))
    = ctr_stream E v m"
proof -
  let ?ks = "\<lambda>a b. map (\<lambda>i. E (v (a + i))) [0..<b]"
  have b: "\<forall>k\<in>set (?ks a b). is_block k" for a b using v E by auto
  have "blks n (take (16 * n) m) = blks n m"
    by (rule nth_equalityI) (auto simp: blks_def blk_def min_def drop_take)
  moreover have "length (fst (mode_blocks (ctr_crypt E v) n m 0)) = 16 * n"
    using v E n by (intro length_mode_blocks [where P = "\<lambda>_. True"]) (simp_all add: ctr_crypt_def)
  ultimately have 1: "fst (mode_blocks (ctr_crypt E v) n m 0) = xor_bytes (take (16 * n) m) (concat (?ks 0 n))"
    using xor_blocks [OF b [of 0 n], of "take (16 * n) m" 0] n by (simp add: mode_blocks_ctr min_absorb2)
  have 2: "take (length m - 16 * n) (concat (map2 xor_bytes (?ks n j) (blks j (drop (16 * n) m @ replicate z 0))))
      = xor_bytes (drop (16 * n) m) (concat (?ks n j))"
    using xor_blocks [OF b [of n j], of "drop (16 * n) m" z] n j by simp
  have "[0..<n + j] = [0..<n] @ map ((+) n) [0..<j]"
    by (rule nth_equalityI) (auto simp: nth_append)
  then have "concat (?ks 0 (n + j)) = concat (?ks 0 n) @ concat (?ks n j)" by (simp add: comp_def)
  moreover have "length (concat (?ks 0 n)) = 16 * n" using v E by (simp add: length_concat comp_def sum_list_triv)
  ultimately show ?thesis
    using ctr_stream_any [where v = v and E = E and n = "n + j", OF v E] j 1 2 by (simp add: xor_bytes_append2)
qed

text \<open>The loops of four, two and one registers.\<close>

lemma ctr_chain:
  assumes sw: "ctr_swap swap iv pre" and iv: "is_block iv" and f: "f \<in> {1, 2, 4}"
    and E: "\<And>bs. \<forall>b\<in>set bs. is_block b \<Longrightarrow> enc bs = map E bs"
    and 4: "kloop (4 * f) (ctr_body enc f swap 4) (length m div 16) m (ctr_reg pre (be_word (drop 8 iv)) f 0) = (o4, b4, p4, s4)"
    and 2: "kloop (2 * f) (ctr_body enc f swap 2) b4 p4 s4 = (o2, b2, p2, s2)"
    and 1: "kloop f (ctr_body enc f swap 1) b2 p2 s2 = (o1, b1, p1, s1)"
  obtains n where "length m div 16 = n + b1" "b1 < f" "p1 = drop (16 * n) m"
    "o4 @ o2 @ o1 = fst (mode_blocks (ctr_crypt E (ctr_block iv)) n m 0)" "s1 = ctr_reg pre (be_word (drop 8 iv)) f n"
proof -
  let ?g = "ctr_reg pre (be_word (drop 8 iv)) f" and ?f = "ctr_crypt E (ctr_block iv)" and ?N = "length m div 16"
  have B: "batch ?g (\<lambda>_. True) ?f (n * f) (ctr_body enc f swap n)" if "n \<in> {4, 2, 1}" for n
    using that f by (intro ctr_batch [OF sw iv _ _ _ E]) auto
  have "kprog ?g (\<lambda>_. True) ?f ?N m 0 [] ?N m (?g 0)"
    by (rule kprog_start [where g = ?g and P = "\<lambda>_. True", OF whole_blocks16 TrueI])
  note k4 = kprog_kloop [OF this B 4, simplified]
  note k2 = kprog_kloop [OF k4(1) B 2, simplified]
  note k1 = kprog_kloop [OF k2(1) B [of 1, unfolded mult_1] 1, simplified]
  have "b1 < f" using k1(2) f by auto
  moreover have "b1 \<le> ?N" "p1 = drop (16 * (?N - b1)) m" "(o4 @ o2 @ o1, s1) = apsnd ?g (mode_blocks ?f (?N - b1) m 0)"
    using k1(1) by (simp_all add: kprog_def)
  ultimately show ?thesis
    by (intro that [of "?N - b1"]) (simp_all add: mode_blocks_ctr)
qed

lemma ctr_reg_Cons: "0 < f \<Longrightarrow> ctr_reg pre c f k = lane pre (c + of_nat k) # map (\<lambda>j. lane pre (c + of_nat (k + j))) [1..<f]"
  by (simp add: ctr_reg_def upt_conv_Cons)

lemma is_ctr_block: "is_block iv \<Longrightarrow> is_block (ctr_block iv i)"
  by (simp add: ctr_block_def)

lemma ceil16:
  assumes "n mod 16 \<noteq> (0 :: nat)"
  shows "(n + 15) div 16 = Suc (n div 16)" "n + (16 - n mod 16) = 16 * (n div 16 + 1)"
proof -
  define q r where qr: "q = n div 16" "r = n mod 16"
  have "n = 16 * q + r" "r < 16" "0 < r" using assms by (simp_all add: qr)
  then have "(n + 15) div 16 = Suc q" "n + (16 - r) = 16 * (q + 1)" by (auto intro: div_nat_eqI)
  then show "(n + 15) div 16 = Suc (n div 16)" "n + (16 - n mod 16) = 16 * (n div 16 + 1)" by (simp_all add: qr)
qed

lemma ctrBlk_modes:
  assumes sw: "ctr_swap swap iv pre" and iv: "is_block iv" and swap: "length swap = 16" and f: "f \<in> {1, 2, 4}"
    and E: "\<And>bs. \<forall>b\<in>set bs. is_block b \<Longrightarrow> enc bs = map E bs" "\<And>b. is_block b \<Longrightarrow> is_block (E b)"
    and c1: "c1 = ctr_reg pre (be_word (drop 8 iv)) f 0"
  shows "ctrBlk enc f swap c1 multi m iv
    = (ctr_stream E (ctr_block iv) m, if multi then ctr_block iv ((length m + 15) div 16) else iv)"
proof -
  let ?N = "length m div 16" and ?r = "length m mod 16" and ?f = "ctr_crypt E (ctr_block iv)" and ?c = "be_word (drop 8 iv) :: u64"
  obtain o4 b4 p4 s4 where 4: "kloop (4 * f) (ctr_body enc f swap 4) ?N m c1 = (o4, b4, p4, s4)" by (metis prod_cases4)
  obtain o2 b2 p2 s2 where 2: "kloop (2 * f) (ctr_body enc f swap 2) b4 p4 s4 = (o2, b2, p2, s2)" by (metis prod_cases4)
  obtain o1 b1 p1 s1 where 1: "kloop f (ctr_body enc f swap 1) b2 p2 s2 = (o1, b1, p1, s1)" by (metis prod_cases4)
  obtain n where n: "?N = n + b1" "b1 < f" "p1 = drop (16 * n) m" "o4 @ o2 @ o1 = fst (mode_blocks ?f n m 0)" "s1 = ctr_reg pre ?c f n"
    by (rule ctr_chain [OF sw iv f E(1) 4 [unfolded c1] 2 1])
  define rest where "rest = map (\<lambda>j. lane pre (?c + of_nat (n + j))) [1..<f]"
  define g where "g k = lane pre (?c + of_nat k) # rest" for k
  have pre: "length pre = 8" using sw by (simp add: ctr_swap_def)
  have rest: "\<forall>b\<in>set rest. is_block b" "Suc (length rest) = f" using pre f by (auto simp: rest_def)
  have B: "batch g (\<lambda>_. True) ?f 1 (ctr_low_body enc f swap)"
    using ctr_low_batch [OF sw iv swap rest(1) E(1)] unfolding rest(2) g_def [abs_def] .
  obtain o0 b0 p0 s0 where 0: "kloop 1 (ctr_low_body enc f swap) b1 p1 s1 = (o0, b0, p0, s0)" by (metis prod_cases4)
  have g: "s1 = g n" using f n(5) ctr_reg_Cons [of f pre ?c n] by (auto simp: g_def rest_def)
  have "16 * b1 \<le> length p1" using n by simp
  from kprog_start [of b1 p1 "\<lambda>_. True" n g ?f, OF this TrueI]
  have "kprog g (\<lambda>_. True) ?f b1 p1 n [] b1 p1 s1" by (simp add: g)
  from kprog_done [OF kprog_kloop(1) [OF this B 0, unfolded kprog_kloop(2) [OF this B 0] mod_by_1]]
  have o0: "o0 = fst (mode_blocks ?f b1 p1 n)" "s0 = g ?N" "p0 = drop (16 * b1) p1"
    using n(1) by (auto simp: mode_blocks_ctr add.commute)
  have out: "(o4 @ o2 @ o1) @ o0 = fst (mode_blocks ?f ?N m 0)"
    using n o0(1) by (simp add: mode_blocks_add Let_def mode_blocks_ctr)
  have p0: "p0 = drop (16 * ?N) m" using n(1,3) o0(3) by (simp add: algebra_simps)
  have sh: "mm_shuffle_epi8 (hd (g k)) swap = ctr_block iv k" for k
    using sw by (simp add: g_def ctr_swap_def ctr_block_def)
  show ?thesis
  proof (cases "?r = 0")
    case True
    then have "(length m + 15) div 16 = ?N" by auto
    moreover have "fst (mode_blocks ?f ?N m 0) = ctr_stream E (ctr_block iv) m"
      using ctr_finish [where v = "ctr_block iv" and E = E and n = ?N and m = m and j = 0 and z = 0, OF is_ctr_block [OF iv] E(2)] True by auto
    ultimately show ?thesis
      using True 4 2 1 0 out by (simp add: ctrBlk_def Let_def o0(2) sh)
  next
    case False
    from False have N: "(length m + 15) div 16 = Suc ?N" by (rule ceil16(1))
    have l: "length m - 16 * ?N = ?r" by (simp add: minus_mult_div_eq_mod)
    let ?p = "write_at 0 (take ?r p0) (replicate 16 0)"
    have p: "?p = drop (16 * ?N) m @ replicate (16 - ?r) 0" unfolding p0 by (rule pad_partial) auto
    have low: "ctr_low_body enc f swap ?p (g ?N) = (xor_bytes (E (ctr_block iv ?N)) ?p, g (Suc ?N))"
      using B [unfolded batch_def] p l by (auto simp: ctr_crypt_def)
    have "length m + (16 - ?r) = 16 * (?N + 1)" by (rule ceil16(2) [OF False])
    from ctr_finish [where v = "ctr_block iv" and E = E and n = ?N, OF is_ctr_block [OF iv] E(2) whole_blocks16 this]
    have "o4 @ o2 @ o1 @ o0 @ take ?r (xor_bytes (E (ctr_block iv ?N)) ?p) = ctr_stream E (ctr_block iv) m"
      using l p by (simp flip: out)
    then show ?thesis
      using False 4 2 1 0 out low by (simp add: ctrBlk_def Let_def o0(2) sh N)
  qed
qed

section \<open>The three kernels\<close>

text \<open>
  The upper lanes start with the count of the lane added to the low 32 bits of the counter only:
  the start is the one counter mode wants when this addition has no carry.
\<close>

lemma ucast_add_low: "ucast (c + of_nat j :: u64) = (ucast c + of_nat j :: u32)"
  by (rule word_unat_eq_iff [THEN iffD2])
    (simp add: unsigned_ucast_eq unat_word_ariths unat_of_nat take_bit_eq_mod mod_simps mod_mod_cancel)

lemma drop_bit_no_carry:
  assumes "unat (ucast (c :: u64) :: u32) + j < 2 ^ 32"
  shows "drop_bit 32 (c + of_nat j) = drop_bit 32 c"
proof -
  have c: "unat c mod 2 ^ 32 + j < 2 ^ 32" "unat c < 2 ^ 32 * 2 ^ 32"
    using assms unsigned_less [of c, where ?'a = nat] by (simp_all add: unsigned_ucast_eq take_bit_eq_mod)
  define q r where qr: "q = unat c div 2 ^ 32" "r = unat c mod 2 ^ 32"
  have u: "unat c = 2 ^ 32 * q + r" by (simp add: qr)
  have "q < 2 ^ 32" unfolding qr(1) using c(2) by (intro less_mult_imp_div_less) simp
  then have l: "2 ^ 32 * q + (r + j) < 2 ^ 64" using c(1) [folded qr(2)] by simp
  then have "unat (c + of_nat j) = 2 ^ 32 * q + (r + j)"
    using u by (simp add: unat_word_ariths unat_of_nat mod_simps add.assoc)
  then have "unat (c + of_nat j) div 2 ^ 32 = q" using c(1) [folded qr(2)] by (simp add: div_nat_eqI)
  then have "drop_bit 32 (unat (c + of_nat j)) = drop_bit 32 (unat c)" by (simp add: drop_bit_eq_div qr(1))
  then show ?thesis by (simp add: word_unat_eq_iff unat_drop_bit_eq)
qed

lemma dword_append8:
  "length pre = 8 \<Longrightarrow> dword (pre @ x) 0 = take 4 pre" "length pre = 8 \<Longrightarrow> dword (pre @ x) 1 = drop 4 pre"
  "length pre = 8 \<Longrightarrow> dword (pre @ x) 2 = take 4 x" "length pre = 8 \<Longrightarrow> dword (pre @ x) 3 = take 4 (drop 4 x)"
  by (simp_all add: dword_def)

lemma le_bytes_halves: "le_bytes 8 c = le_bytes 4 (ucast c :: u32) @ le_bytes 4 (ucast (drop_bit 32 c) :: u32)" for c :: u64
  using le_bytes_append [of 4 4 c] by (simp add: le_bytes_ucast)

lemma mm_add_epi32_set:
  assumes "length pre = 8"
  shows "mm_add_epi32 (lane pre c) (set_ctr j) = pre @ le_bytes 4 (ucast c + of_nat j :: u32) @ le_bytes 4 (ucast (drop_bit 32 c) :: u32)"
proof -
  have z: "le_word (replicate 4 0) = (0 :: u32)" using le_word_append_zeros [of "[]" 4, where 'a = 32] by simp
  have s: "set_ctr j = replicate 8 0 @ le_bytes 4 (of_nat j :: u32) @ replicate 4 0" by (simp only: set_ctr_def)
  have d: "take 4 (replicate 8 0) = (replicate 4 0 :: u8 list)" "drop 4 (replicate 8 0) = (replicate 4 0 :: u8 list)" by simp_all
  have u: "concat (map f [0..<4]) = f 0 @ f 1 @ f 2 @ f 3" for f :: "nat \<Rightarrow> u8 list"
    by (simp add: upt_conv_Cons eval_nat_numeral)
  have "le_bytes 4 (le_word (take 4 pre) :: u32) @ le_bytes 4 (le_word (drop 4 pre) :: u32) = pre"
    using assms by (simp add: le_bytes_le_word)
  then show ?thesis
    unfolding mm_add_epi32_def u s dword_append8 [OF assms] dword_append8 [OF length_replicate] d z
    by (simp add: le_bytes_halves le_word_le_bytes z)
qed

lemma mm_add_epi32_lane:
  assumes "length pre = 8" "unat (ucast c :: u32) + j < 2 ^ 32"
  shows "mm_add_epi32 (lane pre c) (set_ctr j) = lane pre (c + of_nat j)"
  by (simp add: mm_add_epi32_set [OF assms(1)] le_bytes_halves [of "c + of_nat j"] ucast_add_low drop_bit_no_carry [OF assms(2)])

text \<open>At the carry the lane after the first gets a counter that is not the next one.\<close>

lemma mm_add_epi32_carry:
  assumes "length pre = 8" "(ucast c :: u32) = - 1"
  obtains d where "mm_add_epi32 (lane pre c) (set_ctr 1) = lane pre d" "d \<noteq> c + 1"
proof -
  define d where "d = push_bit 32 (drop_bit 32 c)"
  have hi: "bit c (32 + n) \<Longrightarrow> n < 32" for n using bit_imp_le_length [of c "32 + n"] by simp
  have d: "(ucast d :: u32) = 0" "drop_bit 32 d = drop_bit 32 c"
    by (auto simp: d_def bit_simps dest: hi intro!: bit_word_eqI)
  have "take_bit 32 c = ucast (ucast c :: u32)" by (rule bit_word_eqI) (auto simp: bit_simps)
  also have "\<dots> = 4294967295" unfolding assms(2) by code_simp
  finally have "c = d + 4294967295" using bits_ident [of 32 c] by (simp add: d_def)
  then have "d \<noteq> c + 1" by simp
  moreover have "mm_add_epi32 (lane pre c) (set_ctr 1) = lane pre d"
    using assms d by (simp add: mm_add_epi32_set le_bytes_halves [of d])
  ultimately show ?thesis by (rule that [rotated])
qed

lemma set_ctr_0: "replicate 16 0 = set_ctr 0"
  by code_simp

lemma be_word_low: "is_block iv \<Longrightarrow> ucast (be_word (drop 8 iv) :: u64) = (be_word (drop 12 iv) :: u32)"
  by (rule bit_word_eqI) (auto simp: be_word_def bit_simps bit_le_word rev_nth)

lemma ctrInit_regs:
  assumes iv: "is_block iv"
  shows "ctrInit_128 iv = ctr_reg (take 4 iv @ rev (take 4 (drop 4 iv))) (be_word (drop 8 iv)) 1 0"
    and "unat (be_word (drop 12 iv) :: u32) + 1 < 2 ^ 32 \<Longrightarrow> ctrInit_256 iv = ctr_reg (take 8 iv) (be_word (drop 8 iv)) 2 0"
    and "unat (be_word (drop 12 iv) :: u32) + 3 < 2 ^ 32 \<Longrightarrow> ctrInitx iv = ctr_reg (take 8 iv) (be_word (drop 8 iv)) 4 0"
proof -
  note sw = ctr_swaps [OF iv, unfolded ctr_swap_def]
  note low = be_word_low [OF iv]
  have rep: "replicate 2 x = [x, x]" "replicate 4 x = [x, x, x, x]" for x :: m128 by (simp_all add: eval_nat_numeral)
  note add = mm_add_epi32_lane [of "take 8 iv" "be_word (drop 8 iv)", unfolded low]
  show "ctrInit_128 iv = ctr_reg (take 4 iv @ rev (take 4 (drop 4 iv))) (be_word (drop 8 iv)) 1 0"
    using sw by (simp add: ctrInit_128_def ctr_reg_def)
  show "ctrInit_256 iv = ctr_reg (take 8 iv) (be_word (drop 8 iv)) 2 0" if "unat (be_word (drop 12 iv) :: u32) + 1 < 2 ^ 32"
    using that sw iv add [of 0] add [of 1]
    by (simp add: ctrInit_256_def ctr_reg_def set_ctr_0 upt_conv_Cons rep)
  show "ctrInitx iv = ctr_reg (take 8 iv) (be_word (drop 8 iv)) 4 0" if "unat (be_word (drop 12 iv) :: u32) + 3 < 2 ^ 32"
    using that sw iv add [of 0] add [of 1] add [of 2] add [of 3]
    by (simp add: ctrInitx_def ctr_reg_def set_ctr_0 upt_conv_Cons rep)
qed

theorem CryptCtr_zen_modes:
  assumes E: "keys_compute E pk nr" and nr: "0 < nr" and iv: "is_block iv"
  shows "CryptCtr_zen multi m pk nr iv
    = (ctr_stream E (ctr_block iv) m, if multi then ctr_block iv ((length m + 15) div 16) else iv)"
  unfolding CryptCtr_zen_def ctrProcessAvx2_def
  using nr by (intro ctrBlk_modes [OF ctr_swaps(1) [OF iv] iv _ _ _ _ ctrInit_regs(1) [OF iv]])
    (auto simp: swap_ctr_128_def AesEncrypt_blocks_map keys_computeD [OF E])

theorem CryptCtr_zen3_modes:
  assumes E: "keys_compute E pk nr" and nr: "0 < nr" "even nr" and iv: "is_block iv"
    and carry: "unat (be_word (drop 12 iv) :: u32) + 1 < 2 ^ 32"
  shows "CryptCtr_zen3 multi m pk nr iv
    = (ctr_stream E (ctr_block iv) m, if multi then ctr_block iv ((length m + 15) div 16) else iv)"
  unfolding CryptCtr_zen3_def ctrProcessAvx256_def
  using nr by (intro ctrBlk_modes [OF ctr_swaps(2) [OF iv] iv _ _ _ _ ctrInit_regs(2) [OF iv carry]])
    (auto simp: swap_ctr_def vaes_AesEncrypt_blocks keys_computeD [OF E])

text \<open>The kernel on 512 bits: the masked register takes what the loops leave.\<close>

lemma one_lo_steps:
  assumes "length pre = 8" "\<forall>b\<in>set rest. is_block b"
  shows "((\<lambda>c. alcp_add_epi64 c (one_lo (Suc (length rest)))) ^^ n) (lane pre c # rest) = lane pre (c + of_nat n) # rest"
proof (induction n)
  case (Suc n)
  then show ?case
    using alcp_add_zero [OF assms(2)] mm_add_epi64_lane [OF assms(1), of 1 "c + of_nat n"]
    by (simp add: one_lo_def alcp_add_epi64_def algebra_simps)
qed simp

lemma ctrBlk_zen4_modes:
  assumes E: "keys_compute E pk nr" and nr: "nr \<in> {10, 12, 14}" and iv: "is_block iv"
    and carry: "unat (be_word (drop 12 iv) :: u32) + 3 < 2 ^ 32"
  shows "ctrBlk_zen4 multi m pk nr iv
    = (ctr_stream E (ctr_block iv) m, if multi then ctr_block iv ((length m + 15) div 16) else iv)"
proof -
  let ?enc = "vaes512_AesEncryptNoLoad (alcp_load_key_zmm nr pk)" and ?N = "length m div 16" and ?r = "length m mod 16"
    and ?f = "ctr_crypt E (ctr_block iv)" and ?c = "be_word (drop 8 iv) :: u64" and ?pre = "take 8 iv"
  note sw = ctr_swaps(2) [OF iv]
  note c1 = ctrInit_regs(3) [OF iv carry]
  have nr0: "0 < nr" using nr by auto
  obtain o4 b4 p4 s4 where 4: "kloop 16 (ctr_body ?enc 4 swap_ctr 4) ?N m (ctrInitx iv) = (o4, b4, p4, s4)" by (metis prod_cases4)
  obtain o2 b2 p2 s2 where 2: "kloop 8 (ctr_body ?enc 4 swap_ctr 2) b4 p4 s4 = (o2, b2, p2, s2)" by (metis prod_cases4)
  obtain o1 b1 p1 s1 where 1: "kloop 4 (ctr_body ?enc 4 swap_ctr 1) b2 p2 s2 = (o1, b1, p1, s1)" by (metis prod_cases4)
  obtain n where n: "?N = n + b1" "b1 < 4" "p1 = drop (16 * n) m" "o4 @ o2 @ o1 = fst (mode_blocks ?f n m 0)" "s1 = ctr_reg ?pre ?c 4 n"
    using 4 2 1 by (elim ctr_chain [OF sw iv _ zen4_enc [OF E nr0], of 4, simplified, unfolded c1 [symmetric]]) auto
  have l: "length p1 = 16 * b1 + ?r" using n(1,3) mult_div_mod_eq [of 16 "length m"] by simp
  have sh: "map (\<lambda>c. mm_shuffle_epi8 c swap_ctr) s1 = map (\<lambda>i. ctr_block iv (n + i)) [0..<4]"
    using sw n(5) by (simp add: ctr_reg_def ctr_swap_def ctr_block_def)
  have enc: "?enc (map (\<lambda>c. mm_shuffle_epi8 c swap_ctr) s1) = map (\<lambda>i. E (ctr_block iv (n + i))) [0..<4]"
    unfolding sh using iv by (subst zen4_enc [OF E nr0]) (auto simp: is_ctr_block)
  have ceil: "(length m + 15) div 16 = n + (b1 + (if ?r \<noteq> 0 then 1 else 0))"
    using n(1) ceil16(1) [of "length m"] by auto
  have hd: "mm_shuffle_epi8 (hd (ctr_reg ?pre ?c 4 k)) swap_ctr = ctr_block iv k" for k
    using sw by (simp add: ctr_reg_Cons ctr_swap_def ctr_block_def)
  show ?thesis
  proof (cases "?r \<noteq> 0 \<or> b1 \<noteq> 0")
    case False
    then show ?thesis
      using 4 2 1 n ceil hd [of n] ctr_finish [where v = "ctr_block iv" and E = E and n = n and m = m and j = 0 and z = 0, OF is_ctr_block [OF iv]]
        keys_computeD(3) [OF E]
      by (auto simp: ctrBlk_zen4_def Let_def)
  next
    case True
    define rest where "rest = map (\<lambda>j. lane ?pre (?c + of_nat (n + j))) [1..<4]"
    have rest: "\<forall>b\<in>set rest. is_block b" "Suc (length rest) = 4" using iv by (auto simp: rest_def)
    have steps: "((\<lambda>c. alcp_add_epi64 c (one_lo 4)) ^^ k) s1 = lane ?pre (?c + of_nat (n + k)) # rest" for k
      using one_lo_steps [of ?pre rest k "?c + of_nat n"] rest iv by (simp add: n(5) ctr_reg_Cons rest_def add.assoc)
    have hd2: "mm_shuffle_epi8 (hd (((\<lambda>c. alcp_add_epi64 c (one_lo 4)) ^^ k) s1)) swap_ctr = ctr_block iv (n + k)" for k
      unfolding steps using sw by (simp add: ctr_swap_def ctr_block_def)
    have w: "write_at 0 (take (16 * b1 + ?r) p1) (replicate 64 0) = drop (16 * n) m @ replicate (64 - (16 * b1 + ?r)) 0"
      using l n(2,3) by (simp add: write_at_def)
    have "length m + (64 - (16 * b1 + ?r)) = 16 * (n + 4)" "length m - 16 * n = 16 * b1 + ?r" "16 * n \<le> length m"
      using n(1,2) mult_div_mod_eq [of 16 "length m"] by auto
    then have "fst (mode_blocks ?f n m 0) @ take (16 * b1 + ?r) (concat (map2 xor_bytes (map (\<lambda>i. E (ctr_block iv (n + i))) [0..<4])
        (blks 4 (write_at 0 (take (16 * b1 + ?r) p1) (replicate 64 0))))) = ctr_stream E (ctr_block iv) m"
      using ctr_finish [where v = "ctr_block iv" and E = E and n = n and j = 4 and m = m and z = "64 - (16 * b1 + ?r)", OF is_ctr_block [OF iv] keys_computeD(3) [OF E]] w
      by simp
    from this [folded n(4)] show ?thesis
      using 4 2 1 ceil True enc hd2
      by (simp add: ctrBlk_zen4_def Let_def mm_xor_si128_def [abs_def] del: funpow.simps)
  qed
qed

text \<open>Two blocks in the kernels on 256 and 512 bits.\<close>

lemma two_blocks:
  assumes E: "keys_compute E pk nr" and nr: "nr \<in> {10, 12, 14}" and iv: "is_block iv" and m: "length m = 32"
  shows "let c = mm_shuffle_epi8 iv swap_ctr; b = \<lambda>j. mm_shuffle_epi8 (mm_add_epi32 c (set_ctr j)) swap_ctr
    in drop 16 (fst (CryptCtr_zen3 multi m pk nr iv)) = xor_bytes (E (b 1)) (drop 16 m) \<and>
       drop 16 (fst (ctrBlk_zen4 multi m pk nr iv)) = xor_bytes (E (b 1)) (drop 16 m)"
proof -
  have nr0: "0 < nr" using nr by auto
  define c where "c = mm_shuffle_epi8 iv swap_ctr"
  define b where "b j = mm_shuffle_epi8 (mm_add_epi32 c (set_ctr j)) swap_ctr" for j
  have rep: "replicate 2 c = [c, c]" "replicate 4 c = [c, c, c, c]" by (simp_all add: eval_nat_numeral)
  have m2: "blks 2 m = [take 16 m, drop 16 m]" "blks 4 (m @ x) = [take 16 m, drop 16 m] @ blks 2 x" for x
    using m by (simp_all add: blks_def blk_def upt_conv_Cons)
  have b: "is_block (b j)" for j by (simp add: b_def mm_shuffle_epi8_def swap_ctr_def)
  have z: "map (\<lambda>c. mm_shuffle_epi8 c swap_ctr) (ctrInit_256 iv) = [b 0, b 1]"
    "map (\<lambda>c. mm_shuffle_epi8 c swap_ctr) (ctrInitx iv) = [b 0, b 1, b 2, b 3]"
    by (simp_all add: ctrInit_256_def ctrInitx_def c_def [symmetric] rep set_ctr_0 b_def)
  have "drop 16 (fst (CryptCtr_zen3 multi m pk nr iv)) = xor_bytes (E (b 1)) (drop 16 m)"
    using m nr b z(1) keys_computeD [OF E]
    by (auto simp: CryptCtr_zen3_def ctrProcessAvx256_def ctrBlk_def kloop.simps ctr_body_def vaes_AesEncrypt_blocks mm_xor_si128_def Let_def m2)
  moreover have "drop 16 (fst (ctrBlk_zen4 multi m pk nr iv)) = xor_bytes (E (b 1)) (drop 16 m)"
    using m b z(2) zen4_enc [OF E nr0] keys_computeD [OF E]
    by (simp add: ctrBlk_zen4_def kloop.simps write_at_def mm_xor_si128_def Let_def m2)
  ultimately show ?thesis by (simp add: c_def b_def Let_def)
qed

section \<open>Properties\<close>

text \<open>C30:
  The three counter mode kernels are one: each encrypts, and decrypts, as counter mode of NIST
  SP 800-38A with a 64-bit counter over AES does, and leaves the next counter block as the IV.
  The wider ones do so when the low 32 bits of the counter do not overflow in the lanes they
  start with.
\<close>

theorem CryptCtr_kernels:
  assumes r: "aes_keyed key nk nr r" and iv: "length iv = 16"
  shows "let E = aes key nk nr; out = ctr_stream E (ctr_block iv) m;
      res = (out, if multi then ctr_block iv ((length m + 15) div 16) else iv);
      low = unat (be_word (drop 12 iv) :: u32); pk = m_round_key_enc r
    in CryptCtr_zen multi m pk nr iv = res \<and>
       (low + 1 < 2 ^ 32 \<longrightarrow> CryptCtr_zen3 multi m pk nr iv = res) \<and>
       (low + 3 < 2 ^ 32 \<longrightarrow> CryptCtr_zen4 (32 * nk) multi m pk nr iv = res) \<and>
       ctr_stream E (ctr_block iv) out = m"
proof -
  note E = aes_keyedD(1) [OF r] and nr = aes_keyedD(2) [OF r]
  have nr': "0 < nr" "even nr" using nr by auto
  have "length m \<le> length (concat (map (\<lambda>i. aes key nk nr (ctr_block iv i)) [0..<(length m + 15) div 16]))"
    using keys_computeD(3) [OF E is_ctr_block [OF iv]] by (simp add: length_concat comp_def sum_list_triv)
  then have "ctr_stream (aes key nk nr) (ctr_block iv) (ctr_stream (aes key nk nr) (ctr_block iv) m) = m"
    by (simp add: ctr_stream_def xor_bytes_self min_absorb1)
  then show ?thesis
    using CryptCtr_zen_modes [OF E nr'(1) iv] CryptCtr_zen3_modes [OF E nr' iv] ctrBlk_zen4_modes [OF E nr iv]
      CryptCtr_zen4_rounds [OF nr aes_keyed_bits [OF r]]
    by (simp add: Let_def)
qed

theorem CryptCtr_kernels_witness:
  "\<exists>r. aes_keyed (replicate 16 7) 4 10 r \<and>
    CryptCtr_zen4 128 True (replicate 100 1) (m_round_key_enc r) 10 (replicate 16 0)
      = CryptCtr_zen True (replicate 100 1) (m_round_key_enc r) 10 (replicate 16 0) \<and>
    CryptCtr_zen3 True (replicate 100 1) (m_round_key_enc r) 10 (replicate 16 0)
      = CryptCtr_zen True (replicate 100 1) (m_round_key_enc r) 10 (replicate 16 0)"
proof -
  obtain r where r: "aes_keyed (replicate 16 7) 4 10 r" using aes_keyed_example(1) by blast
  define iv m :: "u8 list" where d: "iv = replicate 16 0" "m = replicate 100 1"
  have "be_word (drop 12 iv) = (0 :: u32)"
    using le_word_append_zeros [of "[]" 4, where 'a = 32] by (simp add: d be_word_def)
  then have low: "unat (be_word (drop 12 iv) :: u32) + 3 < 2 ^ 32" "unat (be_word (drop 12 iv) :: u32) + 1 < 2 ^ 32" by simp_all
  have "length iv = 16" unfolding d by (rule length_replicate)
  from CryptCtr_kernels [OF r this, of m True] low r show ?thesis
    unfolding d [symmetric] by (auto simp: Let_def)
qed

text \<open>C31:
  With the low 32 bits of the counter all ones the kernels disagree: the wider ones add the
  number of the lane without a carry into the upper half, so that the second block of every
  message is masked with a key stream block the other kernel does not use there.
\<close>

theorem CryptCtr_carry_lost:
  assumes r: "aes_keyed key nk nr r" and iv: "length iv = 16" "drop 12 iv = replicate 4 0xff" and m: "length m = 32"
  shows "drop 16 (fst (CryptCtr_zen3 multi m (m_round_key_enc r) nr iv))
      \<noteq> drop 16 (fst (CryptCtr_zen multi m (m_round_key_enc r) nr iv)) \<and>
    drop 16 (fst (CryptCtr_zen4 (32 * nk) multi m (m_round_key_enc r) nr iv))
      \<noteq> drop 16 (fst (CryptCtr_zen multi m (m_round_key_enc r) nr iv))"
proof -
  note E = aes_keyedD(1) [OF r] and nr = aes_keyedD(2) [OF r]
  let ?E = "aes key nk nr" and ?c = "be_word (drop 8 iv) :: u64"
  obtain D where D: "\<forall>b. is_block b \<longrightarrow> D (?E b) = b" using aes_keyedD(3) [OF r] by blast
  have "be_word (replicate 4 0xff) = (- 1 :: u32)" by code_simp
  then have low: "(ucast ?c :: u32) = - 1" using be_word_low [OF iv(1)] iv(2) by simp
  obtain d where d: "mm_add_epi32 (lane (take 8 iv) ?c) (set_ctr 1) = lane (take 8 iv) d" "d \<noteq> ?c + 1"
    using mm_add_epi32_carry [OF _ low, of "take 8 iv"] iv by auto
  let ?b = "take 8 iv @ be_bytes 8 d"
  have b: "mm_shuffle_epi8 (mm_add_epi32 (mm_shuffle_epi8 iv swap_ctr) (set_ctr 1)) swap_ctr = ?b"
    using ctr_swaps(2) [OF iv(1)] d(1) by (simp add: ctr_swap_def)
  have "?b \<noteq> ctr_block iv 1"
    using d(2) be_word_be_bytes [of 8 d] be_word_be_bytes [of 8 "?c + 1"] by (auto simp: ctr_block_def)
  moreover have l: "is_block ?b" "is_block (ctr_block iv 1)" using iv is_ctr_block by simp_all
  ultimately have "?E ?b \<noteq> ?E (ctr_block iv 1)" using D by metis
  have x: "xor_bytes (xor_bytes (?E b) (drop 16 m)) (drop 16 m) = ?E b" if "is_block b" for b
    using xor_bytes_self [of "?E b" "drop 16 m"] keys_computeD(3) [OF E that] m by simp
  have "xor_bytes (?E ?b) (drop 16 m) \<noteq> xor_bytes (?E (ctr_block iv 1)) (drop 16 m)"
    using x [OF l(1)] x [OF l(2)] \<open>?E ?b \<noteq> ?E (ctr_block iv 1)\<close> by auto
  moreover have "drop 16 (fst (CryptCtr_zen multi m (m_round_key_enc r) nr iv)) = xor_bytes (?E (ctr_block iv 1)) (drop 16 m)"
  proof -
    have l0: "length (?E (ctr_block iv 0)) = 16" using keys_computeD(3) [OF E is_ctr_block [OF iv(1)]] .
    have "[0..<(length m + 15) div 16] = [0, 1]" using m by (simp add: upt_conv_Cons)
    then have "ctr_stream ?E (ctr_block iv) m
        = xor_bytes (take 16 m) (?E (ctr_block iv 0)) @ xor_bytes (drop 16 m) (?E (ctr_block iv 1))"
      using xor_bytes_append2 [of m "?E (ctr_block iv 0)"] l0 by (simp add: ctr_stream_def)
    moreover have "0 < nr" using nr by auto
    ultimately show ?thesis using CryptCtr_zen_modes [OF E _ iv(1)] l0 m by (simp add: xor_bytes_commute)
  qed
  ultimately show ?thesis
    using two_blocks [OF E nr iv(1) m, of multi] b CryptCtr_zen4_rounds [OF nr aes_keyed_bits [OF r]]
    by (simp add: Let_def)
qed

theorem CryptCtr_carry_lost_witness:
  "\<exists>r. aes_keyed (replicate 16 7) 4 10 r \<and>
    fst (CryptCtr_zen3 True (replicate 32 1) (m_round_key_enc r) 10 (replicate 12 5 @ replicate 4 0xff))
      \<noteq> fst (CryptCtr_zen True (replicate 32 1) (m_round_key_enc r) 10 (replicate 12 5 @ replicate 4 0xff))"
proof -
  obtain r where r: "aes_keyed (replicate 16 7) 4 10 r" using aes_keyed_example(1) by blast
  then show ?thesis using CryptCtr_carry_lost [OF r, of "replicate 12 5 @ replicate 4 0xff" "replicate 32 1" True] by auto
qed

end
