(* ===== verification/Aes_Wide.thy ===== *)
theory Aes_Wide imports Vaes begin

text \<open>
  The decryption kernels of CBC and CFB on registers of two and four blocks: \<^verbatim>\<open>vaes_cbc_decrypt.cc\<close>
  and \<^verbatim>\<open>vaes_cfb_decrypt.cc\<close> of \<^verbatim>\<open>arch/zen3\<close> and \<^verbatim>\<open>arch/zen4\<close>. A register is loaded from the
  input at an offset that overlaps the next one, so that it holds the chaining value of each of
  its blocks.
\<close>

unbundle bit_operations_syntax

section \<open>CBC\<close>

text \<open>
  \<^verbatim>\<open>for (; blocks >= g; blocks -= n)\<close>; the body is told how many blocks follow.
\<close>

function gloop :: "nat \<Rightarrow> nat \<Rightarrow> (nat \<Rightarrow> u8 list \<Rightarrow> 's \<Rightarrow> u8 list \<times> 's) \<Rightarrow> nat \<Rightarrow> u8 list \<Rightarrow> 's \<Rightarrow> u8 list \<times> nat \<times> u8 list \<times> 's" where
  "gloop g n body blocks p_in s =
     (if 0 < n \<and> n \<le> g \<and> g \<le> blocks then
        let (out, s) = body (blocks - n) p_in s;
            (rest, r) = gloop g n body (blocks - n) (drop (16 * n) p_in) s
        in (out @ rest, r)
      else ([], blocks, p_in, s))"
  by pat_completeness auto
termination by (relation "measure (\<lambda>(g, n, body, blocks, p, s). blocks)") auto

declare gloop.simps [simp del]

definition gonce :: "nat \<Rightarrow> (nat \<Rightarrow> u8 list \<Rightarrow> 's \<Rightarrow> u8 list \<times> 's) \<Rightarrow> nat \<Rightarrow> u8 list \<Rightarrow> 's \<Rightarrow> u8 list \<times> nat \<times> u8 list \<times> 's" where
  "gonce n body blocks p_in s =
     (if n \<le> blocks then let (out, s) = body (blocks - n) p_in s in (out, blocks - n, drop (16 * n) p_in, s)
      else ([], blocks, p_in, s))"

text \<open>
  \<open>n\<close> blocks on registers of \<open>l\<close> lanes. \<open>iv1\<close> holds the masks of the first register, the others
  are loaded one block early; \<open>w\<close> is how many lanes of \<open>iv1\<close> are loaded for the next turn.
\<close>

definition cbc_dec_wide :: "(m128 list \<Rightarrow> m128 list) \<Rightarrow> nat \<Rightarrow> nat \<Rightarrow> nat \<Rightarrow> u8 list \<Rightarrow> m128 list \<Rightarrow> u8 list \<times> m128 list" where
  "cbc_dec_wide dec l n w p_in iv1 =
     (let cblock = blks n p_in;
          ivs = iv1 @ blks (n - l) (drop (16 * (l - 1)) p_in);
          cblock = dec cblock
      in (concat (map2 mm_xor_si128 cblock ivs), blks w (drop (16 * (n - 1)) p_in)))"

text \<open>One block with AES-NI at the end, masked with the low lane.\<close>

definition cbc_dec_low :: "u8 list \<Rightarrow> nat \<Rightarrow> u8 list \<Rightarrow> m128 list \<Rightarrow> u8 list \<times> m128 list" where
  "cbc_dec_low pKey nRounds p_in iv1 =
     (let ct = take 16 p_in; block = hd (AesDecrypt_blocks [ct] pKey nRounds)
      in (mm_xor_si128 block (hd iv1), [ct]))"

definition DecryptCbc_zen3 :: "bool \<Rightarrow> u8 list \<Rightarrow> u8 list \<Rightarrow> nat \<Rightarrow> u8 list \<Rightarrow> u8 list \<times> u8 list" where
  "DecryptCbc_zen3 multi pCipherText pKey nRounds pIv =
     (let len = length pCipherText; blocks = len div 16; dec = vaes_AesDecrypt pKey nRounds in
      if len = 0 then ([], pIv)
      else if len < 32 then
        let (out, _, _, iv) = kloop 1 (cbc_dec_body 1 pKey nRounds) blocks pCipherText pIv
        in (out, if multi then iv else pIv)
      else
        let iv1 = pIv # blks 1 pCipherText;
            reload = (\<lambda>blocks. if 2 \<le> blocks then 2 else 1);
            (o8, blocks, p_in, iv1) = gloop 16 8 (\<lambda>_. cbc_dec_wide dec 2 8 2) blocks pCipherText iv1;
            (o8', blocks, p_in, iv1) = gonce 8 (\<lambda>b. cbc_dec_wide dec 2 8 (reload b)) blocks p_in iv1;
            (o4, blocks, p_in, iv1) = gonce 4 (\<lambda>b. cbc_dec_wide dec 2 4 (reload b)) blocks p_in iv1;
            (o2, blocks, p_in, iv1) = gonce 2 (\<lambda>_. cbc_dec_wide dec 2 2 1) blocks p_in iv1;
            (o1, blocks, p_in, iv1) = gonce 1 (\<lambda>_. cbc_dec_low pKey nRounds) blocks p_in iv1
        in (o8 @ o8' @ o4 @ o2 @ o1, if multi then hd iv1 else pIv))"

text \<open>Up to three blocks with AES-NI, up to eight on 256 bits, more on 512.\<close>

text \<open>Here the masks are loaded again only when a block follows.\<close>

definition cbc_dec_keep :: "(m128 list \<Rightarrow> m128 list) \<Rightarrow> nat \<Rightarrow> nat \<Rightarrow> u8 list \<Rightarrow> m128 list \<Rightarrow> u8 list \<times> m128 list" where
  "cbc_dec_keep dec n blocks p_in iv256 =
     (let (out, iv) = cbc_dec_wide dec 2 n 2 p_in iv256 in (out, if 1 \<le> blocks then iv else iv256))"

definition DecryptCbc_zen4_tier2 :: "bool \<Rightarrow> u8 list \<Rightarrow> u8 list \<Rightarrow> nat \<Rightarrow> u8 list \<Rightarrow> u8 list \<times> u8 list" where
  "DecryptCbc_zen4_tier2 multi pCipherText pKey nRounds pIv =
     (let len = length pCipherText; blocks = len div 16; dec = vaes_AesDecrypt pKey nRounds;
          last_ct = blk (len div 16 - 1) pCipherText;
          iv256 = pIv # blks 1 pCipherText in
      if len = 128 then
        let (out, _) = cbc_dec_wide dec 2 8 0 pCipherText iv256 in (out, if multi then last_ct else pIv)
      else
        let (o4, blocks, p_in, iv256) = gonce 4 (cbc_dec_keep dec 4) blocks pCipherText iv256;
            (o2, blocks, p_in, iv256) = gonce 2 (cbc_dec_keep dec 2) blocks p_in iv256;
            (o1, _) = gonce 1 (\<lambda>_. cbc_dec_low pKey nRounds) blocks p_in iv256
        in (o4 @ o2 @ o1, if multi then last_ct else pIv))"

definition DecryptCbc_zen4 :: "bool \<Rightarrow> u8 list \<Rightarrow> u8 list \<Rightarrow> nat \<Rightarrow> u8 list \<Rightarrow> u8 list \<times> u8 list" where
  "DecryptCbc_zen4 multi pCipherText pKey nRounds pIv =
     (let len = length pCipherText; blocks = len div 16 in
      if len = 0 then ([], pIv)
      else if len < 64 then
        let (out, _, _, iv) = kloop 1 (cbc_dec_body 1 pKey nRounds) blocks pCipherText pIv
        in (out, if multi then iv else pIv)
      else if len \<le> 128 then DecryptCbc_zen4_tier2 multi pCipherText pKey nRounds pIv
      else
        let dec = vaes512_AesDecryptNoLoad (alcp_load_key_zmm nRounds pKey);
            iv1 = pIv # blks 3 pCipherText;
            reload = (\<lambda>blocks. if 4 \<le> blocks then 4 else 1);
            (o16, blocks, p_in, iv1) = gloop 16 16 (\<lambda>b. cbc_dec_wide dec 4 16 (reload b)) blocks pCipherText iv1;
            (o8, blocks, p_in, iv1) = gonce 8 (\<lambda>b. cbc_dec_wide dec 4 8 (reload b)) blocks p_in iv1;
            (o4, blocks, p_in, iv1) = gonce 4 (\<lambda>_. cbc_dec_wide dec 4 4 1) blocks p_in iv1;
            (o1, _, _, iv) = kloop 1 (cbc_dec_body 1 pKey nRounds) blocks p_in (hd iv1)
        in (o16 @ o8 @ o4 @ o1, if multi then iv else pIv))"

text \<open>The specialisations for a key length, from the processor's file.\<close>

definition tDecryptCbc_zen :: "nat \<Rightarrow> bool \<Rightarrow> u8 list \<Rightarrow> u8 list \<Rightarrow> u8 list \<Rightarrow> u8 list \<times> u8 list" where
  "tDecryptCbc_zen keyLen multi pSrc pKey pIv = DecryptCbc multi pSrc pKey (keyLen div 32 + 6) pIv"

definition tDecryptCbc_zen3 :: "nat \<Rightarrow> bool \<Rightarrow> u8 list \<Rightarrow> u8 list \<Rightarrow> u8 list \<Rightarrow> u8 list \<times> u8 list" where
  "tDecryptCbc_zen3 keyLen multi pSrc pKey pIv = DecryptCbc_zen3 multi pSrc pKey (keyLen div 32 + 6) pIv"

definition tDecryptCbc_zen4 :: "nat \<Rightarrow> bool \<Rightarrow> u8 list \<Rightarrow> u8 list \<Rightarrow> u8 list \<Rightarrow> u8 list \<times> u8 list" where
  "tDecryptCbc_zen4 keyLen multi pSrc pKey pIv = DecryptCbc_zen4 multi pSrc pKey (keyLen div 32 + 6) pIv"

section \<open>A chain of loops\<close>

text \<open>
  \<open>b\<close> of \<open>N\<close> blocks are left. As long as \<open>z\<close> are left the low lane of \<open>iv1\<close> is the chaining value;
  as long as \<open>l\<close> are left its other lanes are the blocks that come.
\<close>

definition lanes_ok :: "nat \<Rightarrow> nat \<Rightarrow> nat \<Rightarrow> m128 \<Rightarrow> u8 list \<Rightarrow> m128 list \<Rightarrow> bool" where
  "lanes_ok z l b s p iv1 \<longleftrightarrow> (z \<le> b \<longrightarrow> hd iv1 = s) \<and> (l \<le> b \<longrightarrow> iv1 = s # blks (l - 1) p)"

definition wprog :: "(u8 list \<Rightarrow> m128 \<Rightarrow> u8 list \<times> m128) \<Rightarrow> nat \<Rightarrow> nat \<Rightarrow> nat \<Rightarrow> u8 list \<Rightarrow> m128 \<Rightarrow>
    u8 list \<Rightarrow> nat \<Rightarrow> u8 list \<Rightarrow> m128 list \<Rightarrow> bool" where
  "wprog f z l N xs v out b p iv1 \<longleftrightarrow> b \<le> N \<and> 16 * N \<le> length xs \<and> p = drop (16 * (N - b)) xs \<and>
     (\<exists>s. mode_blocks f (N - b) xs v = (out, s) \<and> lanes_ok z l b s p iv1)"

text \<open>A body does \<open>n\<close> steps when \<open>b\<close> blocks follow them.\<close>

definition wbatch :: "(u8 list \<Rightarrow> m128 \<Rightarrow> u8 list \<times> m128) \<Rightarrow> nat \<Rightarrow> nat \<Rightarrow> nat \<Rightarrow> (nat \<Rightarrow> u8 list \<Rightarrow> m128 list \<Rightarrow> u8 list \<times> m128 list) \<Rightarrow> bool" where
  "wbatch f z l n body \<longleftrightarrow> 0 < n \<and> (\<forall>b p s iv1 out iv1'. 16 * (b + n) \<le> length p \<and> lanes_ok z l (b + n) s p iv1 \<and>
     body b p iv1 = (out, iv1') \<longrightarrow>
     (\<exists>s'. mode_blocks f n p s = (out, s') \<and> lanes_ok z l b s' (drop (16 * n) p) iv1'))"

lemma wprog_start: "16 * N \<le> length xs \<Longrightarrow> l = Suc k \<Longrightarrow> wprog f z l N xs v [] N xs (v # blks k xs)"
  by (simp add: wprog_def lanes_ok_def)

lemma wprog_body:
  assumes "wprog f z l N xs v out b p iv1" "wbatch f z l n body" "n \<le> b" "body (b - n) p iv1 = (o', iv1')"
  shows "wprog f z l N xs v (out @ o') (b - n) (drop (16 * n) p) iv1'"
proof -
  have N: "N - (b - n) = (N - b) + n" using assms(1,3) by (auto simp: wprog_def)
  obtain s where s: "16 * (b - n + n) \<le> length p" "p = drop (16 * (N - b)) xs" "mode_blocks f (N - b) xs v = (out, s)"
    "lanes_ok z l (b - n + n) s p iv1"
    using assms(1,3) by (auto simp: wprog_def)
  obtain s' where "mode_blocks f n p s = (o', s')" "lanes_ok z l (b - n) s' (drop (16 * n) p) iv1'"
    using assms(2,4) s(1,4) unfolding wbatch_def by blast
  moreover have "drop (16 * n) p = drop (16 * (N - b + n)) xs" using s(2) by (simp add: algebra_simps)
  moreover have "b - n \<le> N" "16 * N \<le> length xs" using assms(1) by (auto simp: wprog_def)
  moreover from calculation(1) have "mode_blocks f (N - b + n) xs v = (out @ o', s')"
    unfolding mode_blocks_add s(2,3) by simp
  ultimately show ?thesis unfolding wprog_def N by metis
qed

lemma wprog_gloop:
  assumes "wprog f z l N xs v out b p iv1" "wbatch f z l n body" "n \<le> g" "gloop g n body b p iv1 = (o', b', p', iv1')"
  shows "wprog f z l N xs v (out @ o') b' p' iv1' \<and> b' < g"
  using assms(1,4)
proof (induction b arbitrary: out p iv1 o' rule: less_induct)
  case (less b)
  have n: "0 < n" "n \<le> g" using assms(2,3) by (simp_all add: wbatch_def)
  show ?case
  proof (cases "g \<le> b")
    case True
    obtain o1 iv where 1: "body (b - n) p iv1 = (o1, iv)" by fastforce
    obtain r where r: "gloop g n body (b - n) (drop (16 * n) p) iv = (r, b', p', iv1')" "o' = o1 @ r"
      using less.prems(2) n True 1 gloop.simps [of g n body b p iv1] by (auto split: prod.splits)
    have "n \<le> b" "b - n < b" using n True by simp_all
    then show ?thesis
      using less.IH [OF _ wprog_body [OF less.prems(1) assms(2) _ 1] r(1)] r(2) by simp
  next
    case False
    then show ?thesis using less.prems n gloop.simps [of g n body b p iv1] by auto
  qed
qed

lemma wprog_gonce:
  assumes "wprog f z l N xs v out b p iv1" "wbatch f z l n body" "b < 2 * n" "gonce n body b p iv1 = (o', b', p', iv1')"
  shows "wprog f z l N xs v (out @ o') b' p' iv1' \<and> b' < n"
proof (cases "n \<le> b")
  case True
  then show ?thesis using assms wprog_body [OF assms(1,2) True] by (auto simp: gonce_def split: prod.splits)
qed (use assms in \<open>auto simp: gonce_def\<close>)

lemma wprog_done:
  "wprog f z l N xs v out 0 p iv1 \<Longrightarrow> \<exists>s. mode_blocks f N xs v = (out, s) \<and> (z = 0 \<longrightarrow> hd iv1 = s)"
  by (auto simp: wprog_def lanes_ok_def)

text \<open>The body of CBC on registers.\<close>

lemma blks_add: "blks (a + b) xs = blks a xs @ blks b (drop (16 * a) xs)"
  by (induction a arbitrary: xs) (simp_all add: add.commute [of _ "16 :: nat"])

lemma butlast_blks: "butlast (blks (Suc n) xs) = blks n xs" "last (blks (Suc n) xs) = blk n xs"
  using blks_add [of n 1 xs] by (simp_all add: blk_def)

lemma blks_from_last: "0 < n \<Longrightarrow> blks (Suc k) (drop (16 * (n - 1)) xs) = blk (n - 1) xs # blks k (drop (16 * n) xs)"
  by (cases n) (simp_all add: blk_def add.commute)

lemma cbc_dec_wide_batch:
  assumes dec: "\<And>bs. \<forall>b\<in>set bs. is_block b \<Longrightarrow> dec bs = map D bs" and l: "1 \<le> l" "l \<le> n" "z \<le> n"
    and out: "\<And>b p iv1. fst (body b p iv1) = fst (cbc_dec_wide dec l n 0 p iv1)"
    and iv: "\<And>b p iv1. z \<le> b \<Longrightarrow> \<exists>j. snd (body b p iv1) = blks (Suc j) (drop (16 * (n - 1)) p) \<and> (l \<le> b \<longrightarrow> Suc j = l)"
    and z: "z \<le> l"
  shows "wbatch (cbc_dec D) z l n body"
  unfolding wbatch_def
proof (intro conjI allI impI)
  show "0 < n" using l by simp
  fix b p s iv1 out iv1'
  assume "16 * (b + n) \<le> length p \<and> lanes_ok z l (b + n) s p iv1 \<and> body b p iv1 = (out, iv1')"
  then have p: "16 * (b + n) \<le> length p" and ok: "lanes_ok z l (b + n) s p iv1" and body: "body b p iv1 = (out, iv1')"
    by simp_all
  have iv1: "iv1 = s # blks (l - 1) p" using ok l by (simp add: lanes_ok_def)
  obtain k where n: "n = Suc k" using l by (cases n) auto
  have "k = (l - 1) + (n - l)" using l n by simp
  then have "blks k p = blks (l - 1) p @ blks (n - l) (drop (16 * (l - 1)) p)" using blks_add by metis
  then have ivs: "iv1 @ blks (n - l) (drop (16 * (l - 1)) p) = s # butlast (blks n p)"
    using iv1 unfolding n butlast_blks by simp
  have "\<forall>b\<in>set (blks n p). is_block b" using p by (auto intro: blks_blocks [of n p])
  then have d: "dec (blks n p) = map D (blks n p)" by (rule dec)
  have "last (s # blks n p) = blk (n - 1) p"
    using butlast_blks(2) [of k p] length_blks [of n p] by (auto simp: n simp del: blks_Suc length_blks)
  then have m: "mode_blocks (cbc_dec D) n p s
      = (concat (map2 xor_bytes (map D (blks n p)) (s # butlast (blks n p))), blk (n - 1) p)"
    unfolding mode_blocks_prev [where f = "cbc_dec D" and h = "\<lambda>c v. xor_bytes (D c) v", OF cbc_dec_def]
    by (simp add: zip_map1 split_def comp_def del: last.simps)
  moreover have "out = concat (map2 xor_bytes (map D (blks n p)) (s # butlast (blks n p)))"
    using out [of b p iv1] unfolding body cbc_dec_wide_def Let_def ivs d by (simp add: mm_xor_si128_def [abs_def])
  moreover have "lanes_ok z l b (blk (n - 1) p) (drop (16 * n) p) iv1'"
    using iv [of b p iv1] z l(1) n blks_from_last [of n _ p] unfolding body lanes_ok_def by auto
  ultimately show "\<exists>s'. mode_blocks (cbc_dec D) n p s = (out, s') \<and> lanes_ok z l b s' (drop (16 * n) p) iv1'" by simp
qed

text \<open>The block at the end.\<close>

lemma wprog_low:
  assumes "wprog (cbc_dec D) z l N xs v out b p iv1" "b < 2" "z \<le> 1" and D: "keys_decrypt D pk nr"
    and k: "gonce 1 (\<lambda>_. cbc_dec_low pk nr) b p iv1 = (o', b', p', iv1')"
  shows "\<exists>s. mode_blocks (cbc_dec D) N xs v = (out @ o', s) \<and> (z = 0 \<longrightarrow> hd iv1' = s)"
proof (cases "b = 0")
  case True
  then show ?thesis using assms wprog_done [of "cbc_dec D" z l N xs v out p iv1] by (simp add: gonce_def)
next
  case False
  then have b: "b = 1" using assms(2) by simp
  obtain s where s: "1 \<le> N" "16 * N \<le> length xs" "p = drop (16 * (N - 1)) xs" "mode_blocks (cbc_dec D) (N - 1) xs v = (out, s)" "hd iv1 = s"
    using assms(1,3) unfolding b by (auto simp: wprog_def lanes_ok_def)
  have "is_block (take 16 p)" using s(1,2,3) by simp
  then have 1: "o' = xor_bytes (D (take 16 p)) s" "iv1' = [take 16 p]"
    using k D s(5) unfolding b by (auto simp: gonce_def cbc_dec_low_def keys_decrypt_def mm_xor_si128_def Let_def)
  have "mode_blocks (cbc_dec D) (N - 1 + 1) xs v = (out @ o', take 16 p)"
    unfolding mode_blocks_add s(4) using 1 s(3) by (simp add: cbc_dec_def)
  then show ?thesis using s(1) 1 by simp
qed

section \<open>The kernels are one\<close>

lemma keys_decrypt_map:
  "keys_decrypt D pk nr \<Longrightarrow> even nr \<Longrightarrow> 0 < nr \<Longrightarrow> \<forall>b\<in>set bs. is_block b \<Longrightarrow> vaes_AesDecrypt pk nr bs = map D bs"
  "keys_decrypt D pk nr \<Longrightarrow> 0 < nr \<Longrightarrow> \<forall>b\<in>set bs. is_block b \<Longrightarrow>
    vaes512_AesDecryptNoLoad (alcp_load_key_zmm nr pk) bs = map D bs"
  by (simp_all add: vaes_AesDecrypt_blocks vaes512_AesDecryptNoLoad_blocks keys_decrypt_def)

lemma fst_cbc_dec_wide: "fst (cbc_dec_wide dec l n w p iv1) = fst (cbc_dec_wide dec l n 0 p iv1)"
  and snd_cbc_dec_wide: "snd (cbc_dec_wide dec l n w p iv1) = blks w (drop (16 * (n - 1)) p)"
  by (simp_all add: cbc_dec_wide_def Let_def)

lemma cbc_dec_wide_plain:
  assumes dec: "\<And>bs. \<forall>b\<in>set bs. is_block b \<Longrightarrow> dec bs = map D bs" and l: "1 \<le> l" "l \<le> n" "z \<le> l"
    and w: "\<And>b. 0 < w b" "\<And>b. l \<le> b \<Longrightarrow> w b = l"
  shows "wbatch (cbc_dec D) z l n (\<lambda>b. cbc_dec_wide dec l n (w b))"
proof (rule cbc_dec_wide_batch [OF dec l(1,2) _ fst_cbc_dec_wide _ l(3)])
  fix b p iv1
  have "Suc (w b - 1) = w b" using w(1) [of b] by simp
  then show "\<exists>j. snd (cbc_dec_wide dec l n (w b) p iv1) = blks (Suc j) (drop (16 * (n - 1)) p) \<and> (l \<le> b \<longrightarrow> Suc j = l)"
    using w(2) [of b] unfolding snd_cbc_dec_wide by metis
qed (use l in simp_all)

lemma DecryptCbc_zen3_modes:
  assumes D: "keys_decrypt D pk nr" and nr: "even nr" "0 < nr" and v: "is_block v"
  shows "DecryptCbc_zen3 multi m pk nr v
    = (let (out, s) = mode_blocks (cbc_dec D) (length m div 16) m v in (out, if multi then s else v))"
proof -
  let ?N = "length m div 16" and ?dec = "vaes_AesDecrypt pk nr" and ?f = "cbc_dec D"
  let ?r = "\<lambda>b. if 2 \<le> b then 2 else 1 :: nat"
  have dec: "?dec bs = map D bs" if "\<forall>b\<in>set bs. is_block b" for bs by (rule keys_decrypt_map(1) [OF D nr that])
  have B: "wbatch ?f 0 2 n (\<lambda>b. cbc_dec_wide ?dec 2 n (w b))" if "2 \<le> n" "\<And>b. 0 < w b" "\<And>b. 2 \<le> b \<Longrightarrow> w b = 2" for n w
    using that by (intro cbc_dec_wide_plain [OF dec]) auto
  have Br: "wbatch ?f 0 2 n (\<lambda>b. cbc_dec_wide ?dec 2 n (?r b))" if "2 \<le> n" for n using that by (intro B) auto
  consider "length m = 0" | "0 < length m" "length m < 32" | "32 \<le> length m" by linarith
  then show ?thesis
  proof cases
    case 2
    obtain out b p s where k: "kloop 1 (cbc_dec_body 1 pk nr) ?N m v = (out, b, p, s)" by (metis prod_cases4)
    show ?thesis
      using 2 k single_loop [OF cbc_dec_batch [OF D] v k] by (simp add: DecryptCbc_zen3_def)
  next
    case 3
    let ?iv1 = "v # blks 1 m"
    obtain o8 b8 p8 s8 where 8: "gloop 16 8 (\<lambda>_. cbc_dec_wide ?dec 2 8 2) ?N m ?iv1 = (o8, b8, p8, s8)" by (metis prod_cases4)
    obtain o9 b9 p9 s9 where 9: "gonce 8 (\<lambda>b. cbc_dec_wide ?dec 2 8 (?r b)) b8 p8 s8 = (o9, b9, p9, s9)" by (metis prod_cases4)
    obtain o4 b4 p4 s4 where 4: "gonce 4 (\<lambda>b. cbc_dec_wide ?dec 2 4 (?r b)) b9 p9 s9 = (o4, b4, p4, s4)" by (metis prod_cases4)
    obtain o2 b2 p2 s2 where 2: "gonce 2 (\<lambda>_. cbc_dec_wide ?dec 2 2 1) b4 p4 s4 = (o2, b2, p2, s2)" by (metis prod_cases4)
    obtain o1 b1 p1 s1 where 1: "gonce 1 (\<lambda>_. cbc_dec_low pk nr) b2 p2 s2 = (o1, b1, p1, s1)" by (metis prod_cases4)
    have w: "wprog ?f 0 2 ?N m v [] ?N m ?iv1" by (rule wprog_start [OF whole_blocks16]) simp
    have w8: "wprog ?f 0 2 ?N m v o8 b8 p8 s8" "b8 < 16"
      using wprog_gloop [OF w B [of 8 "\<lambda>_. 2"] _ 8] by simp_all
    have w9: "wprog ?f 0 2 ?N m v (o8 @ o9) b9 p9 s9" "b9 < 8" using wprog_gonce [OF w8(1) Br _ 9] w8(2) by simp_all
    have w4: "wprog ?f 0 2 ?N m v (o8 @ o9 @ o4) b4 p4 s4" "b4 < 4" using wprog_gonce [OF w9(1) Br _ 4] w9(2) by simp_all
    have c2: "gonce 2 (\<lambda>b. cbc_dec_wide ?dec 2 2 (?r b)) b4 p4 s4 = (o2, b2, p2, s2)"
    proof -
      have "?r (b4 - 2) = 1" using w4(2) by simp
      then show ?thesis using 2 by (simp only: gonce_def)
    qed
    have w2: "wprog ?f 0 2 ?N m v (o8 @ o9 @ o4 @ o2) b2 p2 s2" "b2 < 2" using wprog_gonce [OF w4(1) Br _ c2] w4(2) by simp_all
    from wprog_low [OF w2 _ D 1]
    obtain s where "mode_blocks ?f ?N m v = (o8 @ o9 @ o4 @ o2 @ o1, s)" "hd s1 = s" by auto
    moreover have "m \<noteq> []" using 3 by auto
    ultimately show ?thesis using 3 8 9 4 2 1 by (simp add: DecryptCbc_zen3_def Let_def)
  qed (simp add: DecryptCbc_zen3_def)
qed

lemma single_tail:
  assumes B: "batch id is_block f 1 body" and v: "is_block v" and b: "16 * b \<le> length p"
    and k: "kloop 1 body b p v = (out, b', p', s)"
  shows "mode_blocks f b p v = (out, s)"
proof -
  have "kprog id is_block f b p v [] b p v" using kprog_start [where g = id and P = is_block, OF b v] by simp
  from kprog_kloop [OF this B k] have "kprog id is_block f b p v out 0 p' s" by simp
  from kprog_done [OF this] show ?thesis by auto
qed

lemma DecryptCbc_zen4_tier2_modes:
  assumes D: "keys_decrypt D pk nr" and nr: "even nr" "0 < nr" and v: "is_block v" and m: "64 \<le> length m" "length m \<le> 128"
  shows "DecryptCbc_zen4_tier2 multi m pk nr v
    = (let (out, s) = mode_blocks (cbc_dec D) (length m div 16) m v in (out, if multi then s else v))"
proof -
  let ?N = "length m div 16" and ?dec = "vaes_AesDecrypt pk nr" and ?f = "cbc_dec D" and ?iv = "v # blks 1 m"
  have dec: "?dec bs = map D bs" if "\<forall>b\<in>set bs. is_block b" for bs by (rule keys_decrypt_map(1) [OF D nr that])
  obtain k where N: "?N = Suc k" using m(1) by (cases ?N) auto
  have last: "snd (mode_blocks ?f ?N m v) = blk (?N - 1) m"
    unfolding mode_blocks_prev [where f = ?f and h = "\<lambda>c v. xor_bytes (D c) v", OF cbc_dec_def] N
    using butlast_blks(2) [of k m] by (simp add: blks_Suc)
  show ?thesis
  proof (cases "length m = 128")
    case True
    then have N8: "?N = 8" by simp
    have "wbatch ?f 1 2 8 (\<lambda>b p iv. (fst (cbc_dec_wide ?dec 2 8 0 p iv), snd (cbc_dec_wide ?dec 2 8 2 p iv)))"
    proof (rule cbc_dec_wide_batch [where z = 1 and l = 2, OF dec])
      fix b :: nat and p iv1
      have "snd (cbc_dec_wide ?dec 2 8 2 p iv1) = blks (Suc 1) (drop (16 * (8 - 1)) p)" by (simp add: snd_cbc_dec_wide numeral_2_eq_2)
      then show "\<exists>j. snd (fst (cbc_dec_wide ?dec 2 8 0 p iv1), snd (cbc_dec_wide ?dec 2 8 2 p iv1)) = blks (Suc j) (drop (16 * (8 - 1)) p) \<and>
          (2 \<le> b \<longrightarrow> Suc j = 2)" unfolding snd_conv by (intro exI [of _ 1] conjI) simp_all
    qed simp_all
    moreover have "wprog ?f 1 2 8 m v [] 8 m ?iv" using True by (intro wprog_start) simp_all
    ultimately have "wprog ?f 1 2 8 m v (fst (cbc_dec_wide ?dec 2 8 0 m ?iv)) 0 (drop 128 m) (snd (cbc_dec_wide ?dec 2 8 2 m ?iv))"
      using wprog_body [where n = 8] by fastforce
    from wprog_done [OF this] show ?thesis
      using True last N8 by (auto simp: DecryptCbc_zen4_tier2_def split_def)
  next
    case False
    have N8: "?N < 8" using False m by simp
    have B: "wbatch ?f 1 2 n (cbc_dec_keep ?dec n)" if "2 \<le> n" for n
    proof (rule cbc_dec_wide_batch [where z = 1 and l = 2, OF dec])
      fix b :: nat and p iv1 assume "1 \<le> b"
      then have "snd (cbc_dec_keep ?dec n b p iv1) = blks (Suc 1) (drop (16 * (n - 1)) p)"
        by (simp add: cbc_dec_keep_def split_def snd_cbc_dec_wide numeral_2_eq_2)
      then show "\<exists>j. snd (cbc_dec_keep ?dec n b p iv1) = blks (Suc j) (drop (16 * (n - 1)) p) \<and> (2 \<le> b \<longrightarrow> Suc j = 2)" by fastforce
    qed (use that in \<open>simp_all add: cbc_dec_keep_def split_def fst_cbc_dec_wide [of _ _ _ 2]\<close>)
    obtain o4 b4 p4 s4 where 4: "gonce 4 (cbc_dec_keep ?dec 4) ?N m ?iv = (o4, b4, p4, s4)" by (metis prod_cases4)
    obtain o2 b2 p2 s2 where 2: "gonce 2 (cbc_dec_keep ?dec 2) b4 p4 s4 = (o2, b2, p2, s2)" by (metis prod_cases4)
    obtain o1 b1 p1 s1 where 1: "gonce 1 (\<lambda>_. cbc_dec_low pk nr) b2 p2 s2 = (o1, b1, p1, s1)" by (metis prod_cases4)
    have w: "wprog ?f 1 2 ?N m v [] ?N m ?iv" by (rule wprog_start [OF whole_blocks16]) simp
    have w4: "wprog ?f 1 2 ?N m v o4 b4 p4 s4" "b4 < 4" using wprog_gonce [OF w B _ 4] N8 by simp_all
    have w2: "wprog ?f 1 2 ?N m v (o4 @ o2) b2 p2 s2" "b2 < 2" using wprog_gonce [OF w4(1) B _ 2] w4(2) by simp_all
    from wprog_low [OF w2 _ D 1] obtain s where "mode_blocks ?f ?N m v = (o4 @ o2 @ o1, s)" by auto
    then have "snd (o4 @ o2 @ o1, s) = blk (?N - 1) m" using last by simp
    with \<open>mode_blocks ?f ?N m v = (o4 @ o2 @ o1, s)\<close> show ?thesis
      using False 4 2 1 by (simp add: DecryptCbc_zen4_tier2_def Let_def  del: One_nat_def)
  qed
qed

lemma DecryptCbc_zen4_modes:
  assumes D: "keys_decrypt D pk nr" and nr: "even nr" "0 < nr" and v: "is_block v"
  shows "DecryptCbc_zen4 multi m pk nr v
    = (let (out, s) = mode_blocks (cbc_dec D) (length m div 16) m v in (out, if multi then s else v))"
proof -
  let ?N = "length m div 16" and ?dec = "vaes512_AesDecryptNoLoad (alcp_load_key_zmm nr pk)" and ?f = "cbc_dec D"
  let ?r = "\<lambda>b. if 4 \<le> b then 4 else 1 :: nat"
  have dec: "?dec bs = map D bs" if "\<forall>b\<in>set bs. is_block b" for bs by (rule keys_decrypt_map(2) [OF D nr(2) that])
  have Br: "wbatch ?f 0 4 n (\<lambda>b. cbc_dec_wide ?dec 4 n (?r b))" if "4 \<le> n" for n
    using that by (intro cbc_dec_wide_plain [OF dec]) auto
  consider "length m = 0" | "0 < length m" "length m < 64" | "64 \<le> length m" "length m \<le> 128" | "128 < length m" by linarith
  then show ?thesis
  proof cases
    case 2
    obtain out b p s where k: "kloop 1 (cbc_dec_body 1 pk nr) ?N m v = (out, b, p, s)" by (metis prod_cases4)
    show ?thesis
      using 2 k single_loop [OF cbc_dec_batch [OF D] v k] by (simp add: DecryptCbc_zen4_def)
  next
    case 3
    then have "m \<noteq> []" "\<not> length m < 64" by auto
    then show ?thesis using DecryptCbc_zen4_tier2_modes [OF D nr v 3] 3(2) by (simp add: DecryptCbc_zen4_def Let_def)
  next
    case long: 4
    let ?iv1 = "v # blks 3 m"
    obtain o16 b16 p16 s16 where 16: "gloop 16 16 (\<lambda>b. cbc_dec_wide ?dec 4 16 (?r b)) ?N m ?iv1 = (o16, b16, p16, s16)" by (metis prod_cases4)
    obtain o8 b8 p8 s8 where 8: "gonce 8 (\<lambda>b. cbc_dec_wide ?dec 4 8 (?r b)) b16 p16 s16 = (o8, b8, p8, s8)" by (metis prod_cases4)
    obtain o4 b4 p4 s4 where 4: "gonce 4 (\<lambda>_. cbc_dec_wide ?dec 4 4 1) b8 p8 s8 = (o4, b4, p4, s4)" by (metis prod_cases4)
    obtain o1 b1 p1 s1 where 1: "kloop 1 (cbc_dec_body 1 pk nr) b4 p4 (hd s4) = (o1, b1, p1, s1)" by (metis prod_cases4)
    have w: "wprog ?f 0 4 ?N m v [] ?N m ?iv1" by (rule wprog_start [OF whole_blocks16]) simp
    have w16: "wprog ?f 0 4 ?N m v o16 b16 p16 s16" "b16 < 16" using wprog_gloop [OF w Br _ 16] by simp_all
    have w8: "wprog ?f 0 4 ?N m v (o16 @ o8) b8 p8 s8" "b8 < 8" using wprog_gonce [OF w16(1) Br _ 8] w16(2) by simp_all
    have c4: "gonce 4 (\<lambda>b. cbc_dec_wide ?dec 4 4 (?r b)) b8 p8 s8 = (o4, b4, p4, s4)"
    proof -
      have "?r (b8 - 4) = 1" using w8(2) by simp
      then show ?thesis using 4 by (simp only: gonce_def)
    qed
    have w4: "wprog ?f 0 4 ?N m v (o16 @ o8 @ o4) b4 p4 s4" using wprog_gonce [OF w8(1) Br _ c4] w8(2) by simp
    then have m: "b4 \<le> ?N" "p4 = drop (16 * (?N - b4)) m" "mode_blocks ?f (?N - b4) m v = (o16 @ o8 @ o4, hd s4)"
      by (auto simp: wprog_def lanes_ok_def)
    have "is_block (snd (mode_blocks ?f (?N - b4) m v))"
      using v by (intro mode_blocks_keeps [where P = is_block]) (auto simp: cbc_dec_def)
    then have "is_block (hd s4)" "16 * b4 \<le> length p4" using m by simp_all
    from single_tail [OF cbc_dec_batch [OF D] this 1]
    have "mode_blocks ?f (?N - b4 + b4) m v = (o16 @ o8 @ o4 @ o1, s1)" unfolding mode_blocks_add m(3) using m(2) by simp
    moreover have "m \<noteq> []" "\<not> length m \<le> 128" "\<not> length m < 64" using long by auto
    ultimately show ?thesis
      using m(1) 16 8 4 1 by (simp add: DecryptCbc_zen4_def Let_def)
  qed (simp add: DecryptCbc_zen4_def)
qed

section \<open>Property\<close>

text \<open>C32:
  CBC decryption on registers of two and of four blocks, the short texts of zen4 included, gives
  for every text what the 128-bit kernel gives: the same plain text, which is the message for a
  cipher text of whole blocks, and the same IV to go on with.
\<close>

theorem DecryptCbc_kernels:
  assumes "aes_keyed key nk nr r" "length iv = 16"
  shows "let pk = m_round_key_dec r in
    DecryptCbc_zen3 multi c pk nr iv = DecryptCbc multi c pk nr iv \<and>
    DecryptCbc_zen4 multi c pk nr iv = DecryptCbc multi c pk nr iv \<and>
    (c = fst (EncryptCbc multi m (m_round_key_enc r) nr iv) \<and> 16 dvd length m \<longrightarrow> fst (DecryptCbc_zen4 multi c pk nr iv) = m)"
proof -
  obtain D where D: "keys_decrypt D (m_round_key_dec r) nr" "\<forall>b. is_block b \<longrightarrow> D (aes key nk nr b) = b"
    using aes_keyedD(3) [OF assms(1)] by blast
  have nr: "0 < nr" "even nr" using aes_keyedD(2) [OF assms(1)] by auto
  note E = aes_keyedD(1) [OF assms(1)]
  note u = undoes_modes(1) [OF E D]
  have "fst (DecryptCbc multi c (m_round_key_dec r) nr iv) = m"
    if "c = fst (EncryptCbc multi m (m_round_key_enc r) nr iv)" and m: "16 dvd length m"
  proof -
    let ?n = "length m div 16" and ?f = "cbc_enc (aes key nk nr)"
    have l: "16 * ?n = length m" "length m mod 16 = 0" using m by (simp_all add: dvd_eq_mod_eq_0)
    have c: "c = fst (mode_blocks ?f ?n m iv)"
      using that(1) l(2) by (simp add: EncryptCbc_modes [OF E assms(2)] mode_bytes_def split_def Let_def)
    have "length c = 16 * ?n" unfolding c by (rule undoes_length [OF u assms(2)]) simp
    then have "length c div 16 = ?n" by simp
    moreover have "fst (mode_blocks (cbc_dec D) ?n c iv) = m"
      using mode_blocks_undo [OF u _ assms(2), of ?n m "[]"] l unfolding c by (simp add: split_def)
    ultimately show ?thesis by (simp add: DecryptCbc_modes [OF D(1) assms(2)] split_def)
  qed
  then show ?thesis
    unfolding Let_def DecryptCbc_zen3_modes [OF D(1) nr(2,1) assms(2)] DecryptCbc_zen4_modes [OF D(1) nr(2,1) assms(2)]
      DecryptCbc_modes [OF D(1) assms(2)] by blast
qed

theorem DecryptCbc_kernels_witness:
  "\<exists>r. aes_keyed (replicate 16 7) 4 10 r \<and>
    fst (DecryptCbc_zen4 True (fst (EncryptCbc True (replicate 96 1) (m_round_key_enc r) 10 (replicate 16 3)))
      (m_round_key_dec r) 10 (replicate 16 3)) = replicate 96 1"
proof -
  obtain r where r: "aes_keyed (replicate 16 7) 4 10 r" using aes_keyed_example(1) by blast
  define m :: "u8 list" where m: "m = replicate 96 1"
  have "16 dvd length m" by (simp add: m)
  with r DecryptCbc_kernels [OF r, of "replicate 16 3" True _ m] show ?thesis
    unfolding m [symmetric] by (auto simp: Let_def)
qed

end
