(* ===== verification/Aes_Cfb.thy ===== *)
theory Aes_Cfb imports Aes_Wide begin

text \<open>
  The decryption kernels of CFB on registers of two and four blocks, \<^verbatim>\<open>vaes_cfb_decrypt.cc\<close> of
  \<^verbatim>\<open>arch/zen3\<close> and \<^verbatim>\<open>arch/zen4\<close>. They read the chaining values from the source again after
  output has been written, so the source is memory that changes when the output is the source
  (\<open>in_place\<close>).
\<close>

unbundle bit_operations_syntax

section \<open>On 256 bits\<close>

definition cfb_mem :: "bool \<Rightarrow> u8 list \<Rightarrow> u8 list \<Rightarrow> u8 list" where
  "cfb_mem in_place pSrc out = (if in_place then out @ drop (length out) pSrc else pSrc)"

definition cfb_dec_wide :: "(m128 list \<Rightarrow> m128 list) \<Rightarrow> nat \<Rightarrow> u8 list \<Rightarrow> m128 \<Rightarrow> u8 list \<times> m128" where
  "cfb_dec_wide enc n p_ct iv =
     (let blk0 = blks n p_ct; y0 = enc (iv # butlast blk0)
      in (concat (map2 mm_xor_si128 blk0 y0), last blk0))"

text \<open>
  The result is the output buffer, whose contents before are \<open>pPlainText\<close>, or the cipher text
  when decrypting in place. The bytes after the last whole block are masked with the block before
  them, read from the address sixteen bytes below: for a text shorter than a block these are the
  bytes \<open>before\<close> the source. They are written where \<^verbatim>\<open>p_pt256\<close> points, which the single block does
  not move.
\<close>

definition DecryptCfb_zen3 :: "bool \<Rightarrow> u8 list \<Rightarrow> u8 list \<Rightarrow> u8 list option \<Rightarrow> u8 list \<Rightarrow> nat \<Rightarrow> u8 list \<Rightarrow> u8 list \<times> u8 list" where
  "DecryptCfb_zen3 multi before pCipherText pPlainText pKey nRounds pIv =
     (let len = length pCipherText; blocks = len div 16; res = len mod 16; enc = vaes_AesEncrypt pKey nRounds;
          source = (\<lambda>dest. if pPlainText = None then dest else pCipherText);
          (o8, blocks, p_ct, iv256) = kloop 8 (cfb_dec_wide enc 8) blocks pCipherText pIv;
          (o4, blocks, p_ct, iv256) = konce 4 (cfb_dec_wide enc 4) blocks p_ct iv256;
          (o2, blocks, p_ct, iv256) = konce 2 (cfb_dec_wide enc 2) blocks p_ct iv256;
          p_pt256 = length (o8 @ o4 @ o2);
          (o1, blocks, p_ct, iv256) = konce 1 (cfb_dec_wide enc 1) blocks p_ct iv256;
          out = o8 @ o4 @ o2 @ o1;
          dest = out @ drop (length out) (case pPlainText of None \<Rightarrow> pCipherText | Some d \<Rightarrow> d);
          dest = (if res \<noteq> 0 then
                    let iv256 = take 16 (drop (16 * (len div 16)) (before @ source dest));
                        blk0 = write_at 0 (take res (drop (16 * (len div 16)) (source dest))) (replicate 16 0)
                    in write_at p_pt256 (take res (mm_xor_si128 blk0 (hd (enc [iv256])))) dest
                  else dest)
      in (dest, if multi \<and> 16 \<le> len then blk (len div 16 - 1) (source dest) else pIv))"

section \<open>On 512 bits\<close>

text \<open>
  The state: the blocks \<open>pb_128\<close> is ahead of the source, the register \<open>b1\<close>, whether the IV has been
  used, and the output, whose length is how far \<open>pa_128\<close> is.
\<close>

type_synonym cfb_state = "nat \<times> m128 list \<times> bool \<times> u8 list"

function wloop :: "nat \<Rightarrow> ('s \<Rightarrow> 's) \<Rightarrow> nat \<Rightarrow> 's \<Rightarrow> nat \<times> 's" where
  "wloop n body blocks s = (if 0 < n \<and> n \<le> blocks then wloop n body (blocks - n) (body s) else (blocks, s))"
  by pat_completeness auto
termination by (relation "measure (\<lambda>(n, body, blocks, s). blocks)") auto

declare wloop.simps [simp del]

definition wonce :: "nat \<Rightarrow> ('s \<Rightarrow> 's) \<Rightarrow> nat \<Rightarrow> 's \<Rightarrow> nat \<times> 's" where
  "wonce n body blocks s = (if n \<le> blocks then (blocks - n, body s) else (blocks, s))"

definition cfb_zen4_body :: "(m128 list \<Rightarrow> m128 list) \<Rightarrow> bool \<Rightarrow> u8 list \<Rightarrow> nat \<Rightarrow> cfb_state \<Rightarrow> cfb_state" where
  "cfb_zen4_body enc in_place pSrc n = (\<lambda>(pb_128, b1, isIvUsed, out).
     let mem = cfb_mem in_place pSrc out;
         (b1, pb_128) = (if isIvUsed then (blks 4 (drop (16 * pb_128) mem), pb_128 + 4) else (b1, pb_128 + 3));
         a = blks n (drop (length out) mem);
         b = enc (b1 @ blks (n - 4) (drop (16 * pb_128) mem))
     in (pb_128 + (n - 4), take 4 b, True, out @ concat (map2 mm_xor_si128 a b)))"

text \<open>One block; \<open>fwd\<close> is whether \<open>pb_128\<close> moves on also when the IV is taken.\<close>

definition cfb_zen4_one :: "(m128 list \<Rightarrow> m128 list) \<Rightarrow> bool \<Rightarrow> u8 list \<Rightarrow> bool \<Rightarrow> cfb_state \<Rightarrow> cfb_state" where
  "cfb_zen4_one enc in_place pSrc fwd = (\<lambda>(pb_128, b1, isIvUsed, out).
     let mem = cfb_mem in_place pSrc out;
         a1 = take 16 (drop (length out) mem);
         (b1, pb_128) = (if isIvUsed then (blks 1 (drop (16 * pb_128) mem), pb_128 + 1)
                         else (b1, if fwd then pb_128 + 1 else pb_128));
         b1 = enc b1
     in (pb_128, b1, True, out @ mm_xor_si128 a1 (hd b1)))"

definition DecryptCfb_zen4 :: "bool \<Rightarrow> bool \<Rightarrow> u8 list \<Rightarrow> u8 list \<Rightarrow> nat \<Rightarrow> u8 list \<Rightarrow> u8 list \<times> u8 list" where
  "DecryptCfb_zen4 multi in_place pSrc pKey nRounds pIv =
     (let len = length pSrc; blocks = len div 16; res = len mod 16;
          enc = vaes512_AesEncryptNoLoad (alcp_load_key_zmm nRounds pKey);
          body = cfb_zen4_body enc in_place pSrc;
          one = cfb_zen4_one enc in_place pSrc;
          (blocks, st) = (if 4 \<le> blocks then
                            let b1 = pIv # blks 3 pSrc;
                                (blocks, st) = wloop 16 (body 16) blocks (0, b1, False, []);
                                (blocks, st) = wonce 8 (body 8) blocks st;
                                (blocks, st) = wonce 4 (body 4) blocks st
                            in wloop 1 (one True) blocks st
                          else wloop 1 (one False) blocks (0, [pIv], False, []));
          (pb_128, _, isIvUsed, out) = st;
          out = (if res \<noteq> 0 then
                   let mem = cfb_mem in_place pSrc out;
                       b1 = (if isIvUsed then blks 1 (drop (16 * pb_128) mem) else [pIv]);
                       a1 = write_at 0 (take res (drop (length out) mem)) (replicate 16 0);
                       b1 = enc b1
                   in out @ take res (mm_xor_si128 a1 (hd b1))
                 else out)
      in (out, if multi \<and> 16 \<le> len then blk (len div 16 - 1) (cfb_mem in_place pSrc out) else pIv))"

section \<open>Separate buffers\<close>

lemma cfb_mem_apart [simp]: "cfb_mem False src out = src"
  by (simp add: cfb_mem_def)

lemma cfb_modes_prev:
  "mode_blocks (cfb_dec E) n xs v = (concat (map2 xor_bytes (blks n xs) (map E (v # butlast (blks n xs)))), last (v # blks n xs))"
proof -
  have "map2 (\<lambda>c v. xor_bytes (E v) c) (blks n xs) (v # butlast (blks n xs))
      = map2 xor_bytes (blks n xs) (map E (v # butlast (blks n xs)))"
    unfolding zip_map2 by (simp add: split_def comp_def xor_bytes_commute [of "E _"] del: list.map(2))
  then show ?thesis
    unfolding mode_blocks_prev [where f = "cfb_dec E" and h = "\<lambda>c v. xor_bytes (E v) c", OF cfb_dec_def] by (simp only:)
qed

lemma cfb_dec_wide_modes:
  assumes E: "\<And>bs. \<forall>b\<in>set bs. is_block b \<Longrightarrow> enc bs = map E bs" and n: "0 < n" and l: "16 * n \<le> length xs" "is_block v"
  shows "cfb_dec_wide enc n xs v = mode_blocks (cfb_dec E) n xs v"
proof -
  have "\<forall>b\<in>set (v # butlast (blks n xs)). is_block b" using blks_blocks [OF l(1)] l(2) by (auto dest: in_set_butlastD)
  then have "enc (v # butlast (blks n xs)) = map E (v # butlast (blks n xs))" by (rule E)
  moreover have "blks n xs \<noteq> []" using n by (metis length_blks length_greater_0_conv)
  ultimately show ?thesis unfolding cfb_modes_prev by (simp add: cfb_dec_wide_def Let_def mm_xor_si128_def [abs_def])
qed

lemma cfb_dec_wide_batch:
  assumes E: "\<And>bs. \<forall>b\<in>set bs. is_block b \<Longrightarrow> enc bs = map E bs" and n: "0 < n"
  shows "batch id is_block (cfb_dec E) n (cfb_dec_wide enc n)"
proof -
  have "is_block (snd (mode_blocks (cfb_dec E) n xs v))" if "16 * n \<le> length xs" "is_block v" for xs v
    using that by (rule mode_blocks_keeps [rotated]) (simp add: cfb_dec_def)
  then show ?thesis using n cfb_dec_wide_modes [OF E n] by (simp add: batch_def)
qed

text \<open>The loops on 256 bits; \<open>n2\<close> blocks go through the loops of whole registers.\<close>

lemma cfb_zen3_chain:
  assumes B: "\<And>n. 0 < n \<Longrightarrow> batch id is_block f n (B n)" and v: "is_block v"
    and len: "\<And>n. 16 * n \<le> length m \<Longrightarrow> length (fst (mode_blocks f n m v)) = 16 * n"
    and 8: "kloop 8 (B 8) (length m div 16) m v = (o8, b8, p8, s8)" and 4: "konce 4 (B 4) b8 p8 s8 = (o4, b4, p4, s4)"
    and 2: "konce 2 (B 2) b4 p4 s4 = (o2, b2, p2, s2)" and 1: "konce 1 (B 1) b2 p2 s2 = (o1, b1, p1, s1)"
  shows "mode_blocks f (length m div 16) m v = (o8 @ o4 @ o2 @ o1, s1) \<and>
    length (o8 @ o4 @ o2) = 16 * (length m div 16 - length m div 16 mod 2)"
proof -
  let ?N = "length m div 16"
  have "kprog id is_block f ?N m v [] ?N m v" using kprog_start [where g = id and P = is_block, OF whole_blocks16 v] by simp
  note k8 = kprog_kloop [OF this B 8, simplified]
  have "b8 < 2 * 4" using k8(2) by simp
  note k4 = kprog_konce [OF k8(1) B this 4, simplified]
  have "b4 < 2 * 2" using k4(2) by simp
  note k2 = kprog_konce [OF k4(1) B this 2, simplified]
  have "b2 < 2 * 1" using k2(2) by simp
  note k1 = kprog_konce [OF k2(1) B this 1]
  have b2: "b2 = ?N mod 2" using k2(2) k4(2) k8(2) by (simp add: mod_mod_cancel)
  have "kprog id is_block f ?N m v (o8 @ o4 @ o2 @ o1) 0 p1 s1" using k1 by simp
  from kprog_done [OF this] have "mode_blocks f ?N m v = (o8 @ o4 @ o2 @ o1, s1)" by auto
  moreover have "o8 @ o4 @ o2 = fst (mode_blocks f (?N - b2) m v)"
    using k2(1) by (auto simp: kprog_def dest: arg_cong [where f = fst])
  then have "length (o8 @ o4 @ o2) = 16 * (?N - b2)" using len [of "?N - b2"] by simp
  ultimately show ?thesis unfolding b2 by simp
qed

lemma length_cfb_dec:
  assumes "keys_compute E pk nr" "16 * n \<le> length m" "is_block v"
  shows "length (fst (mode_blocks (cfb_dec E) n m v)) = 16 * n"
  using assms(2,3) by (intro length_mode_blocks [where P = is_block]) (auto simp: cfb_dec_def keys_computeD [OF assms(1)])

lemma cfb_dec_state:
  "0 < n \<Longrightarrow> snd (mode_blocks (cfb_dec E) n m v) = blk (n - 1) m"
  using butlast_blks(2) [of "n - 1" m] length_blks [of n m] unfolding cfb_modes_prev by (auto simp del: length_blks)

lemma DecryptCfb_zen3_modes:
  assumes E: "keys_compute E pk nr" and nr: "even nr" "0 < nr" and v: "is_block v"
    and d: "length d = length m" and before: "length before = 16"
  shows "fst (DecryptCfb_zen3 multi before m (Some d) pk nr v)
    = (let N = length m div 16; r = length m mod 16; out = fst (mode_blocks (cfb_dec E) N m v); dest = out @ drop (16 * N) d
       in if r = 0 then out
          else write_at (16 * (N - N mod 2)) (take r (xor_bytes (drop (16 * N) m @ replicate (16 - r) 0)
                 (E (if N = 0 then before else blk (N - 1) m)))) dest)"
proof -
  let ?N = "length m div 16" and ?r = "length m mod 16" and ?enc = "vaes_AesEncrypt pk nr" and ?f = "cfb_dec E"
  have enc: "?enc bs = map E bs" if "\<forall>b\<in>set bs. is_block b" for bs by (rule zen3_enc [OF E nr that])
  have B: "batch id is_block ?f n (cfb_dec_wide ?enc n)" if "0 < n" for n by (rule cfb_dec_wide_batch [OF enc that])
  have len: "length (fst (mode_blocks ?f n m v)) = 16 * n" if "16 * n \<le> length m" for n by (rule length_cfb_dec [OF E that v])
  obtain o8 b8 p8 s8 where 8: "kloop 8 (cfb_dec_wide ?enc 8) ?N m v = (o8, b8, p8, s8)" by (metis prod_cases4)
  obtain o4 b4 p4 s4 where 4: "konce 4 (cfb_dec_wide ?enc 4) b8 p8 s8 = (o4, b4, p4, s4)" by (metis prod_cases4)
  obtain o2 b2 p2 s2 where 2: "konce 2 (cfb_dec_wide ?enc 2) b4 p4 s4 = (o2, b2, p2, s2)" by (metis prod_cases4)
  obtain o1 b1 p1 s1 where 1: "konce 1 (cfb_dec_wide ?enc 1) b2 p2 s2 = (o1, b1, p1, s1)" by (metis prod_cases4)
  have c: "mode_blocks ?f ?N m v = (o8 @ o4 @ o2 @ o1, s1)" "length (o8 @ o4 @ o2) = 16 * (?N - ?N mod 2)"
    using cfb_zen3_chain [where f = ?f and B = "cfb_dec_wide ?enc", OF B v len 8 4 2 1] by simp_all
  have out: "o8 @ o4 @ o2 @ o1 = fst (mode_blocks ?f ?N m v)" using c(1) by simp
  have l: "length (fst (mode_blocks ?f ?N m v)) = 16 * ?N" by (rule len) simp
  define w where "w = (if ?N = 0 then before else blk (?N - 1) m)"
  have iv: "take 16 (drop (16 * ?N) (before @ m)) = w"
  proof (cases ?N)
    case (Suc k)
    then have "drop (16 * ?N) (before @ m) = drop (16 * k) m" using before by simp
    then show ?thesis using Suc by (simp add: w_def blk_def)
  qed (use before in \<open>simp add: w_def\<close>)
  have "is_block w"
  proof (cases ?N)
    case (Suc k)
    then have "16 * (k + 1) \<le> length m" using whole_blocks16 [of m] by simp
    then show ?thesis using Suc by (simp add: w_def length_blk)
  qed (use before in \<open>simp add: w_def\<close>)
  then have e: "hd (?enc [w]) = E w" by (subst enc) simp_all
  have p: "write_at 0 (take ?r (drop (16 * ?N) m)) (replicate 16 0) = drop (16 * ?N) m @ replicate (16 - ?r) 0"
    by (rule pad_partial) auto
  have pt: "length (o8 @ o4 @ o2) = 16 * (?N - ?N mod 2)" by (rule c(2))
  have d0: "?r = 0 \<Longrightarrow> length d \<le> 16 * ?N" using mult_div_mod_eq [of 16 "length m"] d by linarith
  have "fst (DecryptCfb_zen3 multi before m (Some d) pk nr v)
      = (if ?r = 0 then fst (mode_blocks ?f ?N m v)
         else write_at (16 * (?N - ?N mod 2)) (take ?r (xor_bytes (drop (16 * ?N) m @ replicate (16 - ?r) 0) (E w)))
           (fst (mode_blocks ?f ?N m v) @ drop (16 * ?N) d))"
    using out [symmetric] l pt d0 8 4 2 1
    by (simp add: DecryptCfb_zen3_def Let_def p iv e mm_xor_si128_def del: drop_append take_append)
  then show ?thesis by (simp add: w_def Let_def)
qed

text \<open>On 512 bits: \<open>k\<close> blocks are done.\<close>

definition cfb_at :: "(u8 list \<Rightarrow> u8 list) \<Rightarrow> u8 list \<Rightarrow> m128 \<Rightarrow> nat \<Rightarrow> nat \<Rightarrow> cfb_state \<Rightarrow> bool" where
  "cfb_at E m v j k = (\<lambda>(pb, b1, used, out). 16 * k \<le> length m \<and> out = fst (mode_blocks (cfb_dec E) k m v) \<and> length out = 16 * k \<and>
     (if used then pb + 1 = k else k = 0 \<and> pb = 0 \<and> b1 = v # blks j m \<and> 16 * j \<le> length m))"

lemma blks_shift: "0 < k \<Longrightarrow> blks n (drop (16 * (k - 1)) m) = butlast (blk (k - 1) m # blks n (drop (16 * k) m))"
proof -
  assume k: "0 < k"
  have "blks n (drop (16 * (k - 1)) m) = butlast (blks (Suc n) (drop (16 * (k - 1)) m))" by (simp only: butlast_blks)
  then show ?thesis unfolding blks_from_last [OF k] .
qed

lemma cfb_at_step:
  assumes E: "keys_compute E pk nr" and v: "is_block v" and "cfb_at E m v j k (pb, b1, used, out)" "16 * (k + n) \<le> length m"
    and out': "out' = out @ concat (map2 xor_bytes (blks n (drop (16 * k) m)) (map E ms))"
    and ms: "ms = (if used then blks n (drop (16 * pb) m) else v # blks (n - 1) m)" and n: "0 < n"
  shows "out' = fst (mode_blocks (cfb_dec E) (k + n) m v)" "length out' = 16 * (k + n)"
proof -
  let ?s = "snd (mode_blocks (cfb_dec E) k m v)"
  have k: "out = fst (mode_blocks (cfb_dec E) k m v)" "length out = 16 * k" using assms(3) unfolding cfb_at_def prod.case by blast+
  have "ms = butlast (?s # blks n (drop (16 * k) m))"
  proof (cases used)
    case True
    then have "pb = k - 1" "0 < k" using assms(3) by (auto simp: cfb_at_def)
    then show ?thesis unfolding ms by (simp only: True if_True blks_shift cfb_dec_state)
  next
    case False
    then have "k = 0" using assms(3) by (simp add: cfb_at_def)
    moreover obtain i where "n = Suc i" using n by (cases n) auto
    ultimately show ?thesis unfolding ms using False butlast_blks(1) [of i m] by (simp del: blks_Suc) (metis length_blks list.size(3) nat.distinct(1))
  qed
  moreover have "blks n (drop (16 * k) m) \<noteq> []" using n by (metis length_blks length_greater_0_conv)
  ultimately have m: "ms = ?s # butlast (blks n (drop (16 * k) m))" by simp
  show o: "out' = fst (mode_blocks (cfb_dec E) (k + n) m v)"
    unfolding out' k(1) mode_blocks_add m by (simp add: split_def Let_def cfb_modes_prev [of E n "drop (16 * k) m"])
  show "length out' = 16 * (k + n)" unfolding o by (rule length_cfb_dec [OF E assms(4) v])
qed

lemma cfb_zen4_body_at:
  assumes E: "keys_compute E pk nr" and enc: "\<And>bs. \<forall>b\<in>set bs. is_block b \<Longrightarrow> enc bs = map E bs" and v: "is_block v"
    and st: "cfb_at E m v 3 k st" and n: "4 \<le> n" "16 * (k + n) \<le> length m"
  shows "cfb_at E m v 3 (k + n) (cfb_zen4_body enc False m n st)"
proof -
  obtain pb b1 used out where s: "st = (pb, b1, used, out)" by (cases st)
  note at = st [unfolded s]
  let ?ms = "if used then blks n (drop (16 * pb) m) else v # blks (n - 1) m"
  obtain i where i: "n = 4 + i" using n(1) le_Suc_ex by blast
  have u: "used \<Longrightarrow> pb + 1 = k" "\<not> used \<Longrightarrow> k = 0 \<and> pb = 0 \<and> b1 = v # blks 3 m" using at by (auto simp: cfb_at_def)
  have out: "length out = 16 * k" using at unfolding cfb_at_def prod.case by blast
  have ms: "(if used then blks 4 (drop (16 * pb) m) else b1) @ blks (n - 4) (drop (16 * (if used then pb + 4 else pb + 3)) m) = ?ms"
    using u blks_add [of 4 i "drop (16 * pb) m"] blks_add [of 3 i m] by (auto simp: i algebra_simps)
  have "\<forall>b\<in>set ?ms. is_block b"
  proof (cases used)
    case True
    then have "16 * n \<le> length (drop (16 * pb) m)" using u(1) n by (simp add: le_diff_conv2)
    from blks_blocks [OF this] show ?thesis using True by simp
  next
    case False
    then have "16 * (n - 1) \<le> length m" using n by simp
    from blks_blocks [OF this] show ?thesis using False v by simp
  qed
  then have e: "enc ?ms = map E ?ms" by (rule enc)
  let ?out = "out @ concat (map2 xor_bytes (blks n (drop (16 * k) m)) (map E ?ms))"
  have "cfb_zen4_body enc False m n st = ((if used then pb + 4 else pb + 3) + (n - 4), take 4 (enc ?ms), True,
      out @ concat (map2 xor_bytes (blks n (drop (16 * k) m)) (enc ?ms)))"
    unfolding ms [symmetric] out [symmetric]
    by (cases used) (simp_all only: s cfb_zen4_body_def Let_def mm_xor_si128_def [abs_def] cfb_mem_apart prod.case if_True if_False)
  then have "cfb_zen4_body enc False m n st = ((if used then pb + 4 else pb + 3) + (n - 4), take 4 (map E ?ms), True, ?out)"
    unfolding e .
  then show ?thesis
    using cfb_at_step [OF E v at n(2) refl refl] n u by (auto simp: cfb_at_def)
qed

lemma cfb_zen4_one_at:
  assumes E: "keys_compute E pk nr" and enc: "\<And>bs. \<forall>b\<in>set bs. is_block b \<Longrightarrow> enc bs = map E bs" and v: "is_block v"
    and st: "cfb_at E m v j k st" and n: "16 * (k + 1) \<le> length m" and fwd: "0 < k \<or> \<not> fwd"
  shows "cfb_at E m v j (k + 1) (cfb_zen4_one enc False m fwd st)"
proof -
  obtain pb b1 used out where s: "st = (pb, b1, used, out)" by (cases st)
  note at = st [unfolded s]
  let ?ms = "if used then blks 1 (drop (16 * pb) m) else v # blks 0 m"
  have u: "used \<Longrightarrow> pb + 1 = k" "\<not> used \<Longrightarrow> k = 0 \<and> pb = 0 \<and> b1 = v # blks j m \<and> 16 * j \<le> length m"
    using at by (auto simp: cfb_at_def)
  have out: "length out = 16 * k" using at unfolding cfb_at_def prod.case by blast
  define b where "b = (if used then blks 1 (drop (16 * pb) m) else b1)"
  have "\<forall>x\<in>set b. is_block x"
  proof (cases used)
    case True
    then have "16 * 1 \<le> length (drop (16 * pb) m)" using u(1) n by (simp add: le_diff_conv2)
    from blks_blocks [OF this] show ?thesis using True unfolding b_def by simp
  next
    case False
    then have "b = v # blks j m" "16 * j \<le> length m" using u(2) by (simp_all add: b_def)
    then show ?thesis using v blks_blocks [of j m] by simp
  qed
  then have "enc b = map E b" by (rule enc)
  then have h: "[hd (enc b)] = map E ?ms" using u by (cases used) (simp_all add: b_def)
  let ?out = "out @ concat (map2 xor_bytes (blks 1 (drop (16 * k) m)) (map E ?ms))"
  have "cfb_zen4_one enc False m fwd st = (if used then pb + 1 else if fwd then pb + 1 else pb, enc b, True,
      out @ mm_xor_si128 (take 16 (drop (16 * k) m)) (hd (enc b)))"
    unfolding b_def out [symmetric]
    by (cases used) (simp_all only: s cfb_zen4_one_def Let_def cfb_mem_apart prod.case if_True if_False)
  moreover have "mm_xor_si128 (take 16 (drop (16 * k) m)) (hd (enc b)) = concat (map2 xor_bytes (blks 1 (drop (16 * k) m)) (map E ?ms))"
    unfolding h [symmetric] by (simp add: mm_xor_si128_def)
  ultimately have r: "cfb_zen4_one enc False m fwd st = (if used then pb + 1 else if fwd then pb + 1 else pb, enc b, True, ?out)"
    by (simp only:)
  have ms: "?ms = (if used then blks 1 (drop (16 * pb) m) else v # blks (1 - 1) m)" by (simp only: diff_self_eq_0)
  have o1: "?out = fst (mode_blocks (cfb_dec E) (k + 1) m v)" by (rule cfb_at_step(1) [OF E v at n refl ms]) simp
  have o2: "length ?out = 16 * (k + 1)" by (rule cfb_at_step(2) [OF E v at n refl ms]) simp
  show ?thesis unfolding r cfb_at_def prod.case
    using o1 o2 n u fwd by (simp only: if_True simp_thms) (cases used, simp_all)
qed

lemma wloop_inv:
  assumes "\<And>k s. P k s \<Longrightarrow> lo \<le> k \<Longrightarrow> k + n \<le> N \<Longrightarrow> P (k + n) (f s)" and n: "0 < n"
  shows "P k s \<Longrightarrow> lo \<le> k \<Longrightarrow> k + b = N \<Longrightarrow> wloop n f b s = (b', s') \<Longrightarrow> P (N - b') s' \<and> b' \<le> b \<and> b' < n"
proof (induction b arbitrary: k s rule: less_induct)
  case (less b)
  show ?case
  proof (cases "n \<le> b")
    case True
    then have "wloop n f (b - n) (f s) = (b', s')" using less.prems(4) n wloop.simps [of n f b s] by simp
    from less.IH [OF _ assms(1) [OF less.prems(1,2)] _ _ this] show ?thesis using True n less.prems(2,3) by auto
  next
    case False
    then have "b' = b" "s' = s" using less.prems(4) wloop.simps [of n f b s] by simp_all
    then show ?thesis using less.prems False by auto
  qed
qed

lemma wonce_inv:
  assumes "wonce n f b s = (b', s')" "P (N - b) s" "b < 2 * n" "b \<le> N" "n \<le> b \<Longrightarrow> P (N - b + n) (f s)"
  shows "P (N - b') s' \<and> b' \<le> b \<and> b' < n"
  using assms by (cases "n \<le> b") (auto simp: wonce_def)

lemma DecryptCfb_zen4_modes:
  assumes E: "keys_compute E pk nr" and nr: "0 < nr" and v: "is_block v"
  shows "DecryptCfb_zen4 multi False m pk nr v = (let out = fst (mode_bytes (cfb_dec E) m v) in
    (out, if multi \<and> 16 \<le> length m then blk (length m div 16 - 1) m else v))"
proof -
  let ?N = "length m div 16" and ?r = "length m mod 16" and ?enc = "vaes512_AesEncryptNoLoad (alcp_load_key_zmm nr pk)"
  let ?body = "cfb_zen4_body ?enc False m" and ?one = "cfb_zen4_one ?enc False m"
  have enc: "?enc bs = map E bs" if "\<forall>b\<in>set bs. is_block b" for bs by (rule zen4_enc [OF E nr that])
  have start: "cfb_at E m v j 0 (0, v # blks j m, False, [])" if "16 * j \<le> length m" for j
    using that by (simp add: cfb_at_def)
  define loops where "loops = (if 4 \<le> ?N then
     let (blocks, st) = wloop 16 (?body 16) ?N (0, v # blks 3 m, False, []);
         (blocks, st) = wonce 8 (?body 8) blocks st; (blocks, st) = wonce 4 (?body 4) blocks st
     in wloop 1 (?one True) blocks st
   else wloop 1 (?one False) ?N (0, [v], False, []))"
  have "\<exists>b j st. loops = (b, st) \<and> cfb_at E m v j ?N st"
  proof (cases "4 \<le> ?N")
    case True
    have body: "cfb_at E m v 3 (k + n) (?body n st)" if "cfb_at E m v 3 k st" "4 \<le> n" "k + n \<le> ?N" for k n st
      using that by (intro cfb_zen4_body_at [OF E enc v]) auto
    obtain b1 s1 where 1: "wloop 16 (?body 16) ?N (0, v # blks 3 m, False, []) = (b1, s1)" by (metis surj_pair)
    obtain b2 s2 where 2: "wonce 8 (?body 8) b1 s1 = (b2, s2)" by (metis surj_pair)
    obtain b3 s3 where 3: "wonce 4 (?body 4) b2 s2 = (b3, s3)" by (metis surj_pair)
    obtain b4 s4 where 4: "wloop 1 (?one True) b3 s3 = (b4, s4)" by (metis surj_pair)
    have i1: "cfb_at E m v 3 (?N - b1) s1 \<and> b1 \<le> ?N \<and> b1 < 16"
      using True by (intro wloop_inv [where P = "cfb_at E m v 3" and lo = 0 and k = 0, OF body _ start _ _ 1]) auto
    have i2: "cfb_at E m v 3 (?N - b2) s2 \<and> b2 \<le> b1 \<and> b2 < 8"
      using i1 body [OF conjunct1 [OF i1], of 8] by (intro wonce_inv [where P = "cfb_at E m v 3", OF 2]) auto
    have i3: "cfb_at E m v 3 (?N - b3) s3 \<and> b3 \<le> b2 \<and> b3 < 4"
      using i1 i2 body [OF conjunct1 [OF i2], of 4] by (intro wonce_inv [where P = "cfb_at E m v 3", OF 3]) auto
    have "cfb_at E m v 3 (?N - b4) s4 \<and> b4 \<le> b3 \<and> b4 < 1"
    proof (rule wloop_inv [where P = "cfb_at E m v 3" and lo = 1 and N = ?N and k = "?N - b3" and n = 1 and f = "?one True" and b = b3, OF _ _ conjunct1 [OF i3] _ _ 4])
      fix k s assume "cfb_at E m v 3 k s" "1 \<le> k" "k + 1 \<le> ?N"
      then show "cfb_at E m v 3 (k + 1) (?one True s)" by (intro cfb_zen4_one_at [OF E enc v]) auto
    qed (use i1 i2 i3 True in auto)
    then show ?thesis using 1 2 3 4 True by (auto simp: loops_def)
  next
    case False
    obtain b4 s4 where 4: "wloop 1 (?one False) ?N (0, [v], False, []) = (b4, s4)" by (metis surj_pair)
    have begin_at: "cfb_at E m v 0 0 (0, [v], False, [])" using start [of 0] by simp
    have "cfb_at E m v 0 (?N - b4) s4 \<and> b4 \<le> ?N \<and> b4 < 1"
    proof (rule wloop_inv [where P = "cfb_at E m v 0" and lo = 0 and N = ?N, OF _ _ begin_at _ _ 4])
      fix k s assume "cfb_at E m v 0 k s" "k + 1 \<le> ?N"
      then show "cfb_at E m v 0 (k + 1) (?one False s)" by (intro cfb_zen4_one_at [OF E enc v]) auto
    qed simp_all
    then show ?thesis using 4 False by (auto simp: loops_def)
  qed
  then obtain b j pb b1 used out where l: "loops = (b, pb, b1, used, out)" and at: "cfb_at E m v j ?N (pb, b1, used, out)" by (metis prod_cases4)
  let ?s = "snd (mode_blocks (cfb_dec E) ?N m v)" and ?a = "write_at 0 (take ?r (drop (16 * ?N) m)) (replicate 16 0)"
  have out: "out = fst (mode_blocks (cfb_dec E) ?N m v)" "length out = 16 * ?N"
    and u: "if used then pb + 1 = ?N else ?N = 0" using at unfolding cfb_at_def prod.case by (auto split: if_splits)
  have reg: "(if used then blks 1 (drop (16 * pb) m) else [v]) = [?s]"
  proof (cases used)
    case True
    then have "0 < ?N" "?N - 1 = pb" using u by simp_all
    then have "?s = blk pb m" using cfb_dec_state [of ?N E m v] by (simp only:)
    then show ?thesis using True by (simp add: blk_def)
  next
    case False
    then have "?N = 0" using u by simp
    then show ?thesis using False unfolding \<open>?N = 0\<close> by simp
  qed
  have "is_block ?s"
    by (rule mode_blocks_keeps [where P = is_block, OF _ whole_blocks16 v]) (simp add: cfb_dec_def)
  then have e: "hd (?enc [?s]) = E ?s" by (subst enc) simp_all
  have "mode_blocks (cfb_dec E) ?N m v = (out, ?s)" unfolding out(1) by simp
  note tail = mode_bytes_tail [OF this]
  have res: "fst (mode_bytes (cfb_dec E) m v) = (if ?r \<noteq> 0 then out @ take ?r (mm_xor_si128 ?a (E ?s)) else out)"
    unfolding tail by (simp add: cfb_dec_def mm_xor_si128_def xor_bytes_commute [of "E _"])
  have "DecryptCfb_zen4 multi False m pk nr v = (let (b, st) = loops; (pb, _, used, out) = st;
      out = (if ?r \<noteq> 0 then out @ take ?r (mm_xor_si128 (write_at 0 (take ?r (drop (length out) m)) (replicate 16 0))
          (hd (?enc (if used then blks 1 (drop (16 * pb) m) else [v])))) else out)
      in (out, if multi \<and> 16 \<le> length m then blk (?N - 1) m else v))"
    unfolding DecryptCfb_zen4_def loops_def Let_def cfb_mem_apart by (rule refl)
  also have "\<dots> = (let out = fst (mode_bytes (cfb_dec E) m v) in (out, if multi \<and> 16 \<le> length m then blk (?N - 1) m else v))"
    unfolding l Let_def prod.case reg e res out(2) ..
  finally show ?thesis .
qed

section \<open>Properties\<close>

text \<open>C33:
  CFB decryption of whole blocks with 256-bit registers, and of a text of any length with
  512-bit registers, from a source to another buffer gives what the 128-bit kernel gives, and
  so the message that was encrypted.
\<close>

theorem DecryptCfb_kernels:
  assumes "aes_keyed key nk nr r" "length iv = 16" "length before = 16" "length d = length c"
  shows "let pk = m_round_key_enc r; plain = fst (DecryptCfb multi False c pk nr iv) in
    DecryptCfb_zen4 multi False c pk nr iv = DecryptCfb multi False c pk nr iv \<and>
    (16 dvd length c \<longrightarrow> fst (DecryptCfb_zen3 multi before c (Some d) pk nr iv) = plain) \<and>
    (c = fst (EncryptCfb multi m pk nr iv) \<longrightarrow> plain = m)"
proof -
  have nr: "0 < nr" "even nr" using aes_keyedD(2) [OF assms(1)] by auto
  note E = aes_keyedD(1) [OF assms(1)]
  have "fst (DecryptCfb_zen3 multi before c (Some d) (m_round_key_enc r) nr iv)
      = fst (mode_bytes (cfb_dec (aes key nk nr)) c iv)" if "16 dvd length c"
    using that by (simp add: DecryptCfb_zen3_modes [OF E nr(2,1) assms(2,4,3)] mode_bytes_def dvd_eq_mod_eq_0 split_def Let_def)
  then show ?thesis
    using Cfb_decrypts [OF assms(1,2), of multi False m]
    by (simp add: DecryptCfb_zen4_modes [OF E nr(1) assms(2)] DecryptCfb_modes [OF E nr(1) assms(2)] Let_def)
qed

theorem DecryptCfb_kernels_witness:
  "\<exists>r. aes_keyed (replicate 32 7) 8 14 r \<and>
    fst (DecryptCfb_zen4 True False (fst (EncryptCfb True (replicate 41 1) (m_round_key_enc r) 14 (replicate 16 3)))
      (m_round_key_enc r) 14 (replicate 16 3)) = replicate 41 1"
proof -
  obtain r where r: "aes_keyed (replicate 32 7) 8 14 r" using aes_keyed_example(2) by blast
  define m iv where d: "m = replicate 41 (1 :: u8)" "iv = replicate 16 (3 :: u8)"
  have "length iv = 16" by (simp add: d)
  from DecryptCfb_kernels [OF r this this refl, of True _ m] r show ?thesis
    unfolding d [symmetric] by (auto simp: Let_def)
qed

text \<open>C34:
  With 256-bit registers an odd number of blocks followed by a partial one is decrypted wrong:
  the bytes of the destination after the last whole block stay as they were, and the partial
  block is written over the beginning of the last whole one.
\<close>

theorem DecryptCfb_zen3_tail_lost:
  assumes "aes_keyed key nk nr r" "length iv = 16" "length before = 16" "length d = length c"
    and "odd (length c div 16)" "length c mod 16 \<noteq> 0"
  shows "let pk = m_round_key_enc r; n = length c div 16; t = length c mod 16;
      plain = fst (DecryptCfb multi False c pk nr iv); res = fst (DecryptCfb_zen3 multi before c (Some d) pk nr iv)
    in drop (16 * n) res = drop (16 * n) d \<and> take t (drop (16 * (n - 1)) res) = drop (16 * n) plain"
proof -
  have nr: "0 < nr" "even nr" using aes_keyedD(2) [OF assms(1)] by auto
  let ?E = "aes key nk nr" and ?n = "length c div 16" and ?t = "length c mod 16"
  note E = aes_keyedD(1) [OF assms(1)]
  obtain k where k: "?n = Suc k" "even k" using assms(5) by (cases ?n) auto
  let ?out = "fst (mode_blocks (cfb_dec ?E) ?n c iv)" and ?x = "drop (16 * ?n) c @ replicate (16 - ?t) 0"
  let ?y = "take ?t (xor_bytes ?x (?E (blk (?n - 1) c)))"
  have out: "length ?out = 16 * ?n" by (rule length_cfb_dec [OF E _ assms(2)]) simp
  have "is_block (blk (?n - 1) c)" using k whole_blocks16 [of c] by (simp add: length_blk)
  moreover have "length (drop (16 * ?n) c) = ?t" by (simp add: minus_mult_div_eq_mod)
  ultimately have y: "length ?y = ?t" using keys_computeD(3) [OF E] by simp
  have s: "snd (mode_blocks (cfb_dec ?E) ?n c iv) = blk (?n - 1) c" using k by (intro cfb_dec_state) simp
  have plain: "fst (DecryptCfb multi False c (m_round_key_enc r) nr iv) = ?out @ ?y"
    using assms(6) s by (simp add: DecryptCfb_modes [OF E nr(1) assms(2)] mode_bytes_def split_def Let_def cfb_dec_def xor_bytes_commute [of "?E _"])
  have "Suc k mod 2 = 1" using k(2) by (simp add: mod_Suc even_iff_mod_2_eq_zero)
  then have p: "16 * (?n - ?n mod 2) = 16 * k" unfolding k(1) by simp
  have res: "fst (DecryptCfb_zen3 multi before c (Some d) (m_round_key_enc r) nr iv)
      = write_at (16 * k) ?y (?out @ drop (16 * ?n) d)"
    using assms(6) unfolding DecryptCfb_zen3_modes [OF E nr(2,1) assms(2,4,3)] Let_def p by (simp add: k)
  have "drop (16 * ?n) (write_at (16 * k) ?y (?out @ drop (16 * ?n) d)) = drop (16 * ?n) d"
    "take ?t (drop (16 * k) (write_at (16 * k) ?y (?out @ drop (16 * ?n) d))) = ?y"
    using y out k by (simp_all add: write_at_def)
  then show ?thesis unfolding Let_def plain res using out k by simp
qed

theorem DecryptCfb_zen3_tail_lost_witness:
  "\<exists>r. aes_keyed (replicate 32 7) 8 14 r \<and>
    drop 16 (fst (DecryptCfb_zen3 False (replicate 16 9) (replicate 30 5) (Some (replicate 30 0)) (m_round_key_enc r) 14 (replicate 16 3)))
      = replicate 14 0"
proof -
  obtain r where r: "aes_keyed (replicate 32 7) 8 14 r" using aes_keyed_example(2) by blast
  show ?thesis
    using r DecryptCfb_zen3_tail_lost [OF r, of "replicate 16 3" "replicate 16 9" "replicate 30 0" "replicate 30 5" False]
    by (auto simp: Let_def)
qed

end
