(* ===== verification/Aes_Generic.thy ===== *)
theory Aes_Generic imports Aes_Ctr Aes_Cfb Poly1305_Mac Cipher_Common begin

text \<open>
  The object of the modes CBC, OFB, CTR and CFB, \<^verbatim>\<open>AesGenericCiphersT\<close> of
  \<^verbatim>\<open>lib/cipher/aes_generic.cc\<close>, for one buffer: initialisation, encryption and decryption by the
  kernels of the processor, and the copy of a context. The template arguments are arguments of
  the functions: the mode, the key length in bits and the level of the processor. Two build options
  are arguments as well: \<open>multi\<close> is \<^verbatim>\<open>AES_MULTI_UPDATE\<close>, \<open>ofb_multi\<close> is \<^verbatim>\<open>OFB_MULTI_UPDATE\<close>, which alone
  governs the IV of OFB. \<open>in_place\<close> says that the destination is the source.
\<close>

unbundle bit_operations_syntax

section \<open>The object\<close>

text \<open>The modes of this class; the enumeration of the library has those of other classes too.\<close>

datatype cipher_mode = eAesCBC | eAesOFB | eAesCTR | eAesCFB

definition SupportsMultibuffer :: "cipher_mode \<Rightarrow> bool" where
  "SupportsMultibuffer mode \<longleftrightarrow> mode = eAesCBC \<or> mode = eAesCFB"

record multibuffer_storage =
  m_ivs :: "u8 list list"
  m_pData :: "u8 list list option"
  m_bufferLengths :: "nat list"
  m_numBuffers :: nat

record aes_generic =
  ag_stateManager :: cipher_state
  ag_keyManager :: key_manager
  ag_ivManager :: iv_manager
  ag_partialBuffer :: partial_buffer
  ag_multibuffer :: multibuffer_storage

definition AesGeneric_ctor :: "nat \<Rightarrow> aes_generic" where
  "AesGeneric_ctor keyLenBits =
     \<lparr>ag_stateManager = Uninitialized, ag_keyManager = KeyManager_ctor (of_nat (keyLenBits div 8)),
      ag_ivManager = IvManager_ctor 16 16, ag_partialBuffer = PartialBuffer_ctor,
      ag_multibuffer = \<lparr>m_ivs = replicate 127 (replicate 16 0), m_pData = None,
                        m_bufferLengths = replicate 127 0, m_numBuffers = 0\<rparr>\<rparr>"

text \<open>
  The IV as a pointer and a length. A length the manager refuses is not read; \<open>None\<close> is a read
  past the end of the memory at the pointer.
\<close>

definition setIv_ptr :: "u8 list \<Rightarrow> nat \<Rightarrow> iv_manager \<Rightarrow> (alc_error \<times> iv_manager) option" where
  "setIv_ptr pIv ivLen s =
     (if ivLen < m_minLen s \<or> ivLen > m_maxLen s then IvManager_setIv (Some (replicate ivLen 0)) s
      else if length pIv < ivLen then None
      else IvManager_setIv (Some (take ivLen pIv)) s)"

text \<open>\<open>Inr\<close> is the object left by an exception of the key expansion.\<close>

definition AesGeneric_init_iv :: "u8 list option \<Rightarrow> u64 \<Rightarrow> aes_generic \<Rightarrow> (alc_error \<times> aes_generic) option" where
  "AesGeneric_init_iv pIv ivLen s =
     (case pIv of
        None \<Rightarrow> Some (ALC_ERROR_NONE, s)
      | Some iv \<Rightarrow> do {
          (err, m) \<leftarrow> setIv_ptr iv (unat (ucast ivLen :: u32)) (ag_ivManager s);
          Some (err, if err \<noteq> ALC_ERROR_NONE then s\<lparr>ag_ivManager := m\<rparr>
                     else s\<lparr>ag_ivManager := m, ag_stateManager := onIvSet (ag_stateManager s)\<rparr>)
        })"

text \<open>Without an IV the key comes with an IV of zeros.\<close>

definition AesGeneric_default_iv :: "aes_generic \<Rightarrow> aes_generic option" where
  "AesGeneric_default_iv s =
     (if m_isSet (ag_ivManager s) then Some s
      else do {
        (_, m) \<leftarrow> IvManager_setIv (Some (replicate 16 0)) (ag_ivManager s);
        Some (s\<lparr>ag_ivManager := m, ag_stateManager := onIvSet (ag_stateManager s)\<rparr>)
      })"

definition AesGeneric_init ::
  "u8 list option \<Rightarrow> u64 \<Rightarrow> u8 list option \<Rightarrow> u64 \<Rightarrow> aes_generic \<Rightarrow> (alc_error \<times> aes_generic + aes_generic) option" where
  "AesGeneric_init pKey keyLen pIv ivLen s = do {
     (err, s) \<leftarrow> AesGeneric_init_iv pIv ivLen s;
     if err \<noteq> ALC_ERROR_NONE then Some (Inl (err, s))
     else if keyLen \<noteq> 0 \<or> pKey \<noteq> None then do {
       r \<leftarrow> KeyManager_setKey_with Rijndael_setKey_aesni pKey keyLen (ag_keyManager s);
       (case r of
          Inr k \<Rightarrow> Some (Inr (s\<lparr>ag_keyManager := k\<rparr>))
        | Inl (err, k) \<Rightarrow>
            if err \<noteq> ALC_ERROR_NONE then Some (Inl (err, s\<lparr>ag_keyManager := k\<rparr>))
            else do {
              s \<leftarrow> AesGeneric_default_iv (s\<lparr>ag_keyManager := k, ag_stateManager := onKeySet (ag_stateManager s)\<rparr>);
              Some (Inl (ALC_ERROR_NONE, s))
            })
     }
     else Some (Inl (ALC_ERROR_NONE, s))
   }"

section \<open>The kernels of the processor\<close>

text \<open>The calls of the modes; the arguments are those of the kernels.\<close>

definition EncryptOfb :: "bool \<Rightarrow> u8 list \<Rightarrow> u8 list \<Rightarrow> nat \<Rightarrow> u8 list \<Rightarrow> u8 list \<times> u8 list" where
  "EncryptOfb ofb_multi pPlainText pKey nRounds pIv = crypt_ofb ofb_multi pPlainText pKey nRounds pIv"

definition DecryptOfb :: "bool \<Rightarrow> u8 list \<Rightarrow> u8 list \<Rightarrow> nat \<Rightarrow> u8 list \<Rightarrow> u8 list \<times> u8 list" where
  "DecryptOfb ofb_multi pCipherText pKey nRounds pIv = crypt_ofb ofb_multi pCipherText pKey nRounds pIv"

definition CryptCtr :: "nat \<Rightarrow> arch_level \<Rightarrow> bool \<Rightarrow> u8 list \<Rightarrow> u8 list \<Rightarrow> nat \<Rightarrow> u8 list \<Rightarrow> u8 list \<times> u8 list" where
  "CryptCtr keyLenBits arch multi pInput pKey nRounds pIv =
     (if arch = eZen4 then CryptCtr_zen4 keyLenBits multi pInput pKey nRounds pIv
      else if arch = eZen3 then CryptCtr_zen3 multi pInput pKey nRounds pIv
      else if arch = eZen then CryptCtr_zen multi pInput pKey nRounds pIv
      else ([], pIv))"

definition tDecryptCbc :: "nat \<Rightarrow> arch_level \<Rightarrow> bool \<Rightarrow> u8 list \<Rightarrow> u8 list \<Rightarrow> u8 list \<Rightarrow> u8 list \<times> u8 list" where
  "tDecryptCbc keyLenBits arch multi pSrc pKey pIv =
     (if arch = eZen4 then tDecryptCbc_zen4 keyLenBits multi pSrc pKey pIv
      else if arch = eZen3 then tDecryptCbc_zen3 keyLenBits multi pSrc pKey pIv
      else tDecryptCbc_zen keyLenBits multi pSrc pKey pIv)"

text \<open>
  CFB decryption depends on where the buffers are: \<open>mem_before\<close> are the bytes before the source, and
  \<open>in_place\<close> is the destination being the source.
\<close>

definition tDecryptCfb ::
  "arch_level \<Rightarrow> bool \<Rightarrow> u8 list \<Rightarrow> bool \<Rightarrow> u8 list \<Rightarrow> u8 list \<Rightarrow> u8 list \<Rightarrow> nat \<Rightarrow> u8 list \<Rightarrow> u8 list \<times> u8 list" where
  "tDecryptCfb arch multi mem_before in_place pSrc pDest pKey nRounds pIv =
     (if arch = eZen4 then DecryptCfb_zen4 multi in_place pSrc pKey nRounds pIv
      else if arch = eZen3 then
        DecryptCfb_zen3 multi mem_before pSrc (if in_place then None else Some (take (length pSrc) pDest)) pKey nRounds pIv
      else DecryptCfb multi in_place pSrc pKey nRounds pIv)"

section \<open>Encryption and decryption\<close>

text \<open>
  CBC under \<^verbatim>\<open>AES_MULTI_UPDATE\<close>: complete the pending block, process the whole blocks, keep the
  rest. \<open>kern\<close> is the kernel, on a text and an IV. The result has the output, the pending block
  and the IV.
\<close>

definition cbc_complete ::
  "(u8 list \<Rightarrow> u8 list \<Rightarrow> u8 list \<times> u8 list) \<Rightarrow> u8 list \<Rightarrow> partial_buffer \<Rightarrow> u8 list \<Rightarrow>
   (u8 list \<times> u8 list \<times> partial_buffer \<times> u8 list) option" where
  "cbc_complete kern pInput pb pIv =
     (if 0 < m_len pb \<and> pInput \<noteq> [] then
        let need = 16 - m_len pb; n = (if length pInput < need then length pInput else need) in
        do {
          (_, pb) \<leftarrow> PartialBuffer_append (take n pInput) pb;
          Some (if PartialBuffer_isFull pb
                then let (out, iv) = kern (m_buf pb) pIv in (out, drop n pInput, PartialBuffer_clear pb, iv)
                else ([], drop n pInput, pb, pIv))
        }
      else Some ([], pInput, pb, pIv))"

text \<open>
  In place the completed block is written where the input begins, over bytes that are still to be
  read: \<open>unread\<close> is what the memory then holds behind the bytes already taken. When whole blocks
  follow, the kernel would read and write overlapping memory at different addresses; that call is
  not modelled (\<open>None\<close>).
\<close>

definition cbc_multi_update ::
  "(u8 list \<Rightarrow> u8 list \<Rightarrow> u8 list \<times> u8 list) \<Rightarrow> bool \<Rightarrow> u8 list \<Rightarrow> u8 list \<Rightarrow> partial_buffer \<Rightarrow> u8 list \<Rightarrow>
   (u8 list \<times> partial_buffer \<times> u8 list) option" where
  "cbc_multi_update kern in_place dest pInput pb pIv = do {
     (out, unread, pb, iv) \<leftarrow> cbc_complete kern pInput pb pIv;
     let unread = (if in_place then take (length unread) (drop (length pInput - length unread) (write_at 0 out dest))
                   else unread);
         fullBytes = length unread div 16 * 16;
         (out', iv) = (if 0 < fullBytes then kern (take fullBytes unread) iv else ([], iv));
         rest = drop fullBytes unread
     in if in_place \<and> out \<noteq> [] \<and> 0 < fullBytes then None
     else do {
       (_, pb) \<leftarrow> (if rest \<noteq> [] then PartialBuffer_append rest pb else Some (0, pb));
       Some (out @ out', pb, iv)
     }
   }"

text \<open>
  What both directions share: the checks of the pointers and of the state, then \<open>data\<close> on the
  input, the pending block and the IV. \<open>outlen\<close> is what the pointer to the output length points
  to; \<open>None\<close> is a write past the end of the destination. In place the destination has to begin with
  the input; kernels that are called on aligned memory give the same in place.
\<close>

definition AesGeneric_crypt ::
  "arch_level \<Rightarrow> (u8 list \<Rightarrow> u8 list \<Rightarrow> partial_buffer \<Rightarrow> u8 list \<Rightarrow> (u8 list \<times> nat \<times> partial_buffer \<times> u8 list) option) \<Rightarrow>
   u8 list option \<Rightarrow> u8 list option \<Rightarrow> nat option \<Rightarrow> aes_generic \<Rightarrow>
   (alc_error \<times> u8 list option \<times> nat option \<times> aes_generic) option" where
  "AesGeneric_crypt arch data pInput pOutput outlen s =
     (case (pInput, pOutput, outlen) of
        (Some input, Some dest, Some _) \<Rightarrow>
          if \<not> isReady (ag_stateManager s) then Some (ALC_ERROR_BAD_STATE, pOutput, Some 0, s)
          else if arch_rank arch < arch_rank eZen then Some (ALC_ERROR_NOT_SUPPORTED, pOutput, Some 0, s)
          else do {
            (out, n, pb, iv) \<leftarrow> data input dest (ag_partialBuffer s) (take 16 (m_iv (ag_ivManager s)));
            dest \<leftarrow> CopyBlock dest 0 out;
            Some (ALC_ERROR_NONE, Some dest, Some n,
              s\<lparr>ag_partialBuffer := pb, ag_ivManager := (ag_ivManager s)\<lparr>m_iv := write_at 0 iv (m_iv (ag_ivManager s))\<rparr>\<rparr>)
          }
      | _ \<Rightarrow> Some (ALC_ERROR_INVALID_ARG, pOutput, outlen, s))"

definition AesGeneric_encrypt_data ::
  "cipher_mode \<Rightarrow> nat \<Rightarrow> arch_level \<Rightarrow> bool \<Rightarrow> bool \<Rightarrow> bool \<Rightarrow> rijndael \<Rightarrow> u8 list \<Rightarrow> u8 list \<Rightarrow> partial_buffer \<Rightarrow> u8 list \<Rightarrow>
   (u8 list \<times> nat \<times> partial_buffer \<times> u8 list) option" where
  "AesGeneric_encrypt_data mode keyLenBits arch multi ofb_multi in_place r pInput dest pb pIv =
     (let m_enc_key = m_round_key_enc r; nRounds = m_nrounds r;
          stream = (\<lambda>(out, iv). Some (out, length pInput, pb, iv)) in
      if in_place \<and> take (length pInput) dest \<noteq> pInput then None
      else case mode of
        eAesCBC \<Rightarrow>
          if multi then do {
            (out, pb, iv) \<leftarrow> cbc_multi_update (\<lambda>x. EncryptCbc multi x m_enc_key nRounds) in_place dest pInput pb pIv;
            Some (out, length out, pb, iv)
          }
          else stream (EncryptCbc multi pInput m_enc_key nRounds pIv)
      | eAesOFB \<Rightarrow> stream (EncryptOfb ofb_multi pInput m_enc_key nRounds pIv)
      | eAesCTR \<Rightarrow> stream (CryptCtr keyLenBits arch multi pInput m_enc_key nRounds pIv)
      | eAesCFB \<Rightarrow> stream (EncryptCfb multi pInput m_enc_key nRounds pIv))"

definition AesGeneric_encrypt ::
  "cipher_mode \<Rightarrow> nat \<Rightarrow> arch_level \<Rightarrow> bool \<Rightarrow> bool \<Rightarrow> bool \<Rightarrow> u8 list option \<Rightarrow> u8 list option \<Rightarrow> nat option \<Rightarrow> aes_generic \<Rightarrow>
   (alc_error \<times> u8 list option \<times> nat option \<times> aes_generic) option" where
  "AesGeneric_encrypt mode keyLenBits arch multi ofb_multi in_place pInput pOutput outlen s =
     AesGeneric_crypt arch (AesGeneric_encrypt_data mode keyLenBits arch multi ofb_multi in_place (m_rijndael (ag_keyManager s)))
       pInput pOutput outlen s"

definition AesGeneric_decrypt_data ::
  "cipher_mode \<Rightarrow> nat \<Rightarrow> arch_level \<Rightarrow> bool \<Rightarrow> bool \<Rightarrow> u8 list \<Rightarrow> bool \<Rightarrow> rijndael \<Rightarrow> u8 list \<Rightarrow> u8 list \<Rightarrow> partial_buffer \<Rightarrow> u8 list \<Rightarrow>
   (u8 list \<times> nat \<times> partial_buffer \<times> u8 list) option" where
  "AesGeneric_decrypt_data mode keyLenBits arch multi ofb_multi mem_before in_place r pInput dest pb pIv =
     (let m_enc_key = m_round_key_enc r; m_dec_key = m_round_key_dec r; nRounds = m_nrounds r;
          stream = (\<lambda>(out, iv). Some (out, length pInput, pb, iv)) in
      if in_place \<and> take (length pInput) dest \<noteq> pInput then None
      else case mode of
        eAesCBC \<Rightarrow>
          if multi then do {
            (out, pb, iv) \<leftarrow> cbc_multi_update (\<lambda>x. tDecryptCbc keyLenBits arch multi x m_dec_key) in_place dest pInput pb pIv;
            Some (out, length out, pb, iv)
          }
          else stream (tDecryptCbc keyLenBits arch multi pInput m_dec_key pIv)
      | eAesOFB \<Rightarrow> stream (DecryptOfb ofb_multi pInput m_enc_key nRounds pIv)
      | eAesCTR \<Rightarrow> stream (CryptCtr keyLenBits arch multi pInput m_enc_key nRounds pIv)
      | eAesCFB \<Rightarrow> stream (tDecryptCfb arch multi mem_before in_place pInput dest m_enc_key nRounds pIv))"

definition AesGeneric_decrypt ::
  "cipher_mode \<Rightarrow> nat \<Rightarrow> arch_level \<Rightarrow> bool \<Rightarrow> bool \<Rightarrow> u8 list \<Rightarrow> bool \<Rightarrow> u8 list option \<Rightarrow> u8 list option \<Rightarrow> nat option \<Rightarrow> aes_generic \<Rightarrow>
   (alc_error \<times> u8 list option \<times> nat option \<times> aes_generic) option" where
  "AesGeneric_decrypt mode keyLenBits arch multi ofb_multi mem_before in_place pInput pOutput outlen s =
     AesGeneric_crypt arch
       (AesGeneric_decrypt_data mode keyLenBits arch multi ofb_multi mem_before in_place (m_rijndael (ag_keyManager s)))
       pInput pOutput outlen s"

definition AesGeneric_finish :: "aes_generic \<Rightarrow> alc_error \<times> aes_generic" where
  "AesGeneric_finish s = (ALC_ERROR_NONE, s)"

text \<open>The context \<open>dst\<close> becomes one that goes on like \<open>src\<close>; both are objects of one class.\<close>

definition AesGeneric_CopyCtx :: "aes_generic \<Rightarrow> aes_generic \<Rightarrow> (alc_error \<times> aes_generic) option" where
  "AesGeneric_CopyCtx src dst =
     (let dst = dst\<lparr>ag_keyManager := copyKeyStateFrom (ag_keyManager src) (ag_keyManager dst)\<rparr>;
          dst = dst\<lparr>ag_stateManager := onKeySet (ag_stateManager dst)\<rparr>;
          m = ag_ivManager src
      in if m_isSet m then do {
           (_, m) \<leftarrow> IvManager_setIv (Some (take (m_ivLen m) (m_iv m))) (ag_ivManager dst);
           Some (ALC_ERROR_NONE, dst\<lparr>ag_ivManager := m, ag_stateManager := onIvSet (ag_stateManager dst)\<rparr>)
         }
         else Some (ALC_ERROR_NONE, dst))"

text \<open>The pointers of the interface: null, to an object of another class, or of this one.\<close>

datatype cipher_ptr = NullCipher | OtherCipher | ThisCipher aes_generic

definition AesGeneric_CopyCtx_ptr :: "cipher_ptr \<Rightarrow> cipher_ptr \<Rightarrow> (alc_error \<times> cipher_ptr) option" where
  "AesGeneric_CopyCtx_ptr pSrc pDst =
     (if pSrc = NullCipher \<or> pDst = NullCipher then Some (ALC_ERROR_BAD_STATE, pDst)
      else case (pSrc, pDst) of
        (ThisCipher src, ThisCipher dst) \<Rightarrow> map_option (map_prod id ThisCipher) (AesGeneric_CopyCtx src dst)
      | _ \<Rightarrow> Some (ALC_ERROR_INVALID_ARG, pDst))"

section \<open>CBC in pieces\<close>

text \<open>A kernel that is the mode on whole blocks.\<close>

definition kern_does :: "mode_step \<Rightarrow> (u8 list \<Rightarrow> u8 list \<Rightarrow> u8 list \<times> u8 list) \<Rightarrow> bool" where
  "kern_does g kern \<longleftrightarrow> (\<forall>x v. 16 dvd length x \<and> is_block v \<longrightarrow> kern x v = mode_blocks g (length x div 16) x v) \<and>
     (\<forall>p v. is_block p \<and> is_block v \<longrightarrow> is_block (snd (g p v)))"

lemma kern_doesD:
  assumes "kern_does g kern" "is_block v"
  shows "length x = 16 * n \<Longrightarrow> kern x v = mode_blocks g n x v" "16 * n \<le> length x \<Longrightarrow> is_block (snd (mode_blocks g n x v))"
  using assms by (auto simp: kern_does_def intro!: mode_blocks_keeps [where P = is_block])

lemma mode_blocks_1: "is_block b \<Longrightarrow> mode_blocks g 1 (b @ x) v = (fst (g b v), snd (g b v))"
  by (simp add: One_nat_def split_def)

lemma length_pb_bytes: "pb_ok pb \<Longrightarrow> length (pb_bytes pb) = m_len pb"
  by (simp add: pb_ok_def pb_bytes_def)

lemma clear_pb: "pb_ok (PartialBuffer_clear pb)" "pb_bytes (PartialBuffer_clear pb) = []" "m_len (PartialBuffer_clear pb) = 0"
  by (simp_all add: pb_ok_def pb_bytes_def PartialBuffer_clear_def)

lemma mode_blocks_prefix: "length m = 16 * n \<Longrightarrow> mode_blocks g n (m @ x) v = mode_blocks g n m v"
  using mode_blocks_take [of g n "m @ x" v] by simp

lemma cbc_complete_blocks:
  assumes k: "kern_does g kern" and pb: "pb_ok pb" "m_len pb < 16" and v: "is_block v"
    and m_def: "m = pb_bytes pb @ x"
  shows "\<exists>j out x' pb' v'. cbc_complete kern x pb v = Some (out, x', pb', v') \<and> mode_blocks g j m v = (out, v') \<and> 16 * j \<le> length m \<and>
    pb_ok pb' \<and> m_len pb' < 16 \<and> pb_bytes pb' @ x' = drop (16 * j) m \<and> (x' = [] \<or> pb_bytes pb' = [])"
proof (cases "0 < m_len pb \<and> x \<noteq> []")
  case False
  then have "x = [] \<or> pb_bytes pb = []" using length_pb_bytes [OF pb(1)] by auto
  then show ?thesis
    unfolding cbc_complete_def if_not_P [OF False]
    by (intro exI [of _ 0] exI [of _ "[]"] exI [of _ x] exI [of _ pb] exI [of _ v]) (simp add: pb m_def)
next
  case True
  let ?n = "if length x < 16 - m_len pb then length x else 16 - m_len pb"
  have n: "?n = min (length x) (16 - m_len pb)" by (simp add: min_def)
  obtain a pb1 where pb1: "PartialBuffer_append (take ?n x) pb = Some (a, pb1)" "pb_ok pb1"
      "pb_bytes pb1 = pb_bytes pb @ take ?n x"
    using append_pb [OF pb(1), of "take ?n x"] by (auto simp: min_def)
  have len: "m_len pb1 = m_len pb + ?n" using pb1(3) length_pb_bytes [OF pb1(2)] length_pb_bytes [OF pb(1)] by simp
  show ?thesis
  proof (cases "length x < 16 - m_len pb")
    case short: True
    then have "\<not> PartialBuffer_isFull pb1" "?n = length x" using len by (simp_all add: PartialBuffer_isFull_def)
    then have "cbc_complete kern x pb v = Some ([], [], pb1, v)"
      using True pb1(1) by (simp add: cbc_complete_def Let_def)
    then show ?thesis
      using pb1(2,3) len short
      by (intro exI [of _ 0] exI [of _ "[]"] exI [of _ "[]"] exI [of _ pb1] exI [of _ v]) (simp add: m_def)
  next
    case full: False
    then have n': "?n = 16 - m_len pb" by simp
    have f: "PartialBuffer_isFull pb1" using len n' pb(2) by (simp add: PartialBuffer_isFull_def)
    have "length (m_buf pb1) = 16" "m_len pb1 = 16" using pb1(2) f by (simp_all add: pb_ok_def PartialBuffer_isFull_def)
    then have b: "m_buf pb1 = pb_bytes pb @ take ?n x" using pb1(3) by (simp add: pb_bytes_def)
    have m: "m = m_buf pb1 @ drop ?n x" unfolding b m_def by simp
    have "mode_blocks g 1 m v = mode_blocks g 1 (m_buf pb1) v"
      unfolding m by (rule mode_blocks_prefix) (simp add: \<open>length (m_buf pb1) = 16\<close>)
    moreover have "kern (m_buf pb1) v = mode_blocks g 1 (m_buf pb1) v"
      by (rule kern_doesD(1) [OF k v]) (simp add: \<open>length (m_buf pb1) = 16\<close>)
    ultimately have kern: "kern (m_buf pb1) v = mode_blocks g 1 m v" by (simp only:)
    obtain out v' where o: "mode_blocks g 1 m v = (out, v')" by fastforce
    have "cbc_complete kern x pb v = Some (out, drop ?n x, PartialBuffer_clear pb1, v')"
      using True pb1(1) f kern o by (simp add: cbc_complete_def Let_def)
    then show ?thesis
      using o clear_pb [of pb1] \<open>length (m_buf pb1) = 16\<close>
      by - (rule exI [of _ 1], rule exI [of _ out], rule exI [of _ "drop ?n x"], rule exI [of _ "PartialBuffer_clear pb1"],
        rule exI [of _ v'], simp add: m, arith)
  qed
qed

lemma cbc_multi_update_blocks:
  assumes k: "kern_does g kern" and pb: "pb_ok pb" "m_len pb < 16" and v: "is_block v"
    and m_def: "m = pb_bytes pb @ x"
  shows "\<exists>pb'. cbc_multi_update kern False dest x pb v = Some (fst (mode_blocks g (length m div 16) m v), pb', snd (mode_blocks g (length m div 16) m v)) \<and>
    pb_ok pb' \<and> m_len pb' < 16 \<and> pb_bytes pb' = drop (16 * (length m div 16)) m"
proof -
  obtain j out x' pb' v' where c: "cbc_complete kern x pb v = Some (out, x', pb', v')" "mode_blocks g j m v = (out, v')" "16 * j \<le> length m"
      "pb_ok pb'" "m_len pb' < 16" "pb_bytes pb' @ x' = drop (16 * j) m" "x' = [] \<or> pb_bytes pb' = []"
    using cbc_complete_blocks [OF k pb v m_def] by blast
  have v': "is_block v'" using kern_doesD(2) [OF k v c(3)] c(2) by simp
  define i where "i = length x' div 16"
  have N: "length m div 16 = j + i" and tail: "drop (16 * i) x' = (if x' = [] then [] else drop (16 * (j + i)) m)"
  proof -
    obtain r where r: "length m = 16 * j + r" using c(3) le_Suc_ex by blast
    have l: "m_len pb' + length x' = r" using arg_cong [OF c(6), where f = length] length_pb_bytes [OF c(4)] r by simp
    have "r div 16 = i"
    proof (cases "x' = []")
      case True
      then show ?thesis using l c(5) by (simp add: i_def)
    next
      case False
      then have "m_len pb' = 0" using c(7) length_pb_bytes [OF c(4)] by simp
      then show ?thesis using l by (simp add: i_def)
    qed
    then show "length m div 16 = j + i" unfolding r by simp
    show "drop (16 * i) x' = (if x' = [] then [] else drop (16 * (j + i)) m)"
    proof (cases "x' = []")
      case False
      then have "x' = drop (16 * j) m" using c(6,7) by simp
      then show ?thesis using False by (simp add: algebra_simps)
    qed simp
  qed
  obtain out' w where o: "mode_blocks g i x' v' = (out', w)" by fastforce
  have full: "(if 0 < i * 16 then kern (take (i * 16) x') v' else ([], v')) = (out', w)"
  proof (cases "i = 0")
    case False
    have "kern (take (16 * i) x') v' = mode_blocks g i (take (16 * i) x') v'"
      by (rule kern_doesD(1) [OF k v']) (simp add: i_def)
    then show ?thesis using False o unfolding mult.commute [of i 16] mode_blocks_take by simp
  qed (use o in simp)
  have all: "mode_blocks g (length m div 16) m v = (out @ out', w)"
  proof (cases "x' = []")
    case True
    then have "i = 0" by (simp add: i_def)
    then show ?thesis using c(2) o by (simp add: N)
  next
    case False
    then have "x' = drop (16 * j) m" using c(6,7) by simp
    then show ?thesis using c(2) o by (simp add: N mode_blocks_add)
  qed
  show ?thesis
  proof (cases "drop (i * 16) x' = []")
    case True
    have "pb_bytes pb' = drop (16 * (j + i)) m"
    proof (cases "x' = []")
      case True
      then show ?thesis using c(6) by (simp add: i_def)
    next
      case False
      then show ?thesis using tail True c(7) by (simp add: mult.commute)
    qed
    moreover have "cbc_multi_update kern False dest x pb v = Some (out @ out', pb', w)"
      unfolding cbc_multi_update_def c(1) by (simp only: Option.bind.simps prod.case Let_def i_def [symmetric] full if_False simp_thms) (simp add: True)
    ultimately show ?thesis using all c(4,5) by (simp add: N)
  next
    case False
    then have x: "x' \<noteq> []" "pb_bytes pb' = []" using c(7) by auto
    then have "m_len pb' = 0" using length_pb_bytes [OF c(4)] by simp
    let ?rest = "drop (i * 16) x'"
    have l: "length ?rest < 16" unfolding i_def by (simp add: minus_div_mult_eq_mod)
    obtain a pb2 where pb2: "PartialBuffer_append ?rest pb' = Some (a, pb2)" "pb_ok pb2" "pb_bytes pb2 = ?rest"
      using append_pb [OF c(4), of ?rest] x(2) l \<open>m_len pb' = 0\<close> by auto
    have "m_len pb2 < 16" using length_pb_bytes [OF pb2(2)] pb2(3) l by simp
    moreover have "cbc_multi_update kern False dest x pb v = Some (out @ out', pb2, w)"
      unfolding cbc_multi_update_def c(1)
      by (simp only: Option.bind.simps prod.case Let_def i_def [symmetric] full if_False simp_thms) (use False pb2(1) in simp)
    ultimately show ?thesis using all pb2(2,3) tail x(1) by (simp add: N mult.commute)
  qed
qed

section \<open>The object in a session\<close>

text \<open>The object is ready with the round keys of \<open>r\<close>; \<open>v\<close> is its IV and \<open>p\<close> what is pending.\<close>

definition ag_session :: "rijndael \<Rightarrow> u8 list \<Rightarrow> u8 list \<Rightarrow> aes_generic \<Rightarrow> bool" where
  "ag_session r v p s \<longleftrightarrow> isReady (ag_stateManager s) \<and> m_rijndael (ag_keyManager s) = r \<and>
     length (m_iv (ag_ivManager s)) = 128 \<and> take 16 (m_iv (ag_ivManager s)) = v \<and> m_isSet (ag_ivManager s) \<and> m_ivLen (ag_ivManager s) = 16 \<and>
     pb_ok (ag_partialBuffer s) \<and> m_len (ag_partialBuffer s) < 16 \<and> pb_bytes (ag_partialBuffer s) = p"

text \<open>An object that can take a key of the length it was made for.\<close>

definition ag_ready_for :: "nat \<Rightarrow> aes_generic \<Rightarrow> bool" where
  "ag_ready_for nk s \<longleftrightarrow> m_expectedKeyLen (ag_keyManager s) = of_nat (4 * nk) \<and> length (m_originalKey (ag_keyManager s)) = 32 \<and>
     length (m_round_key_enc (m_rijndael (ag_keyManager s))) = 512 \<and> length (m_round_key_dec (m_rijndael (ag_keyManager s))) = 512 \<and>
     length (m_iv (ag_ivManager s)) = 128 \<and> m_minLen (ag_ivManager s) = 16 \<and> m_maxLen (ag_ivManager s) = 16 \<and>
     pb_ok (ag_partialBuffer s) \<and> m_len (ag_partialBuffer s) < 16"

definition aes_sizes :: "nat \<Rightarrow> nat \<Rightarrow> bool" where
  "aes_sizes nk nr \<longleftrightarrow> (nk, nr) \<in> {(4, 10), (6, 12), (8, 14)}"

lemma AesGeneric_ctor_ready_for: "aes_sizes nk nr \<Longrightarrow> ag_ready_for nk (AesGeneric_ctor (32 * nk))"
  by (auto simp: ag_ready_for_def AesGeneric_ctor_def KeyManager_ctor_def Rijndael_ctor_def IvManager_ctor_def
    pb_ok_def PartialBuffer_ctor_def)

lemma aes_keyed_nrounds:
  assumes "aes_keyed key nk nr r"
  shows "m_nrounds r = nr"
proof -
  obtain len s where s: "aes_params len nk nr" "length key = 4 * nk" "length (m_round_key_enc s) = 512"
    "length (m_round_key_dec s) = 512" "Rijndael_setKey_aesni (Some key) len s = Some r"
    using assms by (auto simp: aes_keyed_def aes_params_def)
  then show ?thesis using setKey_aesni_keyed [OF s(1-4)] by (auto simp: keyed_def)
qed

lemma setKey_aesni_key:
  assumes nk: "aes_sizes nk nr" and key: "length key = 4 * nk"
    and k: "m_expectedKeyLen k = of_nat (4 * nk)" "length (m_originalKey k) = 32"
      "length (m_round_key_enc (m_rijndael k)) = 512" "length (m_round_key_dec (m_rijndael k)) = 512"
  shows "\<exists>k'. KeyManager_setKey_with Rijndael_setKey_aesni (Some key) (of_nat (32 * nk)) k = Some (Inl (ALC_ERROR_NONE, k')) \<and>
    aes_keyed key nk nr (m_rijndael k') \<and> m_isKeySet k' \<and> m_expectedKeyLen k' = of_nat (4 * nk) \<and> length (m_originalKey k') = 32 \<and>
    length (m_round_key_enc (m_rijndael k')) = 512 \<and> length (m_round_key_dec (m_rijndael k')) = 512"
proof -
  have p: "aes_params (32 * nk) nk nr" using nk by (auto simp: aes_params_def aes_sizes_def)
  obtain r where r: "Rijndael_setKey_aesni (Some key) (32 * nk) (m_rijndael k) = Some r" "keyed nk nr key r"
    using setKey_aesni_keyed [OF p key k(3,4)] by blast
  have "aes_keyed key nk nr r"
    unfolding aes_keyed_def using nk key k(3,4) r(1)
    by (intro exI [of _ "32 * nk"] exI [of _ "m_rijndael k"]) (auto simp: aes_sizes_def)
  then show ?thesis
    using nk key k r by (auto simp: KeyManager_setKey_with_def Let_def aes_sizes_def keyed_def)
qed

lemma AesGeneric_init_session:
  assumes nk: "aes_sizes nk nr" and key: "length key = 4 * nk" and iv: "length iv = 16" and s: "ag_ready_for nk s"
  shows "\<exists>s' r. AesGeneric_init (Some key) (of_nat (32 * nk)) (Some iv) 16 s = Some (Inl (ALC_ERROR_NONE, s')) \<and>
    aes_keyed key nk nr r \<and> ag_session r iv (pb_bytes (ag_partialBuffer s)) s' \<and> ag_ready_for nk s'"
proof -
  have k: "m_expectedKeyLen (ag_keyManager s) = of_nat (4 * nk)" "length (m_originalKey (ag_keyManager s)) = 32"
    "length (m_round_key_enc (m_rijndael (ag_keyManager s))) = 512" "length (m_round_key_dec (m_rijndael (ag_keyManager s))) = 512"
    and m: "length (m_iv (ag_ivManager s)) = 128" "m_minLen (ag_ivManager s) = 16" "m_maxLen (ag_ivManager s) = 16"
    and pb: "pb_ok (ag_partialBuffer s)" "m_len (ag_partialBuffer s) < 16"
    using s by (simp_all add: ag_ready_for_def)
  obtain k' where k': "KeyManager_setKey_with Rijndael_setKey_aesni (Some key) (of_nat (32 * nk)) (ag_keyManager s) = Some (Inl (ALC_ERROR_NONE, k'))"
    "aes_keyed key nk nr (m_rijndael k')" "m_isKeySet k'" "m_expectedKeyLen k' = of_nat (4 * nk)" "length (m_originalKey k') = 32"
    "length (m_round_key_enc (m_rijndael k')) = 512" "length (m_round_key_dec (m_rijndael k')) = 512"
    using setKey_aesni_key [OF nk key k] by blast
  let ?m = "(ag_ivManager s)\<lparr>m_iv := write_at 0 iv (m_iv (ag_ivManager s)), m_ivLen := 16, m_isSet := True\<rparr>"
  let ?s = "s\<lparr>ag_ivManager := ?m, ag_stateManager := onKeySet (onIvSet (ag_stateManager s)), ag_keyManager := k'\<rparr>"
  have iv': "setIv_ptr iv 16 (ag_ivManager s) = Some (ALC_ERROR_NONE, ?m)"
    using m iv by (simp add: setIv_ptr_def IvManager_setIv_def)
  define bits :: u64 where "bits = of_nat (32 * nk)"
  have "AesGeneric_init (Some key) (of_nat (32 * nk)) (Some iv) 16 s = Some (Inl (ALC_ERROR_NONE, ?s))"
    unfolding bits_def [symmetric]
    by (simp add: AesGeneric_init_def AesGeneric_init_iv_def iv' k'(1) [folded bits_def] AesGeneric_default_iv_def)
  moreover have "isReady (onKeySet (onIvSet (ag_stateManager s)))" by (auto simp: isReady_def onKeySet_def onIvSet_def)
  moreover have "take 16 (write_at 0 iv (m_iv (ag_ivManager s))) = iv" using iv m(1) by (simp add: write_at_def)
  ultimately show ?thesis using k' m pb iv by (auto simp: ag_session_def ag_ready_for_def)
qed

lemma AesGeneric_crypt_run:
  assumes s: "ag_session r v p s" and arch: "arch \<in> {eZen, eZen3, eZen4}"
    and d: "data x dest (ag_partialBuffer s) v = Some (out, n, pb', v')" and l: "length out \<le> length dest" "length v' = 16"
    and pb: "pb_ok pb'" "m_len pb' < 16"
  shows "\<exists>s'. AesGeneric_crypt arch data (Some x) (Some dest) (Some n0) s = Some (ALC_ERROR_NONE, Some (write_at 0 out dest), Some n, s') \<and>
    ag_session r v' (pb_bytes pb') s' \<and> s' = s\<lparr>ag_partialBuffer := pb', ag_ivManager := ag_ivManager s'\<rparr> \<and> (v' = v \<longrightarrow> ag_ivManager s' = ag_ivManager s) \<and>
    (ag_ready_for nk s \<longrightarrow> ag_ready_for nk s')"
proof -
  have r: "isReady (ag_stateManager s)" "length (m_iv (ag_ivManager s)) = 128" "take 16 (m_iv (ag_ivManager s)) = v"
    using s by (simp_all add: ag_session_def)
  have a: "\<not> arch_rank arch < arch_rank eZen" using arch by auto
  have "take 16 (write_at 0 v' (m_iv (ag_ivManager s))) = v'" using l(2) r(2) by (simp add: write_at_def)
  moreover have "v' = v \<Longrightarrow> write_at 0 v' (m_iv (ag_ivManager s)) = m_iv (ag_ivManager s)"
    using r(3) l(2) by (simp add: write_at_def) (metis append_take_drop_id)
  ultimately show ?thesis
    using s d l r a pb unfolding AesGeneric_crypt_def by (simp add: ag_session_def ag_ready_for_def)
qed

section \<open>Messages in pieces\<close>

text \<open>The calls of a user who gives the pieces one by one, with room for a block more in each output.\<close>

fun ag_pieces ::
  "(u8 list option \<Rightarrow> u8 list option \<Rightarrow> nat option \<Rightarrow> aes_generic \<Rightarrow> (alc_error \<times> u8 list option \<times> nat option \<times> aes_generic) option) \<Rightarrow>
   u8 list list \<Rightarrow> aes_generic \<Rightarrow> (u8 list \<times> aes_generic) option" where
  "ag_pieces f [] s = Some ([], s)"
| "ag_pieces f (p # ps) s =
     (case f (Some p) (Some (replicate (length p + 16) 0)) (Some 0) s of
        Some (err, Some dest, Some n, s) \<Rightarrow>
          if err = ALC_ERROR_NONE then map_option (\<lambda>(c, s). (take n dest @ c, s)) (ag_pieces f ps s) else None
      | _ \<Rightarrow> None)"

lemma mode_blocks_pieces:
  fixes a b :: "u8 list"
  defines "k \<equiv> length a div 16"
  defines "r \<equiv> drop (16 * k) a @ b"
  shows "mode_blocks g (length (a @ b) div 16) (a @ b) v = (let (o1, s1) = mode_blocks g k a v; (o2, s2) = mode_blocks g (length r div 16) r s1 in (o1 @ o2, s2))"
    and "drop (16 * (length (a @ b) div 16)) (a @ b) = drop (16 * (length r div 16)) r"
proof -
  have le: "16 * k \<le> length a" by (simp add: k_def)
  obtain c where c: "length a = 16 * k + c" using le le_Suc_ex by blast
  have n: "length (a @ b) div 16 = k + length r div 16" using c by (simp add: r_def)
  have "mode_blocks g k (a @ b) v = mode_blocks g k a v"
    using mode_blocks_take [of g k "a @ b" v] mode_blocks_take [of g k a v] le by simp
  moreover have "drop (16 * k) (a @ b) = r" using le by (simp add: r_def)
  ultimately show "mode_blocks g (length (a @ b) div 16) (a @ b) v
      = (let (o1, s1) = mode_blocks g k a v; (o2, s2) = mode_blocks g (length r div 16) r s1 in (o1 @ o2, s2))"
    unfolding n mode_blocks_add by (simp only:)
  show "drop (16 * (length (a @ b) div 16)) (a @ b) = drop (16 * (length r div 16)) r"
  proof -
    define j where "j = length r div 16"
    show ?thesis
      unfolding n j_def [symmetric] \<open>drop (16 * k) (a @ b) = r\<close> [symmetric] drop_drop by (simp only: distrib_left add.commute)
  qed
qed

text \<open>A call that is the mode on what is pending and the piece.\<close>

definition piece_does where
  "piece_does r g f \<longleftrightarrow> (\<forall>x dest n0 s v p. ag_session r v p s \<and> is_block v \<and> length x + 16 \<le> length dest \<longrightarrow>
     (let k = length (p @ x) div 16; (out, v') = mode_blocks g k (p @ x) v in
      is_block v' \<and> length out = 16 * k \<and>
      (\<exists>s'. f (Some x) (Some dest) (Some n0) s = Some (ALC_ERROR_NONE, Some (write_at 0 out dest), Some (16 * k), s') \<and>
         ag_session r v' (drop (16 * k) (p @ x)) s')))"

lemma piece_doesD:
  assumes "piece_does r g f" "ag_session r v p s" "is_block v" "length x + 16 \<le> length dest"
    and "mode_blocks g (length (p @ x) div 16) (p @ x) v = (out, v')"
  shows "\<exists>s'. f (Some x) (Some dest) (Some n0) s = Some (ALC_ERROR_NONE, Some (write_at 0 out dest), Some (16 * (length (p @ x) div 16)), s') \<and>
      ag_session r v' (drop (16 * (length (p @ x) div 16)) (p @ x)) s'"
    and "is_block v'" "length out = 16 * (length (p @ x) div 16)"
proof -
  have "let k = length (p @ x) div 16; (out, v') = mode_blocks g k (p @ x) v in
      is_block v' \<and> length out = 16 * k \<and>
      (\<exists>s'. f (Some x) (Some dest) (Some n0) s = Some (ALC_ERROR_NONE, Some (write_at 0 out dest), Some (16 * k), s') \<and>
         ag_session r v' (drop (16 * k) (p @ x)) s')"
    using assms(1-4) unfolding piece_does_def by blast
  then show "\<exists>s'. f (Some x) (Some dest) (Some n0) s = Some (ALC_ERROR_NONE, Some (write_at 0 out dest), Some (16 * (length (p @ x) div 16)), s') \<and>
      ag_session r v' (drop (16 * (length (p @ x) div 16)) (p @ x)) s'"
    "is_block v'" "length out = 16 * (length (p @ x) div 16)"
    unfolding Let_def assms(5) prod.case by blast+
qed

lemma ag_pieces_blocks:
  assumes f: "piece_does r g f"
  shows "ag_session r v p s \<Longrightarrow> is_block v \<Longrightarrow>
    (let m = p @ concat xs; k = length m div 16 in
     \<exists>s'. ag_pieces f xs s = Some (fst (mode_blocks g k m v), s') \<and> ag_session r (snd (mode_blocks g k m v)) (drop (16 * k) m) s')"
proof (induction xs arbitrary: v p s)
  case Nil
  then have "length p < 16" using length_pb_bytes by (auto simp: ag_session_def)
  then show ?case using Nil by simp
next
  case (Cons x xs)
  let ?k = "length (p @ x) div 16" and ?dest = "replicate (length x + 16) (0 :: u8)"
  obtain out v' where o: "mode_blocks g ?k (p @ x) v = (out, v')" by fastforce
  obtain s' where s': "f (Some x) (Some ?dest) (Some 0) s = Some (ALC_ERROR_NONE, Some (write_at 0 out ?dest), Some (16 * ?k), s')"
      "ag_session r v' (drop (16 * ?k) (p @ x)) s'" "is_block v'" "length out = 16 * ?k"
    using piece_doesD(1) [OF f Cons.prems _ o, of ?dest 0] piece_doesD(2,3) [OF f Cons.prems _ o, of ?dest] by auto
  have "length p < 16" using Cons.prems(1) length_pb_bytes by (auto simp: ag_session_def)
  then have "length out \<le> length ?dest" unfolding s'(4) by simp
  then have t: "take (16 * ?k) (write_at 0 out ?dest) = out" unfolding s'(4) [symmetric] by (rule write_at_0)
  let ?r = "drop (16 * ?k) (p @ x) @ concat xs"
  obtain s'' where s'': "ag_pieces f xs s' = Some (fst (mode_blocks g (length ?r div 16) ?r v'), s'')"
      "ag_session r (snd (mode_blocks g (length ?r div 16) ?r v')) (drop (16 * (length ?r div 16)) ?r) s''"
    using Cons.IH [OF s'(2,3)] unfolding Let_def by blast
  have m: "p @ concat (x # xs) = (p @ x) @ concat xs" by simp
  note split = mode_blocks_pieces(1) [of g "p @ x" "concat xs" v] mode_blocks_pieces(2) [of "p @ x" "concat xs"]
  show ?case
    unfolding Let_def m split o prod.case using s'(1) s'' t by (simp add: split_def)
qed

lemma EncryptCbc_kern:
  assumes "keys_compute E pk nr"
  shows "kern_does (cbc_enc E) (\<lambda>x. EncryptCbc True x pk nr)"
  using EncryptCbc_modes [OF assms] keys_computeD(3) [OF assms]
  by (auto simp: kern_does_def mode_bytes_def cbc_enc_def Let_def split_def dvd_eq_mod_eq_0)

lemma tDecryptCbc_kern:
  assumes D: "keys_decrypt D pk nr" and nr: "even nr" "0 < nr" "bits div 32 + 6 = nr" and arch: "arch \<in> {eZen, eZen3, eZen4}"
  shows "kern_does (cbc_dec D) (\<lambda>x. tDecryptCbc bits arch True x pk)"
  using arch DecryptCbc_modes [OF D, where multi = True] DecryptCbc_zen3_modes [OF D nr(1,2), where multi = True]
    DecryptCbc_zen4_modes [OF D nr(1,2), where multi = True] nr(3)
  by (auto simp: kern_does_def tDecryptCbc_def tDecryptCbc_zen_def tDecryptCbc_zen3_def tDecryptCbc_zen4_def cbc_dec_def Let_def split_def)

lemma piece_doesI:
  assumes kern: "kern_does g kern"
    and f: "\<And>x y n s v p. ag_session r v p s \<Longrightarrow> f x y n s = AesGeneric_crypt arch (\<lambda>x dest pb v. do { (out, pb, iv) \<leftarrow> cbc_multi_update kern False dest x pb v; Some (out, length out, pb, iv) }) x y n s"
    and b: "\<And>b v. is_block b \<Longrightarrow> is_block v \<Longrightarrow> is_block (fst (g b v))" and arch: "arch \<in> {eZen, eZen3, eZen4}"
  shows "piece_does r g f"
proof -
  have "let k = length (p @ x) div 16; (out, v') = mode_blocks g k (p @ x) v in
      is_block v' \<and> length out = 16 * k \<and>
      (\<exists>s'. f (Some x) (Some dest) (Some n0) s = Some (ALC_ERROR_NONE, Some (write_at 0 out dest), Some (16 * k), s') \<and>
         ag_session r v' (drop (16 * k) (p @ x)) s')"
    if s: "ag_session r v p s" and v: "is_block v" and d: "length x + 16 \<le> length dest" for x dest n0 s v p
  proof -
    let ?k = "length (p @ x) div 16"
    have pb: "pb_ok (ag_partialBuffer s)" "m_len (ag_partialBuffer s) < 16" "pb_bytes (ag_partialBuffer s) = p" using s by (simp_all add: ag_session_def)
    obtain out v' where o: "mode_blocks g ?k (p @ x) v = (out, v')" by fastforce
    have le: "16 * ?k \<le> length (p @ x)" by simp
    have g: "is_block (fst (g b w)) \<and> is_block (snd (g b w))" if "is_block b" "is_block w" for b w
      using b kern that by (auto simp: kern_does_def)
    have v': "is_block v'" using kern_doesD(2) [OF kern v le] o by simp
    have "length (fst (mode_blocks g ?k (p @ x) v)) = 16 * ?k"
      by (rule length_mode_blocks [where P = is_block, OF _ le v]) (rule g)
    then have l: "length out = 16 * ?k" unfolding o by simp
    obtain pb' where pb': "cbc_multi_update kern False dest x (ag_partialBuffer s) v = Some (out, pb', v')" "pb_ok pb'" "m_len pb' < 16"
        "pb_bytes pb' = drop (16 * ?k) (p @ x)"
      using cbc_multi_update_blocks [OF kern pb(1,2) v refl, where x = x and dest = dest] unfolding pb(3) o fst_conv snd_conv by blast
    have "length out \<le> length dest" unfolding l using d pb(2) length_pb_bytes [OF pb(1)] pb(3) le by (simp only: length_append)
    from AesGeneric_crypt_run [OF s arch _ this v' pb'(2,3), where data = "\<lambda>x dest pb v. do { (out, pb, iv) \<leftarrow> cbc_multi_update kern False dest x pb v; Some (out, length out, pb, iv) }" and n = "length out" and x = x]
    show ?thesis unfolding Let_def o prod.case f [OF s] using pb' l v' by auto
  qed
  then show ?thesis unfolding piece_does_def by blast
qed

lemma encrypt_pieces:
  assumes k: "aes_keyed key nk nr r" and arch: "arch \<in> {eZen, eZen3, eZen4}"
  shows "piece_does r (cbc_enc (aes key nk nr)) (AesGeneric_encrypt eAesCBC bits arch True ofb_multi False)"
proof (rule piece_doesI [OF _ _ _ arch])
  show "kern_does (cbc_enc (aes key nk nr)) (\<lambda>x. EncryptCbc True x (m_round_key_enc r) nr)"
    by (rule EncryptCbc_kern [OF aes_keyedD(1) [OF k]])
qed (simp_all add: AesGeneric_encrypt_def AesGeneric_encrypt_data_def [abs_def] Let_def ag_session_def aes_keyed_nrounds [OF k]
    cbc_enc_def keys_computeD(3) [OF aes_keyedD(1) [OF k]])

lemma decrypt_pieces:
  assumes k: "aes_keyed key nk nr r" and arch: "arch \<in> {eZen, eZen3, eZen4}" and D: "keys_decrypt D (m_round_key_dec r) nr"
  shows "piece_does r (cbc_dec D) (AesGeneric_decrypt eAesCBC (32 * nk) arch True ofb_multi mem_before False)"
proof (rule piece_doesI [OF _ _ _ arch])
  show "kern_does (cbc_dec D) (\<lambda>x. tDecryptCbc (32 * nk) arch True x (m_round_key_dec r))"
    using k aes_keyedD(2) [OF k] by (intro tDecryptCbc_kern [OF D _ _ _ arch]) (auto simp: aes_keyed_def)
qed (use D in \<open>simp_all add: AesGeneric_decrypt_def AesGeneric_decrypt_data_def [abs_def] Let_def ag_session_def cbc_dec_def keys_decrypt_def\<close>)

lemma length_mode_bytes:
  assumes f: "\<And>c v. is_block c \<Longrightarrow> is_block v \<Longrightarrow> is_block (fst (f c v)) \<and> is_block (snd (f c v))" and v: "is_block v"
  shows "length (fst (mode_bytes f m v)) = length m"
proof -
  define n r where nr: "n = length m div 16" "r = length m mod 16"
  have m: "length m = 16 * n + r" "r < 16" by (simp_all add: nr)
  obtain out s where o: "mode_blocks f n m v = (out, s)" by fastforce
  have le: "16 * n \<le> length m" using m by simp
  have "length (fst (mode_blocks f n m v)) = 16 * n" by (rule length_mode_blocks [where P = is_block, OF _ le v]) (rule f)
  moreover have "is_block (snd (mode_blocks f n m v))"
    by (rule mode_blocks_keeps [where P = is_block, OF _ le v]) (rule conjunct2 [OF f])
  ultimately have l: "length out = 16 * n" "is_block s" by (simp_all add: o)
  have "is_block (drop (16 * n) m @ replicate (16 - r) 0)" using m by simp
  from f [OF this l(2)] show ?thesis using m l(1) by (simp add: mode_bytes_def nr [symmetric] o split_def Let_def)
qed

text \<open>Without the two build options a kernel gives the IV back as it was, and as many bytes as it got.\<close>

lemma encrypt_data_default:
  assumes k: "aes_keyed key nk nr r" and v: "is_block v" and arch: "arch \<in> {eZen, eZen3, eZen4}"
    and io: "in_place \<longrightarrow> take (length x) dest = x" "mode = eAesOFB \<longrightarrow> \<not> ofb_multi"
    and low: "unat (be_word (drop 12 v) :: u32) + 3 < 2 ^ 32"
  shows "\<exists>out. length out = length x \<and> AesGeneric_encrypt_data mode (32 * nk) arch False ofb_multi in_place r x dest pb v = Some (out, length x, pb, v) \<and>
    (mode = eAesCTR \<longrightarrow> out = ctr_stream (aes key nk nr) (ctr_block v) x)"
proof -
  note E = aes_keyedD(1) [OF k] and nr = aes_keyedD(2) [OF k]
  have nr': "0 < nr" "even nr" using nr by auto
  have e: "is_block c \<Longrightarrow> is_block (aes key nk nr c)" for c by (rule keys_computeD(3) [OF E])
  have ctr: "CryptCtr (32 * nk) arch False x (m_round_key_enc r) nr v = (ctr_stream (aes key nk nr) (ctr_block v) x, v)"
    using arch low CryptCtr_zen_modes [OF E nr'(1) v] CryptCtr_zen3_modes [OF E nr' v] ctrBlk_zen4_modes [OF E nr v]
      CryptCtr_zen4_rounds [OF nr aes_keyed_bits [OF k]] by (auto simp: CryptCtr_def)
  have "length x \<le> length (concat (map (\<lambda>i. aes key nk nr (ctr_block v i)) [0..<(length x + 15) div 16]))"
    using e is_ctr_block [OF v] by (simp add: length_concat comp_def sum_list_triv)
  then have l: "length (ctr_stream (aes key nk nr) (ctr_block v) x) = length x" by (simp add: ctr_stream_def)
  have ofb: "length (fst (mode_blocks (ofb_crypt (aes key nk nr)) (length x div 16) x v)) = 16 * (length x div 16)"
    by (rule length_mode_blocks [where P = is_block]) (use e v in \<open>simp_all add: ofb_crypt_def Let_def\<close>)
  have cbc: "length (fst (mode_bytes (cbc_enc (aes key nk nr)) x v)) = length x"
    by (rule length_mode_bytes [OF _ v]) (simp add: cbc_enc_def Let_def e)
  have cfb: "length (fst (mode_bytes (cfb_enc (aes key nk nr)) x v)) = length x"
    by (rule length_mode_bytes [OF _ v]) (simp add: cfb_enc_def Let_def e)
  note d = AesGeneric_encrypt_data_def aes_keyed_nrounds [OF k] Let_def split_def
  show ?thesis
  proof (cases mode)
    case eAesCBC
    then show ?thesis using cbc io by (simp add: d EncryptCbc_modes [OF E v])
  next
    case eAesOFB
    then show ?thesis using ofb io by (simp add: d EncryptOfb_def crypt_ofb_modes [OF E nr v])
  next
    case eAesCTR
    then show ?thesis using l io by (simp add: d ctr)
  next
    case eAesCFB
    then show ?thesis using cfb io by (simp add: d EncryptCfb_modes [OF E v])
  qed
qed

section \<open>CBC in place\<close>

lemma cbc_complete_full:
  assumes "pb_ok pb" "0 < m_len pb" "m_len pb < 16" "16 - m_len pb \<le> length x"
    and "kern (pb_bytes pb @ take (16 - m_len pb) x) v = (out, w)"
  shows "\<exists>pb'. cbc_complete kern x pb v = Some (out, drop (16 - m_len pb) x, pb', w) \<and> pb_ok pb' \<and> m_len pb' = 0"
proof -
  let ?n = "16 - m_len pb"
  obtain pb1 where pb1: "PartialBuffer_append (take ?n x) pb = Some (?n, pb1)" "pb_ok pb1" "pb_bytes pb1 = pb_bytes pb @ take ?n x"
    using append_pb [OF assms(1), of "take ?n x"] assms(4) by auto
  have "m_len pb1 = 16"
    using length_pb_bytes [OF pb1(2)] length_pb_bytes [OF assms(1)] pb1(3) assms(3,4) by simp
  moreover from this have "m_buf pb1 = pb_bytes pb @ take ?n x" using pb1(2,3) by (simp add: pb_ok_def pb_bytes_def)
  ultimately show ?thesis
    using assms clear_pb [of pb1] pb1(1) by (auto simp: cbc_complete_def Let_def PartialBuffer_isFull_def)
qed

text \<open>
  The piece completes the pending block: the rest that is kept is read after the block has been
  written.
\<close>

lemma cbc_multi_update_in_place:
  assumes k: "kern_does g kern" and pb: "pb_ok pb" "0 < m_len pb" "m_len pb < 16" and v: "is_block v"
    and n: "n = 16 - m_len pb" "n \<le> length x" "length x < n + 16" "16 \<le> length (x @ room)"
    and c: "g (pb_bytes pb @ take n x) v = (c, w)" "is_block c"
  shows "\<exists>pb'. cbc_multi_update kern True (x @ room) x pb v = Some (c, pb', w) \<and> pb_ok pb' \<and> m_len pb' < 16 \<and>
    pb_bytes pb' = drop n (take (length x) (c @ drop 16 x))"
proof -
  let ?q = "drop n (take (length x) (c @ drop 16 x))"
  have b: "length (pb_bytes pb @ take n x) = 16 * 1" using length_pb_bytes [OF pb(1)] pb(3) n by simp
  have "kern (pb_bytes pb @ take n x) v = (c, w)"
    unfolding kern_doesD(1) [OF k v b] using mode_blocks_1 [of "pb_bytes pb @ take n x" g "[]" v] b c(1) by simp
  then obtain pb1 where pb1: "cbc_complete kern x pb v = Some (c, drop n x, pb1, w)" "pb_ok pb1" "m_len pb1 = 0"
    using cbc_complete_full [OF pb, of x kern v c w] n by blast
  have "take (length x - n) (drop n (write_at 0 c (x @ room))) = ?q"
    using c(2) n(2-4) by (cases "length x \<le> 16") (simp_all add: write_at_def take_drop)
  then have m: "(if True then take (length (drop n x)) (drop (length x - length (drop n x)) (write_at 0 c (x @ room))) else drop n x) = ?q"
    using n(2) by simp
  have "length ?q \<le> length x - n" unfolding length_drop length_take by (rule diff_le_mono) simp
  then have l: "length ?q < 16" "length ?q div 16 = 0" using n(3) by linarith+
  have c0: "c \<noteq> []" using c(2) by auto
  have e: "pb_bytes pb1 @ take (16 - m_len pb1) ?q = ?q"
    unfolding pb_bytes_def pb1(3) take_0 append_Nil diff_zero by (rule take_all) (use l(1) in linarith)
  obtain a pb2 where pb2: "PartialBuffer_append ?q pb1 = Some (a, pb2)" "pb_ok pb2" "pb_bytes pb2 = ?q"
    using append_pb [OF pb1(2), of ?q] unfolding e by blast
  have p: "m_len pb2 < 16" using length_pb_bytes [OF pb2(2)] pb2(3) l(1) by simp
  show ?thesis
  proof (cases "?q = []")
    case True
    have "cbc_multi_update kern True (x @ room) x pb v = Some (c, pb1, w)"
      unfolding cbc_multi_update_def pb1(1) Option.bind.simps prod.case m Let_def True by simp
    then show ?thesis using True pb1 by (simp add: pb_bytes_def)
  next
    case False
    have "cbc_multi_update kern True (x @ room) x pb v = Some (c, pb2, w)"
      unfolding cbc_multi_update_def pb1(1) Option.bind.simps prod.case m Let_def l(2) using False pb2(1) by simp
    then show ?thesis using pb2 p by simp
  qed
qed

lemma in_place_piece:
  assumes kern: "kern_does g kern" and s: "ag_session r v p s" and v: "is_block v" and arch: "arch \<in> {eZen, eZen3, eZen4}"
    and f: "data x (x @ room) (ag_partialBuffer s) v
      = do { (out, pb, iv) \<leftarrow> cbc_multi_update kern True (x @ room) x (ag_partialBuffer s) v; Some (out, length out, pb, iv) }"
    and n: "p \<noteq> []" "n = 16 - length p" "n \<le> length x" "length x < n + 16" "16 \<le> length (x @ room)"
    and c: "g (p @ take n x) v = (c, w)" "is_block c"
  shows "\<exists>s'. AesGeneric_crypt arch data (Some x) (Some (x @ room)) (Some n0) s
      = Some (ALC_ERROR_NONE, Some (c @ drop 16 (x @ room)), Some 16, s') \<and>
    ag_session r w (drop n (take (length x) (c @ drop 16 x))) s'"
proof -
  have pb: "pb_ok (ag_partialBuffer s)" "m_len (ag_partialBuffer s) < 16" "pb_bytes (ag_partialBuffer s) = p"
    using s by (simp_all add: ag_session_def)
  have len: "m_len (ag_partialBuffer s) = length p" using length_pb_bytes [OF pb(1)] pb(3) by simp
  have "0 < m_len (ag_partialBuffer s)" using len n(1) by simp
  from cbc_multi_update_in_place [OF kern pb(1) this pb(2) v, of n x room c w] n c len pb(3)
  obtain pb' where pb': "cbc_multi_update kern True (x @ room) x (ag_partialBuffer s) v = Some (c, pb', w)" "pb_ok pb'" "m_len pb' < 16"
    "pb_bytes pb' = drop n (take (length x) (c @ drop 16 x))" by auto
  have w: "is_block w"
    using kern_doesD(2) [OF kern v, of 1 "p @ take n x"] mode_blocks_1 [of "p @ take n x" g "[]" v] c(1) n pb(2) len by simp
  have d: "data x (x @ room) (ag_partialBuffer s) v = Some (c, 16, pb', w)" unfolding f pb'(1) using c(2) by simp
  have "length c \<le> length (x @ room)" using c(2) n(5) by simp
  from AesGeneric_crypt_run [where data = data, OF s arch d this w pb'(2,3)]
  show ?thesis using pb'(4) c(2) by (auto simp: write_at_def)
qed

section \<open>The same bytes pending\<close>

text \<open>
  Two objects that answer alike: the same keys, IV and readiness, and the same pending bytes; what lies in
  the buffers behind them may differ, and so may the rest of the key managers.
\<close>

definition same_pb :: "partial_buffer \<Rightarrow> partial_buffer \<Rightarrow> bool" where
  "same_pb a b \<longleftrightarrow> pb_ok a \<and> pb_ok b \<and> pb_bytes a = pb_bytes b"

definition ag_same :: "aes_generic \<Rightarrow> aes_generic \<Rightarrow> bool" where
  "ag_same s t \<longleftrightarrow> isReady (ag_stateManager s) = isReady (ag_stateManager t) \<and>
     m_round_key_enc (m_rijndael (ag_keyManager s)) = m_round_key_enc (m_rijndael (ag_keyManager t)) \<and>
     m_round_key_dec (m_rijndael (ag_keyManager s)) = m_round_key_dec (m_rijndael (ag_keyManager t)) \<and>
     m_nrounds (m_rijndael (ag_keyManager s)) = m_nrounds (m_rijndael (ag_keyManager t)) \<and>
     take 16 (m_iv (ag_ivManager s)) = take 16 (m_iv (ag_ivManager t)) \<and> same_pb (ag_partialBuffer s) (ag_partialBuffer t)"

abbreviation same_data where "same_data \<equiv> rel_option (rel_prod (=) (rel_prod (=) (rel_prod same_pb (=))))"
abbreviation same_call where "same_call \<equiv> rel_option (rel_prod (=) (rel_prod (=) (rel_prod (=) ag_same)))"

lemma same_pb_len: "same_pb a b \<Longrightarrow> m_len a = m_len b"
  using length_pb_bytes [of a] length_pb_bytes [of b] by (simp add: same_pb_def)

lemma pb_full: "pb_ok a \<Longrightarrow> PartialBuffer_isFull a \<Longrightarrow> m_buf a = pb_bytes a"
  by (simp add: PartialBuffer_isFull_def pb_ok_def pb_bytes_def)

lemma same_pb_full:
  assumes "same_pb a b" "PartialBuffer_isFull a"
  shows "m_buf a = m_buf b"
proof -
  have "PartialBuffer_isFull b" using assms(2) same_pb_len [OF assms(1)] by (simp add: PartialBuffer_isFull_def)
  then show ?thesis using pb_full [of a] pb_full [of b] assms unfolding same_pb_def by metis
qed

lemma append_same:
  assumes "same_pb a b"
  obtains n a' b' where "PartialBuffer_append x a = Some (n, a')" "PartialBuffer_append x b = Some (n, b')" "same_pb a' b'"
proof -
  have ab: "pb_ok a" "pb_ok b" "pb_bytes a = pb_bytes b" "m_len a = m_len b"
    using assms same_pb_len [OF assms] by (simp_all add: same_pb_def)
  obtain a' where a': "PartialBuffer_append x a = Some (min (length x) (16 - m_len b), a')" "pb_ok a'"
    "pb_bytes a' = pb_bytes b @ take (16 - m_len b) x" using append_pb [OF ab(1), of x] unfolding ab(3,4) by blast
  obtain b' where b': "PartialBuffer_append x b = Some (min (length x) (16 - m_len b), b')" "pb_ok b'"
    "pb_bytes b' = pb_bytes b @ take (16 - m_len b) x" using append_pb [OF ab(2), of x] by blast
  show thesis by (rule that [OF a'(1) b'(1)]) (simp add: same_pb_def a'(2,3) b'(2,3))
qed

lemma clear_same: "same_pb (PartialBuffer_clear a) (PartialBuffer_clear b)"
  using clear_pb [of a] clear_pb [of b] by (simp add: same_pb_def)

lemma cbc_complete_same:
  assumes ab: "same_pb a b"
  shows "rel_option (rel_prod (=) (rel_prod (=) (rel_prod same_pb (=)))) (cbc_complete kern x a v) (cbc_complete kern x b v)"
proof (cases "0 < m_len a \<and> x \<noteq> []")
  case True
  let ?n = "if length x < 16 - m_len a then length x else 16 - m_len a"
  obtain k a' b' where ap: "PartialBuffer_append (take ?n x) a = Some (k, a')" "PartialBuffer_append (take ?n x) b = Some (k, b')" "same_pb a' b'"
    using append_same [OF ab] .
  have full: "PartialBuffer_isFull a' = PartialBuffer_isFull b'" using same_pb_len [OF ap(3)] by (simp add: PartialBuffer_isFull_def)
  have 1: "cbc_complete kern x a v = Some (if PartialBuffer_isFull a'
      then let (out, iv) = kern (m_buf a') v in (out, drop ?n x, PartialBuffer_clear a', iv) else ([], drop ?n x, a', v))"
    using True ap(1) by (simp add: cbc_complete_def Let_def)
  have 2: "cbc_complete kern x b v = Some (if PartialBuffer_isFull b'
      then let (out, iv) = kern (m_buf b') v in (out, drop ?n x, PartialBuffer_clear b', iv) else ([], drop ?n x, b', v))"
    using True ap(2) by (simp add: cbc_complete_def Let_def same_pb_len [OF ab, symmetric])
  show ?thesis
    unfolding 1 2 using full ap(3) same_pb_full [OF ap(3)] clear_same by (simp add: Let_def split_def)
next
  case False
  have F: "\<not> (0 < m_len b \<and> x \<noteq> [])" using False same_pb_len [OF ab] by simp
  show ?thesis unfolding cbc_complete_def if_not_P [OF False] if_not_P [OF F] using ab by simp
qed

lemma cbc_multi_update_same:
  assumes ab: "same_pb a b"
  shows "rel_option (rel_prod (=) (rel_prod same_pb (=))) (cbc_multi_update kern in_place dest x a v) (cbc_multi_update kern in_place dest x b v)"
proof (cases "cbc_complete kern x a v")
  case None
  then have "cbc_complete kern x b v = None" using cbc_complete_same [OF ab, of kern x v] by (auto elim: option.rel_cases)
  then show ?thesis using None by (simp add: cbc_multi_update_def)
next
  case (Some c)
  then obtain out u a' iv b' where c: "cbc_complete kern x a v = Some (out, u, a', iv)" "cbc_complete kern x b v = Some (out, u, b', iv)" "same_pb a' b'"
    using cbc_complete_same [OF ab, of kern x v] by (cases c) (auto elim!: option.rel_cases)
  define y where "y = (if in_place then take (length u) (drop (length x - length u) (write_at 0 out dest)) else u)"
  obtain k a2 b2 where ap: "PartialBuffer_append (drop (length y div 16 * 16) y) a' = Some (k, a2)"
    "PartialBuffer_append (drop (length y div 16 * 16) y) b' = Some (k, b2)" "same_pb a2 b2" using append_same [OF c(3)] .
  show ?thesis
    unfolding cbc_multi_update_def c(1,2) Option.bind.simps prod.case y_def [symmetric] Let_def
    using ap c(3) by (auto simp: split_def)
qed

lemma encrypt_data_same:
  "same_pb a b \<Longrightarrow> same_data (AesGeneric_encrypt_data mode bits arch multi ofb_multi in_place r x dest a v)
     (AesGeneric_encrypt_data mode bits arch multi ofb_multi in_place r x dest b v)"
  using cbc_multi_update_same [of a b "\<lambda>x. EncryptCbc multi x (m_round_key_enc r) (m_nrounds r)" in_place dest x v]
  by (cases mode) (auto simp: AesGeneric_encrypt_data_def Let_def split_def elim!: option.rel_cases)

lemma decrypt_data_same:
  "same_pb a b \<Longrightarrow> same_data (AesGeneric_decrypt_data mode bits arch multi ofb_multi mem_before in_place r x dest a v)
     (AesGeneric_decrypt_data mode bits arch multi ofb_multi mem_before in_place r x dest b v)"
  using cbc_multi_update_same [of a b "\<lambda>x. tDecryptCbc bits arch multi x (m_round_key_dec r)" in_place dest x v]
  by (cases mode) (auto simp: AesGeneric_decrypt_data_def Let_def split_def elim!: option.rel_cases)

lemma take_write_same: "take k m = take k m' \<Longrightarrow> take k (write_at 0 x m) = take k (write_at 0 x m')"
  by (cases "length x \<le> k") (simp_all add: write_at_def, metis drop_take)

lemma crypt_same:
  assumes st: "ag_same s t" and d: "\<And>x dest a b v. same_pb a b \<Longrightarrow> same_data (data x dest a v) (data x dest b v)"
  shows "same_call (AesGeneric_crypt arch data x y n s) (AesGeneric_crypt arch data x y n t)"
proof -
  have st': "isReady (ag_stateManager s) = isReady (ag_stateManager t)" "take 16 (m_iv (ag_ivManager s)) = take 16 (m_iv (ag_ivManager t))"
    "same_pb (ag_partialBuffer s) (ag_partialBuffer t)" using st by (simp_all add: ag_same_def)
  have "same_call
      (do { (out, n, pb, iv) \<leftarrow> data i o' (ag_partialBuffer s) (take 16 (m_iv (ag_ivManager s))); dest \<leftarrow> CopyBlock o' 0 out;
            Some (ALC_ERROR_NONE, Some dest, Some n,
              s\<lparr>ag_partialBuffer := pb, ag_ivManager := (ag_ivManager s)\<lparr>m_iv := write_at 0 iv (m_iv (ag_ivManager s))\<rparr>\<rparr>) })
      (do { (out, n, pb, iv) \<leftarrow> data i o' (ag_partialBuffer t) (take 16 (m_iv (ag_ivManager t))); dest \<leftarrow> CopyBlock o' 0 out;
            Some (ALC_ERROR_NONE, Some dest, Some n,
              t\<lparr>ag_partialBuffer := pb, ag_ivManager := (ag_ivManager t)\<lparr>m_iv := write_at 0 iv (m_iv (ag_ivManager t))\<rparr>\<rparr>) })" for i o'
    using d [OF st'(3), of i o' "take 16 (m_iv (ag_ivManager t))"] st
    by (cases "data i o' (ag_partialBuffer s) (take 16 (m_iv (ag_ivManager t)))")
      (auto simp: st'(2) ag_same_def elim!: option.rel_cases intro: take_write_same [OF st'(2)] split: Option.bind_splits)
  then show ?thesis
    unfolding AesGeneric_crypt_def st'(1) using st by (auto split: option.split)
qed

lemma ag_same_keys:
  assumes "ag_same s t"
  shows "AesGeneric_encrypt_data mode bits arch multi ofb_multi in_place (m_rijndael (ag_keyManager s))
      = AesGeneric_encrypt_data mode bits arch multi ofb_multi in_place (m_rijndael (ag_keyManager t))"
    "AesGeneric_decrypt_data mode bits arch multi ofb_multi mem_before in_place (m_rijndael (ag_keyManager s))
      = AesGeneric_decrypt_data mode bits arch multi ofb_multi mem_before in_place (m_rijndael (ag_keyManager t))"
  using assms by (simp_all add: ag_same_def AesGeneric_encrypt_data_def [abs_def] AesGeneric_decrypt_data_def [abs_def])

lemma calls_same:
  assumes "ag_same s t"
  shows "same_call (AesGeneric_encrypt mode bits arch multi ofb_multi in_place x y n s) (AesGeneric_encrypt mode bits arch multi ofb_multi in_place x y n t)"
    "same_call (AesGeneric_decrypt mode bits arch multi ofb_multi mem_before in_place x y n s)
      (AesGeneric_decrypt mode bits arch multi ofb_multi mem_before in_place x y n t)"
  unfolding AesGeneric_encrypt_def AesGeneric_decrypt_def ag_same_keys [OF assms]
  by (rule crypt_same [OF assms], erule encrypt_data_same) (rule crypt_same [OF assms], erule decrypt_data_same)

lemma pieces_same:
  assumes f: "\<And>x y n s t. ag_same s t \<Longrightarrow> same_call (f x y n s) (f x y n t)"
  shows "ag_same s t \<Longrightarrow> rel_option (rel_prod (=) ag_same) (ag_pieces f xs s) (ag_pieces f xs t)"
proof (induction xs arbitrary: s t)
  case (Cons x xs)
  let ?y = "replicate (length x + 16) (0 :: u8)"
  show ?case
  proof (cases "f (Some x) (Some ?y) (Some 0) s")
    case None
    then have "f (Some x) (Some ?y) (Some 0) t = None" using f [OF Cons.prems, of "Some x" "Some ?y" "Some 0"] by (auto elim: option.rel_cases)
    then show ?thesis using None by simp
  next
    case (Some r)
    obtain e o' n s' where r: "r = (e, o', n, s')" by (cases r)
    obtain t' where t': "f (Some x) (Some ?y) (Some 0) t = Some (e, o', n, t')" "ag_same s' t'"
      using f [OF Cons.prems, of "Some x" "Some ?y" "Some 0"] Some r by (auto elim!: option.rel_cases)
    show ?thesis
      using Some r t' Cons.IH [OF t'(2)] by (cases o'; cases n; cases "ag_pieces f xs s'") (auto elim!: option.rel_cases)
  qed
qed simp

lemma pieces_same_output:
  assumes "\<And>x y n s t. ag_same s t \<Longrightarrow> same_call (f x y n s) (f x y n t)" "ag_same s t"
  shows "map_option fst (ag_pieces f xs s) = map_option fst (ag_pieces f xs t)"
  using pieces_same [where f = f and xs = xs, OF assms] by (auto elim!: option.rel_cases)

section \<open>Steps of the properties\<close>

text \<open>A new object of CBC after its first, short piece.\<close>

lemma pending_piece:
  assumes "aes_sizes nk nr" "length key = 4 * nk" "length iv = 16" "arch \<in> {eZen, eZen3, eZen4}" "length p < 16"
  shows "\<exists>s s1 r. AesGeneric_init (Some key) (of_nat (32 * nk)) (Some iv) 16 (AesGeneric_ctor (32 * nk)) = Some (Inl (ALC_ERROR_NONE, s)) \<and>
    AesGeneric_encrypt eAesCBC (32 * nk) arch True ofb_multi False (Some p) (Some []) (Some 0) s = Some (ALC_ERROR_NONE, Some [], Some 0, s1) \<and>
    aes_keyed key nk nr r \<and> ag_session r iv p s1 \<and> ag_ready_for nk s1"
proof -
  have new: "pb_bytes (ag_partialBuffer (AesGeneric_ctor (32 * nk))) = []"
    by (simp add: AesGeneric_ctor_def PartialBuffer_ctor_def pb_bytes_def)
  obtain s r where s: "AesGeneric_init (Some key) (of_nat (32 * nk)) (Some iv) 16 (AesGeneric_ctor (32 * nk)) = Some (Inl (ALC_ERROR_NONE, s))"
    and k: "aes_keyed key nk nr r" and r: "ag_session r iv [] s" and w: "ag_ready_for nk s"
    using AesGeneric_init_session [OF assms(1-3) AesGeneric_ctor_ready_for [OF assms(1)]] unfolding new by blast
  have pb: "pb_ok (ag_partialBuffer s)" "m_len (ag_partialBuffer s) < 16" "pb_bytes (ag_partialBuffer s) = []" and m: "m_rijndael (ag_keyManager s) = r"
    using r by (simp_all add: ag_session_def)
  let ?kern = "\<lambda>x. EncryptCbc True x (m_round_key_enc r) (m_nrounds r)"
  have kern: "kern_does (cbc_enc (aes key nk nr)) ?kern"
    unfolding aes_keyed_nrounds [OF k] by (rule EncryptCbc_kern [OF aes_keyedD(1) [OF k]])
  have "length p div 16 = 0" using assms(5) by simp
  then obtain pb' where pb': "cbc_multi_update ?kern False [] p (ag_partialBuffer s) iv = Some ([], pb', iv)" "pb_ok pb'" "m_len pb' < 16" "pb_bytes pb' = p"
    using cbc_multi_update_blocks [OF kern pb(1,2) assms(3) refl, where x = p and dest = "[]"] by (auto simp: pb(3))
  have d: "AesGeneric_encrypt_data eAesCBC (32 * nk) arch True ofb_multi False r p [] (ag_partialBuffer s) iv = Some ([], 0, pb', iv)"
    using pb'(1) by (simp add: AesGeneric_encrypt_data_def Let_def)
  have "\<exists>s1. AesGeneric_encrypt eAesCBC (32 * nk) arch True ofb_multi False (Some p) (Some []) (Some 0) s = Some (ALC_ERROR_NONE, Some [], Some 0, s1) \<and>
      ag_session r iv p s1 \<and> ag_ready_for nk s1"
    using AesGeneric_crypt_run [where data = "AesGeneric_encrypt_data eAesCBC (32 * nk) arch True ofb_multi False r" and x = p and dest = "[]",
      OF r assms(4) d _ assms(3) pb'(2,3)] w unfolding AesGeneric_encrypt_def m pb'(4) by auto
  then show ?thesis using s k by blast
qed

text \<open>A copy of a running object is the same as the object with nothing pending.\<close>

lemma CopyCtx_same:
  assumes s: "ag_session r v p src" and v: "length v = 16"
  shows "\<exists>d. AesGeneric_CopyCtx src (AesGeneric_ctor bits) = Some (ALC_ERROR_NONE, d) \<and>
    ag_same d (src\<lparr>ag_partialBuffer := PartialBuffer_ctor\<rparr>) \<and> (p = [] \<longrightarrow> ag_same d src)"
proof -
  let ?c = "AesGeneric_ctor bits"
  have c: "length (m_iv (ag_ivManager ?c)) = 128" "m_minLen (ag_ivManager ?c) = 16" "m_maxLen (ag_ivManager ?c) = 16"
    "ag_stateManager ?c = Uninitialized" "ag_partialBuffer ?c = PartialBuffer_ctor"
    by (simp_all add: AesGeneric_ctor_def IvManager_ctor_def)
  have pb: "pb_ok PartialBuffer_ctor" "pb_bytes PartialBuffer_ctor = []" by (simp_all add: pb_ok_def PartialBuffer_ctor_def pb_bytes_def)
  have t: "take 16 (write_at 0 v (m_iv (ag_ivManager ?c))) = v" using c(1) v by (simp add: write_at_def)
  have ready: "isReady (onIvSet (onKeySet Uninitialized))" by (simp add: isReady_def onIvSet_def onKeySet_def)
  show ?thesis
    using s v c pb t ready
    by (simp add: AesGeneric_CopyCtx_def Let_def IvManager_setIv_def copyKeyStateFrom_def ag_session_def ag_same_def same_pb_def)
qed

text \<open>One block of CBC with the arrays of an object without a key: no round, only the last one.\<close>

lemma keyless_block:
  assumes "length x = 16" "length iv = 16"
  shows "EncryptCbc multi x (replicate 512 0) 0 iv
    = (mm_aesenclast_si128 (xor_bytes x iv) (replicate 16 0), if multi then mm_aesenclast_si128 (xor_bytes x iv) (replicate 16 0) else iv)"
proof -
  have "xor_bytes (xor_bytes x iv) (replicate 16 0) = xor_bytes x iv"
    using assms by (intro nth_equalityI) (simp_all add: xor_bytes_def)
  then have "cbc_enc_body (replicate 512 0) 0 x iv
      = (mm_aesenclast_si128 (xor_bytes x iv) (replicate 16 0), mm_aesenclast_si128 (xor_bytes x iv) (replicate 16 0))"
    using assms by (simp add: cbc_enc_body_def AesEncrypt_def mm_xor_si128_def Let_def)
  then show ?thesis using assms by (simp add: EncryptCbc_def kloop.simps Let_def)
qed

lemma keyless_copy:
  assumes iv: "length iv = 16" and x: "length x = 16" "16 \<le> length y" and arch: "arch \<in> {eZen, eZen3, eZen4}"
  shows "\<exists>s d d'. AesGeneric_init None 0 (Some iv) 16 (AesGeneric_ctor bits) = Some (Inl (ALC_ERROR_NONE, s)) \<and>
      AesGeneric_encrypt mode bits arch multi ofb_multi False (Some x) (Some y) (Some n) s = Some (ALC_ERROR_BAD_STATE, Some y, Some 0, s) \<and>
      AesGeneric_CopyCtx s (AesGeneric_ctor bits) = Some (ALC_ERROR_NONE, d) \<and>
      \<not> m_isKeySet (ag_keyManager d) \<and> isReady (ag_stateManager d) \<and>
      AesGeneric_encrypt eAesCBC bits arch multi ofb_multi False (Some x) (Some y) (Some n) d
        = Some (ALC_ERROR_NONE, Some (mm_aesenclast_si128 (xor_bytes x iv) (replicate 16 0) @ drop 16 y), Some 16, d')"
proof -
  let ?c = "AesGeneric_ctor bits" and ?b = "mm_aesenclast_si128 (xor_bytes x iv) (replicate 16 0)"
  let ?m = "(ag_ivManager ?c)\<lparr>m_iv := write_at 0 iv (m_iv (ag_ivManager ?c)), m_ivLen := 16, m_isSet := True\<rparr>"
  let ?s = "?c\<lparr>ag_ivManager := ?m, ag_stateManager := IvSet\<rparr>"
  have c: "length (m_iv (ag_ivManager ?c)) = 128" "m_minLen (ag_ivManager ?c) = 16" "m_maxLen (ag_ivManager ?c) = 16"
    "m_isKeySet (ag_keyManager ?c) = False" "ag_stateManager ?c = Uninitialized" "ag_partialBuffer ?c = PartialBuffer_ctor"
    "m_round_key_enc (m_rijndael (ag_keyManager ?c)) = replicate 512 0" "m_nrounds (m_rijndael (ag_keyManager ?c)) = 0"
    by (simp_all add: AesGeneric_ctor_def IvManager_ctor_def KeyManager_ctor_def Rijndael_ctor_def)
  have t: "take 16 (write_at 0 iv (m_iv (ag_ivManager ?c))) = iv" using c(1) iv by (simp add: write_at_def)
  have ready: "isReady (onIvSet (onKeySet Uninitialized))" by (simp add: isReady_def onIvSet_def onKeySet_def)
  have a: "\<not> arch_rank arch < arch_rank eZen" using arch by auto
  have 1: "AesGeneric_init None 0 (Some iv) 16 ?c = Some (Inl (ALC_ERROR_NONE, ?s))"
    using c iv by (simp add: AesGeneric_init_def AesGeneric_init_iv_def onIvSet_def setIv_ptr_def IvManager_setIv_def)
  have 2: "AesGeneric_encrypt mode bits arch multi ofb_multi False (Some x) (Some y) (Some n) ?s = Some (ALC_ERROR_BAD_STATE, Some y, Some 0, ?s)"
    by (simp add: AesGeneric_encrypt_def AesGeneric_crypt_def isReady_def)
  obtain d where d: "AesGeneric_CopyCtx ?s ?c = Some (ALC_ERROR_NONE, d)" "\<not> m_isKeySet (ag_keyManager d)" "isReady (ag_stateManager d)"
      "m_round_key_enc (m_rijndael (ag_keyManager d)) = replicate 512 0" "m_nrounds (m_rijndael (ag_keyManager d)) = 0"
      "take 16 (m_iv (ag_ivManager d)) = iv" "ag_partialBuffer d = PartialBuffer_ctor"
    using c iv ready t by (simp add: AesGeneric_CopyCtx_def Let_def IvManager_setIv_def copyKeyStateFrom_def)
  have l: "length ?b = 16" by (simp add: mm_aesenclast_si128_def shift_rows_def xor_bytes_def)
  have k: "AesGeneric_encrypt_data eAesCBC bits arch multi ofb_multi False (m_rijndael (ag_keyManager d)) x y PartialBuffer_ctor iv
      = Some (?b, 16, PartialBuffer_ctor, if multi then ?b else iv)"
    using x(1) keyless_block [OF x(1) iv] d(4,5) l
    by (simp add: AesGeneric_encrypt_data_def Let_def cbc_multi_update_def cbc_complete_def PartialBuffer_ctor_def)
  have "\<exists>d'. AesGeneric_encrypt eAesCBC bits arch multi ofb_multi False (Some x) (Some y) (Some n) d
      = Some (ALC_ERROR_NONE, Some (?b @ drop 16 y), Some 16, d')"
    using k d(3,6,7) a l x(2) by (simp add: AesGeneric_encrypt_def AesGeneric_crypt_def write_at_def)
  then show ?thesis using 1 2 d by blast
qed

text \<open>A call of the default build leaves the object as it was.\<close>

lemma encrypt_default_call:
  assumes r: "ag_session r iv p s" and k: "aes_keyed key nk nr r" and iv: "length iv = 16" and arch: "arch \<in> {eZen, eZen3, eZen4}"
    and l: "length x \<le> length dest" and io: "in_place \<longrightarrow> take (length x) dest = x" "mode = eAesOFB \<longrightarrow> \<not> ofb_multi"
    and low: "unat (be_word (drop 12 iv) :: u32) + 3 < 2 ^ 32"
  shows "\<exists>out. length out = length x \<and> AesGeneric_encrypt mode (32 * nk) arch False ofb_multi in_place (Some x) (Some dest) (Some n) s
      = Some (ALC_ERROR_NONE, Some (write_at 0 out dest), Some (length x), s) \<and>
      (mode = eAesCTR \<longrightarrow> out = ctr_stream (aes key nk nr) (ctr_block iv) x)"
proof -
  let ?data = "AesGeneric_encrypt_data mode (32 * nk) arch False ofb_multi in_place r"
  obtain out where out: "length out = length x" "mode = eAesCTR \<longrightarrow> out = ctr_stream (aes key nk nr) (ctr_block iv) x"
      "?data x dest (ag_partialBuffer s) iv = Some (out, length x, ag_partialBuffer s, iv)"
    using encrypt_data_default [where x = x and mode = mode and dest = dest and pb = "ag_partialBuffer s", OF k iv arch io low] by blast
  have pb: "pb_ok (ag_partialBuffer s)" "m_len (ag_partialBuffer s) < 16" and m: "m_rijndael (ag_keyManager s) = r"
    using r by (simp_all add: ag_session_def)
  have "length out \<le> length dest" using l out(1) by simp
  from AesGeneric_crypt_run [where data = ?data and x = x and dest = dest, OF r arch out(3) this iv pb]
  obtain s' where s': "AesGeneric_crypt arch ?data (Some x) (Some dest) (Some n) s = Some (ALC_ERROR_NONE, Some (write_at 0 out dest), Some (length x), s')"
      "s' = s\<lparr>ag_partialBuffer := ag_partialBuffer s, ag_ivManager := ag_ivManager s'\<rparr>" "ag_ivManager s' = ag_ivManager s"
    by blast
  have "s' = s" using s'(2) unfolding s'(3) by simp
  then show ?thesis using out(1,2) s'(1) unfolding AesGeneric_encrypt_def m by blast
qed

lemma ctr_stream_xor:
  assumes "length x = length y" "length (ctr_stream E b x) = length x"
  shows "xor_bytes (ctr_stream E b x) (ctr_stream E b y) = xor_bytes x y"
proof -
  define ks where "ks = concat (map (\<lambda>i. E (b i)) [0..<(length x + 15) div 16])"
  have "length x \<le> length ks" using assms(2) by (simp add: ctr_stream_def ks_def [symmetric])
  then have "xor_bytes (xor_bytes x ks) (xor_bytes y ks) = xor_bytes x y"
    using assms(1) by (intro nth_equalityI) (simp_all add: xor_bytes_def xor.left_commute xor.assoc xor.commute)
  then show ?thesis by (simp add: ctr_stream_def ks_def assms(1))
qed

section \<open>Properties\<close>

text \<open>C35:
  Under \<^verbatim>\<open>AES_MULTI_UPDATE\<close> an object of CBC, on every processor, encrypts a message given in any
  pieces as the message in one piece: all its whole blocks, chained from the IV; nothing is said
  of the bytes after them. Decrypting the cipher text in any pieces gives the whole blocks back.
  Every piece has an output buffer of its own: in place it is not so (see below).
\<close>

theorem AesCbc_pieces:
  assumes "aes_sizes nk nr" "length key = 4 * nk" "length iv = 16" "arch \<in> {eZen, eZen3, eZen4}"
  shows "let m = concat xs; n = length m div 16; bits = 32 * nk; c = fst (mode_blocks (cbc_enc (aes key nk nr)) n m iv) in
    \<exists>s. AesGeneric_init (Some key) (of_nat bits) (Some iv) 16 (AesGeneric_ctor bits) = Some (Inl (ALC_ERROR_NONE, s)) \<and>
      (\<exists>s'. ag_pieces (AesGeneric_encrypt eAesCBC bits arch True ofb_multi False) xs s = Some (c, s')) \<and>
      (\<forall>ys. concat ys = c \<longrightarrow> (\<exists>s'. ag_pieces (AesGeneric_decrypt eAesCBC bits arch True ofb_multi mem_before False) ys s = Some (take (16 * n) m, s')))"
proof -
  have new: "pb_bytes (ag_partialBuffer (AesGeneric_ctor (32 * nk))) = []"
    by (simp add: AesGeneric_ctor_def PartialBuffer_ctor_def pb_bytes_def)
  obtain s r where s: "AesGeneric_init (Some key) (of_nat (32 * nk)) (Some iv) 16 (AesGeneric_ctor (32 * nk)) = Some (Inl (ALC_ERROR_NONE, s))"
    and k: "aes_keyed key nk nr r" and r: "ag_session r iv [] s"
    using AesGeneric_init_session [OF assms(1-3) AesGeneric_ctor_ready_for [OF assms(1)]] unfolding new by blast
  obtain D where D: "keys_decrypt D (m_round_key_dec r) nr" "\<forall>b. is_block b \<longrightarrow> D (aes key nk nr b) = b"
    using aes_keyedD(3) [OF k] by blast
  let ?n = "length (concat xs) div 16" and ?g = "cbc_enc (aes key nk nr)"
  have u: "undoes (cbc_dec D) ?g" by (rule undoes_modes(1) [OF aes_keyedD(1) [OF k] D])
  obtain s1 where s1: "ag_pieces (AesGeneric_encrypt eAesCBC (32 * nk) arch True ofb_multi False) xs s = Some (fst (mode_blocks ?g ?n (concat xs) iv), s1)"
    using ag_pieces_blocks [OF encrypt_pieces [OF k assms(4), of "32 * nk" ofb_multi] r assms(3), of xs] by (auto simp: Let_def)
  have "\<exists>s'. ag_pieces (AesGeneric_decrypt eAesCBC (32 * nk) arch True ofb_multi mem_before False) ys s = Some (take (16 * ?n) (concat xs), s')"
    if ys: "concat ys = fst (mode_blocks ?g ?n (concat xs) iv)" for ys
  proof -
    have "length (concat ys) div 16 = ?n" unfolding ys using undoes_length(1) [OF u assms(3), of ?n "concat xs"] by simp
    then have "fst (mode_blocks (cbc_dec D) (length (concat ys) div 16) (concat ys) iv) = take (16 * ?n) (concat xs)"
      using mode_blocks_undo [OF u _ assms(3), of ?n "concat xs" "[]"] ys by simp
    then show ?thesis
      using ag_pieces_blocks [OF decrypt_pieces [OF k assms(4) D(1), of ofb_multi mem_before] r assms(3), of ys] by (auto simp: Let_def)
  qed
  then show ?thesis using s s1 unfolding Let_def by blast
qed

theorem AesCbc_pieces_witness:
  "\<exists>s s'. AesGeneric_init (Some (replicate 16 7)) 128 (Some (replicate 16 3)) 16 (AesGeneric_ctor 128) = Some (Inl (ALC_ERROR_NONE, s)) \<and>
    ag_pieces (AesGeneric_encrypt eAesCBC 128 eZen4 True False False) [replicate 5 1, replicate 30 2] s
      = Some (fst (mode_blocks (cbc_enc (aes (replicate 16 7) 4 10)) 2 (replicate 5 1 @ replicate 30 2) (replicate 16 3)), s')"
  using AesCbc_pieces [of 4 10 "replicate 16 7" "replicate 16 3" eZen4 "[replicate 5 1, replicate 30 2]" False "[]"]
  by (auto simp: aes_sizes_def Let_def)

text \<open>C37:
  Without \<^verbatim>\<open>AES_MULTI_UPDATE\<close>, the default, and for OFB without \<^verbatim>\<open>OFB_MULTI_UPDATE\<close>, encryption in any
  mode leaves the object as it was: every call starts again from the IV of the initialisation. In
  counter mode two calls mask their messages with the same key stream, so that their cipher texts
  differ as the messages do. The buffers may be separate or the same. The low word of the IV is one
  from which the lane offsets of the counter kernels do not carry.
\<close>

theorem AesGeneric_restarts_from_iv:
  assumes "aes_sizes nk nr" "length key = 4 * nk" "length iv = 16" "arch \<in> {eZen, eZen3, eZen4}"
    and "unat (be_word (drop 12 iv) :: u32) + 3 < 2 ^ 32"
  shows "let bits = 32 * nk in
    \<exists>s. AesGeneric_init (Some key) (of_nat bits) (Some iv) 16 (AesGeneric_ctor bits) = Some (Inl (ALC_ERROR_NONE, s)) \<and>
      (\<forall>mode ofb_multi in_place x dest n. (mode = eAesOFB \<longrightarrow> \<not> ofb_multi) \<and> (in_place \<longrightarrow> take (length x) dest = x) \<and>
         length x \<le> length dest \<longrightarrow> (\<exists>out. AesGeneric_encrypt mode bits arch False ofb_multi in_place (Some x) (Some dest) (Some n) s
         = Some (ALC_ERROR_NONE, Some out, Some (length x), s))) \<and>
      (\<forall>ofb_multi x y. length x = length y \<longrightarrow> (\<exists>c d. let dest = replicate (length x) 0 in
         AesGeneric_encrypt eAesCTR bits arch False ofb_multi False (Some x) (Some dest) (Some 0) s = Some (ALC_ERROR_NONE, Some c, Some (length x), s) \<and>
         AesGeneric_encrypt eAesCTR bits arch False ofb_multi False (Some y) (Some dest) (Some 0) s = Some (ALC_ERROR_NONE, Some d, Some (length y), s) \<and>
         xor_bytes c d = xor_bytes x y))"
proof -
  obtain s r where s: "AesGeneric_init (Some key) (of_nat (32 * nk)) (Some iv) 16 (AesGeneric_ctor (32 * nk)) = Some (Inl (ALC_ERROR_NONE, s))"
    and k: "aes_keyed key nk nr r" and r: "ag_session r iv (pb_bytes (ag_partialBuffer (AesGeneric_ctor (32 * nk)))) s"
    using AesGeneric_init_session [OF assms(1-3) AesGeneric_ctor_ready_for [OF assms(1)]] by blast
  let ?E = "aes key nk nr"
  note one = encrypt_default_call [OF r k assms(3,4)] and low = assms(5)
  have two: "\<exists>c d. let dest = replicate (length x) 0 in
         AesGeneric_encrypt eAesCTR (32 * nk) arch False ofb_multi False (Some x) (Some dest) (Some 0) s = Some (ALC_ERROR_NONE, Some c, Some (length x), s) \<and>
         AesGeneric_encrypt eAesCTR (32 * nk) arch False ofb_multi False (Some y) (Some dest) (Some 0) s = Some (ALC_ERROR_NONE, Some d, Some (length y), s) \<and>
         xor_bytes c d = xor_bytes x y" if l: "length x = length y" for ofb_multi x y
    using one [of x "replicate (length x) 0" False eAesCTR ofb_multi 0] one [of y "replicate (length x) 0" False eAesCTR ofb_multi 0] l low
      ctr_stream_xor [of x y ?E "ctr_block iv"] by (auto simp: Let_def write_at_def)
  have any: "\<exists>out. AesGeneric_encrypt mode (32 * nk) arch False ofb_multi in_place (Some x) (Some dest) (Some n) s = Some (ALC_ERROR_NONE, Some out, Some (length x), s)"
    if "(mode = eAesOFB \<longrightarrow> \<not> ofb_multi) \<and> (in_place \<longrightarrow> take (length x) dest = x) \<and> length x \<le> length dest" for mode ofb_multi in_place x dest n
    using one [of x dest in_place mode ofb_multi n] that low by blast
  show ?thesis
    unfolding Let_def by (rule exI [of _ s]) (intro conjI allI impI s any two [unfolded Let_def]; blast)
qed

theorem AesGeneric_restarts_from_iv_witness:
  "\<exists>s out. AesGeneric_init (Some (replicate 16 7)) 128 (Some (replicate 16 0)) 16 (AesGeneric_ctor 128) = Some (Inl (ALC_ERROR_NONE, s)) \<and>
    AesGeneric_encrypt eAesCBC 128 eZen3 False False False (Some (replicate 40 1)) (Some (replicate 40 0)) (Some 0) s = Some (ALC_ERROR_NONE, Some out, Some 40, s)"
proof -
  have "be_word (drop 12 (replicate 16 0)) = (0 :: u32)"
    using le_word_append_zeros [of "[]" 4, where 'a = 32] by (simp add: be_word_def)
  then have "unat (be_word (drop 12 (replicate 16 0)) :: u32) + 3 < 2 ^ 32" by simp
  moreover have "aes_sizes 4 10" "length (replicate 40 (1 :: u8)) \<le> length (replicate 40 (0 :: u8))" by (simp_all add: aes_sizes_def)
  ultimately obtain s where "AesGeneric_init (Some (replicate 16 7)) 128 (Some (replicate 16 0)) 16 (AesGeneric_ctor 128) = Some (Inl (ALC_ERROR_NONE, s))"
    and e: "\<forall>mode ofb_multi in_place x dest n. (mode = eAesOFB \<longrightarrow> \<not> ofb_multi) \<and> (in_place \<longrightarrow> take (length x) dest = x) \<and>
         length x \<le> length dest \<longrightarrow> (\<exists>out. AesGeneric_encrypt mode 128 eZen3 False ofb_multi in_place (Some x) (Some dest) (Some n) s
         = Some (ALC_ERROR_NONE, Some out, Some (length x), s))"
    using AesGeneric_restarts_from_iv [of 4 10 "replicate 16 7" "replicate 16 0" eZen3, unfolded Let_def] by auto
  moreover have "\<exists>out. AesGeneric_encrypt eAesCBC 128 eZen3 False False False (Some (replicate 40 1)) (Some (replicate 40 0)) (Some 0) s
      = Some (ALC_ERROR_NONE, Some out, Some (length (replicate 40 (1 :: u8))), s)"
    using e [rule_format, of eAesCBC False False "replicate 40 1" "replicate 40 0" 0] by simp
  ultimately show ?thesis unfolding length_replicate by blast
qed

text \<open>C39:
  Neither \<^verbatim>\<open>init\<close> nor \<^verbatim>\<open>finish\<close> drops the pending bytes of CBC under \<^verbatim>\<open>AES_MULTI_UPDATE\<close>: what was left of
  a message after its last whole block is encrypted as the beginning of the next one.
\<close>

theorem AesGeneric_init_keeps_pending:
  assumes "aes_sizes nk nr" "length key = 4 * nk" "length iv = 16" "length iv' = 16" "arch \<in> {eZen, eZen3, eZen4}" "length p < 16"
  shows "let bits = 32 * nk; m = p @ concat xs in
    \<exists>s s1 s2. AesGeneric_init (Some key) (of_nat bits) (Some iv) 16 (AesGeneric_ctor bits) = Some (Inl (ALC_ERROR_NONE, s)) \<and>
      AesGeneric_encrypt eAesCBC bits arch True ofb_multi False (Some p) (Some []) (Some 0) s = Some (ALC_ERROR_NONE, Some [], Some 0, s1) \<and>
      AesGeneric_init (Some key) (of_nat bits) (Some iv') 16 (snd (AesGeneric_finish s1)) = Some (Inl (ALC_ERROR_NONE, s2)) \<and>
      (\<exists>s3. ag_pieces (AesGeneric_encrypt eAesCBC bits arch True ofb_multi False) xs s2
         = Some (fst (mode_blocks (cbc_enc (aes key nk nr)) (length m div 16) m iv'), s3))"
proof -
  obtain s s1 r where s: "AesGeneric_init (Some key) (of_nat (32 * nk)) (Some iv) 16 (AesGeneric_ctor (32 * nk)) = Some (Inl (ALC_ERROR_NONE, s))"
      "AesGeneric_encrypt eAesCBC (32 * nk) arch True ofb_multi False (Some p) (Some []) (Some 0) s = Some (ALC_ERROR_NONE, Some [], Some 0, s1)"
    and s1: "ag_session r iv p s1" "ag_ready_for nk s1"
    using pending_piece [OF assms(1-3,5,6)] by blast
  have p: "pb_bytes (ag_partialBuffer s1) = p" using s1(1) by (simp add: ag_session_def)
  obtain s2 r' where s2: "AesGeneric_init (Some key) (of_nat (32 * nk)) (Some iv') 16 s1 = Some (Inl (ALC_ERROR_NONE, s2))"
    and k': "aes_keyed key nk nr r'" and r': "ag_session r' iv' p s2"
    using AesGeneric_init_session [OF assms(1,2,4) s1(2)] unfolding p by blast
  have "\<exists>s3. ag_pieces (AesGeneric_encrypt eAesCBC (32 * nk) arch True ofb_multi False) xs s2
      = Some (fst (mode_blocks (cbc_enc (aes key nk nr)) (length (p @ concat xs) div 16) (p @ concat xs) iv'), s3)"
    using ag_pieces_blocks [OF encrypt_pieces [OF k' assms(5), of "32 * nk" ofb_multi] r' assms(4), of xs] unfolding Let_def by blast
  then show ?thesis using s s2 unfolding Let_def AesGeneric_finish_def snd_conv by blast
qed

theorem AesGeneric_init_keeps_pending_witness:
  "\<exists>s1 s2 s3. AesGeneric_init (Some (replicate 16 7)) 128 (Some (replicate 16 4)) 16 s1 = Some (Inl (ALC_ERROR_NONE, s2)) \<and>
    ag_pieces (AesGeneric_encrypt eAesCBC 128 eZen True False False) [replicate 11 2] s2
      = Some (fst (mode_blocks (cbc_enc (aes (replicate 16 7) 4 10)) 1 (replicate 5 1 @ replicate 11 2) (replicate 16 4)), s3)"
  using AesGeneric_init_keeps_pending [of 4 10 "replicate 16 7" "replicate 16 3" "replicate 16 4" eZen "replicate 5 1" "[replicate 11 2]" False]
  by (auto simp: aes_sizes_def Let_def AesGeneric_finish_def)

text \<open>C13:
  CBC under \<^verbatim>\<open>AES_MULTI_UPDATE\<close> with \<open>p\<close> bytes pending, called in place on a piece \<open>x\<close> that completes
  the block and leaves a rest: the completed block is written over the input before the rest is
  read. The block itself is right, but what becomes pending is the output behind the bytes taken
  (for a piece of 16 bytes: the last bytes of the output block), not the rest of the input. When
  encrypting, every later block is computed from these bytes instead of the rest; when decrypting,
  the pending bytes are plain text where cipher text belongs.
\<close>

theorem AesCbc_in_place_overwrites:
  assumes "aes_sizes nk nr" "length key = 4 * nk" "length iv = 16" "arch \<in> {eZen, eZen3, eZen4}"
    and "p \<noteq> []" "length p < 16" "n = 16 - length p" "n \<le> length x" "length x < n + 16" "16 \<le> length (x @ room)"
  shows "let bits = 32 * nk; g = cbc_enc (aes key nk nr); b = p @ take n x; (c, w) = g b iv;
      rest = (\<lambda>out. drop n (take (length x) (out @ drop 16 x))) in
    \<exists>s s1 s2. AesGeneric_init (Some key) (of_nat bits) (Some iv) 16 (AesGeneric_ctor bits) = Some (Inl (ALC_ERROR_NONE, s)) \<and>
      AesGeneric_encrypt eAesCBC bits arch True ofb_multi False (Some p) (Some []) (Some 0) s = Some (ALC_ERROR_NONE, Some [], Some 0, s1) \<and>
      AesGeneric_encrypt eAesCBC bits arch True ofb_multi True (Some x) (Some (x @ room)) (Some 0) s1
        = Some (ALC_ERROR_NONE, Some (c @ drop 16 (x @ room)), Some 16, s2) \<and>
      (\<forall>ys. \<exists>s3. ag_pieces (AesGeneric_encrypt eAesCBC bits arch True ofb_multi False) ys s2
         = Some (fst (mode_blocks g (length (rest c @ concat ys) div 16) (rest c @ concat ys) w), s3)) \<and>
      (\<forall>m. is_block m \<and> fst (g m iv) = b \<longrightarrow> (\<exists>t2.
         AesGeneric_decrypt eAesCBC bits arch True ofb_multi mem_before True (Some x) (Some (x @ room)) (Some 0) s1
           = Some (ALC_ERROR_NONE, Some (m @ drop 16 (x @ room)), Some 16, t2) \<and>
         pb_bytes (ag_partialBuffer t2) = rest m))"
proof -
  let ?bits = "32 * nk" and ?g = "cbc_enc (aes key nk nr)" and ?b = "p @ take n x"
  let ?rest = "\<lambda>out :: u8 list. drop n (take (length x) (out @ drop 16 x))"
  obtain s s1 r where s: "AesGeneric_init (Some key) (of_nat ?bits) (Some iv) 16 (AesGeneric_ctor ?bits) = Some (Inl (ALC_ERROR_NONE, s))"
    "AesGeneric_encrypt eAesCBC ?bits arch True ofb_multi False (Some p) (Some []) (Some 0) s = Some (ALC_ERROR_NONE, Some [], Some 0, s1)"
    and k: "aes_keyed key nk nr r" and s1: "ag_session r iv p s1"
    using pending_piece [OF assms(1-4,6)] by blast
  have m: "m_rijndael (ag_keyManager s1) = r" using s1 by (simp add: ag_session_def)
  note E = aes_keyedD(1) [OF k]
  have b: "is_block ?b" using assms(6-8) by simp
  define c where "c = aes key nk nr (xor_bytes ?b iv)"
  have c: "?g ?b iv = (c, c)" by (simp add: cbc_enc_def c_def Let_def)
  have cb: "is_block c" unfolding c_def by (rule keys_computeD(3) [OF E]) (use b assms(3) in simp)
  obtain s2 where s2: "AesGeneric_encrypt eAesCBC ?bits arch True ofb_multi True (Some x) (Some (x @ room)) (Some 0) s1
      = Some (ALC_ERROR_NONE, Some (c @ drop 16 (x @ room)), Some 16, s2)" "ag_session r c (?rest c) s2"
    using in_place_piece [where data = "AesGeneric_encrypt_data eAesCBC ?bits arch True ofb_multi True r", OF EncryptCbc_kern [OF E] s1 assms(3,4) _ assms(5,7-10) c cb]
    unfolding AesGeneric_encrypt_def m by (auto simp: AesGeneric_encrypt_data_def aes_keyed_nrounds [OF k] Let_def)
  have e: "\<exists>s3. ag_pieces (AesGeneric_encrypt eAesCBC ?bits arch True ofb_multi False) ys s2
      = Some (fst (mode_blocks ?g (length (?rest c @ concat ys) div 16) (?rest c @ concat ys) c), s3)" for ys
    using ag_pieces_blocks [OF encrypt_pieces [OF k assms(4), of ?bits ofb_multi] s2(2) cb, of ys] unfolding Let_def by blast
  have d: "\<exists>t2. AesGeneric_decrypt eAesCBC ?bits arch True ofb_multi mem_before True (Some x) (Some (x @ room)) (Some 0) s1
        = Some (ALC_ERROR_NONE, Some (q @ drop 16 (x @ room)), Some 16, t2) \<and> pb_bytes (ag_partialBuffer t2) = ?rest q"
    if q: "is_block q" "fst (?g q iv) = ?b" for q
  proof -
    obtain D where D: "keys_decrypt D (m_round_key_dec r) nr" "\<forall>b. is_block b \<longrightarrow> D (aes key nk nr b) = b"
      using aes_keyedD(3) [OF k] by blast
    have kern: "kern_does (cbc_dec D) (\<lambda>x. tDecryptCbc ?bits arch True x (m_round_key_dec r))"
      using k aes_keyedD(2) [OF k] by (intro tDecryptCbc_kern [OF D(1) _ _ _ assms(4)]) (auto simp: aes_keyed_def)
    have "undoes (cbc_dec D) ?g" by (rule undoes_modes(1) [OF E D])
    from this [unfolded undoes_def, rule_format, of q iv] have g: "cbc_dec D ?b iv = (q, ?b)"
      using q assms(3) by (auto simp: cbc_enc_def Let_def split_def prod_eq_iff)
    show ?thesis
      using in_place_piece [where data = "AesGeneric_decrypt_data eAesCBC ?bits arch True ofb_multi mem_before True r", OF kern s1 assms(3,4) _ assms(5,7-10) g q(1)]
      unfolding AesGeneric_decrypt_def m by (auto simp: AesGeneric_decrypt_data_def Let_def ag_session_def)
  qed
  show ?thesis unfolding Let_def c prod.case using s s2(1) e d by blast
qed

theorem AesCbc_in_place_overwrites_witness:
  "let g = cbc_enc (aes (replicate 16 7) 4 10); (c, w) = g (replicate 16 1) (replicate 16 3) in
   \<exists>s1 s2. AesGeneric_encrypt eAesCBC 128 eZen3 True False True (Some (replicate 14 1 @ [8, 9])) (Some (replicate 14 1 @ [8, 9])) (Some 0) s1
       = Some (ALC_ERROR_NONE, Some c, Some 16, s2) \<and>
     (\<exists>s3. ag_pieces (AesGeneric_encrypt eAesCBC 128 eZen3 True False False) [replicate 14 5] s2
       = Some (fst (mode_blocks g 1 (drop 14 c @ replicate 14 5) w), s3))"
proof -
  let ?g = "cbc_enc (aes (replicate 16 7) 4 10)"
  define c where "c = fst (?g (replicate 16 1) (replicate 16 3))"
  have c: "?g (replicate 16 1) (replicate 16 3) = (c, c)" by (simp add: c_def cbc_enc_def Let_def)
  obtain r where r: "aes_keyed (replicate 16 7) 4 10 r" using aes_keyed_example(1) by blast
  have l: "length c = 16" using keys_computeD(3) [OF aes_keyedD(1) [OF r]] by (simp add: c_def cbc_enc_def Let_def)
  have x: "[1, 1] @ take 14 (replicate 14 1 @ [8, 9]) = replicate 16 (1 :: u8)" "length (replicate 14 1 @ [8, 9 :: u8]) = 16"
    "drop 16 (replicate 14 1 @ [8, 9 :: u8]) = []" "replicate 14 1 @ [8, 9] @ [] = replicate 14 1 @ [8, 9 :: u8]" by code_simp+
  have q: "take 16 c = c" using l by simp
  have "aes_sizes 4 10" "length (replicate 16 (7 :: u8)) = 4 * 4" "length (replicate 16 (3 :: u8)) = 16" "eZen3 \<in> {eZen, eZen3, eZen4}"
    "[1, 1 :: u8] \<noteq> []" "length [1, 1 :: u8] < 16" "14 = 16 - length [1, 1 :: u8]" "14 \<le> length (replicate 14 1 @ [8, 9 :: u8])"
    "length (replicate 14 1 @ [8, 9 :: u8]) < 14 + 16" "16 \<le> length ((replicate 14 1 @ [8, 9 :: u8]) @ [])"
    by (simp_all add: aes_sizes_def)
  from AesCbc_in_place_overwrites [OF this, where ofb_multi = False and mem_before = "[]", unfolded Let_def x append_Nil2 c prod.case q]
  obtain s1 s2 where "AesGeneric_encrypt eAesCBC (32 * 4) eZen3 True False True (Some (replicate 14 1 @ [8, 9])) (Some (replicate 14 1 @ [8, 9])) (Some 0) s1
       = Some (ALC_ERROR_NONE, Some c, Some 16, s2)"
    and "\<forall>ys. \<exists>s3. ag_pieces (AesGeneric_encrypt eAesCBC (32 * 4) eZen3 True False False) ys s2
         = Some (fst (mode_blocks ?g (length (drop 14 c @ concat ys) div 16) (drop 14 c @ concat ys) c), s3)"
    by blast
  moreover from this(2) have "\<exists>s3. ag_pieces (AesGeneric_encrypt eAesCBC (32 * 4) eZen3 True False False) [replicate 14 5] s2
         = Some (fst (mode_blocks ?g 1 (drop 14 c @ replicate 14 5) c), s3)"
    by (elim allE [of _ "[replicate 14 5]"]) (simp add: l)
  ultimately show ?thesis unfolding Let_def c prod.case by auto
qed

text \<open>C40:
  A context copied into a new object goes on as its source would with nothing pending: in every
  mode, on every processor and for any pieces, encryption and decryption give the same output. So
  it goes on as the source itself if no bytes of CBC are pending there; pending bytes are not
  copied. And the copy of an object that only has an IV is ready and encrypts a block of CBC with
  success, with round keys nobody set: the cipher text is the last AES round with a key of zeros.
  The source itself refuses.
\<close>

theorem AesGeneric_CopyCtx_spec:
  assumes "ag_session r v p src" "length v = 16" "length iv = 16" "length x = 16" "16 \<le> length y" "arch \<in> {eZen, eZen3, eZen4}"
  shows "(\<exists>d. AesGeneric_CopyCtx src (AesGeneric_ctor bits) = Some (ALC_ERROR_NONE, d) \<and>
      (\<forall>src' \<in> {src\<lparr>ag_partialBuffer := PartialBuffer_ctor\<rparr>} \<union> (if p = [] then {src} else {}). \<forall>mode bits arch multi ofb_multi mem_before xs.
         map_option fst (ag_pieces (AesGeneric_encrypt mode bits arch multi ofb_multi False) xs d)
           = map_option fst (ag_pieces (AesGeneric_encrypt mode bits arch multi ofb_multi False) xs src') \<and>
         map_option fst (ag_pieces (AesGeneric_decrypt mode bits arch multi ofb_multi mem_before False) xs d)
           = map_option fst (ag_pieces (AesGeneric_decrypt mode bits arch multi ofb_multi mem_before False) xs src'))) \<and>
    (\<exists>s d d'. AesGeneric_init None 0 (Some iv) 16 (AesGeneric_ctor bits) = Some (Inl (ALC_ERROR_NONE, s)) \<and>
      AesGeneric_encrypt mode bits arch multi ofb_multi False (Some x) (Some y) (Some n) s = Some (ALC_ERROR_BAD_STATE, Some y, Some 0, s) \<and>
      AesGeneric_CopyCtx s (AesGeneric_ctor bits) = Some (ALC_ERROR_NONE, d) \<and>
      \<not> m_isKeySet (ag_keyManager d) \<and> isReady (ag_stateManager d) \<and>
      AesGeneric_encrypt eAesCBC bits arch multi ofb_multi False (Some x) (Some y) (Some n) d
        = Some (ALC_ERROR_NONE, Some (mm_aesenclast_si128 (xor_bytes x iv) (replicate 16 0) @ drop 16 y), Some 16, d'))"
proof (rule conjI [OF _ keyless_copy [OF assms(3-6)]])
  obtain d where d: "AesGeneric_CopyCtx src (AesGeneric_ctor bits) = Some (ALC_ERROR_NONE, d)"
    "ag_same d (src\<lparr>ag_partialBuffer := PartialBuffer_ctor\<rparr>)" "p = [] \<longrightarrow> ag_same d src"
    using CopyCtx_same [OF assms(1,2)] by blast
  have same: "ag_same d src'" if "src' \<in> {src\<lparr>ag_partialBuffer := PartialBuffer_ctor\<rparr>} \<union> (if p = [] then {src} else {})" for src'
    using that d(2,3) by (auto split: if_splits)
  show "\<exists>d. AesGeneric_CopyCtx src (AesGeneric_ctor bits) = Some (ALC_ERROR_NONE, d) \<and>
      (\<forall>src' \<in> {src\<lparr>ag_partialBuffer := PartialBuffer_ctor\<rparr>} \<union> (if p = [] then {src} else {}). \<forall>mode bits arch multi ofb_multi mem_before xs.
         map_option fst (ag_pieces (AesGeneric_encrypt mode bits arch multi ofb_multi False) xs d)
           = map_option fst (ag_pieces (AesGeneric_encrypt mode bits arch multi ofb_multi False) xs src') \<and>
         map_option fst (ag_pieces (AesGeneric_decrypt mode bits arch multi ofb_multi mem_before False) xs d)
           = map_option fst (ag_pieces (AesGeneric_decrypt mode bits arch multi ofb_multi mem_before False) xs src'))"
    by (rule exI [of _ d], intro conjI d(1) ballI allI;
        rule pieces_same_output [OF _ same], (erule calls_same), assumption)
qed

theorem AesGeneric_CopyCtx_spec_witness:
  "(\<exists>src d. AesGeneric_init (Some (replicate 16 7)) 128 (Some (replicate 16 1)) 16 (AesGeneric_ctor 128) = Some (Inl (ALC_ERROR_NONE, src)) \<and>
      AesGeneric_CopyCtx src (AesGeneric_ctor 128) = Some (ALC_ERROR_NONE, d) \<and>
      map_option fst (ag_pieces (AesGeneric_encrypt eAesCBC 128 eZen True False False) [replicate 5 1, replicate 30 2] d)
        = Some (fst (mode_blocks (cbc_enc (aes (replicate 16 7) 4 10)) 2 (replicate 5 1 @ replicate 30 2) (replicate 16 1)))) \<and>
   (\<exists>s d d'. AesGeneric_init None 0 (Some (replicate 16 3)) 16 (AesGeneric_ctor 128) = Some (Inl (ALC_ERROR_NONE, s)) \<and>
      AesGeneric_CopyCtx s (AesGeneric_ctor 128) = Some (ALC_ERROR_NONE, d) \<and> isReady (ag_stateManager d) \<and>
      AesGeneric_encrypt eAesCBC 128 eZen3 True False False (Some (replicate 16 5)) (Some (replicate 16 0)) (Some 0) d
        = Some (ALC_ERROR_NONE, Some (mm_aesenclast_si128 (replicate 16 6) (replicate 16 0)), Some 16, d'))"
proof -
  have new: "pb_bytes (ag_partialBuffer (AesGeneric_ctor (32 * 4))) = []"
    by (simp add: AesGeneric_ctor_def PartialBuffer_ctor_def pb_bytes_def)
  have z: "aes_sizes 4 10" "length (replicate 16 (7 :: u8)) = 4 * 4" "length (replicate 16 (1 :: u8)) = 16" by (simp_all add: aes_sizes_def)
  obtain src r where s: "AesGeneric_init (Some (replicate 16 7)) 128 (Some (replicate 16 1)) 16 (AesGeneric_ctor 128) = Some (Inl (ALC_ERROR_NONE, src))"
    and r: "aes_keyed (replicate 16 7) 4 10 r" "ag_session r (replicate 16 1) [] src"
    using AesGeneric_init_session [OF z AesGeneric_ctor_ready_for [OF z(1)]] unfolding new by auto
  have p: "map_option fst (ag_pieces (AesGeneric_encrypt eAesCBC 128 eZen True False False) [replicate 5 1, replicate 30 2] src)
      = Some (fst (mode_blocks (cbc_enc (aes (replicate 16 7) 4 10)) 2 (replicate 5 1 @ replicate 30 2) (replicate 16 1)))"
    using ag_pieces_blocks [OF encrypt_pieces [OF r(1), of eZen 128 False] r(2), of "[replicate 5 1, replicate 30 2]"] by (auto simp: Let_def)
  have x: "xor_bytes (replicate 16 5) (replicate 16 3) = replicate 16 (6 :: u8)" by code_simp
  have l: "length (replicate 16 (1 :: u8)) = 16" "length (replicate 16 (3 :: u8)) = 16" "length (replicate 16 (5 :: u8)) = 16"
    "16 \<le> length (replicate 16 (0 :: u8))" "eZen3 \<in> {eZen, eZen3, eZen4}" "drop 16 (replicate 16 (0 :: u8)) = []" by simp_all
  note t = AesGeneric_CopyCtx_spec [where bits = 128 and mode = eAesCBC and multi = True and ofb_multi = False and n = 0, OF r(2) l(1-5)]
  obtain d where d: "AesGeneric_CopyCtx src (AesGeneric_ctor 128) = Some (ALC_ERROR_NONE, d)"
    "map_option fst (ag_pieces (AesGeneric_encrypt eAesCBC 128 eZen True False False) [replicate 5 1, replicate 30 2] d)
      = map_option fst (ag_pieces (AesGeneric_encrypt eAesCBC 128 eZen True False False) [replicate 5 1, replicate 30 2] src)"
    by (rule exE [OF conjunct1 [OF t]], elim conjE, drule bspec [where x = src], simp) (blast intro: that)
  obtain s d2 d' where "AesGeneric_init None 0 (Some (replicate 16 3)) 16 (AesGeneric_ctor 128) = Some (Inl (ALC_ERROR_NONE, s))"
    "AesGeneric_CopyCtx s (AesGeneric_ctor 128) = Some (ALC_ERROR_NONE, d2)" "isReady (ag_stateManager d2)"
    "AesGeneric_encrypt eAesCBC 128 eZen3 True False False (Some (replicate 16 5)) (Some (replicate 16 0)) (Some 0) d2
        = Some (ALC_ERROR_NONE, Some (mm_aesenclast_si128 (replicate 16 6) (replicate 16 0)), Some 16, d')"
    using conjunct2 [OF t] unfolding x l(6) append_Nil2 by (elim exE conjE) (rule that)
  then show ?thesis using s d(1) d(2) [unfolded p] by blast
qed

end
