(* ===== verification/Aes_Multi.thy ===== *)
theory Aes_Multi imports Vaes begin

text \<open>
  The kernels that encrypt several buffers of one length at a time, a buffer in each lane of the
  registers: \<^verbatim>\<open>vaes_cbc.cc\<close> and \<^verbatim>\<open>vaes_cfb.cc\<close> of \<^verbatim>\<open>arch/zen3\<close> for two buffers,
  \<^verbatim>\<open>vaes_cbc_encrypt.cc\<close> and \<^verbatim>\<open>vaes_cfb_encrypt.cc\<close> of \<^verbatim>\<open>arch/zen4\<close> for 4, 8, 16, 32 or 64. What a
  kernel writes is the list of the outputs, one for each buffer; the buffers do not overlap.
\<close>

unbundle bit_operations_syntax

section \<open>Kernels\<close>

text \<open>The round keys on 256 bits.\<close>

definition alcp_load_key_ymm :: "nat \<Rightarrow> u8 list \<Rightarrow> m128 list" where
  "alcp_load_key_ymm nRounds pkey = map (\<lambda>i. blk i pkey) [0..<nRounds + 1]"

definition vaes_AesEncryptNoLoad :: "m128 list \<Rightarrow> m128 list \<Rightarrow> m128 list" where
  "vaes_AesEncryptNoLoad keys bs =
     map (\<lambda>a. mm_aesenclast_si128 (foldl mm_aesenc_si128 (mm_xor_si128 a (hd keys)) (butlast (tl keys))) (last keys)) bs"

text \<open>
  One block of every buffer. CBC packs the masked inputs and its output is the encryption; CFB
  packs the chaining values and masks the inputs with their encryption.
\<close>

type_synonym lanes_step = "(m128 list \<Rightarrow> m128 list) \<Rightarrow> m128 list \<Rightarrow> m128 list \<Rightarrow> m128 list \<times> m128 list"

definition cbc_lanes :: lanes_step where
  "cbc_lanes enc p_in ivs = (let ctext = enc (map2 mm_xor_si128 p_in ivs) in (ctext, ctext))"

definition cfb_lanes :: lanes_step where
  "cfb_lanes enc p_in ivs = (let ctext = map2 mm_xor_si128 (enc ivs) p_in in (ctext, ctext))"

fun lanes_loop :: "(m128 list \<Rightarrow> m128 list \<Rightarrow> m128 list \<times> m128 list) \<Rightarrow> nat \<Rightarrow> u8 list list \<Rightarrow> m128 list \<Rightarrow> u8 list list \<times> m128 list" where
  "lanes_loop step 0 p_in ivs = (map (\<lambda>_. []) p_in, ivs)"
| "lanes_loop step (Suc blocks) p_in ivs =
     (let (ctext, ivs) = step (map (take 16) p_in) ivs;
          (rest, ivs) = lanes_loop step blocks (map (drop 16) p_in) ivs
      in (map2 (@) ctext rest, ivs))"

text \<open>
  Both files have the same function for their mode; \<open>length pIv\<close> is \<open>num_buffers\<close>. On 256 bits
  the first two buffers are encrypted, whatever their number (\<open>None\<close>: there is no second one);
  the IVs of all are stored back.
\<close>

definition encrypt_zen3_mb ::
  "lanes_step \<Rightarrow> bool \<Rightarrow> u8 list list \<Rightarrow> nat \<Rightarrow> u8 list \<Rightarrow> nat \<Rightarrow> u8 list list \<Rightarrow> (alc_error \<times> u8 list list \<times> u8 list list) option" where
  "encrypt_zen3_mb step multi pPlainText len pKey nRounds pIv =
     (let blocks = len div 16; num_buffers = length pIv in
      if num_buffers = 0 \<or> blocks = 0 then Some (ALC_ERROR_NONE, replicate num_buffers [], pIv)
      else if nRounds \<noteq> 10 \<and> nRounds \<noteq> 12 \<and> nRounds \<noteq> 14 then Some (ALC_ERROR_INVALID_ARG, replicate num_buffers [], pIv)
      else if num_buffers < 2 then None
      else
        let keys = alcp_load_key_ymm nRounds pKey;
            (out, ivs) = lanes_loop (step (vaes_AesEncryptNoLoad keys)) blocks (take 2 pPlainText) (take 2 pIv)
        in Some (ALC_ERROR_NONE, out @ replicate (num_buffers - 2) [], if multi then ivs @ drop 2 pIv else pIv))"

definition EncryptCbc_zen3_mb :: "bool \<Rightarrow> u8 list list \<Rightarrow> nat \<Rightarrow> u8 list \<Rightarrow> nat \<Rightarrow> u8 list list \<Rightarrow> (alc_error \<times> u8 list list \<times> u8 list list) option" where
  "EncryptCbc_zen3_mb = encrypt_zen3_mb cbc_lanes"

definition EncryptCfb_zen3_mb :: "bool \<Rightarrow> u8 list list \<Rightarrow> nat \<Rightarrow> u8 list \<Rightarrow> nat \<Rightarrow> u8 list list \<Rightarrow> (alc_error \<times> u8 list list \<times> u8 list list) option" where
  "EncryptCfb_zen3_mb = encrypt_zen3_mb cfb_lanes"

text \<open>On 512 bits another number of buffers is not refused: nothing is written.\<close>

definition encrypt_zen4_mb ::
  "lanes_step \<Rightarrow> bool \<Rightarrow> u8 list list \<Rightarrow> nat \<Rightarrow> u8 list \<Rightarrow> nat \<Rightarrow> u8 list list \<Rightarrow> alc_error \<times> u8 list list \<times> u8 list list" where
  "encrypt_zen4_mb step multi pPlainText len pKey nRounds pIv =
     (let blocks = len div 16; num_buffers = length pIv in
      if num_buffers = 0 \<or> blocks = 0 then (ALC_ERROR_NONE, replicate num_buffers [], pIv)
      else if nRounds \<noteq> 10 \<and> nRounds \<noteq> 12 \<and> nRounds \<noteq> 14 then (ALC_ERROR_INVALID_ARG, replicate num_buffers [], pIv)
      else
        let keys = alcp_load_key_zmm nRounds pKey;
            (out, ivs) = (if num_buffers \<in> {4, 8, 16, 32, 64}
                          then lanes_loop (step (vaes512_AesEncryptNoLoad keys)) blocks pPlainText pIv
                          else (replicate num_buffers [], pIv))
        in (ALC_ERROR_NONE, out, if multi then ivs else pIv))"

text \<open>The stack arrays of the CBC function have 128 places; \<open>None\<close> is a write past them.\<close>

definition EncryptCbc_zen4_mb :: "bool \<Rightarrow> u8 list list \<Rightarrow> nat \<Rightarrow> u8 list \<Rightarrow> nat \<Rightarrow> u8 list list \<Rightarrow> (alc_error \<times> u8 list list \<times> u8 list list) option" where
  "EncryptCbc_zen4_mb multi pPlainText len pKey nRounds pIv =
     (if 128 < length pIv \<and> 16 \<le> len \<and> nRounds \<in> {10, 12, 14} then None
      else Some (encrypt_zen4_mb cbc_lanes multi pPlainText len pKey nRounds pIv))"

definition EncryptCfb_zen4_mb :: "bool \<Rightarrow> u8 list list \<Rightarrow> nat \<Rightarrow> u8 list \<Rightarrow> nat \<Rightarrow> u8 list list \<Rightarrow> (alc_error \<times> u8 list list \<times> u8 list list) option" where
  "EncryptCfb_zen4_mb multi pPlainText len pKey nRounds pIv =
     Some (encrypt_zen4_mb cfb_lanes multi pPlainText len pKey nRounds pIv)"

section \<open>Each lane is the mode\<close>

text \<open>A step of all lanes that is a step of the mode in each.\<close>

definition lanes_do :: "mode_step \<Rightarrow> (m128 list \<Rightarrow> m128 list \<Rightarrow> m128 list \<times> m128 list) \<Rightarrow> bool" where
  "lanes_do g step \<longleftrightarrow> (\<forall>ps vs. (\<forall>b\<in>set ps \<union> set vs. is_block b) \<and> length ps = length vs \<longrightarrow>
     step ps vs = (map2 (\<lambda>p v. fst (g p v)) ps vs, map2 (\<lambda>p v. snd (g p v)) ps vs)) \<and>
     (\<forall>p v. is_block p \<and> is_block v \<longrightarrow> is_block (snd (g p v)))"

lemma lanes_doD:
  assumes "lanes_do g step" "\<forall>b\<in>set ps. is_block b" "\<forall>v\<in>set vs. is_block v" "length ps = length vs"
  shows "step ps vs = (map2 (\<lambda>p v. fst (g p v)) ps vs, map2 (\<lambda>p v. snd (g p v)) ps vs)"
  using assms unfolding lanes_do_def ball_Un by blast

lemma cbc_lanes_do:
  assumes E: "keys_compute E pk nr" and enc: "\<And>bs. \<forall>b\<in>set bs. is_block b \<Longrightarrow> enc bs = map E bs"
  shows "lanes_do (cbc_enc E) (cbc_lanes enc)"
proof -
  have "enc (map2 mm_xor_si128 ps vs) = map2 (\<lambda>p v. E (xor_bytes p v)) ps vs"
    if "\<forall>b\<in>set ps \<union> set vs. is_block b" for ps vs
  proof -
    have "\<forall>b\<in>set (map2 mm_xor_si128 ps vs). is_block b"
    proof
      fix b assume "b \<in> set (map2 mm_xor_si128 ps vs)"
      then obtain p v where "(p, v) \<in> set (zip ps vs)" "b = mm_xor_si128 p v" by auto
      then show "is_block b" using that set_zip_leftD set_zip_rightD by (fastforce simp: mm_xor_si128_def)
    qed
    from enc [OF this] show ?thesis by (simp add: mm_xor_si128_def split_def comp_def)
  qed
  then show ?thesis
    by (auto simp: lanes_do_def cbc_lanes_def cbc_enc_def Let_def keys_computeD [OF E])
qed

lemma cfb_lanes_do:
  assumes E: "keys_compute E pk nr" and enc: "\<And>bs. \<forall>b\<in>set bs. is_block b \<Longrightarrow> enc bs = map E bs"
  shows "lanes_do (cfb_enc E) (cfb_lanes enc)"
proof -
  have "map2 mm_xor_si128 (map E vs) ps = map2 (\<lambda>p v. xor_bytes (E v) p) ps vs" for ps vs
    by (rule nth_equalityI) (simp_all add: mm_xor_si128_def)
  then show ?thesis
    by (auto simp: lanes_do_def cfb_lanes_def cfb_enc_def Let_def enc keys_computeD [OF E])
qed

lemma map2_map1: "map2 h (map f xs) ys = map2 (\<lambda>x y. h (f x) y) xs ys"
  by (rule nth_equalityI) simp_all

lemma lanes_loop_modes:
  assumes g: "lanes_do g step"
  shows "\<forall>x\<in>set xs. 16 * n \<le> length x \<Longrightarrow> \<forall>v\<in>set vs. is_block v \<Longrightarrow> length xs = length vs \<Longrightarrow>
    lanes_loop step n xs vs = (map2 (\<lambda>x v. fst (mode_blocks g n x v)) xs vs, map2 (\<lambda>x v. snd (mode_blocks g n x v)) xs vs)"
proof (induction n arbitrary: xs vs)
  case 0
  have "map (\<lambda>_. [] :: u8 list) xs = map2 (\<lambda>x v. []) xs vs" "map2 (\<lambda>x v. v) xs vs = vs" using 0(3) by (auto intro: nth_equalityI)
  then show ?case by (simp only: lanes_loop.simps mode_blocks.simps fst_conv snd_conv)
next
  case (Suc n)
  let ?ps = "map (take 16) xs" and ?xs = "map (drop 16) xs"
  let ?vs = "map2 (\<lambda>x v. snd (g (take 16 x) v)) xs vs"
  have "\<forall>b\<in>set ?ps. is_block b" using Suc.prems(1) by auto
  then have s: "step ?ps vs = (map2 (\<lambda>x v. fst (g (take 16 x) v)) xs vs, ?vs)"
    using lanes_doD [OF g _ Suc.prems(2), of ?ps] Suc.prems(3) by (simp add: map2_map1)
  have "\<forall>v\<in>set ?vs. is_block v"
  proof
    fix w assume "w \<in> set ?vs"
    then obtain x v where "(x, v) \<in> set (zip xs vs)" "w = snd (g (take 16 x) v)" by auto
    then have x: "x \<in> set xs" "v \<in> set vs" "w = snd (g (take 16 x) v)" by (auto dest: set_zip_leftD set_zip_rightD)
    have "16 \<le> length x" "is_block v" using Suc.prems(1,2) x(1,2) by auto
    then show "is_block w" using g unfolding lanes_do_def x(3) by simp
  qed
  moreover have "\<forall>x\<in>set ?xs. 16 * n \<le> length x" "length ?xs = length ?vs" using Suc.prems(1,3) by auto
  ultimately have l: "lanes_loop step n ?xs ?vs = (map2 (\<lambda>x v. fst (mode_blocks g n x v)) ?xs ?vs, map2 (\<lambda>x v. snd (mode_blocks g n x v)) ?xs ?vs)"
    by (intro Suc.IH)
  have "lanes_loop step (Suc n) xs vs = (map2 (@) (map2 (\<lambda>x v. fst (g (take 16 x) v)) xs vs) (map2 (\<lambda>x v. fst (mode_blocks g n x v)) ?xs ?vs),
      map2 (\<lambda>x v. snd (mode_blocks g n x v)) ?xs ?vs)"
    by (simp only: lanes_loop.simps s l Let_def prod.case)
  also have "\<dots> = (map2 (\<lambda>x v. fst (mode_blocks g (Suc n) x v)) xs vs, map2 (\<lambda>x v. snd (mode_blocks g (Suc n) x v)) xs vs)"
    using Suc.prems(3) by (intro arg_cong2 [where f = Pair] nth_equalityI) (simp_all add: split_def Let_def)
  finally show ?case .
qed

lemma zen3_mb_enc:
  assumes "keys_compute E pk nr" "0 < nr" "\<forall>b\<in>set bs. is_block b"
  shows "vaes_AesEncryptNoLoad (alcp_load_key_ymm nr pk) bs = map E bs"
proof -
  have "vaes_AesEncryptNoLoad (alcp_load_key_ymm nr pk) bs = vaes512_AesEncryptNoLoad (alcp_load_key_zmm nr pk) bs"
    by (simp add: vaes_AesEncryptNoLoad_def vaes512_AesEncryptNoLoad_def alcp_load_key_ymm_def alcp_load_key_zmm_def)
  then show ?thesis using zen4_enc [OF assms] by (simp only:)
qed

text \<open>Both kernels, for a whole number of blocks.\<close>

lemma encrypt_mb_modes:
  assumes g: "\<And>enc. (\<And>bs. \<forall>b\<in>set bs. is_block b \<Longrightarrow> enc bs = map E bs) \<Longrightarrow> lanes_do g (step enc)"
    and E: "keys_compute E pk nr" and nr: "nr \<in> {10, 12, 14}" and n: "0 < n" "len = 16 * n"
    and xs: "\<forall>x\<in>set xs. len \<le> length x" and vs: "\<forall>v\<in>set vs. is_block v" and l: "length xs = length vs"
  defines "res multi \<equiv> (ALC_ERROR_NONE, map2 (\<lambda>x v. fst (mode_blocks g n x v)) xs vs,
      if multi then map2 (\<lambda>x v. snd (mode_blocks g n x v)) xs vs else vs)"
  shows "length vs = 2 \<Longrightarrow> encrypt_zen3_mb step multi xs len pk nr vs = Some (res multi)"
    and "length vs \<in> {4, 8, 16, 32, 64} \<Longrightarrow> encrypt_zen4_mb step multi xs len pk nr vs = res multi"
proof -
  have nr': "0 < nr" using nr by auto
  have x: "\<forall>x\<in>set xs. 16 * n \<le> length x" using xs n(2) by simp
  have z3: "lanes_loop (step (vaes_AesEncryptNoLoad (alcp_load_key_ymm nr pk))) n xs vs
      = (map2 (\<lambda>x v. fst (mode_blocks g n x v)) xs vs, map2 (\<lambda>x v. snd (mode_blocks g n x v)) xs vs)"
    by (rule lanes_loop_modes [OF g x vs l]) (rule zen3_mb_enc [OF E nr'])
  have z4: "lanes_loop (step (vaes512_AesEncryptNoLoad (alcp_load_key_zmm nr pk))) n xs vs
      = (map2 (\<lambda>x v. fst (mode_blocks g n x v)) xs vs, map2 (\<lambda>x v. snd (mode_blocks g n x v)) xs vs)"
    by (rule lanes_loop_modes [OF g x vs l]) (rule zen4_enc [OF E nr'])
  have b: "len div 16 = n" "n \<noteq> 0" using n by simp_all
  have r: "(nr \<noteq> 10 \<and> nr \<noteq> 12 \<and> nr \<noteq> 14) = False" using nr by auto
  show "encrypt_zen3_mb step multi xs len pk nr vs = Some (res multi)" if "length vs = 2"
    using that l b r z3 by (simp add: encrypt_zen3_mb_def res_def Let_def)
  show "encrypt_zen4_mb step multi xs len pk nr vs = res multi" if "length vs \<in> {4, 8, 16, 32, 64}"
  proof -
    have "length vs \<noteq> 0" using that by auto
    then show ?thesis using that b r z4 by (simp add: encrypt_zen4_mb_def res_def Let_def)
  qed
qed

end
