(* ===== verification/Aes_Dequeue.thy ===== *)
theory Aes_Dequeue imports Aes_Generic Aes_Multi begin

text \<open>
  Several buffers at a time in \<^verbatim>\<open>lib/cipher/aes_generic.cc\<close>: \<^verbatim>\<open>multibufferInit\<close> takes the IVs,
  \<^verbatim>\<open>flush\<close> the plain texts, and \<^verbatim>\<open>dequeue\<close> encrypts them, whatever their lengths, in batches of
  buffers that fit the lanes of the registers.
\<close>

unbundle bit_operations_syntax

section \<open>Initialisation\<close>

text \<open>
  \<open>pIv\<close> are the IVs the pointers point to. Those before a null pointer stay copied. The status of
  the IV manager is not looked at. \<open>None\<close> is a read or write past the end of an array.
\<close>

fun copy_ivs :: "nat \<Rightarrow> nat \<Rightarrow> u8 list option list \<Rightarrow> u8 list list \<Rightarrow> (alc_error \<times> u8 list list) option" where
  "copy_ivs ivLen i [] ivs = Some (ALC_ERROR_NONE, ivs)"
| "copy_ivs ivLen i (p # ps) ivs =
     (case p of
        None \<Rightarrow> Some (ALC_ERROR_INVALID_ARG, ivs)
      | Some iv \<Rightarrow>
          if length iv < ivLen \<or> length ivs \<le> i then None
          else do { b \<leftarrow> CopyBlock (ivs ! i) 0 (take ivLen iv); copy_ivs ivLen (i + 1) ps (ivs[i := b]) })"

definition multibufferInit_ivs :: "u8 list option list \<Rightarrow> nat \<Rightarrow> nat \<Rightarrow> aes_generic \<Rightarrow> (alc_error \<times> aes_generic) option" where
  "multibufferInit_ivs pIv ivLen numBuffers s =
     (if length pIv < numBuffers then None
      else do {
        (err, ivs) \<leftarrow> copy_ivs ivLen 0 (take numBuffers pIv) (m_ivs (ag_multibuffer s));
        let s = s\<lparr>ag_multibuffer := (ag_multibuffer s)\<lparr>m_ivs := ivs\<rparr>\<rparr> in
        if err \<noteq> ALC_ERROR_NONE then Some (err, s)
        else do {
          (_, m) \<leftarrow> setIv_ptr (the (hd pIv)) ivLen (ag_ivManager s);
          Some (ALC_ERROR_NONE,
            s\<lparr>ag_multibuffer := (ag_multibuffer s)\<lparr>m_numBuffers := numBuffers\<rparr>, ag_ivManager := m,
              ag_stateManager := onIvSet (ag_stateManager s)\<rparr>)
        }
      })"

definition multibufferInit ::
  "cipher_mode \<Rightarrow> u8 list option \<Rightarrow> u64 \<Rightarrow> u8 list option list \<Rightarrow> nat \<Rightarrow> nat \<Rightarrow> aes_generic \<Rightarrow>
   (alc_error \<times> aes_generic + aes_generic) option" where
  "multibufferInit mode pKey keyLen pIv ivLen numBuffers s =
     (if \<not> SupportsMultibuffer mode then Some (Inl (ALC_ERROR_NOT_SUPPORTED, s))
      else if numBuffers = 0 \<or> ivLen = 0 then Some (Inl (ALC_ERROR_INVALID_ARG, s))
      else if ivLen > 16 \<or> numBuffers > 127 then Some (Inl (ALC_ERROR_INVALID_ARG, s))
      else if pKey \<noteq> None \<and> keyLen \<noteq> 0 then do {
        r \<leftarrow> KeyManager_setKey_with Rijndael_setKey_aesni pKey keyLen (ag_keyManager s);
        (case r of
           Inr k \<Rightarrow> Some (Inr (s\<lparr>ag_keyManager := k\<rparr>))
         | Inl (err, k) \<Rightarrow>
             let s = s\<lparr>ag_keyManager := k\<rparr> in
             if err \<noteq> ALC_ERROR_NONE then Some (Inl (err, s))
             else map_option Inl (multibufferInit_ivs pIv ivLen numBuffers (s\<lparr>ag_stateManager := onKeySet (ag_stateManager s)\<rparr>)))
      }
      else map_option Inl (multibufferInit_ivs pIv ivLen numBuffers s))"

definition AesGeneric_flush ::
  "cipher_mode \<Rightarrow> u8 list list option \<Rightarrow> nat list option \<Rightarrow> nat \<Rightarrow> aes_generic \<Rightarrow> (alc_error \<times> aes_generic) option" where
  "AesGeneric_flush mode pPlainText pLengths numBuffers s =
     (if \<not> SupportsMultibuffer mode then Some (ALC_ERROR_NOT_SUPPORTED, s)
      else case (pPlainText, pLengths) of
        (Some _, Some lengths) \<Rightarrow>
          if numBuffers > 127 then Some (ALC_ERROR_INVALID_ARG, s)
          else if length lengths < numBuffers then None
          else let b = ag_multibuffer s in
            Some (ALC_ERROR_NONE, s\<lparr>ag_multibuffer := b\<lparr>m_pData := pPlainText, m_numBuffers := numBuffers,
              m_bufferLengths := write_at 0 (take numBuffers lengths) (m_bufferLengths b)\<rparr>\<rparr>)
      | _ \<Rightarrow> Some (ALC_ERROR_INVALID_ARG, s))"

section \<open>The batches\<close>

definition EncryptMode_zen :: "cipher_mode \<Rightarrow> bool \<Rightarrow> u8 list \<Rightarrow> u8 list \<Rightarrow> nat \<Rightarrow> u8 list \<Rightarrow> u8 list \<times> u8 list" where
  "EncryptMode_zen mode = (if mode = eAesCBC then EncryptCbc else EncryptCfb)"

text \<open>
  What \<^verbatim>\<open>dequeue\<close> keeps for each buffer: how far it is, its output and its IV. The arrays are
  functions of the index.
\<close>

record dequeue_state =
  currentOffsets :: "nat \<Rightarrow> nat"
  dq_out :: "nat \<Rightarrow> u8 list"
  dq_ivs :: "nat \<Rightarrow> u8 list"

text \<open>The largest power of two, by the highest bit that is set.\<close>

fun top_bit :: "nat \<Rightarrow> nat" where
  "top_bit n = (if n < 2 then n else 2 * top_bit (n div 2))"

declare top_bit.simps [simp del]

text \<open>
  One call of a kernel on the buffers \<open>bs\<close>, \<open>minLen\<close> bytes of each from its offset on: AES-NI for
  one buffer, 256 bits for two, 512 bits for more.
\<close>

definition dequeue_kernel ::
  "cipher_mode \<Rightarrow> bool \<Rightarrow> u8 list \<Rightarrow> nat \<Rightarrow> nat \<Rightarrow> u8 list list \<Rightarrow> u8 list list \<Rightarrow> (alc_error \<times> u8 list list \<times> u8 list list) option" where
  "dequeue_kernel mode multi pKey nRounds minLen batchInputs batchIvs =
     (if length batchIvs = 1 then
        let (out, iv) = EncryptMode_zen mode multi (take minLen (hd batchInputs)) pKey nRounds (hd batchIvs)
        in Some (ALC_ERROR_NONE, [out], [iv])
      else if length batchIvs = 2 then
        (if mode = eAesCBC then EncryptCbc_zen3_mb else EncryptCfb_zen3_mb) multi batchInputs minLen pKey nRounds batchIvs
      else (if mode = eAesCBC then EncryptCbc_zen4_mb else EncryptCfb_zen4_mb) multi batchInputs minLen pKey nRounds batchIvs)"

text \<open>The results go where the pointers of the batch point.\<close>

fun store_batch :: "nat \<Rightarrow> (nat \<times> u8 list \<times> u8 list) list \<Rightarrow> dequeue_state \<Rightarrow> dequeue_state" where
  "store_batch minLen [] st = st"
| "store_batch minLen ((b, out, iv) # rs) st =
     store_batch minLen rs
       (st\<lparr>dq_out := (dq_out st)(b := write_at (currentOffsets st b) out (dq_out st b)), dq_ivs := (dq_ivs st)(b := iv)\<rparr>)"

definition dequeue_batch ::
  "cipher_mode \<Rightarrow> bool \<Rightarrow> u8 list \<Rightarrow> nat \<Rightarrow> u8 list list \<Rightarrow> nat \<Rightarrow> nat list \<Rightarrow> dequeue_state \<Rightarrow> (alc_error \<times> dequeue_state) option" where
  "dequeue_batch mode multi pKey nRounds pData minLen bs st = do {
     (err, outs, ivs) \<leftarrow> dequeue_kernel mode multi pKey nRounds minLen
       (map (\<lambda>b. drop (currentOffsets st b) (pData ! b)) bs) (map (dq_ivs st) bs);
     let st = store_batch minLen (zip bs (zip outs ivs)) st in
     if err \<noteq> ALC_ERROR_NONE then Some (err, st)
     else Some (ALC_ERROR_NONE,
       st\<lparr>currentOffsets := (\<lambda>b. if b \<in> set bs then currentOffsets st b + minLen else currentOffsets st b)\<rparr>)
   }"

lemma top_bit_bounds: "0 < n \<Longrightarrow> 0 < top_bit n \<and> top_bit n \<le> n"
proof (induction n rule: top_bit.induct)
  case (1 n)
  then show ?case
    using top_bit.simps [of n] by (cases "n < 2") auto
qed

text \<open>The active buffers, in batches of the largest power of two.\<close>

function dequeue_batches ::
  "cipher_mode \<Rightarrow> bool \<Rightarrow> u8 list \<Rightarrow> nat \<Rightarrow> u8 list list \<Rightarrow> nat \<Rightarrow> nat list \<Rightarrow> dequeue_state \<Rightarrow> (alc_error \<times> dequeue_state) option" where
  "dequeue_batches mode multi pKey nRounds pData minLen active st =
     (if active = [] then Some (ALC_ERROR_NONE, st)
      else
        let batchCount = top_bit (length active) in
        do {
          (err, st) \<leftarrow> dequeue_batch mode multi pKey nRounds pData minLen (take batchCount active) st;
          if err \<noteq> ALC_ERROR_NONE then Some (err, st)
          else dequeue_batches mode multi pKey nRounds pData minLen (drop batchCount active) st
        })"
  by pat_completeness auto
termination
  by (relation "measure (\<lambda>(mode, multi, pKey, nRounds, pData, minLen, active, st). length active)") (auto simp: top_bit_bounds)

declare dequeue_batches.simps [simp del]

lemma store_batch_offsets [simp]: "currentOffsets (store_batch minLen rs st) = currentOffsets st"
  by (induction minLen rs st rule: store_batch.induct) simp_all

lemma dequeue_batch_offsets:
  assumes "dequeue_batch mode multi pKey nRounds pData minLen bs st = Some (ALC_ERROR_NONE, st')"
  shows "currentOffsets st' = (\<lambda>b. if b \<in> set bs then currentOffsets st b + minLen else currentOffsets st b)"
  using assms by (auto simp: dequeue_batch_def Let_def split: Option.bind_splits prod.splits if_splits)

lemma dequeue_batches_offsets:
  "dequeue_batches mode multi pKey nRounds pData minLen active st = Some (ALC_ERROR_NONE, st') \<Longrightarrow>
    currentOffsets st b \<le> currentOffsets st' b \<and> (b \<in> set active \<longrightarrow> currentOffsets st b + minLen \<le> currentOffsets st' b)"
proof (induction mode multi pKey nRounds pData minLen active st rule: dequeue_batches.induct)
  case (1 mode multi pKey nRounds pData minLen active st)
  let ?n = "top_bit (length active)"
  show ?case
  proof (cases "active = []")
    case True
    then show ?thesis using 1(2) dequeue_batches.simps [of mode multi pKey nRounds pData minLen active st] by simp
  next
    case False
    then obtain err s1 where s1: "dequeue_batch mode multi pKey nRounds pData minLen (take ?n active) st = Some (err, s1)"
      using 1(2) dequeue_batches.simps [of mode multi pKey nRounds pData minLen active st] by (auto simp: Let_def split: Option.bind_splits)
    have e: "err = ALC_ERROR_NONE" and r: "dequeue_batches mode multi pKey nRounds pData minLen (drop ?n active) s1 = Some (ALC_ERROR_NONE, st')"
      using 1(2) s1 False dequeue_batches.simps [of mode multi pKey nRounds pData minLen active st] by (auto simp: Let_def split: if_splits)
    have b: "b \<in> set active \<Longrightarrow> b \<in> set (take ?n active) \<or> b \<in> set (drop ?n active)"
      by (metis Un_iff append_take_drop_id set_append)
    have "currentOffsets s1 b \<le> currentOffsets st' b \<and> (b \<in> set (drop ?n active) \<longrightarrow> currentOffsets s1 b + minLen \<le> currentOffsets st' b)"
      using 1(1) [OF False refl s1 refl] e r by simp
    moreover have "currentOffsets s1 b = (if b \<in> set (take ?n active) then currentOffsets st b + minLen else currentOffsets st b)"
      using dequeue_batch_offsets [OF s1 [unfolded e]] by simp
    ultimately show ?thesis using b by (cases "b \<in> set (take ?n active)") auto
  qed
qed

text \<open>
  The rounds: all active buffers are encrypted up to the end of the shortest one, then the
  buffers that are done leave.
\<close>

definition min_remaining :: "nat list \<Rightarrow> nat list \<Rightarrow> dequeue_state \<Rightarrow> nat" where
  "min_remaining lens active st = fold min (map (\<lambda>b. lens ! b - currentOffsets st b) active) (2 ^ 64 - 1)"

lemma fold_min_le: "fold min xs m \<le> (m :: nat) \<and> (\<forall>x\<in>set xs. fold min xs m \<le> x)"
proof (induction xs arbitrary: m)
  case (Cons x xs)
  have "fold min xs (min x m) \<le> min x m" "\<forall>y\<in>set xs. fold min xs (min x m) \<le> y" using Cons [of "min x m"] by blast+
  then show ?case by simp
qed simp

lemma min_remaining_le: "b \<in> set active \<Longrightarrow> min_remaining lens active st \<le> lens ! b - currentOffsets st b"
  using fold_min_le [of "map (\<lambda>b. lens ! b - currentOffsets st b) active" "2 ^ 64 - 1"] by (simp add: min_remaining_def)

text \<open>What is left of the active buffers gets less.\<close>

definition dequeue_left :: "nat list \<Rightarrow> nat list \<Rightarrow> dequeue_state \<Rightarrow> nat" where
  "dequeue_left lens active st = sum_list (map (\<lambda>b. lens ! b - currentOffsets st b) active)"

lemma dequeue_left_less:
  assumes "active \<noteq> []" "0 < minLen" "minLen \<le> min_remaining lens active st"
    and "dequeue_batches mode multi pKey nRounds pData minLen active st = Some (ALC_ERROR_NONE, st')"
  shows "dequeue_left lens (filter P active) st' < dequeue_left lens active st"
proof -
  have "lens ! b - currentOffsets st' b < lens ! b - currentOffsets st b" if "b \<in> set active" for b
    using dequeue_batches_offsets [OF assms(4), of b] min_remaining_le [OF that, of lens st] assms(2,3) that by fastforce
  then have "sum_list (map (\<lambda>b. lens ! b - currentOffsets st' b) active) < dequeue_left lens active st"
    unfolding dequeue_left_def using assms(1) by (intro sum_list_strict_mono) auto
  moreover have "sum_list (map f (filter P xs)) \<le> sum_list (map f xs)" for f :: "nat \<Rightarrow> nat" and xs
    by (induction xs) auto
  ultimately show ?thesis unfolding dequeue_left_def using le_less_trans by blast
qed

function dequeue_loop ::
  "cipher_mode \<Rightarrow> bool \<Rightarrow> u8 list \<Rightarrow> nat \<Rightarrow> u8 list list \<Rightarrow> nat list \<Rightarrow> nat list \<Rightarrow> dequeue_state \<Rightarrow>
   (alc_error \<times> nat list \<times> dequeue_state) option" where
  "dequeue_loop mode multi pKey nRounds pData lens active st =
     (if 2 < length active then
        let minLen = min_remaining lens active st div 16 * 16 in
        if minLen = 0 then Some (ALC_ERROR_NONE, active, st)
        else
          case dequeue_batches mode multi pKey nRounds pData minLen active st of
            None \<Rightarrow> None
          | Some (err, st') \<Rightarrow>
              if err \<noteq> ALC_ERROR_NONE then Some (err, active, st')
              else dequeue_loop mode multi pKey nRounds pData lens (filter (\<lambda>b. currentOffsets st' b < lens ! b) active) st'
      else Some (ALC_ERROR_NONE, active, st))"
  by pat_completeness auto
termination
proof (relation "measure (\<lambda>(mode, multi, pKey, nRounds, pData, lens, active, st). dequeue_left lens active st)", goal_cases)
  case (2 mode multi pKey nRounds pData lens active st minLen r err st')
  then have "active \<noteq> []" "0 < minLen" "minLen \<le> min_remaining lens active st"
    and "dequeue_batches mode multi pKey nRounds pData minLen active st = Some (ALC_ERROR_NONE, st')"
    by (auto simp: div_times_less_eq_dividend)
  then show ?case using dequeue_left_less by simp
qed simp

declare dequeue_loop.simps [simp del]

section \<open>Dequeue\<close>

text \<open>What remains of one buffer, whole blocks first.\<close>

definition dequeue_left_of :: "nat list \<Rightarrow> dequeue_state \<Rightarrow> nat \<Rightarrow> nat" where
  "dequeue_left_of lens st b = lens ! b - currentOffsets st b"

text \<open>When two buffers are left, or one, their whole blocks are encrypted together.\<close>

definition dequeue_rest ::
  "cipher_mode \<Rightarrow> bool \<Rightarrow> u8 list \<Rightarrow> nat \<Rightarrow> u8 list list \<Rightarrow> nat list \<Rightarrow> nat list \<Rightarrow> dequeue_state \<Rightarrow> (alc_error \<times> dequeue_state) option" where
  "dequeue_rest mode multi pKey nRounds pData lens active st =
     (if length active = 2 \<or> length active = 1 then
        let minLen = (if length active = 2
                      then min (dequeue_left_of lens st (active ! 0)) (dequeue_left_of lens st (active ! 1))
                      else dequeue_left_of lens st (active ! 0));
            alignedLen = minLen div 16 * 16
        in if 0 < alignedLen then dequeue_batch mode multi pKey nRounds pData alignedLen active st
           else Some (ALC_ERROR_NONE, st)
      else Some (ALC_ERROR_NONE, st))"

text \<open>The bytes that are left of each buffer, one buffer after the other.\<close>

fun dequeue_tails ::
  "cipher_mode \<Rightarrow> bool \<Rightarrow> u8 list \<Rightarrow> nat \<Rightarrow> u8 list list \<Rightarrow> nat list \<Rightarrow> nat list \<Rightarrow> dequeue_state \<Rightarrow> dequeue_state" where
  "dequeue_tails mode multi pKey nRounds pData lens [] st = st"
| "dequeue_tails mode multi pKey nRounds pData lens (i # is) st =
     (let remaining = dequeue_left_of lens st i in
      dequeue_tails mode multi pKey nRounds pData lens is
        (if 0 < remaining then
           let (out, iv) = EncryptMode_zen mode multi (take remaining (drop (currentOffsets st i) (pData ! i))) pKey nRounds (dq_ivs st i)
           in st\<lparr>dq_out := (dq_out st)(i := write_at (currentOffsets st i) out (dq_out st i)), dq_ivs := (dq_ivs st)(i := iv)\<rparr>
         else st))"

definition dequeue_zen4 ::
  "cipher_mode \<Rightarrow> bool \<Rightarrow> u8 list \<Rightarrow> nat \<Rightarrow> u8 list list \<Rightarrow> nat list \<Rightarrow> nat \<Rightarrow> dequeue_state \<Rightarrow> (alc_error \<times> dequeue_state) option" where
  "dequeue_zen4 mode multi pKey nRounds pData lens numBuffers st = do {
     (err, active, st) \<leftarrow> dequeue_loop mode multi pKey nRounds pData lens [0..<numBuffers] st;
     if err \<noteq> ALC_ERROR_NONE then Some (err, st)
     else do {
       (err, st) \<leftarrow> dequeue_rest mode multi pKey nRounds pData lens active st;
       if err \<noteq> ALC_ERROR_NONE then Some (err, st)
       else Some (ALC_ERROR_NONE, dequeue_tails mode multi pKey nRounds pData lens [0..<numBuffers] st)
     }
   }"

text \<open>The memory the call reads and writes is there.\<close>

definition dequeue_valid :: "u8 list list \<Rightarrow> nat \<Rightarrow> nat list \<Rightarrow> multibuffer_storage \<Rightarrow> bool" where
  "dequeue_valid pCipherText numBuffers lens b \<longleftrightarrow>
     (case m_pData b of
        None \<Rightarrow> numBuffers = 0
      | Some pData \<Rightarrow> numBuffers \<le> length pData \<and> (\<forall>i<numBuffers. lens ! i \<le> length (pData ! i))) \<and>
     numBuffers \<le> length pCipherText \<and> numBuffers \<le> length lens \<and> numBuffers \<le> length (m_ivs b) \<and>
     (\<forall>i<numBuffers. lens ! i \<le> length (pCipherText ! i))"

text \<open>
  Before Zen 4 each buffer is encrypted by itself, which is the tails of buffers that nothing has
  been done of. The number of buffers is not checked there.
\<close>

definition AesGeneric_dequeue ::
  "cipher_mode \<Rightarrow> arch_level \<Rightarrow> bool \<Rightarrow> u8 list list \<Rightarrow> nat \<Rightarrow> nat list option \<Rightarrow> aes_generic \<Rightarrow>
   (alc_error \<times> u8 list list \<times> aes_generic) option" where
  "AesGeneric_dequeue mode arch multi pCipherText numBuffers pLengths s =
     (let k = ag_keyManager s; b = ag_multibuffer s;
          actualLengths = (case pLengths of Some l \<Rightarrow> l | None \<Rightarrow> m_bufferLengths b);
          pKey = m_round_key_enc (m_rijndael k); nRounds = m_nrounds (m_rijndael k);
          pData = (case m_pData b of Some d \<Rightarrow> d | None \<Rightarrow> []);
          st = \<lparr>currentOffsets = (\<lambda>_. 0), dq_out = (!) pCipherText, dq_ivs = (!) (m_ivs b)\<rparr> in
      if \<not> SupportsMultibuffer mode then Some (ALC_ERROR_NOT_SUPPORTED, pCipherText, s)
      else if \<not> m_isKeySet k then Some (ALC_ERROR_BAD_STATE, pCipherText, s)
      else if arch_rank eZen4 \<le> arch_rank arch \<and> numBuffers > 127 then Some (ALC_ERROR_INVALID_ARG, pCipherText, s)
      else if \<not> dequeue_valid pCipherText numBuffers actualLengths b then None
      else do {
        (err, st) \<leftarrow> (if arch_rank arch < arch_rank eZen4
                     then Some (ALC_ERROR_NONE, dequeue_tails mode multi pKey nRounds pData actualLengths [0..<numBuffers] st)
                     else dequeue_zen4 mode multi pKey nRounds pData actualLengths numBuffers st);
        Some (err, map (dq_out st) [0..<length pCipherText],
          s\<lparr>ag_multibuffer := b\<lparr>m_ivs := map (dq_ivs st) [0..<length (m_ivs b)]\<rparr>\<rparr>)
      })"

section \<open>Every buffer is encrypted by the mode\<close>

definition multi_step :: "cipher_mode \<Rightarrow> (u8 list \<Rightarrow> u8 list) \<Rightarrow> mode_step" where
  "multi_step mode E = (if mode = eAesCBC then cbc_enc E else cfb_enc E)"

lemma multi_step_block:
  assumes "keys_compute E pk nr" "is_block p" "is_block v"
  shows "is_block (fst (multi_step mode E p v)) \<and> is_block (snd (multi_step mode E p v))"
  using assms keys_computeD(3) [OF assms(1)] by (simp add: multi_step_def cbc_enc_def cfb_enc_def Let_def)

lemma multi_step_blocks:
  assumes E: "keys_compute E pk nr" and l: "16 * n \<le> length x" "is_block v"
  shows "length (fst (mode_blocks (multi_step mode E) n x v)) = 16 * n" and "is_block (snd (mode_blocks (multi_step mode E) n x v))"
proof -
  show "length (fst (mode_blocks (multi_step mode E) n x v)) = 16 * n"
    by (rule length_mode_blocks [where P = is_block, OF _ l]) (rule multi_step_block [OF E])
  show "is_block (snd (mode_blocks (multi_step mode E) n x v))"
    by (rule mode_blocks_keeps [where P = is_block, OF _ l]) (rule conjunct2 [OF multi_step_block [OF E]])
qed

lemma EncryptMode_zen_modes:
  assumes "keys_compute E pk nr" "is_block v"
  shows "EncryptMode_zen mode multi m pk nr v = (let (out, s) = mode_bytes (multi_step mode E) m v in (out, if multi then s else v))"
  using EncryptCbc_modes [OF assms] EncryptCfb_modes [OF assms] by (simp add: EncryptMode_zen_def multi_step_def)

lemma multi_step_lanes:
  assumes "keys_compute E pk nr"
    and "\<And>bs. \<forall>b\<in>set bs. is_block b \<Longrightarrow> enc bs = map E bs"
  shows "lanes_do (multi_step mode E) ((if mode = eAesCBC then cbc_lanes else cfb_lanes) enc)"
  using cbc_lanes_do [OF assms] cfb_lanes_do [OF assms] by (simp add: multi_step_def)

lemma dequeue_kernel_modes:
  assumes E: "keys_compute E pk nr" and nr: "nr \<in> {10, 12, 14}" and n: "0 < n" "len = 16 * n"
    and xs: "\<forall>x\<in>set xs. len \<le> length x" and vs: "\<forall>v\<in>set vs. is_block v" and l: "length xs = length vs"
    and k: "length vs \<in> {1, 2, 4, 8, 16, 32, 64}"
  shows "dequeue_kernel mode multi pk nr len xs vs = Some (ALC_ERROR_NONE, map2 (\<lambda>x v. fst (mode_blocks (multi_step mode E) n x v)) xs vs,
      if multi then map2 (\<lambda>x v. snd (mode_blocks (multi_step mode E) n x v)) xs vs else vs)"
proof -
  let ?step = "if mode = eAesCBC then cbc_lanes else cfb_lanes"
  have mb: "length vs = 2 \<Longrightarrow> encrypt_zen3_mb ?step multi xs len pk nr vs = Some (ALC_ERROR_NONE,
        map2 (\<lambda>x v. fst (mode_blocks (multi_step mode E) n x v)) xs vs,
        if multi then map2 (\<lambda>x v. snd (mode_blocks (multi_step mode E) n x v)) xs vs else vs)"
    "length vs \<in> {4, 8, 16, 32, 64} \<Longrightarrow> encrypt_zen4_mb ?step multi xs len pk nr vs = (ALC_ERROR_NONE,
        map2 (\<lambda>x v. fst (mode_blocks (multi_step mode E) n x v)) xs vs,
        if multi then map2 (\<lambda>x v. snd (mode_blocks (multi_step mode E) n x v)) xs vs else vs)"
    by (rule encrypt_mb_modes [OF _ E nr n xs vs l], rule multi_step_lanes [OF E], assumption+)+
  consider "length vs = 1" | "length vs = 2" | "length vs \<in> {4, 8, 16, 32, 64}" using k by auto
  then show ?thesis
  proof cases
    case 1
    then obtain v where v: "vs = [v]" by (auto simp: length_Suc_conv)
    then obtain x where x: "xs = [x]" using l by (auto simp: length_Suc_conv)
    have "16 * n \<le> length x" "is_block v" using xs vs n(2) by (simp_all add: x v)
    then have "mode_bytes (multi_step mode E) (take len x) v = mode_blocks (multi_step mode E) n x v"
      by (simp add: mode_bytes_def n(2) mode_blocks_take split_def min_absorb2)
    then show ?thesis
      using EncryptMode_zen_modes [OF E \<open>is_block v\<close>, of mode multi "take len x"] by (simp add: dequeue_kernel_def x v split_def Let_def)
  next
    case 2
    then show ?thesis
      using mb(1) by (simp add: dequeue_kernel_def EncryptCbc_zen3_mb_def EncryptCfb_zen3_mb_def split: if_splits)
  next
    case 3
    then have "length vs \<noteq> 1" "length vs \<noteq> 2" "\<not> 128 < length vs" by auto
    then show ?thesis
      using mb(2) [OF 3] by (simp add: dequeue_kernel_def EncryptCbc_zen4_mb_def EncryptCfb_zen4_mb_def split: if_splits)
  qed
qed

text \<open>The state after \<open>n\<close> blocks of each of the buffers \<open>bs\<close>.\<close>

definition batch_result :: "mode_step \<Rightarrow> bool \<Rightarrow> u8 list list \<Rightarrow> nat \<Rightarrow> nat list \<Rightarrow> dequeue_state \<Rightarrow> dequeue_state" where
  "batch_result g multi pData n bs st =
     (let r = (\<lambda>b. mode_blocks g n (drop (currentOffsets st b) (pData ! b)) (dq_ivs st b)) in
      \<lparr>currentOffsets = (\<lambda>b. if b \<in> set bs then currentOffsets st b + 16 * n else currentOffsets st b),
       dq_out = (\<lambda>b. if b \<in> set bs then write_at (currentOffsets st b) (fst (r b)) (dq_out st b) else dq_out st b),
       dq_ivs = (\<lambda>b. if b \<in> set bs \<and> multi then snd (r b) else dq_ivs st b)\<rparr>)"

lemma store_batch_map:
  "distinct bs \<Longrightarrow> store_batch len (zip bs (zip (map f bs) (map h bs))) st =
    st\<lparr>dq_out := (\<lambda>b. if b \<in> set bs then write_at (currentOffsets st b) (f b) (dq_out st b) else dq_out st b),
       dq_ivs := (\<lambda>b. if b \<in> set bs then h b else dq_ivs st b)\<rparr>"
  by (induction bs arbitrary: st) (auto simp: fun_eq_iff)

lemma map2_map_self: "map2 f (map g xs) (map h xs) = map (\<lambda>x. f (g x) (h x)) xs"
  by (induction xs) simp_all

text \<open>The buffers of a batch can be read to the end of the batch.\<close>

definition batch_fits :: "u8 list list \<Rightarrow> nat \<Rightarrow> nat list \<Rightarrow> dequeue_state \<Rightarrow> bool" where
  "batch_fits pData n bs st \<longleftrightarrow> distinct bs \<and> (\<forall>b\<in>set bs. currentOffsets st b + 16 * n \<le> length (pData ! b) \<and> is_block (dq_ivs st b))"

lemma dequeue_batch_result:
  assumes E: "keys_compute E pk nr" and nr: "nr \<in> {10, 12, 14}" and n: "0 < n"
    and bs: "batch_fits pData n bs st" "length bs \<in> {1, 2, 4, 8, 16, 32, 64}"
  shows "dequeue_batch mode multi pk nr pData (16 * n) bs st
    = Some (ALC_ERROR_NONE, batch_result (multi_step mode E) multi pData n bs st)"
proof -
  let ?xs = "map (\<lambda>b. drop (currentOffsets st b) (pData ! b)) bs" and ?vs = "map (dq_ivs st) bs"
  have d: "distinct bs" using bs(1) by (simp add: batch_fits_def)
  have xs: "\<forall>x\<in>set ?xs. 16 * n \<le> length x" and vs: "\<forall>v\<in>set ?vs. is_block v" using bs(1) by (auto simp: batch_fits_def)
  have k: "length ?vs \<in> {1, 2, 4, 8, 16, 32, 64}" using bs(2) by simp
  let ?r = "\<lambda>b. mode_blocks (multi_step mode E) n (drop (currentOffsets st b) (pData ! b)) (dq_ivs st b)"
  define f h where fh: "f = (\<lambda>b. fst (?r b))" "h = (\<lambda>b. if multi then snd (?r b) else dq_ivs st b)"
  have kernel: "dequeue_kernel mode multi pk nr (16 * n) ?xs ?vs = Some (ALC_ERROR_NONE, map f bs, map h bs)"
    using dequeue_kernel_modes [OF E nr n refl xs vs _ k, of mode multi] by (simp add: map2_map_self fh)
  have "dequeue_batch mode multi pk nr pData (16 * n) bs st
      = Some (ALC_ERROR_NONE, (store_batch (16 * n) (zip bs (zip (map f bs) (map h bs))) st)
          \<lparr>currentOffsets := (\<lambda>b. if b \<in> set bs then currentOffsets st b + 16 * n else currentOffsets st b)\<rparr>)"
    by (simp only: dequeue_batch_def kernel Option.bind.simps prod.case Let_def simp_thms if_False store_batch_offsets)
  also have "\<dots> = Some (ALC_ERROR_NONE, batch_result (multi_step mode E) multi pData n bs st)"
    unfolding store_batch_map [OF d] batch_result_def Let_def fh by (auto simp: fun_eq_iff)
  finally show ?thesis .
qed

lemma top_bit_power: "0 < n \<Longrightarrow> n < 2 ^ k \<Longrightarrow> \<exists>i<k. top_bit n = 2 ^ i"
proof (induction k arbitrary: n)
  case (Suc k)
  show ?case
  proof (cases "n < 2")
    case True
    then have "n = 1" using Suc.prems(1) by simp
    then have "top_bit n = 2 ^ 0" using top_bit.simps [of n] by simp
    then show ?thesis by blast
  next
    case False
    moreover have "n div 2 < 2 ^ k" using Suc.prems(2) by (simp add: less_mult_imp_div_less mult.commute)
    ultimately obtain i where "i < k" "top_bit (n div 2) = 2 ^ i" using Suc.IH [of "n div 2"] by auto
    then have "Suc i < Suc k" "top_bit n = 2 ^ Suc i" using False top_bit.simps [of n] by simp_all
    then show ?thesis by blast
  qed
qed simp

lemma top_bit_lanes:
  assumes "0 < n" "n \<le> 127"
  shows "top_bit n \<in> {1, 2, 4, 8, 16, 32, 64}"
proof -
  obtain i where i: "i < 7" "top_bit n = 2 ^ i" using top_bit_power [of n 7] assms by auto
  then have "i \<in> {0, 1, 2, 3, 4, 5, 6}" by auto
  then show ?thesis using i(2) by auto
qed

lemma batch_result_append:
  assumes "distinct (as @ bs)"
  shows "batch_result g multi pData n bs (batch_result g multi pData n as st) = batch_result g multi pData n (as @ bs) st"
  using assms by (auto simp: batch_result_def Let_def fun_eq_iff)

lemma batch_fits_append:
  "batch_fits pData n (as @ bs) st \<Longrightarrow> batch_fits pData n as st \<and> batch_fits pData n bs (batch_result g multi pData n as st)"
  by (auto simp: batch_fits_def batch_result_def Let_def)

lemma dequeue_batches_result:
  assumes E: "keys_compute E pk nr" and nr: "nr \<in> {10, 12, 14}" and n: "0 < n"
  shows "batch_fits pData n active st \<Longrightarrow> length active \<le> 127 \<Longrightarrow>
    dequeue_batches mode multi pk nr pData (16 * n) active st
      = Some (ALC_ERROR_NONE, batch_result (multi_step mode E) multi pData n active st)"
proof (induction "length active" arbitrary: active st rule: less_induct)
  case less
  let ?k = "top_bit (length active)" and ?R = "batch_result (multi_step mode E) multi pData n"
  show ?case
  proof (cases "active = []")
    case True
    then show ?thesis
      using dequeue_batches.simps [of mode multi pk nr pData "16 * n" active st] by (simp add: batch_result_def)
  next
    case False
    then have k: "0 < ?k" "?k \<le> length active" using top_bit_bounds by auto
    have d: "distinct (take ?k active @ drop ?k active)" using less.prems(1) by (simp add: batch_fits_def)
    have fits: "batch_fits pData n (take ?k active) st" "batch_fits pData n (drop ?k active) (?R (take ?k active) st)"
      using batch_fits_append [of pData n "take ?k active" "drop ?k active" st] less.prems(1) by simp_all
    have "length (take ?k active) \<in> {1, 2, 4, 8, 16, 32, 64}"
      using top_bit_lanes [of "length active"] False less.prems(2) k(2) by (simp add: min_absorb2)
    note b = dequeue_batch_result [OF E nr n fits(1) this, of mode multi]
    have "dequeue_batches mode multi pk nr pData (16 * n) (drop ?k active) (?R (take ?k active) st)
        = Some (ALC_ERROR_NONE, ?R (drop ?k active) (?R (take ?k active) st))"
      using less.hyps [OF _ fits(2)] k less.prems(2) by simp
    then show ?thesis
      using False b batch_result_append [OF d] dequeue_batches.simps [of mode multi pk nr pData "16 * n" active st] by simp
  qed
qed

text \<open>
  What holds between the steps under \<^verbatim>\<open>AES_MULTI_UPDATE\<close>: of each buffer some blocks are done, as the
  mode does them from the first IV on.
\<close>

definition dequeue_inv ::
  "mode_step \<Rightarrow> u8 list list \<Rightarrow> nat list \<Rightarrow> nat \<Rightarrow> (nat \<Rightarrow> u8 list) \<Rightarrow> (nat \<Rightarrow> u8 list) \<Rightarrow> dequeue_state \<Rightarrow> bool" where
  "dequeue_inv g pData lens N dest iv st \<longleftrightarrow> (\<forall>b<N. \<exists>k. currentOffsets st b = 16 * k \<and> 16 * k \<le> lens ! b \<and>
     dq_out st b = write_at 0 (fst (mode_blocks g k (pData ! b) (iv b))) (dest b) \<and>
     dq_ivs st b = snd (mode_blocks g k (pData ! b) (iv b)))"

text \<open>The buffers are long enough, and the IVs are blocks.\<close>

definition buffers_ok :: "u8 list list \<Rightarrow> nat list \<Rightarrow> nat \<Rightarrow> (nat \<Rightarrow> u8 list) \<Rightarrow> (nat \<Rightarrow> u8 list) \<Rightarrow> bool" where
  "buffers_ok pData lens N dest iv \<longleftrightarrow>
     (\<forall>b<N. lens ! b \<le> length (pData ! b) \<and> lens ! b \<le> length (dest b) \<and> is_block (iv b))"

lemma write_at_twice:
  "length a + length b \<le> length d \<Longrightarrow> write_at (length a) b (write_at 0 a d) = write_at 0 (a @ b) d"
  by (simp add: write_at_def add.commute)

lemma dequeue_inv_fits:
  assumes E: "keys_compute E pk nr" and inv: "dequeue_inv (multi_step mode E) pData lens N dest iv st"
    and ok: "buffers_ok pData lens N dest iv" and bs: "distinct bs" "set bs \<subseteq> {..<N}"
    and n: "\<And>b. b \<in> set bs \<Longrightarrow> 16 * n \<le> lens ! b - currentOffsets st b"
  shows "batch_fits pData n bs st" and "dequeue_inv (multi_step mode E) pData lens N dest iv (batch_result (multi_step mode E) True pData n bs st)"
proof -
  let ?g = "multi_step mode E"
  note len = multi_step_blocks [OF E, where mode = mode]
  have one: "currentOffsets st b + 16 * n \<le> length (pData ! b) \<and> is_block (dq_ivs st b)" if "b \<in> set bs" for b
  proof -
    have b: "b < N" using that bs(2) by auto
    then obtain k where k: "currentOffsets st b = 16 * k" "16 * k \<le> lens ! b" "dq_ivs st b = snd (mode_blocks ?g k (pData ! b) (iv b))"
      using inv by (auto simp: dequeue_inv_def)
    have o: "lens ! b \<le> length (pData ! b)" "is_block (iv b)" using ok b by (simp_all add: buffers_ok_def)
    then have "is_block (dq_ivs st b)" unfolding k(3) using k(2) by (intro len(2)) simp_all
    then show ?thesis using n [OF that] k(1,2) o(1) by simp
  qed
  then show "batch_fits pData n bs st" using bs(1) by (simp add: batch_fits_def)
  show "dequeue_inv ?g pData lens N dest iv (batch_result ?g True pData n bs st)"
    unfolding dequeue_inv_def
  proof (intro allI impI)
    fix b assume b: "b < N"
    obtain k where k: "currentOffsets st b = 16 * k" "16 * k \<le> lens ! b" "dq_out st b = write_at 0 (fst (mode_blocks ?g k (pData ! b) (iv b))) (dest b)"
      "dq_ivs st b = snd (mode_blocks ?g k (pData ! b) (iv b))" using inv b by (auto simp: dequeue_inv_def)
    have o: "lens ! b \<le> length (pData ! b)" "is_block (iv b)" "lens ! b \<le> length (dest b)" using ok b by (simp_all add: buffers_ok_def)
    define j where "j = (if b \<in> set bs then n else 0)"
    have j: "16 * (k + j) \<le> lens ! b" using n [of b] k(1,2) by (auto simp: j_def)
    obtain o1 s1 where 1: "mode_blocks ?g k (pData ! b) (iv b) = (o1, s1)" by fastforce
    obtain o2 s2 where 2: "mode_blocks ?g j (drop (16 * k) (pData ! b)) s1 = (o2, s2)" by fastforce
    have l1: "length o1 = 16 * k" "is_block s1" using len [of k "pData ! b" "iv b"] k(2) o 1 by auto
    have l2: "length o2 = 16 * j" using len(1) [of j "drop (16 * k) (pData ! b)" s1] j o(1) l1(2) 2 by auto
    have w: "write_at (16 * k) o2 (write_at 0 o1 (dest b)) = write_at 0 (o1 @ o2) (dest b)"
      using write_at_twice [of o1 o2 "dest b"] l1(1) l2 j o(3) by simp
    have z: "j = 0 \<Longrightarrow> o2 = [] \<and> s2 = s1" using 2 by simp
    show "\<exists>i. currentOffsets (batch_result ?g True pData n bs st) b = 16 * i \<and> 16 * i \<le> lens ! b \<and>
        dq_out (batch_result ?g True pData n bs st) b = write_at 0 (fst (mode_blocks ?g i (pData ! b) (iv b))) (dest b) \<and>
        dq_ivs (batch_result ?g True pData n bs st) b = snd (mode_blocks ?g i (pData ! b) (iv b))"
      using j k 1 2 w z by (intro exI [of _ "k + j"]) (auto simp: batch_result_def Let_def mode_blocks_add j_def split: if_splits)
  qed
qed

lemma dequeue_loop_inv:
  assumes E: "keys_compute E pk nr" and nr: "nr \<in> {10, 12, 14}" and ok: "buffers_ok pData lens N dest iv"
  shows "dequeue_inv (multi_step mode E) pData lens N dest iv st \<Longrightarrow> distinct active \<Longrightarrow> set active \<subseteq> {..<N} \<Longrightarrow> length active \<le> 127 \<Longrightarrow>
    \<exists>active' st'. dequeue_loop mode True pk nr pData lens active st = Some (ALC_ERROR_NONE, active', st') \<and>
      dequeue_inv (multi_step mode E) pData lens N dest iv st' \<and> distinct active' \<and> set active' \<subseteq> {..<N}"
proof (induction "dequeue_left lens active st" arbitrary: active st rule: less_induct)
  case less
  define n where "n = min_remaining lens active st div 16"
  note simps = dequeue_loop.simps [of mode True pk nr pData lens active st]
  show ?case
  proof (cases "2 < length active \<and> 0 < n")
    case False
    then have "dequeue_loop mode True pk nr pData lens active st = Some (ALC_ERROR_NONE, active, st)"
      using simps by (auto simp: n_def [symmetric])
    then show ?thesis using less.prems by blast
  next
    case True
    let ?st = "batch_result (multi_step mode E) True pData n active st"
    have le: "16 * n \<le> min_remaining lens active st" by (simp add: n_def)
    then have n: "16 * n \<le> lens ! b - currentOffsets st b" if "b \<in> set active" for b
      using min_remaining_le [OF that, of lens st] by simp
    note fits = dequeue_inv_fits [OF E less.prems(1) ok less.prems(2,3) n]
    have b: "dequeue_batches mode True pk nr pData (16 * n) active st = Some (ALC_ERROR_NONE, ?st)"
      using dequeue_batches_result [OF E nr _ fits(1) less.prems(4), of mode True] True by simp
    let ?active = "filter (\<lambda>b. currentOffsets ?st b < lens ! b) active"
    have "active \<noteq> []" "0 < 16 * n" using True by auto
    then have less': "dequeue_left lens ?active ?st < dequeue_left lens active st"
      using le b by (rule dequeue_left_less)
    have "length ?active \<le> 127" using less.prems(4) le_trans [OF length_filter_le] by blast
    moreover have "distinct ?active" "set ?active \<subseteq> {..<N}" using less.prems(2,3) by auto
    ultimately obtain active' st' where r: "dequeue_loop mode True pk nr pData lens ?active ?st = Some (ALC_ERROR_NONE, active', st')"
        "dequeue_inv (multi_step mode E) pData lens N dest iv st'" "distinct active'" "set active' \<subseteq> {..<N}"
      using less.hyps [OF less' fits(2)] by blast
    have "dequeue_loop mode True pk nr pData lens active st = Some (ALC_ERROR_NONE, active', st')"
      using simps b r(1) True by (simp add: n_def [symmetric] mult.commute [of n])
    then show ?thesis using r(2-4) by blast
  qed
qed

lemma dequeue_rest_inv:
  assumes E: "keys_compute E pk nr" and nr: "nr \<in> {10, 12, 14}" and ok: "buffers_ok pData lens N dest iv"
    and inv: "dequeue_inv (multi_step mode E) pData lens N dest iv st" and active: "distinct active" "set active \<subseteq> {..<N}"
  shows "\<exists>st'. dequeue_rest mode True pk nr pData lens active st = Some (ALC_ERROR_NONE, st') \<and>
    dequeue_inv (multi_step mode E) pData lens N dest iv st'"
proof -
  define len where "len = (if length active = 2 then min (dequeue_left_of lens st (active ! 0)) (dequeue_left_of lens st (active ! 1))
      else dequeue_left_of lens st (active ! 0))"
  define n where "n = len div 16"
  have le: "16 * n \<le> len" by (simp add: n_def)
  show ?thesis
  proof (cases "(length active = 2 \<or> length active = 1) \<and> 0 < n")
    case False
    then have "dequeue_rest mode True pk nr pData lens active st = Some (ALC_ERROR_NONE, st)"
      by (auto simp: dequeue_rest_def Let_def len_def [symmetric] n_def [symmetric])
    then show ?thesis using inv by blast
  next
    case True
    have n: "16 * n \<le> lens ! b - currentOffsets st b" if b: "b \<in> set active" for b
    proof -
      obtain i where "i < length active" "b = active ! i" using b by (auto simp: in_set_conv_nth)
      moreover from this True have "i = 0 \<or> length active = 2 \<and> i = 1" by auto
      ultimately have "len \<le> dequeue_left_of lens st b" using True by (auto simp: len_def)
      then show ?thesis using le by (simp add: dequeue_left_of_def)
    qed
    note fits = dequeue_inv_fits [OF E inv ok active n]
    have "length active \<in> {1, 2, 4, 8, 16, 32, 64}" using True by auto
    then have "dequeue_batch mode True pk nr pData (16 * n) active st
        = Some (ALC_ERROR_NONE, batch_result (multi_step mode E) True pData n active st)"
      using True by (intro dequeue_batch_result [OF E nr _ fits(1)]) simp_all
    then have "dequeue_rest mode True pk nr pData lens active st = Some (ALC_ERROR_NONE, batch_result (multi_step mode E) True pData n active st)"
      using True by (simp add: dequeue_rest_def Let_def len_def [symmetric] n_def [symmetric] mult.commute [of n])
    then show ?thesis using fits(2) by blast
  qed
qed

lemma dequeue_tails_out:
  "distinct is \<Longrightarrow> dq_out (dequeue_tails mode multi pk nr pData lens is st) b =
    (if b \<in> set is \<and> 0 < dequeue_left_of lens st b
     then write_at (currentOffsets st b) (fst (EncryptMode_zen mode multi (take (dequeue_left_of lens st b)
            (drop (currentOffsets st b) (pData ! b))) pk nr (dq_ivs st b))) (dq_out st b)
     else dq_out st b)"
proof (induction "is" arbitrary: st)
  case (Cons i "is")
  then show ?case by (auto simp: Let_def split_def dequeue_left_of_def)
qed simp

lemma mode_bytes_from:
  assumes "16 * k \<le> length xs"
  shows "fst (mode_bytes g xs v) = fst (mode_blocks g k xs v) @ fst (mode_bytes g (drop (16 * k) xs) (snd (mode_blocks g k xs v)))"
proof -
  obtain c where c: "length xs = 16 * k + c" using assms le_Suc_ex by blast
  then have "length xs div 16 = k + c div 16" "length xs mod 16 = c mod 16" by simp_all
  then show ?thesis
    using c by (simp add: mode_bytes_def mode_blocks_add split_def Let_def algebra_simps)
qed

text \<open>The tails end what the invariant describes.\<close>

lemma dequeue_tails_inv:
  assumes E: "keys_compute E pk nr" and ok: "buffers_ok pData lens N dest iv"
    and inv: "dequeue_inv (multi_step mode E) pData lens N dest iv st" and b: "b < N"
  shows "dq_out (dequeue_tails mode True pk nr pData lens [0..<N] st) b
    = write_at 0 (fst (mode_bytes (multi_step mode E) (take (lens ! b) (pData ! b)) (iv b))) (dest b)"
proof -
  let ?g = "multi_step mode E" and ?x = "take (lens ! b) (pData ! b)"
  obtain k where k: "currentOffsets st b = 16 * k" "16 * k \<le> lens ! b" "dq_out st b = write_at 0 (fst (mode_blocks ?g k (pData ! b) (iv b))) (dest b)"
    "dq_ivs st b = snd (mode_blocks ?g k (pData ! b) (iv b))" using inv b by (auto simp: dequeue_inv_def)
  have o: "lens ! b \<le> length (pData ! b)" "lens ! b \<le> length (dest b)" "is_block (iv b)" using ok b by (simp_all add: buffers_ok_def)
  have l: "length ?x = lens ! b" using o(1) by simp
  have same: "mode_blocks ?g k (pData ! b) (iv b) = mode_blocks ?g k ?x (iv b)"
    using mode_blocks_take [of ?g k "pData ! b"] mode_blocks_take [of ?g k ?x] k(2) by (simp add: min_absorb1)
  have kx: "16 * k \<le> length ?x" using k(2) l by simp
  define o1 s1 where os: "o1 = fst (mode_blocks ?g k ?x (iv b))" "s1 = snd (mode_blocks ?g k ?x (iv b))"
  have l1: "length o1 = 16 * k" unfolding os
    by (rule multi_step_blocks(1) [OF E kx o(3)])
  have s1: "is_block s1" unfolding os
    by (rule multi_step_blocks(2) [OF E kx o(3)])
  define o2 where "o2 = fst (mode_bytes ?g (drop (16 * k) ?x) s1)"
  have "length (fst (mode_bytes ?g (drop (16 * k) ?x) s1)) = length (drop (16 * k) ?x)"
    by (rule length_mode_bytes [OF _ s1]) (rule multi_step_block [OF E])
  then have l2: "length o2 = lens ! b - 16 * k" unfolding o2_def using l by simp
  have t: "take (dequeue_left_of lens st b) (drop (currentOffsets st b) (pData ! b)) = drop (16 * k) ?x"
    "take (dequeue_left_of lens st b) (drop (16 * k) (pData ! b)) = drop (16 * k) ?x"
    using k(1,2) by (simp_all add: dequeue_left_of_def drop_take)
  have out: "dq_out st b = write_at 0 o1 (dest b)" using k(3) by (simp add: same os)
  have iv: "dq_ivs st b = s1" using k(4) by (simp add: same os)
  have all: "fst (mode_bytes ?g ?x (iv b)) = o1 @ o2" unfolding mode_bytes_from [OF kx] os o2_def by (rule refl)
  show ?thesis
  proof (cases "0 < dequeue_left_of lens st b")
    case True
    then have "dq_out (dequeue_tails mode True pk nr pData lens [0..<N] st) b = write_at (length o1) o2 (write_at 0 o1 (dest b))"
      using b unfolding dequeue_tails_out [OF distinct_upt] t iv out k(1) l1 EncryptMode_zen_modes [OF E s1] o2_def by (simp add: split_def)
    then show ?thesis unfolding all using write_at_twice [of o1 o2 "dest b"] l1 l2 o(2) k(2) by simp
  next
    case False
    then have "o2 = []" using l2 k(1) by (simp add: dequeue_left_of_def)
    then show ?thesis unfolding all dequeue_tails_out [OF distinct_upt] using False out by simp
  qed
qed

section \<open>A multi-buffer session\<close>

lemma copy_ivs_all:
  "\<forall>v\<in>set vs. length v = 16 \<Longrightarrow> \<forall>b\<in>set bs. length b = 16 \<Longrightarrow> i + length vs \<le> length bs \<Longrightarrow>
    copy_ivs 16 i (map Some vs) bs = Some (ALC_ERROR_NONE, take i bs @ vs @ drop (i + length vs) bs)"
proof (induction vs arbitrary: i bs)
  case (Cons v vs)
  then have i: "i < length bs" and v: "length v = 16" by simp_all
  then have "length (bs ! i) = 16" using Cons.prems(2) by simp
  then have b: "CopyBlock (bs ! i) 0 (take 16 v) = Some v" using v by (simp add: CopyBlock_def write_at_def)
  have "\<forall>b\<in>set (bs[i := v]). length b = 16" using Cons.prems(2) v by (metis insert_iff set_update_subset_insert subset_iff)
  then have "copy_ivs 16 (i + 1) (map Some vs) (bs[i := v])
      = Some (ALC_ERROR_NONE, take (i + 1) (bs[i := v]) @ vs @ drop (i + 1 + length vs) (bs[i := v]))"
    using Cons.prems(1,3) by (intro Cons.IH) simp_all
  then show ?case using i v b by (simp add: take_Suc_conv_app_nth add.commute [of _ i] not_less)
qed simp

text \<open>The key, the IVs and the plain texts are in an object that is ready for \<^verbatim>\<open>dequeue\<close>.\<close>

definition ag_multi :: "rijndael \<Rightarrow> u8 list list \<Rightarrow> u8 list list \<Rightarrow> nat list \<Rightarrow> aes_generic \<Rightarrow> bool" where
  "ag_multi r ivs pData lens s \<longleftrightarrow> m_rijndael (ag_keyManager s) = r \<and> m_isKeySet (ag_keyManager s) \<and>
     m_pData (ag_multibuffer s) = Some pData \<and> (\<exists>l. m_bufferLengths (ag_multibuffer s) = lens @ l) \<and>
     (\<exists>vs. m_ivs (ag_multibuffer s) = ivs @ vs) \<and> length lens = length ivs"

lemma multibuffer_session:
  assumes nk: "aes_sizes nk nr" and key: "length key = 4 * nk" and mode: "SupportsMultibuffer mode"
    and ivs: "ivs \<noteq> []" "length ivs \<le> 127" "\<forall>v\<in>set ivs. length v = 16" and lens: "length lens = length ivs"
  shows "\<exists>s s' r. multibufferInit mode (Some key) (of_nat (32 * nk)) (map Some ivs) 16 (length ivs) (AesGeneric_ctor (32 * nk))
        = Some (Inl (ALC_ERROR_NONE, s)) \<and>
      AesGeneric_flush mode (Some pData) (Some lens) (length ivs) s = Some (ALC_ERROR_NONE, s') \<and>
      aes_keyed key nk nr r \<and> ag_multi r ivs pData lens s'"
proof -
  let ?c = "AesGeneric_ctor (32 * nk)"
  have w: "ag_ready_for nk ?c" by (rule AesGeneric_ctor_ready_for [OF nk])
  then have k: "m_expectedKeyLen (ag_keyManager ?c) = of_nat (4 * nk)" "length (m_originalKey (ag_keyManager ?c)) = 32"
    "length (m_round_key_enc (m_rijndael (ag_keyManager ?c))) = 512" "length (m_round_key_dec (m_rijndael (ag_keyManager ?c))) = 512"
    by (simp_all add: ag_ready_for_def)
  define bits :: u64 where "bits = of_nat (32 * nk)"
  have bits: "bits \<noteq> 0" using nk unfolding bits_def by (auto simp: aes_sizes_def)
  obtain k' where k': "KeyManager_setKey_with Rijndael_setKey_aesni (Some key) bits (ag_keyManager ?c) = Some (Inl (ALC_ERROR_NONE, k'))"
    "aes_keyed key nk nr (m_rijndael k')" "m_isKeySet k'"
    using setKey_aesni_key [OF nk key k] unfolding bits_def by blast
  let ?s = "?c\<lparr>ag_keyManager := k', ag_stateManager := onKeySet (ag_stateManager ?c)\<rparr>"
  have c: "m_ivs (ag_multibuffer ?c) = replicate 127 (replicate 16 0)" "length (m_bufferLengths (ag_multibuffer ?c)) = 127"
    "length (m_iv (ag_ivManager ?c)) = 128" "m_minLen (ag_ivManager ?c) = 16" "m_maxLen (ag_ivManager ?c) = 16"
    by (simp_all add: AesGeneric_ctor_def IvManager_ctor_def)
  let ?ivs = "ivs @ replicate (127 - length ivs) (replicate 16 0)"
  have copy: "copy_ivs 16 0 (map Some ivs) (replicate 127 (replicate 16 0)) = Some (ALC_ERROR_NONE, ?ivs)"
    using copy_ivs_all [of ivs "replicate 127 (replicate 16 0)" 0] ivs(2,3) by simp
  have "length (hd ivs) = 16" "hd (map Some ivs) = Some (hd ivs)" using ivs(1,3) by (simp_all add: hd_map)
  then obtain m where m: "setIv_ptr (the (hd (map Some ivs))) 16 (ag_ivManager ?c) = Some (ALC_ERROR_NONE, m)"
    using c(3-5) by (simp add: setIv_ptr_def IvManager_setIv_def)
  let ?t = "?s\<lparr>ag_multibuffer := (ag_multibuffer ?c)\<lparr>m_ivs := ?ivs, m_numBuffers := length ivs\<rparr>, ag_ivManager := m,
      ag_stateManager := onIvSet (onKeySet (ag_stateManager ?c))\<rparr>"
  have 1: "multibufferInit mode (Some key) bits (map Some ivs) 16 (length ivs) ?c = Some (Inl (ALC_ERROR_NONE, ?t))"
    using mode ivs(1,2) bits by (simp add: multibufferInit_def k'(1) multibufferInit_ivs_def c(1) copy m Let_def)
  let ?u = "?t\<lparr>ag_multibuffer := (ag_multibuffer ?t)\<lparr>m_pData := Some pData, m_numBuffers := length ivs,
      m_bufferLengths := write_at 0 lens (m_bufferLengths (ag_multibuffer ?c))\<rparr>\<rparr>"
  have 2: "AesGeneric_flush mode (Some pData) (Some lens) (length ivs) ?t = Some (ALC_ERROR_NONE, ?u)"
    using mode ivs(2) lens by (simp add: AesGeneric_flush_def Let_def)
  have "ag_multi (m_rijndael k') ivs pData lens ?u" using k'(3) lens by (simp add: ag_multi_def write_at_def)
  then show ?thesis using 1 2 k'(2) unfolding bits_def by blast
qed

lemma dequeue_inv_start:
  "dequeue_inv g pData lens N dest iv \<lparr>currentOffsets = (\<lambda>_. 0), dq_out = dest, dq_ivs = iv\<rparr>"
  unfolding dequeue_inv_def by (intro allI impI exI [of _ 0]) (simp add: write_at_def)

lemma dequeue_zen4_encrypts:
  assumes E: "keys_compute E pk nr" and nr: "nr \<in> {10, 12, 14}" and ok: "buffers_ok pData lens N dest iv" and N: "N \<le> 127"
  shows "\<exists>st'. dequeue_zen4 mode True pk nr pData lens N \<lparr>currentOffsets = (\<lambda>_. 0), dq_out = dest, dq_ivs = iv\<rparr> = Some (ALC_ERROR_NONE, st') \<and>
    (\<forall>b<N. dq_out st' b = write_at 0 (fst (mode_bytes (multi_step mode E) (take (lens ! b) (pData ! b)) (iv b))) (dest b))"
proof -
  have "distinct [0..<N]" "set [0..<N] \<subseteq> {..<N}" "length [0..<N] \<le> 127" using N by auto
  from dequeue_loop_inv [OF E nr ok dequeue_inv_start this] obtain active st1 where 1:
      "dequeue_loop mode True pk nr pData lens [0..<N] \<lparr>currentOffsets = (\<lambda>_. 0), dq_out = dest, dq_ivs = iv\<rparr> = Some (ALC_ERROR_NONE, active, st1)"
      "dequeue_inv (multi_step mode E) pData lens N dest iv st1" "distinct active" "set active \<subseteq> {..<N}" by blast
  obtain st2 where 2: "dequeue_rest mode True pk nr pData lens active st1 = Some (ALC_ERROR_NONE, st2)"
      "dequeue_inv (multi_step mode E) pData lens N dest iv st2"
    using dequeue_rest_inv [OF E nr ok 1(2-4)] by blast
  have "dequeue_zen4 mode True pk nr pData lens N \<lparr>currentOffsets = (\<lambda>_. 0), dq_out = dest, dq_ivs = iv\<rparr>
      = Some (ALC_ERROR_NONE, dequeue_tails mode True pk nr pData lens [0..<N] st2)"
    by (simp add: dequeue_zen4_def 1(1) 2(1))
  then show ?thesis using dequeue_tails_inv [OF E ok 2(2)] by blast
qed

lemma ag_multi_get:
  assumes "ag_multi r ivs pData lens s" "length ivs = N"
  shows "i < N \<Longrightarrow> m_ivs (ag_multibuffer s) ! i = ivs ! i" "i < N \<Longrightarrow> m_bufferLengths (ag_multibuffer s) ! i = lens ! i"
    "N \<le> length (m_ivs (ag_multibuffer s))" "N \<le> length (m_bufferLengths (ag_multibuffer s))"
  using assms by (auto simp: ag_multi_def nth_append)

lemma AesGeneric_dequeue_start:
  assumes s: "ag_multi r ivs pData lens s" and mode: "SupportsMultibuffer mode" and N: "N \<le> 127" "length ivs = N" "length pData = N" "length dest = N"
    and l: "\<forall>i<N. lens ! i \<le> length (pData ! i) \<and> lens ! i \<le> length (dest ! i)"
    and run: "(if arch_rank arch < arch_rank eZen4
        then Some (ALC_ERROR_NONE, dequeue_tails mode multi (m_round_key_enc r) (m_nrounds r) pData (m_bufferLengths (ag_multibuffer s)) [0..<N]
               \<lparr>currentOffsets = (\<lambda>_. 0), dq_out = (!) dest, dq_ivs = (!) (m_ivs (ag_multibuffer s))\<rparr>)
        else dequeue_zen4 mode multi (m_round_key_enc r) (m_nrounds r) pData (m_bufferLengths (ag_multibuffer s)) N
               \<lparr>currentOffsets = (\<lambda>_. 0), dq_out = (!) dest, dq_ivs = (!) (m_ivs (ag_multibuffer s))\<rparr>)
      = Some (ALC_ERROR_NONE, st)"
  shows "\<exists>s'. AesGeneric_dequeue mode arch multi dest N None s = Some (ALC_ERROR_NONE, map (dq_out st) [0..<N], s')"
proof -
  have v: "dequeue_valid dest N (m_bufferLengths (ag_multibuffer s)) (ag_multibuffer s)"
    using s N l ag_multi_get [OF s N(2)] by (simp add: dequeue_valid_def ag_multi_def)
  have g: "m_rijndael (ag_keyManager s) = r" "m_isKeySet (ag_keyManager s)" "m_pData (ag_multibuffer s) = Some pData"
    using s by (simp_all add: ag_multi_def)
  have n: "\<not> 127 < N" using N(1) by simp
  show ?thesis unfolding AesGeneric_dequeue_def Let_def g option.case run
    by (simp only: mode g(2) v n N(4) not_True_eq_False simp_thms if_False if_True Option.bind.simps prod.case) blast
qed

section \<open>Properties\<close>

text \<open>C36:
  Under \<^verbatim>\<open>AES_MULTI_UPDATE\<close> \<^verbatim>\<open>dequeue\<close> ends and encrypts each of up to 127 buffers by the mode from its own
  IV, whatever the lengths are and on every processor: the rounds, the batches, the lanes of the
  registers and the tails do not show in the result. The object was given a key, the IVs and the
  plain texts by \<^verbatim>\<open>multibufferInit\<close> and \<^verbatim>\<open>flush\<close>.
\<close>

theorem AesGeneric_dequeue_encrypts:
  assumes "aes_sizes nk nr" "length key = 4 * nk" "SupportsMultibuffer mode" "arch \<in> {eZen, eZen3, eZen4}"
    and "0 < N" "N \<le> 127" "length ivs = N" "\<forall>v\<in>set ivs. length v = 16" "length pData = N" "length lens = N" "length dest = N"
    and "\<forall>i<N. lens ! i \<le> length (pData ! i) \<and> lens ! i \<le> length (dest ! i)"
  shows "let bits = 32 * nk; E = aes key nk nr; g = (if mode = eAesCBC then cbc_enc E else cfb_enc E) in
    \<exists>s s' outs s''. multibufferInit mode (Some key) (of_nat bits) (map Some ivs) 16 N (AesGeneric_ctor bits) = Some (Inl (ALC_ERROR_NONE, s)) \<and>
      AesGeneric_flush mode (Some pData) (Some lens) N s = Some (ALC_ERROR_NONE, s') \<and>
      AesGeneric_dequeue mode arch True dest N None s' = Some (ALC_ERROR_NONE, outs, s'') \<and> length outs = N \<and>
      (\<forall>i<N. outs ! i = write_at 0 (fst (mode_bytes g (take (lens ! i) (pData ! i)) (ivs ! i))) (dest ! i))"
proof -
  have "ivs \<noteq> []" "length ivs \<le> 127" "length lens = length ivs" using assms(5-7,10) by auto
  then obtain s s' r where s: "multibufferInit mode (Some key) (of_nat (32 * nk)) (map Some ivs) 16 N (AesGeneric_ctor (32 * nk)) = Some (Inl (ALC_ERROR_NONE, s))"
      "AesGeneric_flush mode (Some pData) (Some lens) N s = Some (ALC_ERROR_NONE, s')" and k: "aes_keyed key nk nr r" and m: "ag_multi r ivs pData lens s'"
    using multibuffer_session [OF assms(1-3) _ _ assms(8), of lens pData] unfolding assms(7) by blast
  note E = aes_keyedD(1) [OF k] and nr = aes_keyedD(2) [OF k] and get = ag_multi_get [OF m assms(7)]
  let ?L = "m_bufferLengths (ag_multibuffer s')" and ?iv = "(!) (m_ivs (ag_multibuffer s'))" and ?g = "multi_step mode (aes key nk nr)"
  let ?st = "\<lparr>currentOffsets = (\<lambda>_. 0), dq_out = (!) dest, dq_ivs = ?iv\<rparr>"
  have "is_block (ivs ! i)" if "i < N" for i using that assms(7,8) by simp
  then have ok: "buffers_ok pData ?L N ((!) dest) ?iv" using assms(12) get by (simp add: buffers_ok_def)
  let ?run = "if arch_rank arch < arch_rank eZen4 then Some (ALC_ERROR_NONE, dequeue_tails mode True (m_round_key_enc r) (m_nrounds r) pData ?L [0..<N] ?st)
      else dequeue_zen4 mode True (m_round_key_enc r) (m_nrounds r) pData ?L N ?st"
  obtain st where st: "?run = Some (ALC_ERROR_NONE, st)"
    "\<forall>b<N. dq_out st b = write_at 0 (fst (mode_bytes ?g (take (?L ! b) (pData ! b)) (?iv b))) (dest ! b)"
    using dequeue_zen4_encrypts [OF E nr ok assms(6), of mode] dequeue_tails_inv [OF E ok dequeue_inv_start, of _ mode]
    unfolding aes_keyed_nrounds [OF k] by (cases "arch_rank arch < arch_rank eZen4") auto
  have l: "i < N \<Longrightarrow> dq_out st i = write_at 0 (fst (mode_bytes ?g (take (lens ! i) (pData ! i)) (ivs ! i))) (dest ! i)" for i
    using st(2) get(1,2) [of i] by simp
  obtain s'' where "AesGeneric_dequeue mode arch True dest N None s' = Some (ALC_ERROR_NONE, map (dq_out st) [0..<N], s'')"
    using AesGeneric_dequeue_start [OF m assms(3,6,7,9,11,12) st(1)] by blast
  moreover have "length (map (dq_out st) [0..<N]) = N"
    "\<forall>i<N. map (dq_out st) [0..<N] ! i = write_at 0 (fst (mode_bytes ?g (take (lens ! i) (pData ! i)) (ivs ! i))) (dest ! i)"
    using l by simp_all
  ultimately show ?thesis using s unfolding Let_def multi_step_def by - (intro exI conjI, assumption+)
qed

theorem AesGeneric_dequeue_encrypts_witness:
  "\<exists>s outs s'. AesGeneric_dequeue eAesCFB eZen4 True (replicate 3 (replicate 64 0)) 3 None s = Some (ALC_ERROR_NONE, outs, s') \<and>
    (\<forall>i<3. outs ! i = write_at 0 (fst (mode_bytes (cfb_enc (aes (replicate 16 7) 4 10)) (replicate ([64, 32, 21] ! i) 1) (replicate 16 3)))
      (replicate 64 0))"
proof -
  let ?lens = "[64, 32, 21] :: nat list"
  have l: "i < 3 \<Longrightarrow> ?lens ! i \<le> 64" for i by (auto simp: less_Suc_eq numeral_3_eq_3)
  have "\<forall>i<3. ?lens ! i \<le> length (replicate 3 (replicate 64 (1 :: u8)) ! i) \<and> ?lens ! i \<le> length (replicate 3 (replicate 64 (0 :: u8)) ! i)"
    using l by simp
  then have "\<exists>s outs s'. AesGeneric_dequeue eAesCFB eZen4 True (replicate 3 (replicate 64 0)) 3 None s = Some (ALC_ERROR_NONE, outs, s') \<and>
      (\<forall>i<3. outs ! i = write_at 0 (fst (mode_bytes (cfb_enc (aes (replicate 16 7) 4 10))
        (take (?lens ! i) (replicate 3 (replicate 64 1) ! i)) (replicate 3 (replicate 16 3) ! i))) (replicate 3 (replicate 64 0) ! i))"
    using AesGeneric_dequeue_encrypts [of 4 10 "replicate 16 7" eAesCFB eZen4 3 "replicate 3 (replicate 16 3)" "replicate 3 (replicate 64 1)" ?lens
      "replicate 3 (replicate 64 0)"] by (simp add: aes_sizes_def SupportsMultibuffer_def Let_def) blast
  then show ?thesis using l by (simp add: min_absorb1 cong: conj_cong)
qed

text \<open>
  Two buffers, the second one longer. Without \<^verbatim>\<open>AES_MULTI_UPDATE\<close> the IV of the second one is not
  chained from the first call to the second.
\<close>

lemma EncryptMode_zen_whole:
  assumes "keys_compute E pk nr" "is_block v" "length x = 16 * n"
  shows "EncryptMode_zen mode False x pk nr v = (fst (mode_blocks (multi_step mode E) n x v), v)"
  using assms(3) by (simp add: EncryptMode_zen_modes [OF assms(1,2)] mode_bytes_def split_def)

lemma dequeue_zen4_two:
  assumes E: "keys_compute E pk nr" and nr: "nr \<in> {10, 12, 14}" and n: "0 < a" "a < b"
    and x: "length x = 16 * a" "length y = 16 * b" and v: "is_block u" "is_block v"
    and st: "st = \<lparr>currentOffsets = (\<lambda>_. 0), dq_out = out, dq_ivs = iv\<rparr>" "iv 0 = u" "iv 1 = v" and d: "16 * b \<le> length (out 1)"
    and lens: "lens ! 0 = 16 * a" "lens ! 1 = 16 * b"
  shows "\<exists>st'. dequeue_zen4 mode False pk nr [x, y] lens 2 st = Some (ALC_ERROR_NONE, st') \<and>
    dq_out st' 0 = write_at 0 (fst (mode_blocks (multi_step mode E) a x u)) (out 0) \<and>
    dq_out st' 1 = write_at 0 (fst (mode_blocks (multi_step mode E) a y v) @ fst (mode_blocks (multi_step mode E) (b - a) (drop (16 * a) y) v)) (out 1)"
proof -
  let ?g = "multi_step mode E" and ?st = "batch_result (multi_step mode E) False [x, y] a [0, 1] st"
  have u: "[0..<2] = [0, Suc 0]" by (simp add: upt_rec)
  have "batch_fits [x, y] a [0, 1] st" using x v n st by (simp add: batch_fits_def)
  then have "dequeue_batch mode False pk nr [x, y] (16 * a) [0, 1] st = Some (ALC_ERROR_NONE, ?st)"
    by (rule dequeue_batch_result [OF E nr n(1)]) simp
  then have rest: "dequeue_rest mode False pk nr [x, y] lens [0, 1] st = Some (ALC_ERROR_NONE, ?st)"
    using n lens st(1) by (simp add: dequeue_rest_def dequeue_left_of_def Let_def mult.commute)
  have loop: "dequeue_loop mode False pk nr [x, y] lens [0, 1] st = Some (ALC_ERROR_NONE, [0, 1], st)"
    using dequeue_loop.simps [of mode False pk nr "[x, y]" lens "[0, 1]" st] by simp
  have z: "dequeue_zen4 mode False pk nr [x, y] lens 2 st = Some (ALC_ERROR_NONE, dequeue_tails mode False pk nr [x, y] lens [0..<2] ?st)"
    using loop rest by (simp add: dequeue_zen4_def u)
  have o: "currentOffsets ?st 0 = 16 * a" "currentOffsets ?st 1 = 16 * a" "dq_ivs ?st 1 = v"
    "dq_out ?st 0 = write_at 0 (fst (mode_blocks ?g a x u)) (out 0)" "dq_out ?st 1 = write_at 0 (fst (mode_blocks ?g a y v)) (out 1)"
    using st by (simp_all add: batch_result_def Let_def)
  have l: "length (fst (mode_blocks ?g a y v)) = 16 * a"
    by (rule multi_step_blocks(1) [OF E _ v(2)]) (use x n in simp)
  have y: "length (drop (16 * a) y) = 16 * (b - a)" using x by simp
  have l2: "length (fst (mode_blocks ?g (b - a) (drop (16 * a) y) v)) = 16 * (b - a)"
    by (rule multi_step_blocks(1) [OF E _ v(2)]) (use y in simp)
  have w: "write_at (16 * a) (fst (mode_blocks ?g (b - a) (drop (16 * a) y) v)) (write_at 0 (fst (mode_blocks ?g a y v)) (out 1))
      = write_at 0 (fst (mode_blocks ?g a y v) @ fst (mode_blocks ?g (b - a) (drop (16 * a) y) v)) (out 1)"
    using write_at_twice [of "fst (mode_blocks ?g a y v)" _ "out 1"] l l2 d n by simp
  have "dequeue_left_of lens ?st 0 = 0" "dequeue_left_of lens ?st 1 = 16 * (b - a)"
    using o lens by (simp_all add: dequeue_left_of_def)
  then show ?thesis
    unfolding z using dequeue_tails_out [OF distinct_upt, of mode False pk nr "[x, y]" lens 0 2 ?st] o y w n
    by (simp add: EncryptMode_zen_whole [OF E v(2) y])
qed

lemma EncryptMode_chain_differs:
  assumes k: "aes_keyed key nk nr r" and p: "is_block p" "is_block s" "is_block v" and n: "s \<noteq> v"
  shows "fst (multi_step mode (aes key nk nr) p s) \<noteq> fst (multi_step mode (aes key nk nr) p v)"
proof -
  let ?E = "aes key nk nr"
  obtain D where D: "\<forall>b. is_block b \<longrightarrow> D (?E b) = b" using aes_keyedD(3) [OF k] by blast
  then have inj: "?E b = ?E c \<Longrightarrow> b = c" if "is_block b" "is_block c" for b c using that by metis
  have x: "xor_bytes b p = xor_bytes c p \<Longrightarrow> b = c" if "is_block b" "is_block c" for b c
    using that p(1) by (metis order_refl xor_bytes_self)
  have e: "is_block (?E s)" "is_block (?E v)" using p(2,3) keys_computeD(3) [OF aes_keyedD(1) [OF k]] by simp_all
  have "is_block (xor_bytes p s)" "is_block (xor_bytes p v)" using p by (simp_all add: xor_bytes_def)
  then have "?E (xor_bytes p s) \<noteq> ?E (xor_bytes p v)"
    using inj [of "xor_bytes p s" "xor_bytes p v"] x [OF p(2,3)] n unfolding xor_bytes_commute [of p] by blast
  moreover have "xor_bytes (?E s) p \<noteq> xor_bytes (?E v) p" using x [OF e] inj [OF p(2,3)] n by blast
  ultimately show ?thesis by (simp add: multi_step_def cbc_enc_def cfb_enc_def Let_def)
qed

text \<open>Starting again from the first IV shows in the block after the restart.\<close>

lemma mode_restart_differs:
  assumes k: "aes_keyed key nk nr r" and n: "a < b" "length y = 16 * b" and v: "is_block v"
    and c: "snd (mode_blocks (multi_step mode (aes key nk nr)) a y v) \<noteq> v"
  shows "fst (mode_blocks (multi_step mode (aes key nk nr)) b y v)
    \<noteq> fst (mode_blocks (multi_step mode (aes key nk nr)) a y v) @ fst (mode_blocks (multi_step mode (aes key nk nr)) (b - a) (drop (16 * a) y) v)"
proof -
  let ?g = "multi_step mode (aes key nk nr)" and ?y = "drop (16 * a) y"
  let ?s = "snd (mode_blocks ?g a y v)"
  note E = aes_keyedD(1) [OF k]
  obtain n where n': "b - a = Suc n" using n(1) by (metis Suc_diff_Suc)
  have a: "16 * a \<le> length y" using n by simp
  have s: "is_block ?s" by (rule multi_step_blocks(2) [OF E a v])
  have y: "is_block (take 16 ?y)" using n by simp
  have "fst (mode_blocks ?g b y v) = fst (mode_blocks ?g a y v) @ fst (mode_blocks ?g (b - a) ?y ?s)"
    using mode_blocks_add [of ?g a "b - a" y v] n(1) by (simp add: split_def Let_def)
  moreover have "take 16 (fst (mode_blocks ?g (b - a) ?y w)) = fst (?g (take 16 ?y) w)" if "is_block w" for w
    using multi_step_block [OF E y that, of mode] by (simp add: n' split_def Let_def)
  ultimately show ?thesis using EncryptMode_chain_differs [OF k y s v c, of mode] s v by (metis same_append_eq)
qed

text \<open>C38:
  Without \<^verbatim>\<open>AES_MULTI_UPDATE\<close>, the default, two buffers of different lengths are encrypted right by
  \<^verbatim>\<open>dequeue\<close> before Zen 4. On Zen 4 the longer one starts again from its IV where the shorter one ends,
  as the IV that the 256-bit kernel ends with is not kept: its cipher text is another one, unless
  the chaining value there happens to be the IV.
\<close>

theorem AesGeneric_dequeue_restarts_iv:
  assumes "aes_sizes nk nr" "length key = 4 * nk" "SupportsMultibuffer mode" "0 < a" "a < b"
    and "length u = 16" "length v = 16" "length x = 16 * a" "length y = 16 * b"
  shows "let bits = 32 * nk; E = aes key nk nr; g = (if mode = eAesCBC then cbc_enc E else cfb_enc E); dest = [replicate (16 * a) 0, replicate (16 * b) 0] in
    \<exists>s s' s3 s4. multibufferInit mode (Some key) (of_nat bits) [Some u, Some v] 16 2 (AesGeneric_ctor bits) = Some (Inl (ALC_ERROR_NONE, s)) \<and>
      AesGeneric_flush mode (Some [x, y]) (Some [16 * a, 16 * b]) 2 s = Some (ALC_ERROR_NONE, s') \<and>
      AesGeneric_dequeue mode eZen3 False dest 2 None s' = Some (ALC_ERROR_NONE, [fst (mode_blocks g a x u), fst (mode_blocks g b y v)], s3) \<and>
      AesGeneric_dequeue mode eZen4 False dest 2 None s' = Some (ALC_ERROR_NONE,
        [fst (mode_blocks g a x u), fst (mode_blocks g a y v) @ fst (mode_blocks g (b - a) (drop (16 * a) y) v)], s4) \<and>
      (snd (mode_blocks g a y v) \<noteq> v \<longrightarrow>
        fst (mode_blocks g b y v) \<noteq> fst (mode_blocks g a y v) @ fst (mode_blocks g (b - a) (drop (16 * a) y) v))"
proof -
  let ?dest = "[replicate (16 * a) 0, replicate (16 * b) 0] :: u8 list list" and ?g = "multi_step mode (aes key nk nr)"
  have l: "length [u, v] = 2" "map Some [u, v] = [Some u, Some v]" by simp_all
  have "[u, v] \<noteq> []" "length [u, v] \<le> 127" "\<forall>w\<in>set [u, v]. length w = 16" "length [16 * a, 16 * b] = length [u, v]"
    using assms(6,7) by simp_all
  from multibuffer_session [OF assms(1-3) this, of "[x, y]"] obtain s s' r where
      s: "multibufferInit mode (Some key) (of_nat (32 * nk)) [Some u, Some v] 16 2 (AesGeneric_ctor (32 * nk)) = Some (Inl (ALC_ERROR_NONE, s))"
      "AesGeneric_flush mode (Some [x, y]) (Some [16 * a, 16 * b]) 2 s = Some (ALC_ERROR_NONE, s')"
      and k: "aes_keyed key nk nr r" and m: "ag_multi r [u, v] [x, y] [16 * a, 16 * b] s'"
    unfolding l by blast
  note E = aes_keyedD(1) [OF k] and nr = aes_keyedD(2) [OF k] and get = ag_multi_get [OF m, of 2, simplified]
  let ?L = "m_bufferLengths (ag_multibuffer s')" and ?iv = "(!) (m_ivs (ag_multibuffer s'))"
  let ?st = "\<lparr>currentOffsets = (\<lambda>_. 0), dq_out = (!) ?dest, dq_ivs = ?iv\<rparr>"
  have iv: "?iv 0 = u" "?iv 1 = v" "?L ! 0 = 16 * a" "?L ! 1 = 16 * b" using get(1,2) [of 0] get(1,2) [of 1] by simp_all
  have blk: "is_block u" "is_block v" using assms(6,7) by simp_all
  have lx: "length (fst (mode_blocks ?g a x u)) = 16 * a" "length (fst (mode_blocks ?g b y v)) = 16 * b" "length (fst (mode_blocks ?g a y v)) = 16 * a"
    "length (fst (mode_blocks ?g (b - a) (drop (16 * a) y) v)) = 16 * (b - a)"
    using assms(5,8,9) by (auto intro!: multi_step_blocks(1) [OF E] blk)
  have w: "write_at 0 xs (replicate n 0) = xs" if "length xs = n" for xs :: "u8 list" and n using that by (simp add: write_at_def)
  let ?o1 = "fst (mode_blocks ?g a y v)" and ?o2 = "fst (mode_blocks ?g (b - a) (drop (16 * a) y) v)"
  have "length (?o1 @ ?o2) = 16 * b" using lx(3,4) assms(5) by simp
  note w = w [OF lx(1)] w [OF lx(2)] w [OF this]
  have u: "map f [0..<2] = [f 0, f 1]" for f :: "nat \<Rightarrow> u8 list" by (simp add: upt_rec)
  have bounds: "\<forall>i<2. [16 * a, 16 * b] ! i \<le> length ([x, y] ! i) \<and> [16 * a, 16 * b] ! i \<le> length (?dest ! i)"
    using assms(8,9) by (auto simp: less_Suc_eq numeral_2_eq_2)
  have l2: "2 \<le> (127 :: nat)" "length [u, v] = 2" "length [x, y] = 2" "length ?dest = 2" by simp_all
  note start = AesGeneric_dequeue_start [where multi = False, OF m assms(3) l2 bounds, unfolded u]
  let ?t = "dequeue_tails mode False (m_round_key_enc r) (m_nrounds r) [x, y] ?L [0..<2] ?st"
  have "dq_out ?t 0 = fst (mode_blocks ?g a x u)" "dq_out ?t 1 = fst (mode_blocks ?g b y v)"
    using iv assms(4,5,8,9) w unfolding dequeue_tails_out [OF distinct_upt] aes_keyed_nrounds [OF k]
    by (simp_all add: dequeue_left_of_def EncryptMode_zen_whole [OF E blk(1), of x a] EncryptMode_zen_whole [OF E blk(2), of y b])
  then obtain s3 where zen3: "AesGeneric_dequeue mode eZen3 False ?dest 2 None s' = Some (ALC_ERROR_NONE, [fst (mode_blocks ?g a x u), fst (mode_blocks ?g b y v)], s3)"
    using start [of eZen3 ?t] by auto
  obtain t where t: "dequeue_zen4 mode False (m_round_key_enc r) (m_nrounds r) [x, y] ?L 2 ?st = Some (ALC_ERROR_NONE, t)"
      "dq_out t 0 = fst (mode_blocks ?g a x u)" "dq_out t 1 = ?o1 @ ?o2"
    using dequeue_zen4_two [OF E nr assms(4,5,8,9) blk refl iv(1,2) _ iv(3,4), of "(!) ?dest" mode] w
    unfolding aes_keyed_nrounds [OF k] by auto
  then obtain s4 where zen4: "AesGeneric_dequeue mode eZen4 False ?dest 2 None s' = Some (ALC_ERROR_NONE, [fst (mode_blocks ?g a x u), ?o1 @ ?o2], s4)"
    using start [of eZen4 t] by auto
  have differs: "snd (mode_blocks ?g a y v) \<noteq> v \<Longrightarrow> fst (mode_blocks ?g b y v) \<noteq> ?o1 @ ?o2"
    by (rule mode_restart_differs [OF k assms(5,9) blk(2)])
  show ?thesis using s zen3 zen4 differs unfolding Let_def multi_step_def by - (intro exI conjI impI, assumption+)
qed

theorem AesGeneric_dequeue_restarts_iv_witness:
  "\<exists>s s3 s4. AesGeneric_dequeue eAesCBC eZen3 False [replicate 16 0, replicate 48 0] 2 None s
        = Some (ALC_ERROR_NONE, [fst (mode_blocks (cbc_enc (aes (replicate 16 7) 4 10)) 1 (replicate 16 1) (replicate 16 3)),
            fst (mode_blocks (cbc_enc (aes (replicate 16 7) 4 10)) 3 (replicate 48 2) (replicate 16 4))], s3) \<and>
      AesGeneric_dequeue eAesCBC eZen4 False [replicate 16 0, replicate 48 0] 2 None s
        = Some (ALC_ERROR_NONE, [fst (mode_blocks (cbc_enc (aes (replicate 16 7) 4 10)) 1 (replicate 16 1) (replicate 16 3)),
            fst (mode_blocks (cbc_enc (aes (replicate 16 7) 4 10)) 1 (replicate 48 2) (replicate 16 4)) @
            fst (mode_blocks (cbc_enc (aes (replicate 16 7) 4 10)) 2 (replicate 32 2) (replicate 16 4))], s4)"
proof -
  have "aes_sizes 4 10" "length (replicate 16 (7 :: u8)) = 4 * 4" "SupportsMultibuffer eAesCBC" "0 < (1 :: nat)" "1 < (3 :: nat)"
    "length (replicate 16 (3 :: u8)) = 16" "length (replicate 16 (4 :: u8)) = 16" "length (replicate 16 (1 :: u8)) = 16 * 1"
    "length (replicate 48 (2 :: u8)) = 16 * 3" by (simp_all add: aes_sizes_def SupportsMultibuffer_def)
  from AesGeneric_dequeue_restarts_iv [OF this] show ?thesis
    unfolding Let_def mult_1_right drop_replicate by (simp del: mode_blocks.simps replicate.simps) blast
qed

end
