(* ===== verification/Spec2Isabelle.thy ===== *)
theory Spec2Isabelle imports Chacha20_Poly1305 Cmac Hmac_Drbg Ctr_Drbg Aes_Dequeue begin

text \<open>
  Verification development for the AOCL cryptography library (C++, \<^verbatim>\<open>src/lib\<close>).

  The library offers digests, MACs, ciphers, random generators and public-key operations. Its
  objects share a pattern: a class keeps a small state (buffers, counts, flags), a portable
  kernel does the arithmetic, and processors with vector instructions use another kernel of
  the same contract. The development models the objects and the portable kernels, from the
  digests up to the AEAD composed of a cipher object and a MAC object, and proves them
  against the standards they implement.

  Conventions. Integers keep their width (\<open>u8\<close>, \<open>u32\<close>, \<open>u64\<close>, \<open>u128\<close>); memory is a list of
  bytes; words are read from memory in little-endian order, as on the machine. An access
  outside an array, an exception and a call through a null pointer are \<open>None\<close>; the error
  codes of the library are the datatype \<open>alc_error\<close>. A pointer that may be null is an option.
  An object is a record with the fields of the class, passed and returned; lengths that are
  arguments of their own are kept at their width where the code computes with them. Code
  whose effect depends on the address of a buffer takes that address as an argument.

  Theories, from the bottom:

  \<^item> \<^verbatim>\<open>Prelude\<close>, \<^verbatim>\<open>Bytes\<close>: bytes and words, \<^verbatim>\<open>utils/bits.hh\<close>, \<^verbatim>\<open>utils/endian.hh\<close>,
    \<^verbatim>\<open>utils/copy.hh\<close>, \<^verbatim>\<open>utils/compare.hh\<close>, and what is generic about arrays.
  \<^item> \<^verbatim>\<open>Block_Buffer\<close>: streaming into blocks, shared by the digests and the MACs: a predicate for
    the state after a message, preserved by every update.
  \<^item> \<^verbatim>\<open>Digest_Interface\<close>: the class \<^verbatim>\<open>IDigest\<close> and the locale \<open>digest\<close>, the contract between
    a digest and its client.
  \<^item> \<^verbatim>\<open>Fips180\<close>, \<^verbatim>\<open>Sha256\<close>, \<^verbatim>\<open>Sha512\<close>: the specification of FIPS 180-4, the objects of
    \<^verbatim>\<open>digest/sha256.cc\<close> and \<^verbatim>\<open>digest/sha512.cc\<close>.
  \<^item> \<^verbatim>\<open>Keccak\<close>, \<^verbatim>\<open>Sha3\<close>: the reference permutation, the in-place unrolled one, both against
    FIPS 202, and the object of \<^verbatim>\<open>digest/sha3.cc\<close> with its SHAKE states.
  \<^item> \<^verbatim>\<open>Hmac\<close>: \<^verbatim>\<open>mac/hmac.cc\<close> over any digest (locale \<open>hmac_digest\<close>, interpreted on the three
    digest objects), with the length that the initialisation in \<^verbatim>\<open>mac/hmac_build.hh\<close> passes on.
  \<^item> \<^verbatim>\<open>Poly1305_Ref\<close>, \<^verbatim>\<open>Poly1305_Correct\<close>, \<^verbatim>\<open>Poly1305_Mac\<close>: the radix-26 arithmetic and object of
    \<^verbatim>\<open>arch/reference/mac/poly1305-ref.cc\<close> against RFC 8439, the dispatching object of
    \<^verbatim>\<open>mac/poly1305.cc\<close>, and the locale \<open>one_time_mac\<close>.
  \<^item> \<^verbatim>\<open>Rijndael\<close>, \<^verbatim>\<open>Fips197\<close>, \<^verbatim>\<open>Aes_Rounds\<close>, \<^verbatim>\<open>Aes_Correct\<close>: the AES of \<^verbatim>\<open>cipher/rijndael.cc\<close> with its
    tables, the standard, and the equality of the two, key expansion and decryption included.
  \<^item> \<^verbatim>\<open>Cipher_Common\<close>: the managers of \<^verbatim>\<open>cipher/cipher_common.hh\<close> (state, key, IV, partial block).
  \<^item> \<^verbatim>\<open>Chacha20\<close>: \<^verbatim>\<open>cipher/chacha20.cc\<close> and its portable kernel against RFC 8439.
  \<^item> \<^verbatim>\<open>Chacha20_Poly1305\<close>: the AEAD of \<^verbatim>\<open>cipher/chacha20_poly1305.cc\<close>, proved in the context of
    \<open>one_time_mac\<close> for any MAC object and then for the reference one.
  \<^item> \<^verbatim>\<open>Aesni\<close>: the block functions of \<^verbatim>\<open>cipher/aesni.hh\<close> and the key expansion of
    \<^verbatim>\<open>arch/avx2/aesni_keyexp.cc\<close> on 16-byte registers, equal to the portable ones. The intrinsics
    are written out as the instructions document them.
  \<^item> \<^verbatim>\<open>Cmac\<close>: \<^verbatim>\<open>mac/cmac.cc\<close> with the kernels of \<^verbatim>\<open>arch/avx2/aesni_cmac.cc\<close> and the portable path
    beside them (the argument \<open>zen\<close>), against SP 800-38B.
  \<^item> \<^verbatim>\<open>Drbg\<close>: the base class of \<^verbatim>\<open>rng/drbg.cc\<close> on an entropy source and on the generator's virtual
    functions, and the source built from buffers in \<^verbatim>\<open>rng/drbg_builder.cc\<close>. The locale \<open>drbg_core\<close>
    is the contract of a generator; inside it the run of a generator, its seeding and any number
    of requests, is \<open>drbg_outputs\<close>: what the calls of the code give in terms of the functions of the
    standard. \<open>std_run\<close> is the generate function of SP 800-90A with its limits and reseed counter,
    and \<open>std_run_outputs\<close> says where the two agree.
  \<^item> \<^verbatim>\<open>Hmac_Drbg\<close>, \<^verbatim>\<open>Ctr_Drbg\<close>: \<^verbatim>\<open>rng/drbg_hmac.cc\<close> and \<^verbatim>\<open>rng/drbg_ctr.cc\<close> with
    \<^verbatim>\<open>arch/avx2/drbg_ctr_avx2.cc\<close> as instances of that locale, against SP 800-90A.

  \<^item> \<^verbatim>\<open>Aes_Modes\<close>: the modes of SP 800-38A as functions on a list of blocks, and the kernels of
    CBC, CFB and OFB on 128-bit registers (\<^verbatim>\<open>arch/avx2/aesni_cbc.cc\<close>, \<^verbatim>\<open>aesni_cfb.cc\<close>,
    \<^verbatim>\<open>aesni_ofb.cc\<close>). A loop that takes several blocks per turn is \<open>kloop\<close>; the predicate \<open>kprog\<close>
    carries the progress of a chain of such loops. The argument \<open>multi\<close> is the build option
    \<^verbatim>\<open>AES_MULTI_UPDATE\<close>, under which a kernel writes the next IV back.
  \<^item> \<^verbatim>\<open>Vaes\<close>: the block functions on 256 and 512 bits (\<^verbatim>\<open>arch/zen3/vaes.hh\<close>,
    \<^verbatim>\<open>arch/zen4/vaes_avx512_core.hh\<close>); a register is the list of its blocks.
  \<^item> \<^verbatim>\<open>Aes_Ctr\<close>: \<^verbatim>\<open>cipher/aes_ctr.hh\<close> and the counter kernels of the three register widths.
  \<^item> \<^verbatim>\<open>Aes_Wide\<close>, \<^verbatim>\<open>Aes_Cfb\<close>: the decryption of CBC and CFB on 256 and 512 bits
    (\<^verbatim>\<open>vaes_cbc_decrypt.cc\<close>, \<^verbatim>\<open>vaes_cfb_decrypt.cc\<close>), against the 128-bit kernels; for CFB the
    source is memory that may be the destination.
  \<^item> \<^verbatim>\<open>Aes_Generic\<close>: the object of these modes, \<^verbatim>\<open>AesGenericCiphersT\<close> of \<^verbatim>\<open>cipher/aes_generic.cc\<close>,
    with the dispatch to the kernels, the pending bytes of CBC and the copy of a context. The
    predicate \<open>ag_session\<close> says which key, IV and pending bytes an object holds; \<open>ag_same\<close> relates
    objects that answer alike and is kept by every call. The second build option,
    \<^verbatim>\<open>OFB_MULTI_UPDATE\<close> for the IV of OFB, is the argument \<open>ofb_multi\<close>; \<open>in_place\<close> is a destination that
    is the source.
  \<^item> \<^verbatim>\<open>Aes_Multi\<close>: the kernels that encrypt a buffer in each lane (\<^verbatim>\<open>vaes_cbc.cc\<close>, \<^verbatim>\<open>vaes_cfb.cc\<close> of
    \<^verbatim>\<open>arch/zen3\<close>, \<^verbatim>\<open>vaes_cbc_encrypt.cc\<close>, \<^verbatim>\<open>vaes_cfb_encrypt.cc\<close> of \<^verbatim>\<open>arch/zen4\<close>); each lane does the
    mode on its buffer.
  \<^item> \<^verbatim>\<open>Aes_Dequeue\<close>: \<^verbatim>\<open>multibufferInit\<close>, \<^verbatim>\<open>flush\<close> and \<^verbatim>\<open>dequeue\<close> of \<^verbatim>\<open>cipher/aes_generic.cc\<close>. The invariant
    \<open>dequeue_inv\<close> holds between the rounds: of every buffer some blocks are done by the mode.

  What the lemmas show. For each object an invariant says which message it holds after which
  calls; constructors establish it, updates extend it, and the final call reads the result of
  the specification off it. Refinement properties quantify over every message and every way
  to cut it into pieces. Error properties list the refusals with the state they leave.
  Properties of safety exhibit what the code does outside the intended use: pending bytes
  carried over an initialisation, key stream used twice, authentication of the wrong buffer,
  a generator that answers without having been seeded.

  Bounds. Loops of the code are structural recursion or \<open>function\<close> with a measure; no fuel is
  used. The rounds of \<^verbatim>\<open>dequeue\<close> end because each of them takes at least a block off every active
  buffer. The digests with 64-bit and 128-bit length fields need the message length below
  \<open>2 ^ 61\<close> bytes; HMAC reads a key of up to \<open>2 ^ 32 - 1\<close> bytes and cuts longer ones; the AEAD needs the additional data below \<open>2 ^ 64\<close> bytes, the range of its
  length argument. An update of CMAC on a machine with AES-NI must be below \<open>2 ^ 36\<close> bytes, where
  the block count of the kernel wraps; the inputs of the derivation function of CTR-DRBG must be
  below \<open>2 ^ 31\<close> bytes, and its requests have 64-bit counters.

  Not modelled. The kernels in vector intrinsics (\<^verbatim>\<open>lib/arch\<close>) other than those named above are
  parameters where an object calls them (\<open>radix44_ops\<close>, \<open>chacha_kernel\<close>), or left out where the
  portable path is the model's (SHA extensions, the AVX2 key pads of HMAC). In
  \<^verbatim>\<open>cipher/aes_generic.cc\<close> an update of CBC in place in which whole blocks follow a completed pending
  block has the value \<open>None\<close>: the kernel then reads and writes overlapping memory at different
  addresses, which the models of the kernels do not cover. GCM, CCM, XTS and SIV,
  RSA, the elliptic curves, the big numbers, the C interface, the compatibility layers,
  the hardware and system entropy sources and processor detection are not modelled yet. Locking
  memory has no counterpart in the model, and no claim is made about timing.
\<close>

end
